(* ===== verification/Kernel_Prelude.thy ===== *)
theory Kernel_Prelude
  imports Main "HOL-Library.Word" "HOL-Library.Monad_Syntax"
begin

text \<open>
  Shared vocabulary of the development.

  \<^item> \<open>usize\<close> is a natural number and every arithmetic operation of the source that Rust
    checks is one of the operations below. The kernel is developed with overflow checks
    (comments such as ``allow integer overflow to assert'' rely on them), so \<open>uadd\<close>,
    \<open>usub\<close> and \<open>umul\<close> return \<open>None\<close>, the kernel panic, when the
    mathematical result leaves the range of the target's machine word.
  \<^item> \<open>width\<close> is \<open>target_pointer_width\<close>: the crate is built for 32-bit ARM and for
    64-bit AArch64, and every theorem that mentions a width holds for both.
  \<^item> \<open>'a option\<close> as the type of a whole operation is ``returns or panics'': \<open>None\<close> is
    a failed \<open>assert!\<close>, an \<open>unwrap()\<close> of nothing, an index out of bounds or
    an arithmetic overflow. A Rust \<open>Option\<close> result is a second \<open>option\<close> inside.
  \<^item> the list operations \<open>idx\<close>, \<open>upd\<close> and \<open>copy_within\<close> are slice indexing, slice
    assignment and \<open>slice::copy_within\<close>, with their bounds checks.
\<close>

unbundle bit_operations_syntax

named_theorems panic_simps \<open>unfolding of the checked operations\<close>

section \<open>Machine words\<close>

type_synonym usize = nat

datatype width = W32 | W64

fun word_bits :: "width \<Rightarrow> nat" where
  "word_bits W32 = 32"
| "word_bits W64 = 64"

abbreviation usize_lim :: "width \<Rightarrow> nat" where
  "usize_lim w \<equiv> 2 ^ word_bits w"

definition usize_max :: "width \<Rightarrow> usize" where
  "usize_max w = usize_lim w - 1"

lemma word_bits_pos [simp]: "0 < word_bits w"
  by (cases w) simp_all

lemma word_bits_ge_32: "32 \<le> word_bits w"
  by (cases w) simp_all

lemma usize_lim_gt_1 [simp]: "Suc 0 < usize_lim w"
  by (cases w) simp_all

lemma usize_lim_ge: "2 ^ 32 \<le> usize_lim w"
  by (cases w) simp_all

lemma le_usize_max_iff [simp]: "n \<le> usize_max w \<longleftrightarrow> n < usize_lim w"
  by (cases w) (auto simp: usize_max_def)

definition uadd :: "width \<Rightarrow> usize \<Rightarrow> usize \<Rightarrow> usize option" where
  "uadd w a b = (if a + b < usize_lim w then Some (a + b) else None)"

definition usub :: "usize \<Rightarrow> usize \<Rightarrow> usize option" where
  "usub a b = (if b \<le> a then Some (a - b) else None)"

definition umul :: "width \<Rightarrow> usize \<Rightarrow> usize \<Rightarrow> usize option" where
  "umul w a b = (if a * b < usize_lim w then Some (a * b) else None)"

text \<open>
  \<open><<\<close> and \<open>>>\<close> panic on a shift of at least the word's width; \<open><<\<close> drops the bits
  shifted out without a panic.
\<close>

definition ushl :: "width \<Rightarrow> usize \<Rightarrow> nat \<Rightarrow> usize option" where
  "ushl w a s = (if s < word_bits w then Some (take_bit (word_bits w) (push_bit s a)) else None)"

definition ushr :: "width \<Rightarrow> usize \<Rightarrow> nat \<Rightarrow> usize option" where
  "ushr w a s = (if s < word_bits w then Some (drop_bit s a) else None)"

definition unot :: "width \<Rightarrow> usize \<Rightarrow> usize" where
  "unot w a = mask (word_bits w) XOR a"

definition wrapping_add :: "width \<Rightarrow> usize \<Rightarrow> usize \<Rightarrow> usize" where
  "wrapping_add w a b = (a + b) mod usize_lim w"

definition wrapping_sub :: "width \<Rightarrow> usize \<Rightarrow> usize \<Rightarrow> usize" where
  "wrapping_sub w a b = (a + (usize_lim w - b)) mod usize_lim w"

lemma uadd_Some_iff [panic_simps]: "uadd w a b = Some c \<longleftrightarrow> a + b < usize_lim w \<and> c = a + b"
  by (auto simp: uadd_def)

lemma usub_Some_iff [panic_simps]: "usub a b = Some c \<longleftrightarrow> b \<le> a \<and> c = a - b"
  by (auto simp: usub_def)

lemma umul_Some_iff [panic_simps]: "umul w a b = Some c \<longleftrightarrow> a * b < usize_lim w \<and> c = a * b"
  by (auto simp: umul_def)

lemma uadd_ok [simp]: "a + b < usize_lim w \<Longrightarrow> uadd w a b = Some (a + b)"
  by (simp add: uadd_def)

lemma usub_ok [simp]: "b \<le> a \<Longrightarrow> usub a b = Some (a - b)"
  by (simp add: usub_def)

lemma umul_ok [simp]: "a * b < usize_lim w \<Longrightarrow> umul w a b = Some (a * b)"
  by (simp add: umul_def)

lemma uadd_overflow [simp]: "\<not> a + b < usize_lim w \<Longrightarrow> uadd w a b = None"
  by (simp add: uadd_def)

lemma usub_underflow [simp]: "a < b \<Longrightarrow> usub a b = None"
  by (simp add: usub_def)

lemma ushl_ok: "s < word_bits w \<Longrightarrow> a * 2 ^ s < usize_lim w \<Longrightarrow> ushl w a s = Some (a * 2 ^ s)"
  by (simp add: ushl_def push_bit_eq_mult take_bit_eq_mod)

lemma wrapping_add_less [simp]: "wrapping_add w a b < usize_lim w"
  by (simp add: wrapping_add_def)

lemma wrapping_sub_less [simp]: "wrapping_sub w a b < usize_lim w"
  by (simp add: wrapping_sub_def)

section \<open>Panics, assertions and slices\<close>

definition assert_that :: "bool \<Rightarrow> unit option" where
  "assert_that b = (if b then Some () else None)"

lemma assert_that_Some_iff [panic_simps]: "assert_that b = Some u \<longleftrightarrow> b"
  by (simp add: assert_that_def)

lemma assert_that_True [simp]: "b \<Longrightarrow> assert_that b = Some ()"
  by (simp add: assert_that_def)

lemma assert_that_False [simp]: "\<not> b \<Longrightarrow> assert_that b = None"
  by (simp add: assert_that_def)

definition idx :: "'a list \<Rightarrow> nat \<Rightarrow> 'a option" where
  "idx xs i = (if i < length xs then Some (xs ! i) else None)"

definition upd :: "'a list \<Rightarrow> nat \<Rightarrow> 'a \<Rightarrow> 'a list option" where
  "upd xs i v = (if i < length xs then Some (xs[i := v]) else None)"

lemma idx_Some_iff [panic_simps]: "idx xs i = Some x \<longleftrightarrow> i < length xs \<and> x = xs ! i"
  by (auto simp: idx_def)

lemma upd_Some_iff [panic_simps]: "upd xs i v = Some ys \<longleftrightarrow> i < length xs \<and> ys = xs[i := v]"
  by (auto simp: upd_def)

lemma idx_ok [simp]: "i < length xs \<Longrightarrow> idx xs i = Some (xs ! i)"
  by (simp add: idx_def)

lemma upd_ok [simp]: "i < length xs \<Longrightarrow> upd xs i v = Some (xs[i := v])"
  by (simp add: upd_def)

lemma idx_oob [simp]: "length xs \<le> i \<Longrightarrow> idx xs i = None"
  by (simp add: idx_def)

lemma upd_oob [simp]: "length xs \<le> i \<Longrightarrow> upd xs i v = None"
  by (simp add: upd_def)

text \<open>\<open>xs.copy_within(a..b, d)\<close>: the elements at \<open>a..b\<close> are copied to \<open>d..d + (b - a)\<close>.\<close>

definition copy_within :: "'a list \<Rightarrow> nat \<Rightarrow> nat \<Rightarrow> nat \<Rightarrow> 'a list option" where
  "copy_within xs a b d =
     (if a \<le> b \<and> b \<le> length xs \<and> d + (b - a) \<le> length xs
      then Some (take d xs @ take (b - a) (drop a xs) @ drop (d + (b - a)) xs)
      else None)"

lemma copy_within_length: "copy_within xs a b d = Some ys \<Longrightarrow> length ys = length xs"
  by (auto simp: copy_within_def split: if_splits)

text \<open>
  The two idioms the fixed-size containers use it for: opening a gap at position \<open>i\<close> of the
  first \<open>n\<close> elements, and closing one.
\<close>

lemma copy_within_open:
  assumes "i \<le> n" "n < length xs"
  shows "copy_within xs i n (Suc i) = Some (take (Suc i) xs @ take (n - i) (drop i xs) @ drop (Suc n) xs)"
  using assms by (simp add: copy_within_def)

lemma copy_within_close:
  assumes "i < n" "n \<le> length xs"
  shows "copy_within xs (Suc i) n i = Some (take i xs @ take (n - Suc i) (drop (Suc i) xs) @ drop (n - 1) xs)"
  using assms by (simp add: copy_within_def)

lemma take_open_gap:
  assumes "i \<le> n" "n < length xs"
  shows "take (Suc n) ((take (Suc i) xs @ take (n - i) (drop i xs) @ drop (Suc n) xs)[i := v]) =
    take i (take n xs) @ v # drop i (take n xs)"
proof -
  have "(take (Suc i) xs @ take (n - i) (drop i xs) @ drop (Suc n) xs)[i := v] =
    take i xs @ v # take (n - i) (drop i xs) @ drop (Suc n) xs"
    using assms by (simp add: list_update_append take_Suc_conv_app_nth)
  then show ?thesis
    using assms by (simp add: drop_take Suc_diff_le)
qed

lemma take_close_gap:
  assumes "i < n" "n \<le> length xs"
  shows "take (n - 1) (take i xs @ take (n - Suc i) (drop (Suc i) xs) @ drop (n - 1) xs) =
    take i (take n xs) @ drop (Suc i) (take n xs)"
proof -
  have "n - 1 - i = n - Suc i" "min (length xs) i = i"
    using assms by simp_all
  then show ?thesis
    using assms by (simp add: drop_take)
qed

lemmas checked_defs = uadd_def usub_def umul_def ushl_def ushr_def assert_that_def idx_def upd_def

lemmas bind_Some_iffs = bind_eq_Some_conv bind_eq_None_conv

declare bind_eq_Some_conv [panic_simps]

section \<open>Bits of natural numbers\<close>

lemma less_exp_iff_bits: "(n::nat) < 2 ^ k \<longleftrightarrow> (\<forall>i\<ge>k. \<not> bit n i)"
proof
  assume "n < 2 ^ k"
  then have "take_bit k n = n"
    by (simp add: take_bit_nat_eq_self_iff)
  then show "\<forall>i\<ge>k. \<not> bit n i"
    by (metis bit_take_bit_iff not_le)
next
  assume "\<forall>i\<ge>k. \<not> bit n i"
  then have "take_bit k n = n"
    by (intro bit_eqI) (auto simp: bit_take_bit_iff not_le)
  then show "n < 2 ^ k"
    by (simp add: take_bit_nat_eq_self_iff)
qed

lemma bit_less_width: "(a::nat) < 2 ^ k \<Longrightarrow> bit a i \<Longrightarrow> i < k"
  by (meson less_exp_iff_bits not_le)

lemma and_less_exp: "(a::nat) < 2 ^ k \<Longrightarrow> a AND b < 2 ^ k"
  by (auto simp: less_exp_iff_bits bit_and_iff)

lemma or_less_exp: "(a::nat) < 2 ^ k \<Longrightarrow> b < 2 ^ k \<Longrightarrow> a OR b < 2 ^ k"
  by (auto simp: less_exp_iff_bits bit_or_iff)

lemma xor_less_exp: "(a::nat) < 2 ^ k \<Longrightarrow> b < 2 ^ k \<Longrightarrow> a XOR b < 2 ^ k"
  by (auto simp: less_exp_iff_bits bit_xor_iff)

lemma drop_bit_less: "(a::nat) < 2 ^ k \<Longrightarrow> drop_bit s a < 2 ^ k"
  by (auto simp: less_exp_iff_bits bit_drop_bit_eq)

lemma bit_le_imp: "bit (n::nat) i \<Longrightarrow> 2 ^ i \<le> n"
  by (metis less_exp_iff_bits nat_le_linear not_le order_refl)

lemma bit_unot: "a < usize_lim w \<Longrightarrow> bit (unot w a) i \<longleftrightarrow> i < word_bits w \<and> \<not> bit a i"
  by (auto simp: unot_def bit_xor_iff bit_mask_iff less_exp_iff_bits not_le)

lemma unot_less [simp]: "a < usize_lim w \<Longrightarrow> unot w a < usize_lim w"
  by (subst less_exp_iff_bits) (simp add: bit_unot not_less)

lemma unot_eq_diff: "a < usize_lim w \<Longrightarrow> unot w a = usize_max w - a"
proof -
  assume a: "a < usize_lim w"
  have "a AND unot w a = 0"
    using a by (intro bit_eqI) (auto simp: bit_and_iff bit_unot)
  then have "a + unot w a = a OR unot w a"
    by (simp add: disjunctive_add_eq_or)
  also have "\<dots> = mask (word_bits w)"
    using a by (intro bit_eqI) (auto simp: bit_or_iff bit_unot bit_mask_iff less_exp_iff_bits not_le)
  finally show ?thesis
    by (simp add: usize_max_def mask_eq_exp_minus_1)
qed

end
