(* ===== verification/Bits.thy ===== *)
theory Bits
  imports Kernel_Prelude
begin

text \<open>
  The bit manipulation utilities: \<open>src/support/bits.rs\<close> (alignment, powers of two, the XOR
  checksum) and the two architecture files \<open>src/arch/common/bits/bits32.rs\<close> and
  \<open>bits64.rs\<close> (population count, base-2 logarithms, bit compaction and interleaving). The
  definitions are the source's bit tricks step by step, with the overflow checks of \<open>+\<close> and
  \<open>-\<close> kept; the lemmas say that no check fails and that the tricks compute the
  mathematical functions \<open>popcount\<close>, \<open>ilog2\<close> and their kin.
\<close>

section \<open>Reference functions\<close>

fun popcount :: "nat \<Rightarrow> nat" where
  "popcount n = (if n = 0 then 0 else n mod 2 + popcount (n div 2))"

declare popcount.simps [simp del]

fun ilog2 :: "nat \<Rightarrow> nat" where
  "ilog2 n = (if n < 2 then 0 else Suc (ilog2 (n div 2)))"

declare ilog2.simps [simp del]

lemma popcount_0 [simp]: "popcount 0 = 0"
  by (simp add: popcount.simps)

lemma popcount_unfold: "popcount n = n mod 2 + popcount (n div 2)"
  by (cases "n = 0") (simp_all add: popcount.simps)

lemma popcount_eq_0_iff [simp]: "popcount n = 0 \<longleftrightarrow> n = 0"
proof (induction n rule: popcount.induct)
  case (1 n)
  then show ?case
    by (cases "n = 0") (auto simp: popcount_unfold [of n])
qed

lemma ilog2_bounds: "0 < n \<Longrightarrow> 2 ^ ilog2 n \<le> n \<and> n < 2 ^ Suc (ilog2 n)"
proof (induction n rule: ilog2.induct)
  case (1 n)
  show ?case
  proof (cases "n < 2")
    case True
    with "1.prems" have "n = 1" by simp
    then show ?thesis by (simp add: ilog2.simps)
  next
    case False
    with 1 have "2 ^ ilog2 (n div 2) \<le> n div 2" "n div 2 < 2 ^ Suc (ilog2 (n div 2))" by auto
    moreover have "n div 2 * 2 \<le> n" "n < (n div 2 + 1) * 2" by simp_all
    ultimately have "2 ^ Suc (ilog2 (n div 2)) \<le> n" "n < 2 ^ Suc (Suc (ilog2 (n div 2)))"
      by (simp_all only: power_Suc)
    with False show ?thesis by (simp add: ilog2.simps [of n])
  qed
qed

lemma ilog2_le [simp]: "0 < n \<Longrightarrow> 2 ^ ilog2 n \<le> n"
  using ilog2_bounds by simp

lemma ilog2_gt: "n < 2 ^ Suc (ilog2 n)"
  using ilog2_bounds [of n] by (cases "n = 0") simp_all

lemma ilog2_unique: "2 ^ k \<le> n \<Longrightarrow> n < 2 ^ Suc k \<Longrightarrow> ilog2 n = k"
proof -
  assume a: "2 ^ k \<le> n" "n < 2 ^ Suc k"
  then have "0 < n"
    by (metis gr0I not_le zero_less_numeral zero_less_power)
  from a ilog2_bounds [OF this] have "(2::nat) ^ ilog2 n < 2 ^ Suc k" "(2::nat) ^ k < 2 ^ Suc (ilog2 n)"
    by linarith+
  then show ?thesis
    by (simp only: power_strict_increasing_iff [of 2] one_less_numeral_iff semiring_norm)
qed

lemma ilog2_power [simp]: "ilog2 (2 ^ k) = k"
  by (rule ilog2_unique) simp_all

lemma ilog2_0 [simp]: "ilog2 0 = 0"
  by (simp add: ilog2.simps)

lemma ilog2_less: "0 < n \<Longrightarrow> n < 2 ^ k \<Longrightarrow> ilog2 n < k"
  by (metis ilog2_le le_less_trans power_strict_increasing_iff one_less_numeral_iff semiring_norm(76))

lemma ilog2_mono: "m \<le> n \<Longrightarrow> ilog2 m \<le> ilog2 n"
proof -
  assume "m \<le> n"
  show ?thesis
  proof (cases "m = 0")
    case False
    with \<open>m \<le> n\<close> have "ilog2 m < Suc (ilog2 n)"
      by (intro ilog2_less) (use ilog2_gt [of n] in auto)
    then show ?thesis by simp
  qed simp
qed

text \<open>The least \<open>k\<close> with \<open>n \<le> 2 ^ k\<close>.\<close>

definition clog2 :: "nat \<Rightarrow> nat" where
  "clog2 n = (if n \<le> 1 then 0 else Suc (ilog2 (n - 1)))"

lemma clog2_ge: "n \<le> 2 ^ clog2 n"
  using ilog2_gt [of "n - 1"] by (auto simp: clog2_def)

lemma clog2_least: "n \<le> 2 ^ k \<Longrightarrow> clog2 n \<le> k"
proof (cases "n \<le> 1")
  case False
  assume "n \<le> 2 ^ k"
  with False have "ilog2 (n - 1) < k" by (intro ilog2_less) auto
  then show ?thesis by (simp add: clog2_def)
qed (simp add: clog2_def)

lemma clog2_power [simp]: "clog2 (2 ^ k) = k"
proof (rule antisym)
  show "clog2 (2 ^ k) \<le> k" by (rule clog2_least) simp
  show "k \<le> clog2 (2 ^ k)"
    using clog2_ge [of "2 ^ k"] power_increasing_iff [of 2 k "clog2 (2 ^ k)"] by simp
qed

section \<open>Population count (\<open>bits32.rs\<close>, \<open>bits64.rs\<close>)\<close>

definition ones32 :: "usize \<Rightarrow> usize option" where
  "ones32 n = do {
     n \<leftarrow> usub n (drop_bit 1 n AND 0x55555555);
     n \<leftarrow> uadd W32 (drop_bit 2 n AND 0x33333333) (n AND 0x33333333);
     n \<leftarrow> map_option (\<lambda>s. s AND 0x0f0f0f0f) (uadd W32 (drop_bit 4 n) n);
     n \<leftarrow> uadd W32 n (drop_bit 8 n);
     n \<leftarrow> uadd W32 n (drop_bit 16 n);
     Some (n AND 0x3f) }"

definition ones64 :: "usize \<Rightarrow> usize option" where
  "ones64 n = do {
     n \<leftarrow> usub n (drop_bit 1 n AND 0x5555555555555555);
     n \<leftarrow> uadd W64 (drop_bit 2 n AND 0x3333333333333333) (n AND 0x3333333333333333);
     n \<leftarrow> map_option (\<lambda>s. s AND 0x0f0f0f0f0f0f0f0f) (uadd W64 (drop_bit 4 n) n);
     n \<leftarrow> uadd W64 n (drop_bit 8 n);
     n \<leftarrow> uadd W64 n (drop_bit 16 n);
     n \<leftarrow> uadd W64 n (drop_bit 32 n);
     Some (n AND 0x7f) }"

fun ones :: "width \<Rightarrow> usize \<Rightarrow> usize option" where
  "ones W32 n = ones32 n"
| "ones W64 n = ones64 n"

section \<open>Base-2 logarithms\<close>

definition smear32 :: "usize \<Rightarrow> usize" where
  "smear32 n = (let n = n OR drop_bit 1 n; n = n OR drop_bit 2 n; n = n OR drop_bit 4 n;
                    n = n OR drop_bit 8 n; n = n OR drop_bit 16 n in n)"

definition smear64 :: "usize \<Rightarrow> usize" where
  "smear64 n = (let n = n OR drop_bit 1 n; n = n OR drop_bit 2 n; n = n OR drop_bit 4 n;
                    n = n OR drop_bit 8 n; n = n OR drop_bit 16 n; n = n OR drop_bit 32 n in n)"

definition floor_log2_32 :: "usize \<Rightarrow> usize option" where
  "floor_log2_32 n = ones32 (drop_bit 1 (smear32 n))"

definition floor_log2_64 :: "usize \<Rightarrow> usize option" where
  "floor_log2_64 n = ones64 (drop_bit 1 (smear64 n))"

definition ceil_log2_32 :: "usize \<Rightarrow> usize option" where
  "ceil_log2_32 n = do {
     let m = n AND wrapping_sub W32 n 1;
     let m = m OR unot W32 (wrapping_sub W32 m 1);
     let m = drop_bit 31 m;
     k \<leftarrow> ones32 (drop_bit 1 (smear32 n));
     uadd W32 k m }"

definition ceil_log2_64 :: "usize \<Rightarrow> usize option" where
  "ceil_log2_64 n = do {
     let m = n AND wrapping_sub W64 n 1;
     let m = m OR unot W64 (wrapping_sub W64 m 1);
     let m = drop_bit 63 m;
     k \<leftarrow> ones64 (drop_bit 1 (smear64 n));
     uadd W64 k m }"

fun floor_log2 :: "width \<Rightarrow> usize \<Rightarrow> usize option" where
  "floor_log2 W32 n = floor_log2_32 n"
| "floor_log2 W64 n = floor_log2_64 n"

fun ceil_log2 :: "width \<Rightarrow> usize \<Rightarrow> usize option" where
  "ceil_log2 W32 n = ceil_log2_32 n"
| "ceil_log2 W64 n = ceil_log2_64 n"

section \<open>Population count: the byte-wise argument\<close>

text \<open>
  The first three steps act on each byte alone. A number is written as the list of its bytes,
  each step is followed through the list, and the byte function that remains is the
  population count of a byte.
\<close>

fun of_bytes :: "nat list \<Rightarrow> nat" where
  "of_bytes [] = 0"
| "of_bytes (b # bs) = b + 256 * of_bytes bs"

fun bytes_of :: "nat \<Rightarrow> nat \<Rightarrow> nat list" where
  "bytes_of 0 n = []"
| "bytes_of (Suc k) n = n mod 256 # bytes_of k (n div 256)"

fun rep_byte :: "nat \<Rightarrow> nat \<Rightarrow> nat" where
  "rep_byte c 0 = 0"
| "rep_byte c (Suc k) = c + 256 * rep_byte c k"

lemma length_bytes_of [simp]: "length (bytes_of k n) = k"
  by (induction k arbitrary: n) simp_all

lemma bytes_of_less [simp]: "b \<in> set (bytes_of k n) \<Longrightarrow> b < 256"
  by (induction k arbitrary: n) auto

lemma of_bytes_of: "n < 256 ^ k \<Longrightarrow> of_bytes (bytes_of k n) = n"
proof (induction k arbitrary: n)
  case (Suc k)
  then have "n div 256 < 256 ^ k" by (simp add: less_mult_imp_div_less)
  with Suc.IH show ?case by simp
qed simp

lemma byte_split_bit: "a < 256 \<Longrightarrow> bit (a + 256 * m) i \<longleftrightarrow> (if i < 8 then bit a i else bit m (i - 8))"
  for a m :: nat
proof -
  assume a: "a < 256"
  have "a + 256 * m = push_bit 8 m + a"
    by (simp add: push_bit_eq_mult)
  also have "\<dots> = push_bit 8 m OR a"
    using a by (intro disjunctive_add_eq_or bit_eqI)
      (auto simp: bit_and_iff bit_push_bit_iff less_exp_iff_bits [of a 8, simplified])
  finally show ?thesis
    using a by (auto simp: bit_or_iff bit_push_bit_iff less_exp_iff_bits [of a 8, simplified] not_less)
qed

lemma byte_and:
  fixes a c m r :: nat
  assumes "a < 256" "c < 256"
  shows "(a + 256 * m) AND (c + 256 * r) = (a AND c) + 256 * (m AND r)"
proof (rule bit_eqI)
  fix i
  have "a AND c < 256"
    using and_less_exp [of a 8 c] assms by simp
  then show "bit ((a + 256 * m) AND (c + 256 * r)) i = bit ((a AND c) + 256 * (m AND r)) i"
    using assms by (simp add: bit_and_iff byte_split_bit)
qed

lemma byte_drop_and:
  fixes a c m r :: nat
  assumes "a < 256" "c < 2 ^ (8 - s)" "s \<le> 8"
  shows "drop_bit s (a + 256 * m) AND (c + 256 * r) = (drop_bit s a AND c) + 256 * (drop_bit s m AND r)"
proof (rule bit_eqI)
  fix i
  have c: "c < 256" "\<And>j. 8 - s \<le> j \<Longrightarrow> \<not> bit c j"
    using assms less_exp_iff_bits [of c "8 - s"] power_increasing [of "8 - s" 8 "2::nat"] by auto
  have "drop_bit s a AND c < 256"
    using and_less_exp [of c 8 "drop_bit s a"] c by (simp add: and.commute)
  moreover have "\<not> bit a (s + i)" if "8 \<le> s + i"
    using assms(1) less_exp_iff_bits [of a 8] that by simp
  moreover have "s + i - 8 = s + (i - 8)" if "8 \<le> i"
    using that by simp
  ultimately show "bit (drop_bit s (a + 256 * m) AND (c + 256 * r)) i =
    bit ((drop_bit s a AND c) + 256 * (drop_bit s m AND r)) i"
    using assms c by (auto simp: bit_and_iff bit_drop_bit_eq byte_split_bit)
qed

definition pop_step1 :: "nat \<Rightarrow> nat" where
  "pop_step1 b = b - (drop_bit 1 b AND 0x55)"

definition pop_step2 :: "nat \<Rightarrow> nat" where
  "pop_step2 b = (drop_bit 2 b AND 0x33) + (b AND 0x33)"

definition pop_step3 :: "nat \<Rightarrow> nat" where
  "pop_step3 b = (drop_bit 4 b + b) AND 0x0f"

lemma byte_cases_256:
  assumes "\<forall>b \<in> set [0..<256]. P b" "b < (256::nat)"
  shows "P b"
  using assms by auto


lemma byte_bits:
  assumes "b < (256::nat)"
  obtains b0 b1 b2 b3 b4 b5 b6 b7 where
    "b = of_bool b0 + 2 * of_bool b1 + 4 * of_bool b2 + 8 * of_bool b3 + 16 * of_bool b4 +
       32 * of_bool b5 + 64 * of_bool b6 + 128 * of_bool b7"
proof -
  define q where "q i = drop_bit i b" for i
  define d where "d i = odd (q i)" for i
  have step: "q i = of_bool (d i) + 2 * q (Suc i)" for i
    by (simp add: q_def d_def drop_bit_Suc drop_bit_half flip: mod_2_eq_odd)
  have "q 0 = b" "q 8 = 0" using assms by (simp_all add: q_def drop_bit_eq_div)
  with step [of 0] step [of 1] step [of 2] step [of 3] step [of 4] step [of 5] step [of 6] step [of 7]
  have "b = of_bool (d 0) + 2 * of_bool (d 1) + 4 * of_bool (d 2) + 8 * of_bool (d 3) + 16 * of_bool (d 4) +
      32 * of_bool (d 5) + 64 * of_bool (d 6) + 128 * of_bool (d 7)"
    unfolding Suc_1 Suc_numeral semiring_norm One_nat_def [symmetric] Suc_eq_plus1 add_0 by linarith
  then show thesis by (rule that)
qed

lemma pop_steps_byte:
  assumes "b < 256"
  shows "drop_bit 1 b AND 0x55 \<le> b \<and> pop_step1 b < 256 \<and> pop_step2 (pop_step1 b) < 256
     \<and> pop_step2 (pop_step1 b) mod 16 \<le> 4 \<and> pop_step2 (pop_step1 b) div 16 \<le> 4
     \<and> pop_step3 (pop_step2 (pop_step1 b)) = popcount b \<and> popcount b \<le> 8"
proof -
  obtain b0 b1 b2 b3 b4 b5 b6 b7 where
    "b = of_bool b0 + 2 * of_bool b1 + 4 * of_bool b2 + 8 * of_bool b3 + 16 * of_bool b4 +
       32 * of_bool b5 + 64 * of_bool b6 + 128 * of_bool b7"
    using assms by (rule byte_bits)
  then show ?thesis
    by (cases b0; cases b1; cases b2; cases b3; cases b4; cases b5; cases b6; cases b7)
      (simp_all add: pop_step1_def pop_step2_def pop_step3_def popcount.simps drop_bit_eq_div
        del: One_nat_def flip: numeral_2_eq_2)
qed

lemma byte_diff: "d \<le> b \<Longrightarrow> e \<le> m \<Longrightarrow> b + 256 * m - (d + 256 * e) = b - d + 256 * (m - e)" for b d e m :: nat
  by (simp add: diff_mult_distrib2)

lemma of_bytes_step1:
  assumes "\<forall>b \<in> set bs. b < 256"
  shows "drop_bit 1 (of_bytes bs) AND rep_byte 0x55 (length bs) \<le> of_bytes bs \<and>
    of_bytes bs - (drop_bit 1 (of_bytes bs) AND rep_byte 0x55 (length bs)) = of_bytes (map pop_step1 bs)"
  using assms
proof (induction bs)
  case (Cons b bs)
  then have "b < 256" by simp
  with Cons byte_drop_and [of b "0x55" 1 "of_bytes bs" "rep_byte 0x55 (length bs)"] pop_steps_byte [of b]
  show ?case by (simp add: pop_step1_def byte_diff)
qed simp

lemma of_bytes_step2:
  assumes "\<forall>b \<in> set bs. b < 256"
  shows "(drop_bit 2 (of_bytes bs) AND rep_byte 0x33 (length bs)) + (of_bytes bs AND rep_byte 0x33 (length bs)) =
    of_bytes (map pop_step2 bs)"
  using assms
proof (induction bs)
  case (Cons b bs)
  then have "b < 256" by simp
  with Cons byte_drop_and [of b "0x33" 2 "of_bytes bs" "rep_byte 0x33 (length bs)"]
    byte_and [of b "0x33" "of_bytes bs" "rep_byte 0x33 (length bs)"]
  show ?case by (simp add: pop_step2_def)
qed simp

lemma of_bytes_step3:
  assumes "\<forall>b \<in> set bs. b mod 16 \<le> 4 \<and> b div 16 \<le> 4"
  shows "(drop_bit 4 (of_bytes bs) + of_bytes bs) AND rep_byte 0x0f (length bs) = of_bytes (map pop_step3 bs)"
  using assms
proof (induction bs)
  case (Cons b bs)
  define m where "m = of_bytes bs"
  have m: "m mod 16 \<le> 4"
  proof (cases bs)
    case (Cons c cs)
    then have "m mod 16 = c mod 16"
      using mod_mult_self2 [of c 16 "16 * of_bytes cs"] by (simp add: m_def)
    with Cons Cons.prems show ?thesis by simp
  qed (simp add: m_def)
  have b: "b mod 16 \<le> 4" "b div 16 \<le> 4" using Cons.prems by simp_all
  define l where "l = b div 16 + b + 16 * (m mod 16)"
  have l: "l < 256" using m b div_mult_mod_eq [of b 16] unfolding l_def by linarith
  have eq: "drop_bit 4 (b + 256 * m) + (b + 256 * m) = l + 256 * (drop_bit 4 m + m)"
  proof -
    have "(b + 256 * m) div 16 = b div 16 + 16 * m"
      using div_mult_self2 [of 16 b "16 * m"] by simp
    moreover have "16 * m = 16 * (m mod 16) + 256 * (m div 16)"
      using div_mult_mod_eq [of m 16] by linarith
    ultimately show ?thesis by (simp add: drop_bit_eq_div l_def)
  qed
  have low: "l AND 0x0f = pop_step3 b"
  proof -
    have "l AND 0x0f = l mod 16" "pop_step3 b = (b div 16 + b) mod 16"
      using take_bit_eq_mask [of 4 l] take_bit_eq_mask [of 4 "drop_bit 4 b + b"]
      by (simp_all add: pop_step3_def take_bit_eq_mod mask_eq_exp_minus_1 drop_bit_eq_div)
    then show ?thesis by (simp add: l_def)
  qed
  have "(drop_bit 4 (b + 256 * m) + (b + 256 * m)) AND (0x0f + 256 * rep_byte 0x0f (length bs)) =
      pop_step3 b + 256 * ((drop_bit 4 m + m) AND rep_byte 0x0f (length bs))"
    unfolding eq low [symmetric] by (rule byte_and [OF l]) simp
  then show ?case
    using Cons by (simp add: m_def)
qed simp

lemma popcount_add_256: "b < 256 \<Longrightarrow> popcount (b + 256 * m) = popcount b + popcount m"
proof -
  have *: "popcount (x + 2 ^ k * m) = popcount x + popcount m" if "x < 2 ^ k" for x k
    using that
  proof (induction k arbitrary: x)
    case (Suc k)
    have "(x + 2 ^ Suc k * m) div 2 = x div 2 + 2 ^ k * m" "(x + 2 ^ Suc k * m) mod 2 = x mod 2"
      by (simp_all add: mult.assoc)
    moreover have "x div 2 < 2 ^ k" using Suc.prems by simp
    ultimately show ?case
      using Suc.IH [of "x div 2"] popcount_unfold [of x] popcount_unfold [of "x + 2 ^ Suc k * m"] by simp
  qed simp
  assume "b < 256"
  with * [of b 8] show ?thesis by simp
qed

lemma popcount_of_bytes: "\<forall>b \<in> set bs. b < 256 \<Longrightarrow> popcount (of_bytes bs) = sum_list (map popcount bs)"
  by (induction bs) (simp_all add: popcount_add_256)

text \<open>The masks of the source are the repeated bytes.\<close>

lemma rep_byte_numeral [simp]: "rep_byte c (numeral k) = c + 256 * rep_byte c (pred_numeral k)"
  by (subst numeral_eq_Suc) (rule rep_byte.simps)

lemma bytes_of_numeral [simp]: "bytes_of (numeral k) n = n mod 256 # bytes_of (pred_numeral k) (n div 256)"
  by (subst numeral_eq_Suc) (rule bytes_of.simps)

lemma of_bytes_le: "\<forall>b \<in> set bs. b \<le> c \<Longrightarrow> of_bytes bs \<le> rep_byte c (length bs)"
  by (induction bs) (auto intro!: add_mono)

lemma pop_three_steps:
  assumes n: "n < 256 ^ k"
  defines "x1 \<equiv> n - (drop_bit 1 n AND rep_byte 0x55 k)"
  defines "x2 \<equiv> (drop_bit 2 x1 AND rep_byte 0x33 k) + (x1 AND rep_byte 0x33 k)"
  shows "drop_bit 1 n AND rep_byte 0x55 k \<le> n" "x2 \<le> rep_byte 0x44 k"
    "(drop_bit 4 x2 + x2) AND rep_byte 0x0f k = of_bytes (map popcount (bytes_of k n))"
proof -
  define bs where "bs = bytes_of k n"
  have bs: "of_bytes bs = n" "\<forall>b \<in> set bs. b < 256" "length bs = k"
    using n of_bytes_of [of n k] by (auto simp: bs_def)
  show "drop_bit 1 n AND rep_byte 0x55 k \<le> n"
    using of_bytes_step1 [of bs] bs by simp
  have 1: "x1 = of_bytes (map pop_step1 bs)"
    using of_bytes_step1 [of bs] bs by (simp add: x1_def)
  have "\<forall>b \<in> set (map pop_step1 bs). b < 256"
    using bs pop_steps_byte by auto
  from of_bytes_step2 [OF this] have 2: "x2 = of_bytes (map (pop_step2 \<circ> pop_step1) bs)"
    using bs(3) by (simp add: x2_def 1)
  have nib: "\<forall>b \<in> set (map (pop_step2 \<circ> pop_step1) bs). b mod 16 \<le> 4 \<and> b div 16 \<le> 4"
    using bs pop_steps_byte by auto
  have "b \<le> 0x44" if "b mod 16 \<le> 4" "b div 16 \<le> 4" for b :: nat
    using that div_mult_mod_eq [of b 16] by linarith
  with nib have "\<forall>b \<in> set (map (pop_step2 \<circ> pop_step1) bs). b \<le> 0x44" by blast
  from of_bytes_le [OF this] show "x2 \<le> rep_byte 0x44 k"
    using bs(3) by (simp add: 2)
  have "map pop_step3 (map (pop_step2 \<circ> pop_step1) bs) = map popcount bs"
    using bs pop_steps_byte by auto
  with of_bytes_step3 [OF nib]
  show "(drop_bit 4 x2 + x2) AND rep_byte 0x0f k = of_bytes (map popcount (bytes_of k n))"
    by (simp only: 2 length_map bs(3) bs_def [symmetric])
qed

lemma popcount_bytes_le: "\<forall>c \<in> set (map popcount (bytes_of k n)). c \<le> 8"
  using pop_steps_byte by auto

lemma popcount_eq_sum_bytes: "n < 256 ^ k \<Longrightarrow> popcount n = sum_list (map popcount (bytes_of k n))"
  using popcount_of_bytes [of "bytes_of k n"] by (simp add: of_bytes_of)

lemma fold_bytes_4:
  assumes "a \<le> 8" "b \<le> 8" "c \<le> 8" "d \<le> (8::nat)"
  defines "x3 \<equiv> of_bytes [a, b, c, d]"
  defines "x4 \<equiv> x3 + drop_bit 8 x3"
  defines "x5 \<equiv> x4 + drop_bit 16 x4"
  shows "x4 < 2 ^ 32" "x5 < 2 ^ 32" "x5 AND 0x3f = a + b + c + d"
proof -
  have 4: "x4 = of_bytes [a + b, b + c, c + d, d]"
    using assms by (simp add: drop_bit_eq_div)
  have 5: "x5 = of_bytes [a + b + c + d, b + c + d, c + d, d]"
    using assms(1-4) unfolding x5_def 4 by (simp add: drop_bit_eq_div)
  show "x4 < 2 ^ 32" "x5 < 2 ^ 32" using assms(1-4) unfolding 4 5 by simp_all
  have "x5 AND 0x3f = x5 mod 64"
    using take_bit_eq_mask [of 6 x5] by (simp add: take_bit_eq_mod mask_eq_exp_minus_1)
  also have "\<dots> = a + b + c + d"
  proof -
    have "x5 = (a + b + c + d) + 64 * (4 * of_bytes [b + c + d, c + d, d])" by (simp add: 5)
    then show ?thesis using assms(1-4) by (simp only: mod_mult_self2) simp
  qed
  finally show "x5 AND 0x3f = a + b + c + d" .
qed

lemma fold_bytes_8:
  assumes "a \<le> 8" "b \<le> 8" "c \<le> 8" "d \<le> 8" "e \<le> 8" "f \<le> 8" "g \<le> 8" "h \<le> (8::nat)"
  defines "x3 \<equiv> of_bytes [a, b, c, d, e, f, g, h]"
  defines "x4 \<equiv> x3 + drop_bit 8 x3"
  defines "x5 \<equiv> x4 + drop_bit 16 x4"
  defines "x6 \<equiv> x5 + drop_bit 32 x5"
  shows "x4 < 2 ^ 64" "x5 < 2 ^ 64" "x6 < 2 ^ 64" "x6 AND 0x7f = a + b + c + d + e + f + g + h"
proof -
  have 4: "x4 = of_bytes [a + b, b + c, c + d, d + e, e + f, f + g, g + h, h]"
    using assms by (simp add: drop_bit_eq_div)
  have 5: "x5 = of_bytes [a + b + c + d, b + c + d + e, c + d + e + f, d + e + f + g, e + f + g + h,
      f + g + h, g + h, h]"
    using assms(1-8) unfolding x5_def 4 by (simp add: drop_bit_eq_div)
  have 6: "x6 = of_bytes [a + b + c + d + e + f + g + h, b + c + d + e + f + g + h, c + d + e + f + g + h,
      d + e + f + g + h, e + f + g + h, f + g + h, g + h, h]"
    using assms(1-8) unfolding x6_def 5 by (simp add: drop_bit_eq_div)
  show "x4 < 2 ^ 64" "x5 < 2 ^ 64" "x6 < 2 ^ 64" using assms(1-8) unfolding 4 5 6 by simp_all
  have "x6 AND 0x7f = x6 mod 128"
    using take_bit_eq_mask [of 7 x6] by (simp add: take_bit_eq_mod mask_eq_exp_minus_1)
  also have "\<dots> = a + b + c + d + e + f + g + h"
  proof -
    have "x6 = (a + b + c + d + e + f + g + h) + 128 * (2 * of_bytes [b + c + d + e + f + g + h,
        c + d + e + f + g + h, d + e + f + g + h, e + f + g + h, f + g + h, g + h, h])" by (simp add: 6)
    then show ?thesis using assms(1-8) by (simp only: mod_mult_self2) simp
  qed
  finally show "x6 AND 0x7f = a + b + c + d + e + f + g + h" .
qed

lemma ones32_correct: "n < usize_lim W32 \<Longrightarrow> ones32 n = Some (popcount n)"
proof -
  assume "n < usize_lim W32"
  then have n: "n < 256 ^ 4" by simp
  obtain a b c d where ds: "map popcount (bytes_of 4 n) = [a, b, c, d]"
    by simp
  have le: "a \<le> 8" "b \<le> 8" "c \<le> 8" "d \<le> 8"
    using popcount_bytes_le [of 4 n] unfolding ds by simp_all
  have sum: "popcount n = a + b + c + d"
    using popcount_eq_sum_bytes [OF n] unfolding ds by simp
  have masks: "rep_byte 0x55 4 = 0x55555555" "rep_byte 0x33 4 = 0x33333333"
    "rep_byte 0x0f 4 = 0x0f0f0f0f" "rep_byte 0x44 4 = 0x44444444"
    by simp_all
  define x1 where "x1 = n - (drop_bit 1 n AND 0x55555555)"
  define x2 where "x2 = (drop_bit 2 x1 AND 0x33333333) + (x1 AND 0x33333333)"
  define x3 where "x3 = of_bytes [a, b, c, d]"
  note steps = pop_three_steps [OF n, unfolded masks ds, folded x1_def, folded x2_def x3_def]
  note folds = fold_bytes_4 [OF le, folded x3_def]
  have "usub n (drop_bit 1 n AND 0x55555555) = Some x1"
    using steps(1) by (simp add: x1_def)
  moreover have "uadd W32 (drop_bit 2 x1 AND 0x33333333) (x1 AND 0x33333333) = Some x2"
    using steps(2) by (simp add: x2_def)
  moreover have "uadd W32 (drop_bit 4 x2) x2 = Some (drop_bit 4 x2 + x2)"
  proof (rule uadd_ok)
    have "drop_bit 4 x2 \<le> x2" by (simp add: drop_bit_eq_div)
    then have "drop_bit 4 x2 + x2 \<le> x2 + x2" by simp
    also have "\<dots> < usize_lim W32" using steps(2) by simp
    finally show "drop_bit 4 x2 + x2 < usize_lim W32" .
  qed
  moreover have "uadd W32 x3 (drop_bit 8 x3) = Some (x3 + drop_bit 8 x3)"
    "uadd W32 (x3 + drop_bit 8 x3) (drop_bit 16 (x3 + drop_bit 8 x3)) =
       Some (x3 + drop_bit 8 x3 + drop_bit 16 (x3 + drop_bit 8 x3))"
    using folds(1,2) by (simp_all only: uadd_ok word_bits.simps)
  ultimately show ?thesis
    by (simp only: ones32_def bind.simps option.map steps(3) folds(3) sum)
qed

lemma length_8_cases: "length xs = 8 \<Longrightarrow> \<exists>a b c d e f g h. xs = [a, b, c, d, e, f, g, h]"
  by (auto simp: numeral_eq_Suc length_Suc_conv)

lemma ones64_correct: "n < usize_lim W64 \<Longrightarrow> ones64 n = Some (popcount n)"
proof -
  assume "n < usize_lim W64"
  then have n: "n < 256 ^ 8" by simp
  obtain a b c d e f g h where ds: "map popcount (bytes_of 8 n) = [a, b, c, d, e, f, g, h]"
    using length_8_cases [of "map popcount (bytes_of 8 n)"] by (auto simp del: bytes_of_numeral)
  have le: "a \<le> 8" "b \<le> 8" "c \<le> 8" "d \<le> 8" "e \<le> 8" "f \<le> 8" "g \<le> 8" "h \<le> 8"
    using popcount_bytes_le [of 8 n] unfolding ds by simp_all
  have sum: "popcount n = a + b + c + d + e + f + g + h"
    using popcount_eq_sum_bytes [OF n] unfolding ds by simp
  have masks: "rep_byte 0x55 8 = 0x5555555555555555" "rep_byte 0x33 8 = 0x3333333333333333"
    "rep_byte 0x0f 8 = 0x0f0f0f0f0f0f0f0f" "rep_byte 0x44 8 = 0x4444444444444444"
    by simp_all
  define x1 where "x1 = n - (drop_bit 1 n AND 0x5555555555555555)"
  define x2 where "x2 = (drop_bit 2 x1 AND 0x3333333333333333) + (x1 AND 0x3333333333333333)"
  define x3 where "x3 = of_bytes [a, b, c, d, e, f, g, h]"
  define x4 where "x4 = x3 + drop_bit 8 x3"
  define x5 where "x5 = x4 + drop_bit 16 x4"
  note steps = pop_three_steps [OF n, unfolded masks ds, folded x1_def, folded x2_def x3_def]
  note folds = fold_bytes_8 [OF le, folded x3_def, folded x4_def, folded x5_def]
  have "usub n (drop_bit 1 n AND 0x5555555555555555) = Some x1"
    using steps(1) by (simp add: x1_def)
  moreover have "uadd W64 (drop_bit 2 x1 AND 0x3333333333333333) (x1 AND 0x3333333333333333) = Some x2"
    using steps(2) by (simp add: x2_def)
  moreover have "uadd W64 (drop_bit 4 x2) x2 = Some (drop_bit 4 x2 + x2)"
  proof (rule uadd_ok)
    have "drop_bit 4 x2 \<le> x2" by (simp add: drop_bit_eq_div)
    then have "drop_bit 4 x2 + x2 \<le> x2 + x2" by simp
    also have "\<dots> < usize_lim W64" using steps(2) by simp
    finally show "drop_bit 4 x2 + x2 < usize_lim W64" .
  qed
  moreover have "uadd W64 x3 (drop_bit 8 x3) = Some x4" "uadd W64 x4 (drop_bit 16 x4) = Some x5"
    "uadd W64 x5 (drop_bit 32 x5) = Some (x5 + drop_bit 32 x5)"
    using folds(1-3) by (simp_all only: uadd_ok word_bits.simps x4_def x5_def)
  ultimately show ?thesis
    by (simp only: ones64_def bind.simps option.map steps(3) folds(4) sum)
qed

lemma ones_correct: "n < usize_lim w \<Longrightarrow> ones w n = Some (popcount n)"
  by (cases w) (simp_all only: ones.simps ones32_correct ones64_correct)

section \<open>The logarithms\<close>

lemma smear_step:
  fixes n x :: nat
  assumes "\<And>j. bit x j \<longleftrightarrow> (\<exists>d<k. bit n (j + d))"
  shows "bit (x OR drop_bit k x) j \<longleftrightarrow> (\<exists>d<2 * k. bit n (j + d))"
proof -
  have "(\<exists>d<2 * k. bit n (j + d)) \<longleftrightarrow> (\<exists>d<k. bit n (j + d)) \<or> (\<exists>d<k. bit n (k + j + d))"
  proof
    assume "\<exists>d<2 * k. bit n (j + d)"
    then obtain d where d: "d < 2 * k" "bit n (j + d)" by blast
    show "(\<exists>d<k. bit n (j + d)) \<or> (\<exists>d<k. bit n (k + j + d))"
    proof (cases "d < k")
      case False
      with d have "d - k < k" "bit n (k + j + (d - k))" by (simp_all add: ac_simps)
      then show ?thesis by blast
    qed (use d in blast)
  next
    assume "(\<exists>d<k. bit n (j + d)) \<or> (\<exists>d<k. bit n (k + j + d))"
    then show "\<exists>d<2 * k. bit n (j + d)"
    proof
      assume "\<exists>d<k. bit n (k + j + d)"
      then obtain d where "d < k" "bit n (k + j + d)" by blast
      then have "k + d < 2 * k" "bit n (j + (k + d))" by (simp_all add: ac_simps)
      then show ?thesis by blast
    next
      assume "\<exists>d<k. bit n (j + d)"
      then obtain d where "d < k" "bit n (j + d)" by blast
      then have "d < 2 * k" "bit n (j + d)" by simp_all
      then show ?thesis by blast
    qed
  qed
  then show ?thesis by (simp add: assms bit_or_iff bit_drop_bit_eq)
qed

lemma bit_smear32: "bit (smear32 n) j \<longleftrightarrow> (\<exists>d<32. bit n (j + d))"
proof -
  have 1: "bit n j \<longleftrightarrow> (\<exists>d<1. bit n (j + d))" for j by simp
  note 2 = smear_step [where n = n, OF 1, simplified mult_1_right]
  note 4 = smear_step [where n = n, OF 2, simplified]
  note 8 = smear_step [where n = n, OF 4, simplified]
  note 16 = smear_step [where n = n, OF 8, simplified]
  note 32 = smear_step [where n = n, OF 16, simplified]
  show ?thesis using 32 by (simp add: smear32_def Let_def)
qed

lemma bit_smear64: "bit (smear64 n) j \<longleftrightarrow> (\<exists>d<64. bit n (j + d))"
proof -
  have "bit (smear32 n OR drop_bit 32 (smear32 n)) j \<longleftrightarrow> (\<exists>d<2 * 32. bit n (j + d))"
    by (rule smear_step) (rule bit_smear32)
  then show ?thesis by (simp add: smear64_def smear32_def Let_def)
qed

lemma bit_ilog2: "0 < n \<Longrightarrow> bit n (ilog2 n)"
proof -
  assume n: "0 < n"
  have "n div 2 ^ ilog2 n = 1"
    using ilog2_bounds [OF n] by (intro div_nat_eqI) simp_all
  then show ?thesis by (simp add: bit_iff_odd)
qed

lemma smear_eq_mask:
  fixes n s :: nat
  assumes n: "0 < n" "n < 2 ^ k" and s: "\<And>j. bit s j \<longleftrightarrow> (\<exists>d<k. bit n (j + d))"
  shows "s = mask (Suc (ilog2 n))"
proof (rule bit_eqI)
  fix j
  have top: "\<not> bit n i" if "ilog2 n < i" for i
    using ilog2_gt [of n] that by (simp add: less_exp_iff_bits del: power_Suc)
  have "ilog2 n < k" using n by (rule ilog2_less)
  show "bit s j = bit (mask (Suc (ilog2 n)) :: nat) j"
  proof (cases "j \<le> ilog2 n")
    case True
    then have "ilog2 n - j < k" "bit n (j + (ilog2 n - j))"
      using \<open>ilog2 n < k\<close> bit_ilog2 n by simp_all
    with True show ?thesis by (auto simp: s bit_mask_iff less_Suc_eq_le)
  next
    case False
    with top show ?thesis by (auto simp: s bit_mask_iff)
  qed
qed

lemma popcount_mask: "popcount (mask k) = k"
proof (induction k)
  case (Suc k)
  have "2 ^ k = Suc (mask k)" by (simp add: mask_eq_exp_minus_1)
  moreover have "2 ^ Suc k = Suc (mask (Suc k))" by (simp add: mask_eq_exp_minus_1)
  ultimately have "mask (Suc k) = 2 * mask k + (1 :: nat)" by simp
  then have "(mask (Suc k) :: nat) mod 2 = 1" "(mask (Suc k) :: nat) div 2 = mask k"
    by simp_all
  with Suc popcount_unfold [of "mask (Suc k)"] show ?case by simp
qed simp

fun smear :: "width \<Rightarrow> usize \<Rightarrow> usize" where
  "smear W32 n = smear32 n"
| "smear W64 n = smear64 n"

lemma ones_smear: "n < usize_lim w \<Longrightarrow> ones w (drop_bit 1 (smear w n)) = Some (ilog2 n)"
proof -
  assume n: "n < usize_lim w"
  have s: "bit (smear w n) j \<longleftrightarrow> (\<exists>d<word_bits w. bit n (j + d))" for j
    by (cases w) (simp_all add: bit_smear32 bit_smear64)
  show ?thesis
  proof (cases "n = 0")
    case True
    with s have "smear w n = 0" by (intro bit_eqI) simp
    with True ones_correct [of 0 w] show ?thesis by simp
  next
    case False
    with smear_eq_mask [OF _ n s] have "smear w n = mask (Suc (ilog2 n))" by simp
    then have "drop_bit 1 (smear w n) = mask (ilog2 n)"
      by (simp add: drop_bit_mask_eq)
    moreover have "(mask (ilog2 n) :: nat) < usize_lim w"
    proof -
      have "ilog2 n < word_bits w" using False n by (intro ilog2_less) simp_all
      then have "(2 :: nat) ^ ilog2 n < usize_lim w" by (intro power_strict_increasing) simp_all
      then show ?thesis by (simp only: mask_eq_exp_minus_1 less_imp_diff_less)
    qed
    ultimately show ?thesis by (simp add: ones_correct popcount_mask)
  qed
qed

lemma floor_log2_correct: "n < usize_lim w \<Longrightarrow> floor_log2 w n = Some (ilog2 n)"
  using ones_smear [of n w]
  by (cases w) (simp_all only: floor_log2.simps floor_log2_32_def floor_log2_64_def ones.simps smear.simps)

text \<open>The term added to the floor is 1 exactly when \<open>n\<close> is no power of two.\<close>

lemma and_pred_eq_0_iff: "0 < n \<Longrightarrow> n AND (n - 1) = 0 \<longleftrightarrow> n = 2 ^ ilog2 n" for n :: nat
proof
  assume n: "0 < n" and z: "n AND (n - 1) = 0"
  show "n = 2 ^ ilog2 n"
  proof (rule ccontr)
    assume ne: "n \<noteq> 2 ^ ilog2 n"
    then have "2 ^ ilog2 n \<le> n - 1" "n - 1 < 2 ^ Suc (ilog2 n)"
      using ilog2_bounds [OF n] by auto
    then have "ilog2 (n - 1) = ilog2 n" by (rule ilog2_unique)
    moreover have "0 < n - 1" using \<open>2 ^ ilog2 n \<le> n - 1\<close>
      by (metis not_le zero_less_numeral zero_less_power gr0I)
    ultimately have "bit (n AND (n - 1)) (ilog2 n)"
      using bit_ilog2 [OF n] bit_ilog2 [of "n - 1"] by (simp add: bit_and_iff)
    with z show False by simp
  qed
next
  assume n: "n = 2 ^ ilog2 n"
  have "(2 ^ ilog2 n :: nat) AND (2 ^ ilog2 n - 1) = 0"
    unfolding mask_eq_exp_minus_1 [symmetric]
    by (rule bit_eqI) (auto simp: bit_and_iff bit_exp_iff bit_mask_iff)
  with n show "n AND (n - 1) = 0" by simp
qed

lemma usize_max_less [simp]: "usize_max w < usize_lim w"
  by (simp add: usize_max_def)

lemma wrapping_pred: "0 < m \<Longrightarrow> m < usize_lim w \<Longrightarrow> wrapping_sub w m 1 = m - 1"
proof -
  assume m: "0 < m" "m < usize_lim w"
  then have "m + (usize_lim w - 1) = (m - 1) + usize_lim w" by simp
  then have "wrapping_sub w m 1 = (m - 1 + usize_lim w) mod usize_lim w"
    by (simp only: wrapping_sub_def)
  with m show ?thesis by (simp only: mod_add_self2 mod_less less_imp_diff_less)
qed

lemma unot_pred: "m < usize_lim w \<Longrightarrow> unot w (wrapping_sub w m 1) = (if m = 0 then 0 else usize_lim w - m)"
proof -
  assume m: "m < usize_lim w"
  show ?thesis
  proof (cases "m = 0")
    case True
    then have "wrapping_sub w m 1 = usize_max w"
      by (simp add: wrapping_sub_def usize_max_def)
    with True show ?thesis by (simp add: unot_eq_diff)
  next
    case False
    with m have "wrapping_sub w m 1 = m - 1" by (simp only: wrapping_pred)
    with m False show ?thesis by (simp add: unot_eq_diff usize_max_def)
  qed
qed

lemma sign_bit: "m < usize_lim w \<Longrightarrow>
  drop_bit (word_bits w - 1) (m OR unot w (wrapping_sub w m 1)) = (if m = 0 then 0 else 1)"
proof -
  assume m: "m < usize_lim w"
  define x where "x = m OR unot w (wrapping_sub w m 1)"
  have x: "x < usize_lim w" unfolding x_def
    by (rule or_less_exp) (use m in simp_all)
  have half: "usize_lim w = 2 * 2 ^ (word_bits w - 1)"
    by (cases w) simp_all
  have "bit x (word_bits w - 1) \<longleftrightarrow> m \<noteq> 0"
  proof (cases "m = 0")
    case False
    have "2 ^ (word_bits w - 1) \<le> m \<or> 2 ^ (word_bits w - 1) \<le> usize_lim w - m"
      using half by linarith
    moreover have "bit y (word_bits w - 1)" if "2 ^ (word_bits w - 1) \<le> y" "y < usize_lim w" for y
    proof -
      have "y div 2 ^ (word_bits w - 1) = 1"
        using that half by (intro div_nat_eqI) simp_all
      then show ?thesis by (simp add: bit_iff_odd)
    qed
    ultimately show ?thesis using m False unot_pred [OF m] by (auto simp: x_def bit_or_iff)
  qed (use unot_pred [OF m] in \<open>simp add: x_def\<close>)
  moreover have "drop_bit (word_bits w - 1) x \<le> 1"
    using x half by (simp add: drop_bit_eq_div less_mult_imp_div_less flip: less_Suc_eq_le)
  ultimately have "drop_bit (word_bits w - 1) x = (if m = 0 then 0 else 1)"
    by (cases "drop_bit (word_bits w - 1) x") (auto simp: bit_iff_odd_drop_bit)
  then show ?thesis by (simp add: x_def)
qed

lemma clog2_ilog2: "0 < n \<Longrightarrow> clog2 n = ilog2 n + (if n = 2 ^ ilog2 n then 0 else 1)"
proof -
  assume n: "0 < n"
  show ?thesis
  proof (cases "n = 2 ^ ilog2 n")
    case True
    then show ?thesis by (metis add.right_neutral clog2_power)
  next
    case False
    with ilog2_bounds [OF n] have *: "2 ^ ilog2 n \<le> n - 1" "n - 1 < 2 ^ Suc (ilog2 n)" by auto
    then have "ilog2 (n - 1) = ilog2 n" by (rule ilog2_unique)
    moreover have "\<not> n \<le> 1" using * n by (auto simp: le_Suc_eq)
    ultimately show ?thesis using False by (simp add: clog2_def)
  qed
qed

lemma ceil_log2_correct: "n < usize_lim w \<Longrightarrow> ceil_log2 w n = Some (clog2 n)"
proof -
  assume n: "n < usize_lim w"
  define m where "m = n AND wrapping_sub w n 1"
  define b :: nat where "b = (if m = 0 then 0 else 1)"
  have m: "m < usize_lim w" unfolding m_def using n by (rule and_less_exp)
  have "clog2 n = ilog2 n + b"
  proof (cases "n = 0")
    case False
    with n have "wrapping_sub w n 1 = n - 1" by (simp only: wrapping_pred)
    with False and_pred_eq_0_iff [of n] clog2_ilog2 [of n] show ?thesis
      by (simp add: b_def m_def)
  qed (simp add: clog2_def b_def m_def)
  moreover have "ilog2 n + b < usize_lim w"
  proof -
    have "ilog2 n < word_bits w \<or> n = 0" using n ilog2_less [of n "word_bits w"] by auto
    then have "ilog2 n + b \<le> word_bits w" by (auto simp: b_def Suc_le_eq)
    also have "\<dots> < usize_lim w" by (rule less_exp)
    finally show ?thesis .
  qed
  ultimately have "uadd w (ilog2 n) b = Some (clog2 n)" by simp
  moreover have "(32 :: nat) - 1 = 31" "(64 :: nat) - 1 = 63" by simp_all
  ultimately show ?thesis using sign_bit [OF m, folded b_def, unfolded m_def] ones_smear [OF n]
    by (cases w) (simp_all only: ceil_log2.simps ceil_log2_32_def ceil_log2_64_def Let_def ones.simps
      smear.simps word_bits.simps bind.simps)
qed


section \<open>Alignment and powers of two (\<open>bits.rs\<close>)\<close>

definition align_down :: "width \<Rightarrow> usize \<Rightarrow> usize \<Rightarrow> usize option" where
  "align_down w addr boundary = do {
     b \<leftarrow> usub boundary 1;
     Some (addr AND unot w b) }"

definition align_up :: "width \<Rightarrow> usize \<Rightarrow> usize \<Rightarrow> usize option" where
  "align_up w addr boundary = do {
     b \<leftarrow> usub boundary 1;
     s \<leftarrow> uadd w addr b;
     Some (s AND unot w b) }"

definition is_aligned :: "width \<Rightarrow> usize \<Rightarrow> usize \<Rightarrow> bool option" where
  "is_aligned w addr boundary = do {
     b \<leftarrow> usub boundary 1;
     Some (addr AND unot w b = addr) }"

definition is_power_of_2 :: "usize \<Rightarrow> bool" where
  "is_power_of_2 n \<longleftrightarrow> n \<noteq> 0 \<and> n AND (n - 1) = 0"

definition least_significant_bit :: "width \<Rightarrow> usize \<Rightarrow> usize" where
  "least_significant_bit w n = n AND wrapping_add w (unot w n) 1"

fun CHECKSUM_SEED :: "width \<Rightarrow> usize" where
  "CHECKSUM_SEED W32 = 0xe9daacd5"
| "CHECKSUM_SEED W64 = 0x09a52af1c62bd04b"

fun POISON :: "width \<Rightarrow> usize" where
  "POISON W32 = 0xcccccccc"
| "POISON W64 = 0xcccccccccccccccc"

definition xor_checksum :: "width \<Rightarrow> usize list \<Rightarrow> usize" where
  "xor_checksum w ws = foldl (XOR) (CHECKSUM_SEED w) ws"

lemma mask_less_lim: "k < word_bits w \<Longrightarrow> mask k < usize_lim w"
  by (simp only: mask_eq_exp_minus_1 less_imp_diff_less power_strict_increasing one_less_numeral_iff
    semiring_norm)

lemma and_unot_mask:
  assumes "a < usize_lim w" "k < word_bits w"
  shows "a AND unot w (mask k) = a div 2 ^ k * 2 ^ k"
proof -
  have "a AND unot w (mask k) = push_bit k (drop_bit k a)"
  proof (rule bit_eqI)
    fix i
    have "bit a i \<longrightarrow> i < word_bits w"
      using bit_less_width [OF assms(1)] by blast
    then show "bit (a AND unot w (mask k)) i = bit (push_bit k (drop_bit k a)) i"
      by (auto simp: bit_and_iff bit_unot [OF mask_less_lim [OF assms(2)]] bit_mask_iff
        bit_push_bit_iff bit_drop_bit_eq)
  qed
  then show ?thesis by (simp add: push_bit_eq_mult drop_bit_eq_div)
qed

lemma usub_exp: "usub (2 ^ k) 1 = Some (mask k)"
  by (simp add: usub_def mask_eq_exp_minus_1)

lemma align_down_eq:
  assumes "a < usize_lim w" "k < word_bits w"
  shows "align_down w a (2 ^ k) = Some (a div 2 ^ k * 2 ^ k)"
  by (simp only: align_down_def usub_exp bind.simps and_unot_mask [OF assms])

lemma is_aligned_eq:
  assumes "a < usize_lim w" "k < word_bits w"
  shows "is_aligned w a (2 ^ k) = Some (2 ^ k dvd a)"
proof -
  have "a div 2 ^ k * 2 ^ k = a \<longleftrightarrow> 2 ^ k dvd a"
    by (metis dvd_div_mult_self dvd_triv_right)
  then show ?thesis
    by (simp only: is_aligned_def usub_exp bind.simps and_unot_mask [OF assms])
qed

lemma align_up_eq:
  assumes "k < word_bits w"
  shows "align_up w a (2 ^ k) =
    (if a + mask k < usize_lim w then Some ((a + mask k) div 2 ^ k * 2 ^ k) else None)"
  using and_unot_mask [OF _ assms, of "a + mask k"]
  by (simp add: align_up_def usub_exp uadd_def del: One_nat_def)

lemma is_power_of_2_iff: "is_power_of_2 n \<longleftrightarrow> (\<exists>k. n = 2 ^ k)"
proof (cases "n = 0")
  case False
  then have "is_power_of_2 n \<longleftrightarrow> n = 2 ^ ilog2 n"
    using and_pred_eq_0_iff [of n] by (simp add: is_power_of_2_def)
  also have "\<dots> \<longleftrightarrow> (\<exists>k. n = 2 ^ k)" by (metis ilog2_power)
  finally show ?thesis .
qed (simp add: is_power_of_2_def)

lemma bit_pred:
  fixes n :: nat
  assumes k: "bit n k" "\<And>i. i < k \<Longrightarrow> \<not> bit n i"
  shows "bit (n - 1) i \<longleftrightarrow> (if i < k then True else i \<noteq> k \<and> bit n i)"
proof -
  define h where "h = push_bit (Suc k) (drop_bit (Suc k) n)"
  have h: "bit h i \<longleftrightarrow> k < i \<and> bit n i" for i
    by (auto simp: h_def bit_push_bit_iff bit_drop_bit_eq Suc_le_eq simp del: push_bit_Suc)
  have "n = h OR 2 ^ k"
    using k by (intro bit_eqI) (auto simp: bit_or_iff h bit_exp_iff linorder_neq_iff)
  also have "\<dots> = h + 2 ^ k"
    by (intro disjunctive_add_eq_or [symmetric] bit_eqI) (auto simp: bit_and_iff h bit_exp_iff)
  finally have "n - 1 = h + mask k" by (simp add: mask_eq_exp_minus_1)
  also have "\<dots> = h OR mask k"
    by (intro disjunctive_add_eq_or bit_eqI) (auto simp: bit_and_iff h bit_mask_iff)
  finally show ?thesis by (auto simp: bit_or_iff h bit_mask_iff)
qed

lemma least_significant_bit_eq:
  assumes n: "0 < n" "n < usize_lim w" and k: "bit n k" "\<And>i. i < k \<Longrightarrow> \<not> bit n i"
  shows "least_significant_bit w n = 2 ^ k"
proof -
  have "wrapping_add w (unot w n) 1 = usize_lim w - n"
    using n by (simp add: wrapping_add_def unot_eq_diff usize_max_def)
  also have "\<dots> = unot w (n - 1)"
    using n by (simp add: unot_eq_diff usize_max_def)
  finally have "least_significant_bit w n = n AND unot w (n - 1)"
    by (simp only: least_significant_bit_def)
  also have "\<dots> = 2 ^ k"
  proof (rule bit_eqI)
    fix i
    have "n - 1 < usize_lim w" using n by simp
    moreover have "bit n i \<longrightarrow> i < word_bits w"
      using bit_less_width [OF n(2)] by blast
    ultimately show "bit (n AND unot w (n - 1)) i = bit (2 ^ k :: nat) i"
      using k by (auto simp: bit_and_iff bit_unot bit_pred [OF k] bit_exp_iff simp del: One_nat_def)
  qed
  finally show ?thesis .
qed

lemma lowest_bit_ex: "0 < n \<Longrightarrow> \<exists>k. bit n k \<and> (\<forall>i<k. \<not> bit n i)" for n :: nat
  using bit_ilog2 [of n] exists_least_iff [of "bit n"] by auto

text \<open>The largest power of two that divides \<open>n\<close>.\<close>

lemma least_significant_bit_dvd:
  assumes "0 < n" "n < usize_lim w"
  obtains k where "least_significant_bit w n = 2 ^ k" "2 ^ k dvd n" "\<not> 2 ^ Suc k dvd n" "k < word_bits w"
proof -
  from lowest_bit_ex [OF assms(1)] obtain k where k: "bit n k" "\<And>i. i < k \<Longrightarrow> \<not> bit n i" by blast
  have "take_bit k n = 0"
    using k(2) by (intro bit_eqI) (auto simp: bit_take_bit_iff)
  then have d: "2 ^ k dvd n" by (simp add: take_bit_eq_0_iff)
  have "take_bit (Suc k) n \<noteq> 0"
    using k(1) by (metis bit_take_bit_iff bit_0_eq bot_apply bot_bool_def lessI)
  then have "\<not> 2 ^ Suc k dvd n" by (simp only: take_bit_eq_0_iff simp_thms)
  moreover have "k < word_bits w"
    using k(1) assms(2) by (meson less_exp_iff_bits not_le)
  ultimately show thesis
    using that [OF least_significant_bit_eq [OF assms k] d] by blast
qed


section \<open>Compaction and interleaving\<close>

definition compact_odd_bits32 :: "usize \<Rightarrow> usize" where
  "compact_odd_bits32 n =
     (let n = drop_bit 1 (n AND 0x44444444) OR (n AND 0x11111111);
          n = drop_bit 2 (n AND 0x30303030) OR (n AND 0x03030303);
          n = drop_bit 4 (n AND 0x0f000f00) OR (n AND 0x000f000f);
          n = drop_bit 8 (n AND 0x00ff0000) OR (n AND 0x000000ff) in n)"

definition compact_odd_bits64 :: "usize \<Rightarrow> usize" where
  "compact_odd_bits64 n =
     (let n = drop_bit 1 (n AND 0x4444444444444444) OR (n AND 0x1111111111111111);
          n = drop_bit 2 (n AND 0x3030303030303030) OR (n AND 0x0303030303030303);
          n = drop_bit 4 (n AND 0x0f000f000f000f00) OR (n AND 0x000f000f000f000f);
          n = drop_bit 8 (n AND 0x00ff000000ff0000) OR (n AND 0x000000ff000000ff);
          n = drop_bit 16 (n AND 0x0000ffff00000000) OR (n AND 0x000000000000ffff) in n)"

definition compact_even_bits32 :: "usize \<Rightarrow> usize" where
  "compact_even_bits32 n = compact_odd_bits32 (drop_bit 1 n)"

definition compact_even_bits64 :: "usize \<Rightarrow> usize" where
  "compact_even_bits64 n = compact_odd_bits64 (drop_bit 1 n)"

definition spread32 :: "usize \<Rightarrow> usize" where
  "spread32 x =
     (let x = (x OR take_bit 32 (push_bit 8 x)) AND 0x00ff00ff;
          x = (x OR take_bit 32 (push_bit 4 x)) AND 0x0f0f0f0f;
          x = (x OR take_bit 32 (push_bit 2 x)) AND 0x33333333;
          x = (x OR take_bit 32 (push_bit 1 x)) AND 0x55555555 in x)"

definition spread64 :: "usize \<Rightarrow> usize" where
  "spread64 x =
     (let x = (x OR take_bit 64 (push_bit 16 x)) AND 0x0000ffff0000ffff;
          x = (x OR take_bit 64 (push_bit 8 x)) AND 0x00ff00ff00ff00ff;
          x = (x OR take_bit 64 (push_bit 4 x)) AND 0x0f0f0f0f0f0f0f0f;
          x = (x OR take_bit 64 (push_bit 2 x)) AND 0x3333333333333333;
          x = (x OR take_bit 64 (push_bit 1 x)) AND 0x5555555555555555 in x)"

definition interleave_bits32 :: "usize \<Rightarrow> usize \<Rightarrow> usize" where
  "interleave_bits32 a b = (spread32 a OR take_bit 32 (push_bit 1 (spread32 b)))"

definition interleave_bits64 :: "usize \<Rightarrow> usize \<Rightarrow> usize" where
  "interleave_bits64 a b = (spread64 a OR take_bit 64 (push_bit 1 (spread64 b)))"

lemma all_less_numeral: "(\<forall>i<numeral k. P i) \<longleftrightarrow> P (pred_numeral k) \<and> (\<forall>i<pred_numeral k. P i)"
  by (auto simp: numeral_eq_Suc less_Suc_eq)

lemma all_less_0: "(\<forall>i<0::nat. P i) \<longleftrightarrow> True" "(\<forall>i<1::nat. P i) \<longleftrightarrow> P 0" "(\<forall>i<Suc 0. P i) \<longleftrightarrow> P 0"
  by (auto simp: less_Suc_eq)

lemmas unroll_less = all_less_numeral all_less_0 pred_numeral_simps BitM.simps

lemmas bit_unfold = bit_or_iff bit_and_iff bit_take_bit_iff bit_push_bit_iff bit_drop_bit_eq comp_apply

lemma spread32_bits:
  assumes "x < 2 ^ 16"
  shows "\<forall>i<32. bit (spread32 x) i \<longleftrightarrow> even i \<and> bit x (i div 2)"
proof -
  have hi: "bit x i \<longleftrightarrow> False" if "16 \<le> i" for i
    using bit_less_width [OF assms] that by (auto simp: not_less [symmetric])
  show ?thesis unfolding spread32_def Let_def
    by (simp only: unroll_less, intro conjI) (simp_all only: bit_unfold, simp_all add: hi bit_0)
qed

lemma spread64_bits:
  assumes "x < 2 ^ 32"
  shows "\<forall>i<64. bit (spread64 x) i \<longleftrightarrow> even i \<and> bit x (i div 2)"
proof -
  have hi: "bit x i \<longleftrightarrow> False" if "32 \<le> i" for i
    using bit_less_width [OF assms] that by (auto simp: not_less [symmetric])
  show ?thesis unfolding spread64_def Let_def
    by (simp only: unroll_less, intro conjI) (simp_all only: bit_unfold, simp_all add: hi bit_0)
qed

lemma compact_odd_bits32_bits: "\<forall>i<16. bit (compact_odd_bits32 n) i \<longleftrightarrow> bit n (2 * i)"
  unfolding compact_odd_bits32_def Let_def
  by (simp only: unroll_less, intro conjI)
    (simp_all only: bit_unfold, simp_all add: bit_0 numeral_2_eq_2 [symmetric])

lemma compact_odd_bits64_bits: "\<forall>i<32. bit (compact_odd_bits64 n) i \<longleftrightarrow> bit n (2 * i)"
  unfolding compact_odd_bits64_def Let_def
  by (simp only: unroll_less, intro conjI)
    (simp_all only: bit_unfold, simp_all add: bit_0 numeral_2_eq_2 [symmetric])

lemma masked_or_less:
  fixes y m1 m2 :: nat
  assumes "drop_bit s m1 < 2 ^ k" "m2 < 2 ^ k"
  shows "drop_bit s (y AND m1) OR (y AND m2) < 2 ^ k"
  using assms by (simp add: less_exp_iff_bits bit_unfold)

lemma compact_odd_bits32_less: "compact_odd_bits32 n < 2 ^ 16"
  unfolding compact_odd_bits32_def Let_def by (rule masked_or_less) simp_all

lemma compact_odd_bits64_less: "compact_odd_bits64 n < 2 ^ 32"
  unfolding compact_odd_bits64_def Let_def by (rule masked_or_less) simp_all

lemma interleave_bits32_bits:
  assumes "a < 2 ^ 16" "b < 2 ^ 16" "i < 32"
  shows "bit (interleave_bits32 a b) i \<longleftrightarrow> (if even i then bit a (i div 2) else bit b (i div 2))"
  using spread32_bits [OF assms(1)] spread32_bits [OF assms(2)] assms(3)
  by (cases i) (auto simp: interleave_bits32_def bit_unfold elim!: oddE simp del: push_bit_Suc push_bit_of_1
    One_nat_def)

lemma interleave_bits64_bits:
  assumes "a < 2 ^ 32" "b < 2 ^ 32" "i < 64"
  shows "bit (interleave_bits64 a b) i \<longleftrightarrow> (if even i then bit a (i div 2) else bit b (i div 2))"
  using spread64_bits [OF assms(1)] spread64_bits [OF assms(2)] assms(3)
  by (cases i) (auto simp: interleave_bits64_def bit_unfold elim!: oddE simp del: push_bit_Suc push_bit_of_1
    One_nat_def)

lemma interleave_compact32:
  assumes "a < 2 ^ 16" "b < 2 ^ 16"
  shows "compact_odd_bits32 (interleave_bits32 a b) = a" "compact_even_bits32 (interleave_bits32 a b) = b"
proof -
  have hi: "\<not> bit x i" if "x < 2 ^ 16" "\<not> i < 16" for x i :: nat
    using bit_less_width that by blast
  show "compact_odd_bits32 (interleave_bits32 a b) = a"
  proof (rule bit_eqI)
    fix i show "bit (compact_odd_bits32 (interleave_bits32 a b)) i = bit a i"
      using compact_odd_bits32_bits hi [OF compact_odd_bits32_less] hi [OF assms(1)]
      by (cases "i < 16") (simp_all add: interleave_bits32_bits [OF assms])
  qed
  show "compact_even_bits32 (interleave_bits32 a b) = b"
  proof (rule bit_eqI)
    fix i show "bit (compact_even_bits32 (interleave_bits32 a b)) i = bit b i"
      using compact_odd_bits32_bits hi [OF compact_odd_bits32_less] hi [OF assms(2)]
      by (cases "i < 16") (simp_all add: compact_even_bits32_def interleave_bits32_bits [OF assms] bit_drop_bit_eq)
  qed
qed

lemma interleave_compact64:
  assumes "a < 2 ^ 32" "b < 2 ^ 32"
  shows "compact_odd_bits64 (interleave_bits64 a b) = a" "compact_even_bits64 (interleave_bits64 a b) = b"
proof -
  have hi: "\<not> bit x i" if "x < 2 ^ 32" "\<not> i < 32" for x i :: nat
    using bit_less_width that by blast
  show "compact_odd_bits64 (interleave_bits64 a b) = a"
  proof (rule bit_eqI)
    fix i show "bit (compact_odd_bits64 (interleave_bits64 a b)) i = bit a i"
      using compact_odd_bits64_bits hi [OF compact_odd_bits64_less] hi [OF assms(1)]
      by (cases "i < 32") (simp_all add: interleave_bits64_bits [OF assms])
  qed
  show "compact_even_bits64 (interleave_bits64 a b) = b"
  proof (rule bit_eqI)
    fix i show "bit (compact_even_bits64 (interleave_bits64 a b)) i = bit b i"
      using compact_odd_bits64_bits hi [OF compact_odd_bits64_less] hi [OF assms(2)]
      by (cases "i < 32") (simp_all add: compact_even_bits64_def interleave_bits64_bits [OF assms] bit_drop_bit_eq)
  qed
qed

section \<open>Properties\<close>

lemma popcount_card: "n < 2 ^ k \<Longrightarrow> popcount n = card {i. i < k \<and> bit n i}"
proof (induction k arbitrary: n)
  case (Suc k)
  have d: "n div 2 < 2 ^ k" using Suc.prems by simp
  have "{i. i < Suc k \<and> bit n i} = {i. i = 0 \<and> odd n} \<union> Suc ` {i. i < k \<and> bit (n div 2) i}"
    by (auto simp: bit_Suc image_iff less_Suc_eq_0_disj bit_0)
  also have "card \<dots> = card {i::nat. i = 0 \<and> odd n} + card (Suc ` {i. i < k \<and> bit (n div 2) i})"
    by (intro card_Un_disjoint) auto
  also have "\<dots> = n mod 2 + popcount (n div 2)"
    using Suc.IH [OF d] by (cases "odd n") (auto simp: card_image odd_iff_mod_2_eq_one)
  finally show ?case by (simp add: popcount_unfold [of n])
qed simp

text \<open>
  \<open>ones\<close> on both word sizes: the masked additions never overflow and the result is the
  number of one bits of the word.
\<close>

theorem ones_counts_bits:
  assumes "n < usize_lim w"
  shows "ones w n = Some (card {i. i < word_bits w \<and> bit n i})"
  using ones_correct [OF assms] popcount_card [OF assms] by simp

theorem ones_counts_bits_witness:
  "ones W32 0xff = Some (card {i. i < 32 \<and> bit (0xff::nat) i})"
  using ones_counts_bits [of "0xff" W32] by simp

text \<open>
  \<open>floor_log2\<close> and \<open>ceil_log2\<close> on both word sizes return, without a panic, the exponents of
  the largest power of two that is at most the number and of the smallest one that is at least it.
\<close>

theorem logs_correct:
  assumes "0 < n" "n < usize_lim w"
  shows "\<exists>f c. floor_log2 w n = Some f \<and> ceil_log2 w n = Some c \<and> 2 ^ f \<le> n \<and> n < 2 ^ Suc f
    \<and> n \<le> 2 ^ c \<and> (\<forall>k. n \<le> 2 ^ k \<longrightarrow> c \<le> k)"
  using floor_log2_correct [OF assms(2)] ceil_log2_correct [OF assms(2)] ilog2_bounds [OF assms(1)] clog2_ge [of n] clog2_least
  by blast

theorem logs_correct_witness:
  "\<exists>f c. floor_log2 W64 1000 = Some f \<and> ceil_log2 W64 1000 = Some c \<and> 2 ^ f \<le> (1000::nat) \<and> 1000 \<le> (2::nat) ^ c"
  using logs_correct [of 1000 W64] by auto

text \<open>
  Alignment to a power of two: \<open>align_down\<close> is the largest multiple that is at most the
  address, \<open>align_up\<close> the smallest one that is at least it, or a panic exactly when adding
  \<open>boundary - 1\<close> overflows, and \<open>is_aligned\<close> tests divisibility.
\<close>

theorem alignment_correct:
  assumes "a < usize_lim w" "k < word_bits w"
  shows "(\<exists>d. align_down w a (2 ^ k) = Some d \<and> 2 ^ k dvd d \<and> d \<le> a \<and> a < d + 2 ^ k)
    \<and> (align_up w a (2 ^ k) = None \<longleftrightarrow> usize_lim w < a + 2 ^ k)
    \<and> (\<forall>u. align_up w a (2 ^ k) = Some u \<longrightarrow> 2 ^ k dvd u \<and> a \<le> u \<and> u < a + 2 ^ k)
    \<and> is_aligned w a (2 ^ k) = Some (2 ^ k dvd a)"
proof (intro conjI allI impI)
  have le: "x div 2 ^ k * 2 ^ k \<le> x" for x :: nat by simp
  have gt: "x < x div 2 ^ k * 2 ^ k + 2 ^ k" for x :: nat
    using mod_less_divisor [of "2 ^ k" x] by (subst (1) div_mult_mod_eq [of x "2 ^ k", symmetric]) simp
  show "\<exists>d. align_down w a (2 ^ k) = Some d \<and> 2 ^ k dvd d \<and> d \<le> a \<and> a < d + 2 ^ k"
    using gt [of a] by (simp add: align_down_eq [OF assms])
  have m: "mask k + 1 = (2::nat) ^ k" by (simp add: mask_eq_exp_minus_1)
  show "align_up w a (2 ^ k) = None \<longleftrightarrow> usize_lim w < a + 2 ^ k"
    unfolding align_up_eq [OF assms(2)] using m by auto
  fix u assume "align_up w a (2 ^ k) = Some u"
  then have u: "u = (a + mask k) div 2 ^ k * 2 ^ k" by (simp add: align_up_eq [OF assms(2)] split: if_splits)
  show "2 ^ k dvd u" by (simp add: u)
  show "a \<le> u" "u < a + 2 ^ k"
    using le [of "a + mask k"] gt [of "a + mask k"] m unfolding u by linarith+
qed (rule is_aligned_eq [OF assms])

theorem alignment_correct_witness:
  "align_up W32 0xfffff001 (2 ^ 12) = None \<and> is_aligned W32 0xfffff001 (2 ^ 12) = Some False"
proof -
  have "(0xfffff001::nat) < usize_lim W32" "12 < word_bits W32" by simp_all
  note c = alignment_correct [OF this]
  have "\<not> (2::nat) ^ 12 dvd 0xfffff001" by simp
  with c show ?thesis by simp
qed

text \<open>
  Interleaving and compaction are inverse: for two half-words, the odd and even compactions
  of the interleaved word (bits counted from one, as in the code) return the two halves, on both
  word sizes.
\<close>

theorem interleave_roundtrip:
  assumes "a < 2 ^ (word_bits w div 2)" "b < 2 ^ (word_bits w div 2)"
  shows "case w of
      W32 \<Rightarrow> compact_odd_bits32 (interleave_bits32 a b) = a \<and> compact_even_bits32 (interleave_bits32 a b) = b
    | W64 \<Rightarrow> compact_odd_bits64 (interleave_bits64 a b) = a \<and> compact_even_bits64 (interleave_bits64 a b) = b"
proof (cases w)
  case W32
  then show ?thesis using assms interleave_compact32 [of a b] by simp
next
  case W64
  then show ?thesis using assms interleave_compact64 [of a b] by simp
qed

theorem interleave_roundtrip_witness:
  "compact_odd_bits32 (interleave_bits32 0xabcd 0x1234) = 0xabcd \<and> compact_even_bits32 (interleave_bits32 0xabcd 0x1234) = 0x1234"
  using interleave_roundtrip [of "0xabcd" W32 "0x1234"] by simp

end
