(* ===== verification/Ranges.thy ===== *)
theory Ranges
  imports Bits
begin

text \<open>
  \<open>src/support/range.rs\<close>: contiguous address ranges, their comparison, and the two ways of
  cutting a range. A range is valid (\<open>range_ok\<close>) when it is not empty and its last address is
  a machine address; \<open>addrs\<close> is the set of addresses it stands for, and the lemmas describe
  each operation by what it does to that set.
\<close>

section \<open>Data\<close>

datatype range_ordering =
  Less | LessEqual | GreaterEqual | Greater | Equal | Superset | Subset

record 'tag range =
  r_tag :: 'tag
  r_base :: usize
  r_size :: usize

section \<open>Operations\<close>

definition range_cmp :: "width \<Rightarrow> 'tag range \<Rightarrow> 'tag range \<Rightarrow> range_ordering option option" where
  "range_cmp w self rhs =
     (if r_size self = 0 \<or> r_size rhs = 0 then Some None
      else do {
        l \<leftarrow> usub (r_size self) 1;
        lhs_end \<leftarrow> uadd w (r_base self) l;
        r \<leftarrow> usub (r_size rhs) 1;
        rhs_end \<leftarrow> uadd w (r_base rhs) r;
        Some (Some
          (if r_base self = r_base rhs \<and> r_size self = r_size rhs then Equal
           else if lhs_end < r_base rhs then Less
           else if rhs_end < r_base self then Greater
           else if r_base self \<le> r_base rhs \<and> rhs_end \<le> lhs_end then Superset
           else if r_base rhs \<le> r_base self \<and> lhs_end \<le> rhs_end then Subset
           else if r_base self < r_base rhs then LessEqual
           else GreaterEqual)) })"

text \<open>
  \<open>Result<(Option<Self>, Option<Self>), ()>\<close>: the outer \<open>option\<close> is the panic, \<open>Inl ()\<close>
  the \<open>Err(())\<close>.
\<close>

definition range_exclude ::
  "width \<Rightarrow> 'tag range \<Rightarrow> 'tag range \<Rightarrow> (unit + 'tag range option \<times> 'tag range option) option" where
  "range_exclude w self excl = do {
     cmp \<leftarrow> range_cmp w self excl;
     case cmp of
       None \<Rightarrow> Some (Inl ())
     | Some order \<Rightarrow>
         if order = Less \<or> order = Greater then Some (Inr (Some self, None))
         else if order = Equal \<or> order = Subset then Some (Inr (None, None))
         else do {
           m \<leftarrow> usub (r_size self) 1;
           my_end \<leftarrow> uadd w (r_base self) m;
           e \<leftarrow> usub (r_size excl) 1;
           excl_end \<leftarrow> uadd w (r_base excl) e;
           a \<leftarrow> (if order = LessEqual \<or> order = Superset
                 then do {
                   sz \<leftarrow> usub (r_base excl) (r_base self);
                   Some (Some \<lparr>r_tag = r_tag self, r_base = r_base self, r_size = sz\<rparr>) }
                 else Some None);
           b \<leftarrow> (if order = GreaterEqual \<or> order = Superset
                 then do {
                   nb \<leftarrow> uadd w excl_end 1;
                   sz \<leftarrow> usub my_end excl_end;
                   Some (Some \<lparr>r_tag = r_tag self, r_base = nb, r_size = sz\<rparr>) }
                 else Some None);
           Some (Inr (a, b)) } }"

definition range_split ::
  "width \<Rightarrow> 'tag range \<Rightarrow> usize \<Rightarrow> (unit + 'tag range option \<times> 'tag range option) option" where
  "range_split w self at =
     (if r_size self = 0 then Some (Inl ())
      else do {
        m \<leftarrow> usub (r_size self) 1;
        my_end \<leftarrow> uadd w (r_base self) m;
        if at \<le> r_base self then Some (Inr (None, Some self))
        else if at > my_end then Some (Inr (Some self, None))
        else do {
          lo \<leftarrow> usub at (r_base self);
          d \<leftarrow> usub my_end at;
          hi \<leftarrow> uadd w d 1;
          Some (Inr
            (Some \<lparr>r_tag = r_tag self, r_base = r_base self, r_size = lo\<rparr>,
             Some \<lparr>r_tag = r_tag self, r_base = at, r_size = hi\<rparr>)) } })"

section \<open>Meaning\<close>

definition range_ok :: "width \<Rightarrow> 'tag range \<Rightarrow> bool" where
  "range_ok w r \<longleftrightarrow> 0 < r_size r \<and> r_base r + r_size r \<le> usize_lim w"

definition addrs :: "'tag range \<Rightarrow> nat set" where
  "addrs r = {r_base r ..< r_base r + r_size r}"

definition opt_addrs :: "'tag range option \<Rightarrow> nat set" where
  "opt_addrs x = (case x of None \<Rightarrow> {} | Some r \<Rightarrow> addrs r)"

lemma opt_addrs_simps [simp]: "opt_addrs None = {}" "opt_addrs (Some r) = addrs r"
  by (simp_all add: opt_addrs_def)

lemma addrs_empty_iff [simp]: "addrs r = {} \<longleftrightarrow> r_size r = 0"
  by (simp add: addrs_def)

lemma range_ok_size [simp, dest]: "range_ok w r \<Longrightarrow> 0 < r_size r"
  by (simp add: range_ok_def)

lemma addrs_bound: "range_ok w r \<Longrightarrow> a \<in> addrs r \<Longrightarrow> a < usize_lim w"
  by (auto simp: range_ok_def addrs_def)

text \<open>The seven orderings as relations between the address sets.\<close>

fun ordering_holds :: "range_ordering \<Rightarrow> 'tag range \<Rightarrow> 'tag range \<Rightarrow> bool" where
  "ordering_holds Less a b \<longleftrightarrow> (\<forall>x\<in>addrs a. \<forall>y\<in>addrs b. x < y)"
| "ordering_holds Greater a b \<longleftrightarrow> (\<forall>x\<in>addrs a. \<forall>y\<in>addrs b. y < x)"
| "ordering_holds Equal a b \<longleftrightarrow> addrs a = addrs b"
| "ordering_holds Superset a b \<longleftrightarrow> addrs b \<subset> addrs a"
| "ordering_holds Subset a b \<longleftrightarrow> addrs a \<subset> addrs b"
| "ordering_holds LessEqual a b \<longleftrightarrow> addrs a \<inter> addrs b \<noteq> {} \<and> \<not> addrs a \<subseteq> addrs b \<and>
     \<not> addrs b \<subseteq> addrs a \<and> r_base a < r_base b"
| "ordering_holds GreaterEqual a b \<longleftrightarrow> addrs a \<inter> addrs b \<noteq> {} \<and> \<not> addrs a \<subseteq> addrs b \<and>
     \<not> addrs b \<subseteq> addrs a \<and> r_base b < r_base a"

lemma range_ok_end [simp]: "range_ok w r \<Longrightarrow> r_base r + (r_size r - 1) < usize_lim w"
  by (auto simp: range_ok_def)

definition ordering_of :: "'tag range \<Rightarrow> 'tag range \<Rightarrow> range_ordering" where
  "ordering_of a b =
     (if r_base a = r_base b \<and> r_size a = r_size b then Equal
      else if r_base a + r_size a \<le> r_base b then Less
      else if r_base b + r_size b \<le> r_base a then Greater
      else if r_base a \<le> r_base b \<and> r_base b + r_size b \<le> r_base a + r_size a then Superset
      else if r_base b \<le> r_base a \<and> r_base a + r_size a \<le> r_base b + r_size b then Subset
      else if r_base a < r_base b then LessEqual
      else GreaterEqual)"

lemma range_cmp_eq:
  assumes "range_ok w a" "range_ok w b"
  shows "range_cmp w a b = Some (Some (ordering_of a b))"
proof -
  have "\<And>x. r_base a + (r_size a - 1) < x \<longleftrightarrow> r_base a + r_size a \<le> x"
    "\<And>x. r_base b + (r_size b - 1) < x \<longleftrightarrow> r_base b + r_size b \<le> x"
    "r_base b + (r_size b - 1) \<le> r_base a + (r_size a - 1) \<longleftrightarrow> r_base b + r_size b \<le> r_base a + r_size a"
    "r_base a + (r_size a - 1) \<le> r_base b + (r_size b - 1) \<longleftrightarrow> r_base a + r_size a \<le> r_base b + r_size b"
    using assms by (auto simp: range_ok_def)
  moreover have "uadd w (r_base a) (r_size a - 1) = Some (r_base a + (r_size a - 1))"
    "uadd w (r_base b) (r_size b - 1) = Some (r_base b + (r_size b - 1))"
    "usub (r_size a) 1 = Some (r_size a - 1)" "usub (r_size b) 1 = Some (r_size b - 1)"
    "r_size a \<noteq> 0" "r_size b \<noteq> 0"
    using assms range_ok_end [OF assms(1)] range_ok_end [OF assms(2)] by (auto simp: range_ok_def)
  ultimately show ?thesis
    by (simp only: range_cmp_def ordering_of_def bind.simps if_False simp_thms)
qed

lemma interval_subset_iff: "i < j \<Longrightarrow> {i..<j} \<subseteq> {k..<l} \<longleftrightarrow> k \<le> i \<and> j \<le> l" for i j k l :: nat
  using atLeastLessThan_subset_iff [of i j k l] by auto

lemma addrs_subset_iff:
  "0 < r_size a \<Longrightarrow> addrs a \<subseteq> addrs b \<longleftrightarrow> r_base b \<le> r_base a \<and> r_base a + r_size a \<le> r_base b + r_size b"
  by (simp add: addrs_def interval_subset_iff)

lemma addrs_eq_iff:
  "0 < r_size a \<Longrightarrow> 0 < r_size b \<Longrightarrow> addrs a = addrs b \<longleftrightarrow> r_base a = r_base b \<and> r_size a = r_size b"
  by (auto simp: set_eq_subset addrs_subset_iff)

lemma addrs_inter_iff:
  "0 < r_size a \<Longrightarrow> 0 < r_size b \<Longrightarrow>
     addrs a \<inter> addrs b \<noteq> {} \<longleftrightarrow> r_base a < r_base b + r_size b \<and> r_base b < r_base a + r_size a"
  by (auto simp: addrs_def)

lemma addrs_before_iff:
  assumes "0 < r_size a" "0 < r_size b"
  shows "(\<forall>x\<in>addrs a. \<forall>y\<in>addrs b. x < y) \<longleftrightarrow> r_base a + r_size a \<le> r_base b"
proof
  assume "\<forall>x\<in>addrs a. \<forall>y\<in>addrs b. x < y"
  moreover have "r_base a + (r_size a - 1) \<in> addrs a" "r_base b \<in> addrs b"
    using assms by (auto simp: addrs_def)
  ultimately have "r_base a + (r_size a - 1) < r_base b" by blast
  with assms show "r_base a + r_size a \<le> r_base b" by simp
qed (auto simp: addrs_def)

lemma ordering_of_holds:
  assumes "0 < r_size a" "0 < r_size b"
  shows "ordering_holds c a b \<longleftrightarrow> c = ordering_of a b"
proof -
  have gt: "(\<forall>x\<in>addrs a. \<forall>y\<in>addrs b. y < x) \<longleftrightarrow> r_base b + r_size b \<le> r_base a"
    using addrs_before_iff [OF assms(2,1)] by blast
  show ?thesis
    using assms
    by (cases c) (simp_all only: ordering_holds.simps addrs_before_iff gt addrs_eq_iff psubset_eq addrs_subset_iff
      addrs_inter_iff, auto simp: ordering_of_def)
qed

lemma addrs_split: "0 < r_size r \<Longrightarrow> addrs r = {r_base r .. r_base r + (r_size r - 1)}"
  by (auto simp: addrs_def)

section \<open>Exclusion and splitting\<close>

text \<open>
  \<open>exclude_parts\<close> is the pair of the pieces to the left and to the right of the hole; \<open>exclude\<close>
  computes it unless the hole ends with the address space, which overflows \<open>excl_end + 1\<close>.
\<close>

definition exclude_parts :: "'tag range \<Rightarrow> 'tag range \<Rightarrow> 'tag range option \<times> 'tag range option" where
  "exclude_parts r e =
     (case ordering_of r e of
        Less \<Rightarrow> (Some r, None)
      | Greater \<Rightarrow> (Some r, None)
      | Equal \<Rightarrow> (None, None)
      | Subset \<Rightarrow> (None, None)
      | LessEqual \<Rightarrow> (Some (r\<lparr>r_size := r_base e - r_base r\<rparr>), None)
      | GreaterEqual \<Rightarrow>
          (None, Some (r\<lparr>r_base := r_base e + r_size e, r_size := r_base r + r_size r - (r_base e + r_size e)\<rparr>))
      | Superset \<Rightarrow>
          (Some (r\<lparr>r_size := r_base e - r_base r\<rparr>),
           Some (r\<lparr>r_base := r_base e + r_size e, r_size := r_base r + r_size r - (r_base e + r_size e)\<rparr>)))"

definition exclude_overflows :: "width \<Rightarrow> 'tag range \<Rightarrow> 'tag range \<Rightarrow> bool" where
  "exclude_overflows w r e \<longleftrightarrow> ordering_of r e = Superset \<and> r_base e + r_size e = usize_lim w"

lemma range_exclude_eq:
  assumes "range_ok w r" "range_ok w e"
  shows "range_exclude w r e = (if exclude_overflows w r e then None else Some (Inr (exclude_parts r e)))"
proof -
  have fields: "\<lparr>r_tag = r_tag r, r_base = b, r_size = s\<rparr> = r\<lparr>r_base := b, r_size := s\<rparr>" for b s
    by simp
  note ok = assms [unfolded range_ok_def] range_ok_end [OF assms(1)] range_ok_end [OF assms(2)]
  have e1: "uadd w (r_base e + (r_size e - 1)) 1 =
      (if r_base e + r_size e = usize_lim w then None else Some (r_base e + r_size e))"
    using ok by (auto simp: uadd_def)
  show ?thesis
    using ok
    by (cases "ordering_of r e")
      (simp_all add: range_exclude_def range_cmp_eq [OF assms] exclude_parts_def exclude_overflows_def e1,
       simp_all add: ordering_of_def split: if_splits)
qed

lemma exclude_parts_addrs:
  assumes "0 < r_size r" "0 < r_size e"
  shows "opt_addrs (fst (exclude_parts r e)) \<union> opt_addrs (snd (exclude_parts r e)) = addrs r - addrs e"
proof (cases "ordering_of r e")
qed (use assms in \<open>auto simp: exclude_parts_def ordering_of_def addrs_def split: if_splits\<close>)

lemma exclude_parts_tag:
  "fst (exclude_parts r e) = Some a \<Longrightarrow> r_tag a = r_tag r"
  "snd (exclude_parts r e) = Some b \<Longrightarrow> r_tag b = r_tag r"
  by (auto simp: exclude_parts_def split: range_ordering.splits)

lemma exclude_parts_bounds:
  assumes "0 < r_size r" "0 < r_size e"
  shows "fst (exclude_parts r e) = Some a \<Longrightarrow> r_base a = r_base r \<and> r_size a \<le> r_size r"
    "snd (exclude_parts r e) = Some b \<Longrightarrow>
       r_base r < r_base b \<and> r_base b + r_size b = r_base r + r_size r"
    "fst (exclude_parts r e) = Some a \<Longrightarrow> snd (exclude_parts r e) = Some b \<Longrightarrow>
       r_base a + r_size a \<le> r_base b"
  using assms by (auto simp: exclude_parts_def ordering_of_def split: if_splits)

lemma exclude_parts_disjoint:
  assumes "0 < r_size r" "0 < r_size e"
  shows "opt_addrs (fst (exclude_parts r e)) \<inter> opt_addrs (snd (exclude_parts r e)) = {}"
proof (cases "fst (exclude_parts r e)")
  case (Some a)
  note a = Some
  show ?thesis
  proof (cases "snd (exclude_parts r e)")
    case (Some b)
    have "r_base a + r_size a \<le> r_base b" by (rule exclude_parts_bounds(3) [OF assms a Some])
    then show ?thesis by (auto simp: a Some addrs_def)
  qed simp
qed simp

lemma exclude_overflows_iff:
  assumes "range_ok w r" "range_ok w e"
  shows "exclude_overflows w r e \<longleftrightarrow> addrs e \<subset> addrs r \<and> usize_max w \<in> addrs e"
proof -
  have "ordering_of r e = Superset \<longleftrightarrow> addrs e \<subset> addrs r"
    using ordering_of_holds [of r e Superset] assms by (auto simp: range_ok_size)
  moreover have "r_base e + r_size e = usize_lim w \<longleftrightarrow> usize_max w \<in> addrs e"
    using assms(2) by (auto simp: range_ok_def addrs_def usize_max_def)
  ultimately show ?thesis by (simp add: exclude_overflows_def)
qed

text \<open>
  \<open>split_parts\<close> is the pair of the pieces below and above the split point, an absent piece being
  the empty one.
\<close>

definition split_parts :: "'tag range \<Rightarrow> usize \<Rightarrow> 'tag range option \<times> 'tag range option" where
  "split_parts r at =
     (if at \<le> r_base r then (None, Some r)
      else if r_base r + r_size r \<le> at then (Some r, None)
      else (Some (r\<lparr>r_size := at - r_base r\<rparr>), Some (r\<lparr>r_base := at, r_size := r_base r + r_size r - at\<rparr>)))"

lemma range_split_eq:
  assumes "range_ok w r"
  shows "range_split w r at = Some (Inr (split_parts r at))"
  using assms range_ok_end [OF assms]
  by (auto simp: range_split_def split_parts_def range_ok_def)

lemma split_parts_addrs:
  assumes "split_parts r at = (lo, hi)"
  shows "opt_addrs lo = {x \<in> addrs r. x < at}" "opt_addrs hi = {x \<in> addrs r. at \<le> x}"
  using assms by (auto simp: split_parts_def addrs_def split: if_splits)

lemma split_parts_ok:
  assumes "range_ok w r" "split_parts r at = (lo, hi)"
  shows "lo = Some l \<Longrightarrow> range_ok w l \<and> r_tag l = r_tag r" "hi = Some h \<Longrightarrow> range_ok w h \<and> r_tag h = r_tag r"
  using assms by (auto simp: split_parts_def range_ok_def split: if_splits)

section \<open>Properties\<close>

text \<open>
  \<open>Range::cmp\<close> classifies: on two valid ranges it returns an ordering without a
  panic, and that ordering is the only one of the seven whose documented meaning, read as a
  relation between the two address sets, holds.
\<close>

theorem range_cmp_classifies:
  assumes "range_ok w a" "range_ok w b"
  shows "\<exists>c. range_cmp w a b = Some (Some c) \<and> (\<forall>d. ordering_holds d a b \<longleftrightarrow> d = c)"
  using assms by (auto simp: range_cmp_eq ordering_of_holds)

theorem range_cmp_classifies_witness:
  "\<exists>c. range_cmp W32 \<lparr>r_tag = (), r_base = 0x1000, r_size = 0x3000\<rparr> \<lparr>r_tag = (), r_base = 0x2000, r_size = 0x1000\<rparr> =
       Some (Some c) \<and> c = Superset"
proof -
  let ?a = "\<lparr>r_tag = (), r_base = 0x1000, r_size = 0x3000\<rparr>"
  let ?b = "\<lparr>r_tag = (), r_base = 0x2000, r_size = 0x1000\<rparr>"
  have "range_ok W32 ?a" "range_ok W32 ?b" by (simp_all add: range_ok_def)
  from range_cmp_classifies [OF this] obtain c where
    c: "range_cmp W32 ?a ?b = Some (Some c)" "\<And>d. ordering_holds d ?a ?b \<longleftrightarrow> d = c" by blast
  have "ordering_holds Superset ?a ?b" by (simp add: psubset_eq addrs_subset_iff addrs_eq_iff)
  then show ?thesis using c(1) c(2) [of Superset] by simp
qed

text \<open>
  \<open>Range::exclude\<close> removes exactly the excluded addresses: on valid ranges whose
  exclusion is not a proper part of the range that ends at the top of the address space, it returns two pieces that together
  hold the addresses of the range outside the exclusion, do not overlap, and keep the tag.
\<close>

theorem range_exclude_removes:
  assumes "range_ok w r" "range_ok w e" "\<not> (addrs e \<subset> addrs r \<and> usize_max w \<in> addrs e)"
  shows "\<exists>a b. range_exclude w r e = Some (Inr (a, b))
    \<and> opt_addrs a \<union> opt_addrs b = addrs r - addrs e \<and> opt_addrs a \<inter> opt_addrs b = {}
    \<and> pred_option (\<lambda>x. r_tag x = r_tag r) a \<and> pred_option (\<lambda>x. r_tag x = r_tag r) b"
proof -
  obtain a b where ab: "exclude_parts r e = (a, b)" by fastforce
  have "\<not> exclude_overflows w r e"
    using assms(3) by (simp add: exclude_overflows_iff [OF assms(1,2)])
  then have "range_exclude w r e = Some (Inr (a, b))"
    using range_exclude_eq [OF assms(1,2)] ab by simp
  moreover have "opt_addrs a \<union> opt_addrs b = addrs r - addrs e"
    using exclude_parts_addrs [of r e] assms ab by (simp add: range_ok_size)
  moreover have "opt_addrs a \<inter> opt_addrs b = {}"
    using exclude_parts_disjoint [of r e] assms ab by (simp add: range_ok_size)
  moreover have "pred_option (\<lambda>x. r_tag x = r_tag r) a"
    using exclude_parts_tag(1) [of r e] ab by (cases a) simp_all
  moreover have "pred_option (\<lambda>x. r_tag x = r_tag r) b"
    using exclude_parts_tag(2) [of r e] ab by (cases b) simp_all
  ultimately show ?thesis by blast
qed

theorem range_exclude_removes_witness:
  "\<exists>a b. range_exclude W64 \<lparr>r_tag = (), r_base = 0, r_size = 0x4000\<rparr> \<lparr>r_tag = (), r_base = 0x1000, r_size = 0x1000\<rparr> =
     Some (Inr (a, b)) \<and> opt_addrs a \<union> opt_addrs b = {0..<0x4000} - {0x1000..<0x2000}"
  using range_exclude_removes [of W64 "\<lparr>r_tag = (), r_base = 0, r_size = 0x4000\<rparr>" "\<lparr>r_tag = (), r_base = 0x1000, r_size = 0x1000\<rparr>"]
  by (simp add: range_ok_def addrs_def usize_max_def) blast

text \<open>
  The one panic of \<open>exclude\<close> on valid ranges: it happens exactly when the exclusion
  is a proper part of the range and holds the top address, because \<open>excl_end + 1\<close> overflows. The
  kernel excludes \<open>[virtual_base, usize::MAX]\<close> at boot, so a memory range that starts below
  the virtual base and reaches the top address panics there.
\<close>

theorem range_exclude_panics_iff:
  assumes "range_ok w r" "range_ok w e"
  shows "range_exclude w r e = None \<longleftrightarrow> addrs e \<subset> addrs r \<and> usize_max w \<in> addrs e"
  using assms by (simp add: range_exclude_eq exclude_overflows_iff)

theorem range_exclude_panics_iff_witness:
  "range_exclude W32 \<lparr>r_tag = (), r_base = 0x40000000, r_size = 0xc0000000\<rparr>
     \<lparr>r_tag = (), r_base = 0xc0000000, r_size = 0x40000000\<rparr> = None"
  by (subst range_exclude_panics_iff)
    (simp_all add: range_ok_def psubset_eq addrs_subset_iff addrs_eq_iff, simp add: addrs_def usize_max_def)

text \<open>
  \<open>Range::split\<close> cuts at the split point: on a valid range it returns, without a
  panic, the addresses below the point and those from the point on, each as a valid range with
  the tag of the original or as an absent part.
\<close>

theorem range_split_partitions:
  assumes "range_ok w r"
  shows "\<exists>lo hi. range_split w r at = Some (Inr (lo, hi))
    \<and> opt_addrs lo = {x \<in> addrs r. x < at} \<and> opt_addrs hi = {x \<in> addrs r. at \<le> x}
    \<and> pred_option (\<lambda>x. range_ok w x \<and> r_tag x = r_tag r) lo
    \<and> pred_option (\<lambda>x. range_ok w x \<and> r_tag x = r_tag r) hi"
proof -
  obtain lo hi where p: "split_parts r at = (lo, hi)" by fastforce
  with range_split_eq [OF assms] have "range_split w r at = Some (Inr (lo, hi))" by simp
  moreover have "pred_option (\<lambda>x. range_ok w x \<and> r_tag x = r_tag r) lo"
    using split_parts_ok(1) [OF assms p] by (cases lo) simp_all
  moreover have "pred_option (\<lambda>x. range_ok w x \<and> r_tag x = r_tag r) hi"
    using split_parts_ok(2) [OF assms p] by (cases hi) simp_all
  ultimately show ?thesis using split_parts_addrs [OF p] by blast
qed

theorem range_split_partitions_witness:
  "\<exists>lo hi. range_split W32 \<lparr>r_tag = (), r_base = 0x1000, r_size = 0x3000\<rparr> 0x2000 = Some (Inr (lo, hi))
    \<and> opt_addrs lo = {x \<in> {0x1000..<0x4000}. x < 0x2000}"
  using range_split_partitions [of W32 "\<lparr>r_tag = (), r_base = 0x1000, r_size = 0x3000\<rparr>" "0x2000"]
  by (simp add: range_ok_def) (auto simp: addrs_def)

end
