(* ===== verification/Range_Sets.thy ===== *)
theory Range_Sets
  imports Ranges
begin

text \<open>
  \<open>src/support/range_set.rs\<close>: the fixed-size, ordered set of ranges that holds the memory map
  while the kernel boots. The array and the count are kept as the code keeps them; \<open>live\<close> is
  the list of ranges the set stands for, and the lemmas say what every operation does to it.
  \<open>SET_SIZE\<close> is the length of the array.
\<close>

section \<open>Data and operations\<close>

record 'tag range_set =
  rs_ranges :: "'tag range list"
  rs_count :: usize

definition range_set_new :: "usize \<Rightarrow> 'tag \<Rightarrow> 'tag range_set" where
  "range_set_new set_size default_tag =
     \<lparr>rs_ranges = replicate set_size \<lparr>r_tag = default_tag, r_base = 0, r_size = 0\<rparr>, rs_count = 0\<rparr>"

definition rs_clear :: "'tag range_set \<Rightarrow> 'tag range_set" where
  "rs_clear s = s\<lparr>rs_count := 0\<rparr>"

definition rs_is_empty :: "'tag range_set \<Rightarrow> bool" where
  "rs_is_empty s \<longleftrightarrow> rs_count s = 0"

definition rs_len :: "'tag range_set \<Rightarrow> usize" where
  "rs_len s = rs_count s"

definition get_ranges :: "'tag range_set \<Rightarrow> 'tag range list option" where
  "get_ranges s = (if rs_count s \<le> length (rs_ranges s) then Some (take (rs_count s) (rs_ranges s)) else None)"

text \<open>The search loop of \<open>insert_range\<close>: the first index from \<open>i\<close> on whose base is above.\<close>

function ins_pos :: "'tag range_set \<Rightarrow> usize \<Rightarrow> usize \<Rightarrow> usize option" where
  "ins_pos s base i =
     (if i < rs_count s
      then do {
        r \<leftarrow> idx (rs_ranges s) i;
        if base < r_base r then Some i else ins_pos s base (i + 1) }
      else Some (rs_count s))"
  by pat_completeness auto
termination by (relation "measure (\<lambda>(s, base, i). rs_count s - i)") auto

definition insert_range :: "width \<Rightarrow> 'tag range_set \<Rightarrow> 'tag range \<Rightarrow> ('tag range_set \<times> bool) option" where
  "insert_range w s r =
     (if rs_count s \<ge> length (rs_ranges s) then Some (s, False)
      else do {
        bad \<leftarrow> (if r_size r = 0 then Some True
                else do {
                  d \<leftarrow> usub (usize_max w) (r_size r);
                  d1 \<leftarrow> uadd w d 1;
                  Some (d1 < r_base r) });
        if bad then Some (s, False)
        else do {
          ins \<leftarrow> ins_pos s (r_base r) 0;
          rs \<leftarrow> copy_within (rs_ranges s) ins (rs_count s) (ins + 1);
          rs \<leftarrow> upd rs ins r;
          Some (\<lparr>rs_ranges = rs, rs_count = rs_count s + 1\<rparr>, True) } })"

text \<open>
  One iteration of the loop of \<open>exclude_range\<close> at index \<open>i\<close>: the set and the next index, or
  \<open>Inl ()\<close> for the early \<open>return\<close>.
\<close>

definition exclude_step ::
  "width \<Rightarrow> 'tag range \<Rightarrow> 'tag range_set \<Rightarrow> usize \<Rightarrow> (unit + 'tag range_set \<times> usize) option" where
  "exclude_step w excl s i = do {
     r \<leftarrow> idx (rs_ranges s) i;
     split \<leftarrow> range_exclude w r excl;
     case split of
       Inl _ \<Rightarrow> Some (Inl ())
     | Inr (sa, sb) \<Rightarrow> do {
         s \<leftarrow> (case sa of
                 Some a \<Rightarrow> do { rs \<leftarrow> upd (rs_ranges s) i a; Some (s\<lparr>rs_ranges := rs\<rparr>) }
               | None \<Rightarrow> Some s);
         (s, i) \<leftarrow>
           (case sb of
              Some b \<Rightarrow>
                if sa = None then do { rs \<leftarrow> upd (rs_ranges s) i b; Some (s\<lparr>rs_ranges := rs\<rparr>, i) }
                else if rs_count s < length (rs_ranges s) then do {
                  rs \<leftarrow> copy_within (rs_ranges s) i (rs_count s) (i + 1);
                  rs \<leftarrow> upd rs (i + 1) b;
                  Some (\<lparr>rs_ranges = rs, rs_count = rs_count s + 1\<rparr>, i + 1) }
                else None
            | None \<Rightarrow> Some (s, i));
         if sa = None \<and> sb = None then do {
           rs \<leftarrow> copy_within (rs_ranges s) (i + 1) (rs_count s) i;
           n \<leftarrow> usub (rs_count s) 1;
           Some (Inr (\<lparr>rs_ranges = rs, rs_count = n\<rparr>, i)) }
         else Some (Inr (s, i + 1)) } }"

function trim_empty_loop :: "'tag range_set \<Rightarrow> usize \<Rightarrow> 'tag range_set option" where
  "trim_empty_loop s i =
     (if i < rs_count s
      then do {
        r \<leftarrow> idx (rs_ranges s) i;
        if r_size r > 0 then trim_empty_loop s (i + 1)
        else do {
          rs \<leftarrow> copy_within (rs_ranges s) (i + 1) (rs_count s) i;
          trim_empty_loop \<lparr>rs_ranges = rs, rs_count = rs_count s - 1\<rparr> i } }
      else Some s)"
  by pat_completeness auto
termination by (relation "measure (\<lambda>(s, i). rs_count s - i)") auto

definition trim_empty_ranges :: "'tag range_set \<Rightarrow> 'tag range_set option" where
  "trim_empty_ranges s = trim_empty_loop s 0"

lemma exclude_step_decreases:
  assumes "exclude_step w excl s i = Some (Inr (s', i'))" "i < rs_count s"
  shows "rs_count s' - i' < rs_count s - i"
proof -
  from assms(1) obtain r x where rx: "idx (rs_ranges s) i = Some r" "range_exclude w r excl = Some x"
    by (auto simp: exclude_step_def bind_eq_Some_conv)
  show ?thesis
  proof (cases x)
    case (Inl u)
    then show ?thesis using assms(1) rx by (simp add: exclude_step_def)
  next
    case (Inr ab)
    obtain a b where "ab = (a, b)" by fastforce
    then show ?thesis
      using assms rx Inr
      by (cases a; cases b) (auto simp: exclude_step_def panic_simps split: if_splits)
  qed
qed

function exclude_loop :: "width \<Rightarrow> 'tag range \<Rightarrow> 'tag range_set \<Rightarrow> usize \<Rightarrow> 'tag range_set option" where
  "exclude_loop w excl s i =
     (if i < rs_count s
      then (case exclude_step w excl s i of
              None \<Rightarrow> None
            | Some (Inl _) \<Rightarrow> Some s
            | Some (Inr (s', i')) \<Rightarrow> exclude_loop w excl s' i')
      else trim_empty_ranges s)"
  by pat_completeness auto
termination
  by (relation "measure (\<lambda>(w, excl, s, i). rs_count s - i)") (auto dest: exclude_step_decreases)

definition exclude_range :: "width \<Rightarrow> 'tag range_set \<Rightarrow> 'tag range \<Rightarrow> 'tag range_set option" where
  "exclude_range w s excl = exclude_loop w excl s 0"

text \<open>
  The loop of \<open>trim_overlapping_ranges\<close> is not guarded by a decreasing quantity, so it carries
  fuel: the outer \<open>None\<close> is \<open>still running\<close>, the inner one the panic.
\<close>

definition overlap_step ::
  "width \<Rightarrow> 'tag range_set \<Rightarrow> usize \<Rightarrow> ('tag range_set \<times> usize) option" where
  "overlap_step w s i = do {
     r \<leftarrow> idx (rs_ranges s) i;
     nx \<leftarrow> idx (rs_ranges s) (i + 1);
     cmp \<leftarrow> range_cmp w r nx;
     order \<leftarrow> cmp;
     (case order of
        Equal \<Rightarrow> do { rs \<leftarrow> copy_within (rs_ranges s) (i + 2) (rs_count s) (i + 1); Some (s\<lparr>rs_ranges := rs\<rparr>, i) }
      | Superset \<Rightarrow> do { rs \<leftarrow> copy_within (rs_ranges s) (i + 2) (rs_count s) (i + 1); Some (s\<lparr>rs_ranges := rs\<rparr>, i) }
      | Subset \<Rightarrow> do { rs \<leftarrow> copy_within (rs_ranges s) (i + 1) (rs_count s) i; Some (s\<lparr>rs_ranges := rs\<rparr>, i) }
      | Less \<Rightarrow> Some (s, i + 1)
      | Greater \<Rightarrow> Some (s, i + 1)
      | _ \<Rightarrow> do {
          e \<leftarrow> uadd w (r_base nx) (r_size nx);
          sz \<leftarrow> usub e (r_base r);
          rs \<leftarrow> upd (rs_ranges s) i (r\<lparr>r_size := sz\<rparr>);
          rs \<leftarrow> copy_within rs (i + 2) (rs_count s) (i + 1);
          Some (s\<lparr>rs_ranges := rs\<rparr>, i) }) }"

fun overlap_loop :: "nat \<Rightarrow> width \<Rightarrow> 'tag range_set \<Rightarrow> usize \<Rightarrow> 'tag range_set option option" where
  "overlap_loop 0 w s i = None"
| "overlap_loop (Suc fuel) w s i =
     (if i < rs_count s - 1
      then (case overlap_step w s i of
              None \<Rightarrow> Some None
            | Some (s', i') \<Rightarrow> overlap_loop fuel w s' i')
      else Some (Some s))"

definition trim_overlapping_ranges :: "nat \<Rightarrow> width \<Rightarrow> 'tag range_set \<Rightarrow> 'tag range_set option option" where
  "trim_overlapping_ranges fuel w s = (if rs_count s < 2 then Some (Some s) else overlap_loop fuel w s 0)"

definition trim_ranges :: "nat \<Rightarrow> width \<Rightarrow> 'tag range_set \<Rightarrow> 'tag range_set option option" where
  "trim_ranges fuel w s =
     (case trim_overlapping_ranges fuel w s of
        None \<Rightarrow> None
      | Some None \<Rightarrow> Some None
      | Some (Some s') \<Rightarrow> Some (trim_empty_ranges s'))"

declare ins_pos.simps [simp del] trim_empty_loop.simps [simp del] exclude_loop.simps [simp del]

section \<open>The list of live ranges\<close>

definition live :: "'tag range_set \<Rightarrow> 'tag range list" where
  "live s = take (rs_count s) (rs_ranges s)"

definition rs_inv :: "'tag range_set \<Rightarrow> bool" where
  "rs_inv s \<longleftrightarrow> rs_count s \<le> length (rs_ranges s)"

definition rs_valid :: "width \<Rightarrow> 'tag range_set \<Rightarrow> bool" where
  "rs_valid w s \<longleftrightarrow> rs_inv s \<and> (\<forall>r\<in>set (live s). range_ok w r)"

definition rs_sorted :: "'tag range_set \<Rightarrow> bool" where
  "rs_sorted s \<longleftrightarrow> sorted_wrt (\<lambda>a b. r_base a \<le> r_base b) (live s)"

definition ends_before :: "'tag range \<Rightarrow> 'tag range \<Rightarrow> bool" where
  "ends_before a b \<longleftrightarrow> r_base a + r_size a \<le> r_base b"

definition rs_disjoint :: "'tag range_set \<Rightarrow> bool" where
  "rs_disjoint s \<longleftrightarrow> sorted_wrt ends_before (live s)"

definition rs_addrs :: "'tag range_set \<Rightarrow> nat set" where
  "rs_addrs s = (\<Union>r\<in>set (live s). addrs r)"

lemma live_length [simp]: "rs_inv s \<Longrightarrow> length (live s) = rs_count s"
  by (simp add: live_def rs_inv_def)

lemma live_nth: "i < rs_count s \<Longrightarrow> live s ! i = rs_ranges s ! i"
  by (simp add: live_def)

lemma live_new [simp]: "live (range_set_new n t) = []"
  by (simp add: live_def range_set_new_def)

lemma live_clear [simp]: "live (rs_clear s) = []"
  by (simp add: live_def rs_clear_def)

lemma get_ranges_live: "rs_inv s \<Longrightarrow> get_ranges s = Some (live s)"
  by (simp add: get_ranges_def rs_inv_def live_def)

lemma rs_valid_inv [simp, dest]: "rs_valid w s \<Longrightarrow> rs_inv s"
  by (simp add: rs_valid_def)

lemma idx_live [simp]: "rs_inv s \<Longrightarrow> i < rs_count s \<Longrightarrow> idx (rs_ranges s) i = Some (live s ! i)"
  by (simp add: rs_inv_def live_nth)

subsection \<open>Insertion\<close>

definition insert_live :: "'tag range \<Rightarrow> 'tag range list \<Rightarrow> 'tag range list" where
  "insert_live r xs =
     takeWhile (\<lambda>x. r_base x \<le> r_base r) xs @ r # dropWhile (\<lambda>x. r_base x \<le> r_base r) xs"

lemma ins_pos_eq:
  assumes "rs_inv s" "i \<le> rs_count s"
  shows "ins_pos s base i = Some (i + length (takeWhile (\<lambda>x. r_base x \<le> base) (drop i (live s))))"
  using assms
proof (induction s base i rule: ins_pos.induct)
  case (1 s base i)
  show ?case
  proof (cases "i < rs_count s")
    case True
    then have d: "drop i (live s) = live s ! i # drop (Suc i) (live s)"
      using 1 by (simp add: Cons_nth_drop_Suc)
    show ?thesis
      using 1 True by (subst ins_pos.simps) (simp add: d not_less)
  next
    case False
    then show ?thesis using 1 by (subst ins_pos.simps) simp
  qed
qed

lemma insert_live_take: "insert_live r xs =
    (let k = length (takeWhile (\<lambda>x. r_base x \<le> r_base r) xs) in take k xs @ r # drop k xs)"
  by (metis insert_live_def takeWhile_eq_take dropWhile_eq_drop)

lemma set_insert_live [simp]: "set (insert_live r xs) = insert r (set xs)"
proof -
  have "set xs = set (takeWhile (\<lambda>x. r_base x \<le> r_base r) xs) \<union> set (dropWhile (\<lambda>x. r_base x \<le> r_base r) xs)"
    by (simp flip: set_append)
  then show ?thesis by (auto simp: insert_live_def)
qed

lemma insert_live_sorted:
  assumes "sorted_wrt (\<lambda>a b. r_base a \<le> r_base b) xs"
  shows "sorted_wrt (\<lambda>a b. r_base a \<le> r_base b) (insert_live r xs)"
  using assms by (induction xs) (auto simp: insert_live_def dest!: set_takeWhileD set_dropWhileD)

lemma insert_live_stable:
  assumes "sorted_wrt (\<lambda>a b. r_base a \<le> r_base b) xs"
  shows "filter (\<lambda>x. r_base x = r_base r) (insert_live r xs) = filter (\<lambda>x. r_base x = r_base r) xs @ [r]"
  using assms
proof (induction xs)
  case (Cons a xs)
  show ?case
  proof (cases "r_base a \<le> r_base r")
    case False
    then have "filter (\<lambda>x. r_base x = r_base r) xs = []"
      using Cons.prems by (fastforce simp: filter_empty_conv)
    with False show ?thesis by (simp add: insert_live_def)
  qed (use Cons in \<open>simp add: insert_live_def\<close>)
qed (simp add: insert_live_def)

lemma insert_range_eq:
  assumes "rs_inv s" "r_base r < usize_lim w" "r_size r < usize_lim w"
  shows "rs_count s < length (rs_ranges s) \<and> range_ok w r \<Longrightarrow>
      \<exists>s'. insert_range w s r = Some (s', True) \<and> live s' = insert_live r (live s) \<and> rs_inv s'
        \<and> length (rs_ranges s') = length (rs_ranges s)"
    and "\<not> (rs_count s < length (rs_ranges s) \<and> range_ok w r) \<Longrightarrow> insert_range w s r = Some (s, False)"
proof -
  have bad: "(if r_size r = 0 then Some True
              else do { d \<leftarrow> usub (usize_max w) (r_size r); d1 \<leftarrow> uadd w d 1; Some (d1 < r_base r) }) =
     Some (\<not> range_ok w r)"
    using assms(2,3) by (auto simp: range_ok_def usize_max_def)
  show "insert_range w s r = Some (s, False)" if "\<not> (rs_count s < length (rs_ranges s) \<and> range_ok w r)"
    using that by (auto simp: insert_range_def bad)
  assume a: "rs_count s < length (rs_ranges s) \<and> range_ok w r"
  define k where "k = length (takeWhile (\<lambda>x. r_base x \<le> r_base r) (live s))"
  have k: "k \<le> rs_count s"
    using assms(1) by (metis k_def length_takeWhile_le live_length)
  have "ins_pos s (r_base r) 0 = Some k"
    using ins_pos_eq [OF assms(1), of 0 "r_base r"] by (simp add: k_def)
  moreover have "copy_within (rs_ranges s) k (rs_count s) (Suc k) =
      Some (take (Suc k) (rs_ranges s) @ take (rs_count s - k) (drop k (rs_ranges s)) @ drop (Suc (rs_count s)) (rs_ranges s))"
    (is "_ = Some ?g")
    using a k by (simp add: copy_within_open)
  moreover from this have len: "length ?g = length (rs_ranges s)" by (rule copy_within_length)
  moreover have "upd ?g k r = Some (?g[k := r])"
    using a k len by simp
  moreover define s' where "s' = \<lparr>rs_ranges = ?g[k := r], rs_count = rs_count s + 1\<rparr>"
  ultimately have "insert_range w s r = Some (s', True)"
    using a by (simp add: insert_range_def bad)
  moreover have "live s' = insert_live r (live s)"
    using a k take_open_gap [OF k, of "rs_ranges s" r]
    by (simp add: s'_def insert_live_take Let_def flip: k_def) (simp add: live_def)
  moreover have "rs_inv s'" "length (rs_ranges s') = length (rs_ranges s)"
    using a len by (simp_all add: s'_def rs_inv_def)
  ultimately show "\<exists>s'. insert_range w s r = Some (s', True) \<and> live s' = insert_live r (live s) \<and> rs_inv s'
      \<and> length (rs_ranges s') = length (rs_ranges s)"
    by blast
qed

subsection \<open>Exclusion\<close>

text \<open>\<open>pieces e r\<close> is what is left of \<open>r\<close> without \<open>e\<close>, as a list of at most two ranges.\<close>

definition pieces :: "'tag range \<Rightarrow> 'tag range \<Rightarrow> 'tag range list" where
  "pieces e r =
     (case fst (exclude_parts r e) of None \<Rightarrow> [] | Some a \<Rightarrow> [a]) @
     (case snd (exclude_parts r e) of None \<Rightarrow> [] | Some b \<Rightarrow> [b])"

definition nonempty :: "'tag range list \<Rightarrow> 'tag range list" where
  "nonempty xs = filter (\<lambda>r. 0 < r_size r) xs"

lemma live_close:
  assumes "rs_inv s" "i < rs_count s"
  shows "\<exists>rs. copy_within (rs_ranges s) (Suc i) (rs_count s) i = Some rs \<and> length rs = length (rs_ranges s)
    \<and> live \<lparr>rs_ranges = rs, rs_count = rs_count s - 1\<rparr> = take i (live s) @ drop (Suc i) (live s)
    \<and> rs_inv \<lparr>rs_ranges = rs, rs_count = rs_count s - 1\<rparr>"
proof -
  obtain rs where rs: "copy_within (rs_ranges s) (Suc i) (rs_count s) i = Some rs"
    using assms by (simp add: copy_within_close rs_inv_def)
  then have "rs = take i (rs_ranges s) @ take (rs_count s - Suc i) (drop (Suc i) (rs_ranges s)) @ drop (rs_count s - 1) (rs_ranges s)"
    using assms by (simp add: copy_within_close rs_inv_def)
  then show ?thesis
    using rs copy_within_length [OF rs] assms take_close_gap [OF assms(2), of "rs_ranges s"]
    by (simp add: live_def rs_inv_def)
qed

lemma live_open:
  assumes "rs_count s < length (rs_ranges s)" "i < rs_count s"
  shows "\<exists>rs rs'. copy_within ((rs_ranges s)[i := a]) i (rs_count s) (Suc i) = Some rs \<and> upd rs (Suc i) b = Some rs'
    \<and> length rs' = length (rs_ranges s)
    \<and> live \<lparr>rs_ranges = rs', rs_count = Suc (rs_count s)\<rparr> = take i (live s) @ a # b # drop (Suc i) (live s)"
proof -
  let ?xs = "(rs_ranges s)[i := a]" and ?n = "rs_count s"
  define p where "p = take i (rs_ranges s)"
  define q where "q = drop (Suc i) (live s)"
  define t where "t = drop ?n (rs_ranges s)"
  have len: "length p = i" "length q = ?n - Suc i" "?n - i = Suc (length q)" "length t = length (rs_ranges s) - ?n"
    using assms by (simp_all add: p_def q_def t_def live_def)
  have live: "live s = p @ rs_ranges s ! i # q" and all: "rs_ranges s = live s @ t"
    using assms id_take_nth_drop [of i "live s"] by (simp_all add: p_def q_def t_def live_def)
  have "(p @ x # q @ t)[i := a] = p @ a # q @ t" for x
    using len(1) by (simp add: list_update_append)
  with all live have xs: "?xs = p @ a # q @ t" by (metis append_assoc append_Cons)
  have "copy_within ?xs i ?n (Suc i) =
      Some (take (Suc i) ?xs @ take (?n - i) (drop i ?xs) @ drop (Suc ?n) ?xs)"
    using assms by (intro copy_within_open) simp_all
  also have "\<dots> = Some (p @ a # a # q @ drop (Suc ?n) ?xs)"
    using len by (simp add: xs)
  finally have rs: "copy_within ?xs i ?n (Suc i) = Some (p @ a # a # q @ drop (Suc ?n) ?xs)" (is "_ = Some ?rs") .
  have l: "length ?rs = length (rs_ranges s)" using copy_within_length [OF rs] by simp
  have "upd ?rs (Suc i) b = Some (p @ a # b # q @ drop (Suc ?n) ?xs)"
    using len(1) by (simp add: upd_def nth_append list_update_append)
  moreover have "take (Suc ?n) (p @ a # b # q @ drop (Suc ?n) ?xs) = p @ a # b # q"
    using len assms by (simp add: Suc_diff_le)
  ultimately show ?thesis
    using rs l assms by (simp add: live_def [of "\<lparr>rs_ranges = _, rs_count = _\<rparr>"] q_def p_def) (simp add: live_def min_def)
qed

lemma live_update: "i < rs_count s \<Longrightarrow> live (s\<lparr>rs_ranges := (rs_ranges s)[i := a]\<rparr>) = (live s)[i := a]"
  by (simp add: live_def take_update_swap)

lemma exclude_step_live:
  assumes "rs_inv s" "i < rs_count s" "range_exclude w (live s ! i) e = Some (Inr (exclude_parts (live s ! i) e))"
    and "length (pieces e (live s ! i)) = 2 \<Longrightarrow> rs_count s < length (rs_ranges s)"
  shows "\<exists>s'. exclude_step w e s i = Some (Inr (s', i + length (pieces e (live s ! i)))) \<and> rs_inv s'
    \<and> live s' = take i (live s) @ pieces e (live s ! i) @ drop (Suc i) (live s)
    \<and> length (rs_ranges s') = length (rs_ranges s)"
proof -
  obtain a b where ab: "exclude_parts (live s ! i) e = (a, b)" by fastforce
  have set1: "take i (live s) @ x # drop (Suc i) (live s) = (live s)[i := x]" for x
    using assms(1,2) by (simp add: upd_conv_take_nth_drop)
  have i: "i < length (rs_ranges s)" using assms(1,2) by (simp add: rs_inv_def)
  have ex: "range_exclude w (rs_ranges s ! i) e = Some (Inr (a, b))"
    using assms(2,3) ab by (simp add: live_nth)
  note step = exclude_step_def ex ab pieces_def i
  show ?thesis
  proof (cases a; cases b)
    fix x y assume xy: "a = Some x" "b = Some y"
    then have c: "rs_count s < length (rs_ranges s)" using assms(4) ab by (simp add: pieces_def)
    from live_open [OF this assms(2), of x y] show ?thesis
      using c by (auto simp: step xy rs_inv_def)
  next
    assume n: "a = None" "b = None"
    from live_close [OF assms(1,2)] show ?thesis
      using assms(2) by (auto simp: step n)
  qed (use assms(1,2) in \<open>auto simp: step live_update set1 rs_inv_def\<close>)
qed

lemma trim_empty_loop_eq:
  assumes "rs_inv s" "i \<le> rs_count s"
  shows "\<exists>s'. trim_empty_loop s i = Some s' \<and> live s' = take i (live s) @ nonempty (drop i (live s)) \<and> rs_inv s'
    \<and> length (rs_ranges s') = length (rs_ranges s)"
  using assms
proof (induction s i rule: trim_empty_loop.induct)
  case (1 s i)
  show ?case
  proof (cases "i < rs_count s")
    case True
    note i = True
    then have d: "drop i (live s) = live s ! i # drop (Suc i) (live s)"
      using 1(3) by (simp add: Cons_nth_drop_Suc)
    have r: "idx (rs_ranges s) i = Some (live s ! i)" using 1(3) i by simp
    show ?thesis
    proof (cases "r_size (live s ! i) > 0")
      case True
      have t: "take (Suc i) (live s) = take i (live s) @ [live s ! i]"
        using 1(3) i by (simp add: take_Suc_conv_app_nth)
      show ?thesis
        using 1(1) [OF i r True] 1(3) i r True
        by (subst trim_empty_loop.simps) (simp add: d t nonempty_def)
    next
      case False
      obtain rs where rs: "copy_within (rs_ranges s) (Suc i) (rs_count s) i = Some rs" "length rs = length (rs_ranges s)"
        "live \<lparr>rs_ranges = rs, rs_count = rs_count s - 1\<rparr> = take i (live s) @ drop (Suc i) (live s)"
        "rs_inv \<lparr>rs_ranges = rs, rs_count = rs_count s - 1\<rparr>"
        using live_close [OF 1(3) i] by blast
      have l: "length (take i (live s)) = i" using 1(3) i by simp
      show ?thesis
        using 1(2) [OF i r False, of rs] rs i r False l
        by (subst trim_empty_loop.simps) (simp add: d nonempty_def)
    qed
  next
    case False
    then show ?thesis
      using 1(3,4) by (subst trim_empty_loop.simps) (simp add: nonempty_def)
  qed
qed

lemma exclude_loop_eq:
  assumes "rs_inv s" "i \<le> rs_count s"
    and "\<forall>r\<in>set (drop i (live s)). range_exclude w r e = Some (Inr (exclude_parts r e))"
    and "rs_count s + length (filter (\<lambda>r. length (pieces e r) = 2) (drop i (live s))) \<le> length (rs_ranges s)"
  shows "\<exists>s'. exclude_loop w e s i = Some s'
    \<and> live s' = nonempty (take i (live s) @ concat (map (pieces e) (drop i (live s)))) \<and> rs_inv s'
    \<and> length (rs_ranges s') = length (rs_ranges s)"
  using assms
proof (induction w e s i rule: exclude_loop.induct)
  case (1 w e s i)
  show ?case
  proof (cases "i < rs_count s")
    case True
    note i = True
    then have d: "drop i (live s) = live s ! i # drop (Suc i) (live s)"
      using 1(2) by (simp add: Cons_nth_drop_Suc)
    let ?ps = "pieces e (live s ! i)"
    have ex: "range_exclude w (live s ! i) e = Some (Inr (exclude_parts (live s ! i) e))"
      using 1(4) d by simp
    have cap: "length ?ps = 2 \<Longrightarrow> rs_count s < length (rs_ranges s)"
      using 1(5) d by simp
    obtain s' where s': "exclude_step w e s i = Some (Inr (s', i + length ?ps))" "rs_inv s'"
      "live s' = take i (live s) @ ?ps @ drop (Suc i) (live s)" "length (rs_ranges s') = length (rs_ranges s)"
      using exclude_step_live [OF 1(2) i ex cap] by blast
    have li: "length (take i (live s)) = i" using 1(2) i by simp
    have c: "rs_count s' = rs_count s + length ?ps - 1"
      using arg_cong [OF s'(3), of length] s'(2) 1(2) i by simp
    have ps: "length ?ps \<le> 2"
      by (simp add: pieces_def split: prod.split option.split)
    have dr: "drop (i + length ?ps) (live s') = drop (Suc i) (live s)"
      "take (i + length ?ps) (live s') = take i (live s) @ ?ps"
      using li by (simp_all add: s'(3))
    have cnt: "rs_count s' + length (filter (\<lambda>r. length (pieces e r) = 2) (drop (i + length ?ps) (live s')))
        \<le> length (rs_ranges s')"
      using 1(5) ps i unfolding dr c d s'(4) by (cases "length ?ps = 2") simp_all
    have le: "i + length ?ps \<le> rs_count s'" using c i by simp
    have all: "\<forall>r\<in>set (drop (i + length ?ps) (live s')). range_exclude w r e = Some (Inr (exclude_parts r e))"
      using 1(4) unfolding dr d by simp
    have "exclude_loop w e s i = exclude_loop w e s' (i + length ?ps)"
      using i s'(1) by (subst exclude_loop.simps) simp
    then show ?thesis
      using 1(1) [OF i s'(1) refl refl s'(2) le all cnt] s'(4) unfolding dr d by simp
  next
    case False
    then have "i = rs_count s" using 1(3) by simp
    then show ?thesis
      using trim_empty_loop_eq [OF 1(2), of 0] 1(2)
      by (subst exclude_loop.simps) (simp add: trim_empty_ranges_def)
  qed
qed

lemma set_nonempty [simp]: "set (nonempty xs) = {r \<in> set xs. 0 < r_size r}"
  by (simp add: nonempty_def)

lemma pieces_addrs:
  assumes "0 < r_size r" "0 < r_size e"
  shows "(\<Union>p\<in>set (pieces e r). addrs p) = addrs r - addrs e"
  unfolding exclude_parts_addrs [OF assms, symmetric]
  by (cases "fst (exclude_parts r e)"; cases "snd (exclude_parts r e)") (simp_all add: pieces_def)

lemma pieces_range_ok:
  assumes "range_ok w r" "0 < r_size e" "p \<in> set (pieces e r)" "0 < r_size p"
  shows "range_ok w p" "r_base r \<le> r_base p" "r_base p + r_size p \<le> r_base r + r_size r" "r_tag p = r_tag r"
proof -
  have r: "0 < r_size r" using assms(1) by simp
  from assms(3) have "fst (exclude_parts r e) = Some p \<or> snd (exclude_parts r e) = Some p"
    by (auto simp: pieces_def split: prod.splits option.splits)
  then have b: "r_base r \<le> r_base p \<and> r_base p + r_size p \<le> r_base r + r_size r \<and> r_tag p = r_tag r"
    using exclude_parts_bounds(1,2) [OF r assms(2), of p] exclude_parts_tag [of r e p] by auto
  then show "r_base r \<le> r_base p" "r_base p + r_size p \<le> r_base r + r_size r" "r_tag p = r_tag r" by blast+
  with assms(1,4) show "range_ok w p" by (simp add: range_ok_def)
qed

lemma pieces_ends_before:
  assumes "0 < r_size r" "0 < r_size e"
  shows "sorted_wrt ends_before (pieces e r)"
  using exclude_parts_bounds(3) [OF assms]
  by (auto simp: pieces_def ends_before_def split: prod.split option.split)

lemma pieces_two_iff:
  assumes "range_ok w r" "range_ok w e"
  shows "length (pieces e r) = 2 \<longleftrightarrow> addrs e \<subset> addrs r"
proof -
  have "ordering_of r e = Superset \<longleftrightarrow> addrs e \<subset> addrs r"
    using ordering_of_holds [of r e Superset] assms by (auto simp: range_ok_size)
  then show ?thesis by (cases "ordering_of r e") (simp_all add: pieces_def exclude_parts_def)
qed

lemma sorted_wrt_nonempty: "sorted_wrt P xs \<Longrightarrow> sorted_wrt P (nonempty xs)"
  by (simp add: nonempty_def sorted_wrt_filter)

lemma pieces_disjoint_list:
  assumes "\<forall>r\<in>set xs. range_ok w r" "0 < r_size e" "sorted_wrt ends_before xs"
  shows "sorted_wrt ends_before (nonempty (concat (map (pieces e) xs)))"
  using assms(1,3)
proof (induction xs)
  case (Cons r xs)
  have "ends_before p q" if "p \<in> set (nonempty (pieces e r))" "q \<in> set (nonempty (concat (map (pieces e) xs)))" for p q
  proof -
    from that(2) obtain r' where r': "r' \<in> set xs" "q \<in> set (pieces e r')" "0 < r_size q" by auto
    have "r_base p + r_size p \<le> r_base r + r_size r"
      using that(1) Cons.prems(1) pieces_range_ok(3) [of w r e p] assms(2) by simp
    moreover have "r_base r' \<le> r_base q"
      using r' Cons.prems(1) pieces_range_ok(2) [of w r' e q] assms(2) by simp
    moreover have "ends_before r r'" using Cons.prems(2) r'(1) by simp
    ultimately show ?thesis by (simp add: ends_before_def)
  qed
  moreover have "sorted_wrt ends_before (nonempty (pieces e r))"
    using Cons.prems(1) assms(2) by (intro sorted_wrt_nonempty pieces_ends_before) auto
  ultimately show ?case
    using Cons by (simp add: nonempty_def sorted_wrt_append)
qed (simp add: nonempty_def)

subsection \<open>Trimming\<close>

lemma ordering_apart: "ordering_of a b = Less \<or> ordering_of a b = Greater \<longleftrightarrow>
    \<not> (r_base a = r_base b \<and> r_size a = r_size b) \<and> (ends_before a b \<or> ends_before b a)"
  by (auto simp: ordering_of_def ends_before_def)

lemma live_shift:
  assumes "rs_inv s" "k < rs_count s"
  shows "\<exists>rs. copy_within (rs_ranges s) (Suc k) (rs_count s) k = Some rs \<and> length rs = length (rs_ranges s)
    \<and> live (s\<lparr>rs_ranges := rs\<rparr>) = take k (live s) @ drop (Suc k) (live s) @ [last (live s)]"
proof -
  obtain rs where rs: "copy_within (rs_ranges s) (Suc k) (rs_count s) k = Some rs" "length rs = length (rs_ranges s)"
    "live \<lparr>rs_ranges = rs, rs_count = rs_count s - 1\<rparr> = take k (live s) @ drop (Suc k) (live s)"
    using live_close [OF assms] by blast
  have n: "rs_count s - 1 < length (rs_ranges s)" "live s \<noteq> []" "Suc (rs_count s - 1) = rs_count s"
    using assms by (auto simp: rs_inv_def live_def)
  have "rs = take k (rs_ranges s) @ take (rs_count s - Suc k) (drop (Suc k) (rs_ranges s)) @ drop (rs_count s - 1) (rs_ranges s)"
    using rs(1) assms by (simp add: copy_within_close rs_inv_def)
  then have "rs ! (rs_count s - 1) = rs_ranges s ! (rs_count s - 1)"
    using assms by (simp add: nth_append rs_inv_def)
  also have "\<dots> = last (live s)"
    using n assms by (simp add: last_conv_nth live_nth)
  finally have "take (rs_count s) rs = take (rs_count s - 1) rs @ [last (live s)]"
    using n rs(2) take_Suc_conv_app_nth [of "rs_count s - 1" rs] by simp
  then show ?thesis using rs by (simp add: live_def)
qed

definition overlap_from :: "'tag range list \<Rightarrow> usize \<Rightarrow> bool" where
  "overlap_from xs i \<longleftrightarrow> (\<exists>j\<ge>i. Suc j < length xs \<and> ordering_of (xs ! j) (xs ! Suc j) \<notin> {Less, Greater})"

lemma overlap_from_shift:
  assumes "Suc i < length xs" "k < length xs" "i \<le> k" "k \<le> Suc i"
    and "k = length xs - 1 \<Longrightarrow> overlap_from xs i"
  shows "overlap_from (take k xs @ drop (Suc k) xs @ [last xs]) i"
proof (cases "k = length xs - 1")
  case True
  then have "take k xs @ drop (Suc k) xs @ [last xs] = xs"
    using assms(2) by (metis Suc_diff_1 append_butlast_last_id append_Nil butlast_conv_take drop_all gr_implies_not_zero le_refl length_greater_0_conv list.size(3) neq0_conv)
  with assms(5) True show ?thesis by simp
next
  case False
  let ?ys = "take k xs @ drop (Suc k) xs @ [last xs]" and ?j = "length xs - 2"
  have len: "length ?ys = length xs" "Suc ?j = length xs - 1" using assms(2) False by auto
  have "last xs = xs ! (length xs - 1)" using assms(2) by (intro last_conv_nth) auto
  then have "?ys ! ?j = last xs" "?ys ! Suc ?j = last xs"
    using assms(2) False len(2) by (auto simp: nth_append)
  then have "ordering_of (?ys ! ?j) (?ys ! Suc ?j) = Equal"
    by (simp add: ordering_of_def)
  then show ?thesis
    unfolding overlap_from_def using assms(1,2) False len by (intro exI [of _ ?j]) auto
qed

lemma overlap_shift_stuck:
  assumes "rs_valid w t" "Suc i < rs_count t" "k = i \<or> k = Suc i" "overlap_from (live t) i"
    and "copy_within (rs_ranges t) (Suc k) (rs_count t) k = Some rs" "t' = t\<lparr>rs_ranges := rs\<rparr>"
  shows "rs_valid w t' \<and> overlap_from (live t') i \<and> i < rs_count t' - 1"
proof -
  have t: "rs_inv t" "k < rs_count t" using assms by auto
  have l: "live t' = take k (live t) @ drop (Suc k) (live t) @ [last (live t)]" "length rs = length (rs_ranges t)"
    using live_shift [OF t] assms(5,6) by auto
  have "last (live t) \<in> set (live t)"
    using t live_length [OF t(1)] by (intro last_in_set) (metis less_nat_zero_code list.size(3))
  then have "set (live t') \<subseteq> set (live t)"
    by (auto simp: l(1) dest: in_set_takeD in_set_dropD)
  then have "rs_valid w t'"
    using assms(1,6) l(2) by (auto simp: rs_valid_def rs_inv_def)
  moreover have "overlap_from (live t') i"
    unfolding l(1) using assms t by (intro overlap_from_shift) auto
  ultimately show ?thesis using assms(2,6) by simp
qed

lemma overlap_step_stuck:
  assumes "rs_valid w s" "overlap_from (live s) i" "overlap_step w s i = Some (s', i')"
  shows "rs_valid w s' \<and> overlap_from (live s') i' \<and> i' < rs_count s' - 1"
proof -
  have inv: "rs_inv s" using assms(1) by simp
  have i: "Suc i < rs_count s" "i < rs_count s" "Suc i < length (live s)"
    using assms(2) inv by (auto simp: overlap_from_def)
  define r nx where "r = live s ! i" and "nx = live s ! Suc i"
  have ok: "range_ok w r" "range_ok w nx"
    using assms(1) i by (auto simp: rs_valid_def r_def nx_def)
  have hd: "idx (rs_ranges s) i = Some r" "idx (rs_ranges s) (i + 1) = Some nx"
    using inv i by (simp_all add: r_def nx_def)
  note step = assms(3) [unfolded overlap_step_def hd] and cmp = range_cmp_eq [OF ok]
  show ?thesis
  proof (cases "ordering_of r nx \<in> {Less, Greater}")
    case True
    obtain j where j: "j \<ge> i" "Suc j < length (live s)" "ordering_of (live s ! j) (live s ! Suc j) \<notin> {Less, Greater}"
      using assms(2) by (auto simp: overlap_from_def)
    with True have "j \<noteq> i" by (auto simp: r_def nx_def)
    with j have "overlap_from (live s) (Suc i)" unfolding overlap_from_def by (intro exI [of _ j]) simp
    moreover have "s' = s \<and> i' = Suc i" using step True by (auto simp: cmp)
    moreover have "Suc i < rs_count s - 1" using \<open>j \<noteq> i\<close> j inv by simp
    ultimately show ?thesis using assms(1) by simp
  next
    case False
    have here: "overlap_from (live s) i"
      unfolding overlap_from_def using i(3) False by (intro exI [of _ i]) (simp add: r_def nx_def)
    consider "ordering_of r nx \<in> {Equal, Superset}" | "ordering_of r nx = Subset" | "ordering_of r nx \<in> {LessEqual, GreaterEqual}"
      using False by (cases "ordering_of r nx") auto
    then show ?thesis
    proof cases
      case 1
      then obtain rs where rs: "copy_within (rs_ranges s) (Suc (Suc i)) (rs_count s) (Suc i) = Some rs"
          "s' = s\<lparr>rs_ranges := rs\<rparr>" "i' = i"
        using step by (auto simp: cmp panic_simps)
      show ?thesis using overlap_shift_stuck [OF assms(1) i(1) _ here rs(1,2)] rs(3) by blast
    next
      case 2
      then obtain rs where rs: "copy_within (rs_ranges s) (Suc i) (rs_count s) i = Some rs"
          "s' = s\<lparr>rs_ranges := rs\<rparr>" "i' = i"
        using step by (auto simp: cmp panic_simps)
      show ?thesis using overlap_shift_stuck [OF assms(1) i(1) _ here rs(1,2)] rs(3) by blast
    next
      case 3
      define r' where "r' = r\<lparr>r_size := r_base nx + r_size nx - r_base r\<rparr>"
      define t where "t = s\<lparr>rs_ranges := (rs_ranges s)[i := r']\<rparr>"
      from 3 obtain rs where rs: "copy_within (rs_ranges t) (Suc (Suc i)) (rs_count t) (Suc i) = Some rs"
          "s' = t\<lparr>rs_ranges := rs\<rparr>" "i' = i"
        using step by (auto simp: cmp panic_simps t_def r'_def)
      have ov: "r_base r < r_base nx + r_size nx" "r_base nx < r_base r + r_size r"
        using 3 by (auto simp: ordering_of_def split: if_splits)
      have r': "range_ok w r'" "ordering_of r' nx \<notin> {Less, Greater}"
        using ov ok by (auto simp: r'_def range_ok_def ordering_of_def)
      have lt: "live t = (live s)[i := r']" using i by (simp add: t_def live_update)
      have vt: "rs_valid w t"
        using assms(1) r'(1) set_update_subset_insert [of "live s" i r'] lt
        by (auto simp: rs_valid_def rs_inv_def t_def)
      have ht: "overlap_from (live t) i"
        unfolding overlap_from_def using i(3) r'(2) by (intro exI [of _ i]) (simp add: lt nx_def)
      have "Suc i < rs_count t" using i by (simp add: t_def)
      then show ?thesis using overlap_shift_stuck [OF vt _ _ ht rs(1,2)] rs(3) by blast
    qed
  qed
qed

lemma overlap_loop_stuck:
  assumes "rs_valid w s" "overlap_from (live s) i"
  shows "overlap_loop fuel w s i \<noteq> Some (Some s')"
  using assms
proof (induction fuel arbitrary: s i)
  case (Suc fuel)
  then have "i < rs_count s - 1" by (auto simp: overlap_from_def)
  then show ?case
    using Suc overlap_step_stuck [OF Suc.prems] by (auto split: option.split)
qed simp

lemma overlap_loop_apart:
  assumes "rs_valid w s" "\<not> overlap_from (live s) i" "rs_count s - i \<le> fuel" "0 < fuel"
  shows "overlap_loop fuel w s i = Some (Some s)"
  using assms(2-4)
proof (induction fuel arbitrary: i)
  case (Suc fuel)
  show ?case
  proof (cases "i < rs_count s - 1")
    case True
    then have i: "Suc i < length (live s)" using assms(1) by auto
    then have ok: "range_ok w (live s ! i)" "range_ok w (live s ! Suc i)"
      using assms(1) by (auto simp: rs_valid_def)
    have "ordering_of (live s ! i) (live s ! Suc i) \<in> {Less, Greater}" "\<not> overlap_from (live s) (Suc i)"
      using Suc.prems(1) i by (auto simp: overlap_from_def)
    moreover have "rs_inv s" using assms(1) by simp
    ultimately show ?thesis
      using True Suc.IH [of "Suc i"] Suc.prems(2) i by (auto simp: overlap_step_def range_cmp_eq [OF ok])
  qed simp
qed simp

lemma disjoint_iff_no_overlap:
  assumes "rs_valid w s" "rs_sorted s"
  shows "rs_disjoint s \<longleftrightarrow> \<not> overlap_from (live s) 0"
proof -
  have ok: "range_ok w (live s ! i)" if "i < length (live s)" for i
    using assms(1) that by (auto simp: rs_valid_def)
  have le: "r_base (live s ! i) \<le> r_base (live s ! Suc i)" if "Suc i < length (live s)" for i
    using assms(2) that by (auto simp: rs_sorted_def sorted_wrt_iff_nth_less)
  have adj: "ordering_of (live s ! i) (live s ! Suc i) \<in> {Less, Greater} \<longleftrightarrow> ends_before (live s ! i) (live s ! Suc i)"
    if "Suc i < length (live s)" for i
    using ok [of i] ok [of "Suc i"] le [OF that] that by (auto simp: ordering_of_def ends_before_def range_ok_def)
  have "sorted_wrt ends_before (live s) \<longleftrightarrow> (\<forall>i. Suc i < length (live s) \<longrightarrow> ends_before (live s ! i) (live s ! Suc i))"
  proof
    assume a: "\<forall>i. Suc i < length (live s) \<longrightarrow> ends_before (live s ! i) (live s ! Suc i)"
    have "ends_before (live s ! i) (live s ! (i + Suc k))" if "i + Suc k < length (live s)" for i k
      using that
    proof (induction k)
      case (Suc k)
      then have "ends_before (live s ! i) (live s ! (i + Suc k))" "ends_before (live s ! (i + Suc k)) (live s ! Suc (i + Suc k))"
        using a by auto
      then show ?case by (simp add: ends_before_def)
    qed (use a in simp)
    then show "sorted_wrt ends_before (live s)"
      unfolding sorted_wrt_iff_nth_less by (metis less_iff_Suc_add add_Suc_right)
  qed (simp add: sorted_wrt_iff_nth_less)
  then show ?thesis
    using adj by (auto simp: rs_disjoint_def overlap_from_def)
qed

lemma trim_empty_id: "rs_inv s \<Longrightarrow> \<forall>r\<in>set (live s). 0 < r_size r \<Longrightarrow> trim_empty_loop s i = Some s"
proof (induction s i rule: trim_empty_loop.induct)
  case (1 s i)
  show ?case
  proof (cases "i < rs_count s")
    case True
    then have "0 < r_size (live s ! i)" using 1(3,4) by simp
    with True 1 show ?thesis by (subst trim_empty_loop.simps) simp
  qed (simp add: trim_empty_loop.simps)
qed

lemma trim_disjoint:
  assumes "rs_valid w s" "rs_sorted s" "rs_disjoint s" "rs_count s < fuel"
  shows "trim_ranges fuel w s = Some (Some s)"
proof -
  have "overlap_loop fuel w s 0 = Some (Some s)"
    using overlap_loop_apart [OF assms(1), of 0 fuel] disjoint_iff_no_overlap [OF assms(1,2)] assms(3,4) by simp
  moreover have "trim_empty_loop s 0 = Some s"
    using assms(1) by (intro trim_empty_id) (auto simp: rs_valid_def)
  ultimately show ?thesis by (simp add: trim_ranges_def trim_overlapping_ranges_def trim_empty_ranges_def)
qed

subsection \<open>The operations on valid, disjoint sets\<close>

definition rs_ok :: "width \<Rightarrow> 'tag range_set \<Rightarrow> bool" where
  "rs_ok w s \<longleftrightarrow> rs_valid w s \<and> rs_disjoint s"

definition rs_room :: "'tag range_set \<Rightarrow> nat" where
  "rs_room s = length (rs_ranges s) - rs_count s"

lemma rs_ok_new [simp]: "rs_ok w (range_set_new n t)" "rs_addrs (range_set_new n t) = {}" "rs_room (range_set_new n t) = n"
  by (simp_all add: rs_ok_def rs_valid_def rs_inv_def rs_disjoint_def rs_addrs_def rs_room_def)
    (simp_all add: range_set_new_def)

lemma at_most_one_superset:
  assumes "sorted_wrt ends_before xs" "\<forall>r\<in>set xs. range_ok w r" "range_ok w e"
  shows "length (filter (\<lambda>r. length (pieces e r) = 2) xs) \<le> 1"
  using assms(1,2)
proof (induction xs)
  case (Cons a xs)
  have "\<not> addrs e \<subset> addrs b" if "addrs e \<subset> addrs a" "b \<in> set xs" for b
  proof -
    have "addrs a \<inter> addrs b = {}"
      using Cons.prems(1) that(2) by (auto simp: ends_before_def addrs_def)
    moreover have "addrs e \<noteq> {}" using assms(3) by simp
    ultimately show ?thesis using that(1) by blast
  qed
  then have "filter (\<lambda>r. length (pieces e r) = 2) xs = []" if "length (pieces e a) = 2"
    using that Cons.prems(2) pieces_two_iff [OF _ assms(3)] by (auto simp: filter_empty_conv)
  then show ?case using Cons by auto
qed simp

lemma exclude_range_live:
  assumes "rs_ok w s" "range_ok w e" "usize_max w \<notin> addrs e \<or> usize_max w \<notin> rs_addrs s"
    and room: "0 < rs_room s \<or> (\<forall>r\<in>set (live s). \<not> addrs e \<subset> addrs r)"
  shows "\<exists>s'. exclude_range w s e = Some s' \<and> live s' = nonempty (concat (map (pieces e) (live s))) \<and> rs_inv s' \<and> rs_room s \<le> Suc (rs_room s')"
proof -
  have v: "rs_inv s" "\<forall>r\<in>set (live s). range_ok w r" and d: "sorted_wrt ends_before (live s)"
    using assms(1) by (auto simp: rs_ok_def rs_valid_def rs_disjoint_def)
  have ex: "\<forall>r\<in>set (live s). range_exclude w r e = Some (Inr (exclude_parts r e))"
    using v(2) assms(2,3) by (auto simp: range_exclude_eq exclude_overflows_iff rs_addrs_def)
  let ?two = "filter (\<lambda>r. length (pieces e r) = 2) (live s)"
  have two: "length ?two \<le> 1" by (rule at_most_one_superset [OF d v(2) assms(2)])
  have "rs_count s + length ?two \<le> length (rs_ranges s)"
  proof (cases "0 < rs_room s")
    case False
    with room have "?two = []"
      using v(2) pieces_two_iff [OF _ assms(2)] by (auto simp: filter_empty_conv)
    then show ?thesis using v(1) by (simp add: rs_inv_def)
  qed (use two in \<open>simp add: rs_room_def\<close>)
  then obtain s' where s': "exclude_range w s e = Some s'" "live s' = nonempty (concat (map (pieces e) (live s)))"
      "rs_inv s'" "length (rs_ranges s') = length (rs_ranges s)"
    using exclude_loop_eq [OF v(1), of 0 w e] ex by (auto simp: exclude_range_def)
  have "length (concat (map (pieces e) xs)) \<le> length xs + length (filter (\<lambda>r. length (pieces e r) = 2) xs)" for xs :: "'a range list"
    by (induction xs) (auto simp: pieces_def split: option.splits)
  note this [of "live s"]
  moreover have "length (live s') \<le> length (concat (map (pieces e) (live s)))"
    unfolding s'(2) nonempty_def by (rule length_filter_le)
  ultimately have "rs_count s' \<le> Suc (rs_count s)"
    using two live_length [OF s'(3)] live_length [OF v(1)] by linarith
  then show ?thesis using s' by (auto simp: rs_room_def)
qed

lemma exclude_range_ok:
  assumes "rs_ok w s" "range_ok w e" "usize_max w \<notin> addrs e \<or> usize_max w \<notin> rs_addrs s"
    and room: "0 < rs_room s \<or> (\<forall>r\<in>set (live s). \<not> addrs e \<subset> addrs r)"
  shows "\<exists>s'. exclude_range w s e = Some s' \<and> rs_ok w s' \<and> rs_addrs s' = rs_addrs s - addrs e
    \<and> rs_room s \<le> Suc (rs_room s')"
proof -
  have v: "rs_inv s" "\<forall>r\<in>set (live s). range_ok w r" and d: "sorted_wrt ends_before (live s)"
    using assms(1) by (auto simp: rs_ok_def rs_valid_def rs_disjoint_def)
  obtain s' where s': "exclude_range w s e = Some s'" "live s' = nonempty (concat (map (pieces e) (live s)))" "rs_inv s'" "rs_room s \<le> Suc (rs_room s')"
    using exclude_range_live [OF assms] by blast
  have "rs_ok w s'"
    using s'(2,3) v(2) assms(2) pieces_disjoint_list [OF v(2) _ d, of e] pieces_range_ok(1)
    by (fastforce simp: rs_ok_def rs_valid_def rs_disjoint_def)
  have "rs_addrs s' = (\<Union>r\<in>set (live s). \<Union>p\<in>set (pieces e r). addrs p)"
    by (auto simp: rs_addrs_def s'(2)) (metis addrs_empty_iff empty_iff neq0_conv)
  also have "\<dots> = (\<Union>r\<in>set (live s). addrs r - addrs e)"
    using v(2) assms(2) by (intro SUP_cong refl pieces_addrs) auto
  finally have "rs_addrs s' = rs_addrs s - addrs e" by (auto simp: rs_addrs_def)
  then show ?thesis
    using s'(1,4) \<open>rs_ok w s'\<close> by blast
qed

section \<open>The set as a pool of addresses\<close>

text \<open>
  What the boot code relies on: every exclusion takes exactly its addresses out and costs at
  most one slot. The client lemma is the loop \<open>for range in excl { config.exclude_range(range) }\<close>.
\<close>

fun exclude_each :: "('s \<Rightarrow> 'r \<Rightarrow> 's option) \<Rightarrow> 's \<Rightarrow> 'r list \<Rightarrow> 's option" where
  "exclude_each f s [] = Some s"
| "exclude_each f s (e # es) = do { s' \<leftarrow> f s e; exclude_each f s' es }"

locale address_pool =
  fixes pool_ok :: "'s \<Rightarrow> bool"
    and space :: "'s \<Rightarrow> nat set"
    and room :: "'s \<Rightarrow> nat"
    and range_valid :: "'r \<Rightarrow> bool"
    and range_space :: "'r \<Rightarrow> nat set"
    and top :: nat
    and exclude :: "'s \<Rightarrow> 'r \<Rightarrow> 's option"
  assumes exclude_law:
    "pool_ok s \<Longrightarrow> range_valid e \<Longrightarrow> top \<notin> range_space e \<or> top \<notin> space s \<Longrightarrow> 0 < room s \<Longrightarrow>
      \<exists>s'. exclude s e = Some s' \<and> pool_ok s' \<and> space s' = space s - range_space e \<and> room s \<le> Suc (room s')"
begin

lemma exclude_each_ok:
  assumes "pool_ok s" "\<forall>e\<in>set es. range_valid e" "top \<notin> space s" "length es \<le> room s"
  shows "\<exists>s'. exclude_each exclude s es = Some s' \<and> pool_ok s' \<and> space s' = space s - (\<Union>e\<in>set es. range_space e)
    \<and> room s \<le> room s' + length es"
  using assms
proof (induction es arbitrary: s)
  case (Cons e es)
  then obtain s1 where s1: "exclude s e = Some s1" "pool_ok s1" "space s1 = space s - range_space e" "room s \<le> Suc (room s1)"
    using exclude_law [of s e] by auto
  from Cons.prems s1 obtain s2 where "exclude_each exclude s1 es = Some s2" "pool_ok s2"
      "space s2 = space s1 - (\<Union>e\<in>set es. range_space e)" "room s1 \<le> room s2 + length es"
    using Cons.IH [of s1] by auto
  with s1 show ?case by (intro exI [of _ s2]) auto
qed simp

end

interpretation rs: address_pool "rs_ok w" rs_addrs rs_room "range_ok w" addrs "usize_max w" "exclude_range w"
  for w
  by unfold_locales (rule exclude_range_ok, auto)

section \<open>Properties\<close>

text \<open>
  \<^bold>\<open>C21\<close> \<open>RangeSet::insert_range\<close>: on a valid set it never panics; it succeeds exactly when
  the set has a free slot and the range is not empty and does not overflow; then the set holds
  the new range once more, stays valid and sorted by base, and ranges with the base of the new
  one keep their order with the new one last; otherwise the set is unchanged.
\<close>

theorem insert_range_correct:
  assumes "rs_valid w s" "rs_sorted s" "r_base r < usize_lim w" "r_size r < usize_lim w"
  shows "\<exists>s' b. insert_range w s r = Some (s', b) \<and> (b \<longleftrightarrow> 0 < rs_room s \<and> range_ok w r)
    \<and> rs_valid w s' \<and> rs_sorted s' \<and> rs_addrs s' = rs_addrs s \<union> (if b then addrs r else {})
    \<and> (if b then filter (\<lambda>x. r_base x = r_base r) (live s') = filter (\<lambda>x. r_base x = r_base r) (live s) @ [r]
          \<and> rs_count s' = Suc (rs_count s)
        else s' = s)"
proof (cases "rs_count s < length (rs_ranges s) \<and> range_ok w r")
  case True
  have inv: "rs_inv s" using assms(1) by simp
  obtain s' where s': "insert_range w s r = Some (s', True)" "live s' = insert_live r (live s)" "rs_inv s'"
    using insert_range_eq(1) [OF inv assms(3,4) True] by blast
  have "rs_valid w s'" "rs_sorted s'"
    using assms(1,2) s'(2,3) True by (auto simp: rs_valid_def rs_sorted_def intro: insert_live_sorted)
  moreover have "rs_addrs s' = rs_addrs s \<union> addrs r" by (auto simp: rs_addrs_def s'(2))
  moreover have "filter (\<lambda>x. r_base x = r_base r) (live s') = filter (\<lambda>x. r_base x = r_base r) (live s) @ [r]"
    using assms(2) insert_live_stable by (simp add: s'(2) rs_sorted_def)
  moreover have "length (insert_live r (live s)) = Suc (length (live s))"
    by (metis insert_live_def add_Suc_right length_Cons length_append takeWhile_dropWhile_id)
  then have "rs_count s' = Suc (rs_count s)"
    using s'(2) live_length [OF s'(3)] live_length [OF inv] by simp
  ultimately show ?thesis using s'(1) True by (intro exI [of _ s'] exI [of _ True]) (simp add: rs_room_def)
next
  case False
  then have "insert_range w s r = Some (s, False)"
    using insert_range_eq(2) [of s r w] assms by simp
  then show ?thesis using False assms by (intro exI [of _ s] exI [of _ False]) (auto simp: rs_room_def)
qed

theorem insert_range_correct_witness:
  "\<exists>s' b. insert_range W64 (range_set_new 64 ()) \<lparr>r_tag = (), r_base = 0x1000, r_size = 0x2000\<rparr> = Some (s', b)
    \<and> b \<and> rs_addrs s' = {0x1000..<0x3000}"
proof -
  let ?r = "\<lparr>r_tag = (), r_base = 0x1000, r_size = 0x2000\<rparr>"
  have "rs_valid W64 (range_set_new 64 ())" "rs_sorted (range_set_new 64 ())"
    using rs_ok_new(1) [of W64 64 "()"] by (simp_all add: rs_ok_def rs_sorted_def)
  moreover have "range_ok W64 ?r" "r_base ?r < usize_lim W64" "r_size ?r < usize_lim W64" by (simp_all add: range_ok_def)
  ultimately show ?thesis
    using insert_range_correct [of W64 "range_set_new 64 ()" ?r] by (auto simp: addrs_def)
qed

text \<open>
  \<^bold>\<open>C12\<close> \<open>RangeSet::exclude_range\<close>: on a set of valid, disjoint ranges it returns and takes
  exactly the excluded addresses out; the result is again valid and disjoint. It needs a free
  slot only when one range strictly contains the exclusion, and it needs the exclusion or the
  set to leave the top address alone.
\<close>

theorem exclude_range_correct:
  assumes "rs_ok w s" "range_ok w e" "usize_max w \<notin> addrs e \<or> usize_max w \<notin> rs_addrs s"
    and "0 < rs_room s \<or> (\<forall>r\<in>set (live s). \<not> addrs e \<subset> addrs r)"
  shows "\<exists>s'. exclude_range w s e = Some s' \<and> rs_ok w s' \<and> rs_addrs s' = rs_addrs s - addrs e"
  using exclude_range_ok [OF assms] by blast

theorem exclude_range_correct_witness:
  "\<exists>s'. exclude_range W32 \<lparr>rs_ranges = [\<lparr>r_tag = (), r_base = 0, r_size = 0x8000\<rparr>, \<lparr>r_tag = (), r_base = 0, r_size = 0\<rparr>], rs_count = 1\<rparr>
      \<lparr>r_tag = (), r_base = 0x1000, r_size = 0x1000\<rparr> = Some s' \<and> rs_addrs s' = {0..<0x8000} - {0x1000..<0x2000}"
  using exclude_range_correct [of W32 "\<lparr>rs_ranges = [\<lparr>r_tag = (), r_base = 0, r_size = 0x8000\<rparr>, \<lparr>r_tag = (), r_base = 0, r_size = 0\<rparr>], rs_count = 1\<rparr>"
      "\<lparr>r_tag = (), r_base = 0x1000, r_size = 0x1000\<rparr>"]
  by (auto simp: rs_ok_def rs_valid_def rs_inv_def rs_disjoint_def live_def range_ok_def addrs_def usize_max_def rs_room_def rs_addrs_def)

text \<open>
  \<^bold>\<open>C33\<close> \<open>RangeSet::trim_ranges\<close> returns exactly on the sets that need no trimming: on a valid
  sorted set, some number of iterations ends the loop without a panic if and only if no two
  ranges overlap, and then \<open>count + 1\<close> iterations suffice and the set is unchanged. The loop
  copies ranges down without lowering \<open>count\<close>, so one overlap keeps it from ever ending.
\<close>

theorem trim_ranges_returns_iff:
  assumes "rs_valid w s" "rs_sorted s"
  shows "((\<exists>fuel s'. trim_ranges fuel w s = Some (Some s')) \<longleftrightarrow> rs_disjoint s)
    \<and> (rs_disjoint s \<longrightarrow> (\<exists>s'. trim_ranges (Suc (rs_count s)) w s = Some (Some s') \<and> live s' = live s))"
proof -
  have inv: "rs_inv s" using assms(1) by simp
  have ok: "\<exists>s'. trim_ranges (Suc (rs_count s)) w s = Some (Some s') \<and> live s' = live s" if "rs_disjoint s"
    using trim_disjoint [OF assms that, of "Suc (rs_count s)"] by simp
  have "rs_disjoint s" if "trim_ranges fuel w s = Some (Some s')" for fuel s'
  proof (rule ccontr)
    assume "\<not> rs_disjoint s"
    then have o: "overlap_from (live s) 0" using disjoint_iff_no_overlap [OF assms] by blast
    then have "\<not> rs_count s < 2" using inv by (auto simp: overlap_from_def)
    with that overlap_loop_stuck [OF assms(1) o, of fuel] show False
      by (auto simp: trim_ranges_def trim_overlapping_ranges_def split: option.splits)
  qed
  with ok show ?thesis by blast
qed

theorem trim_ranges_returns_iff_witness:
  "\<not> (\<exists>fuel s'. trim_ranges fuel W64 \<lparr>rs_ranges = [\<lparr>r_tag = (), r_base = 0, r_size = 0x2000\<rparr>,
      \<lparr>r_tag = (), r_base = 0x1000, r_size = 0x2000\<rparr>], rs_count = 2\<rparr> = Some (Some s'))"
  using trim_ranges_returns_iff [of W64 "\<lparr>rs_ranges = [\<lparr>r_tag = (), r_base = 0, r_size = 0x2000\<rparr>,
      \<lparr>r_tag = (), r_base = 0x1000, r_size = 0x2000\<rparr>], rs_count = 2\<rparr>"]
  by (simp add: rs_valid_def rs_inv_def rs_disjoint_def rs_sorted_def live_def range_ok_def ends_before_def)

end
