(* ===== verification/Bitmap.thy ===== *)
theory Bitmap
  imports Bits
begin

text \<open>
  \<open>Bitmap\<close> and \<open>BitmapIter\<close> of \<open>src/support/bits.rs\<close>: a map of \<open>bits\<close> bits stored in machine
  words. The abstraction \<open>members\<close> is the set of indices below \<open>bits\<close> whose bit is set; every
  operation is described on it, and the locale \<open>index_set\<close> is the interface the buffered page
  allocator uses.
\<close>

unbundle bit_operations_syntax

section \<open>Data and operations\<close>

definition word_bit_shift :: "width \<Rightarrow> nat" where
  "word_bit_shift w = (case w of W32 \<Rightarrow> 5 | W64 \<Rightarrow> 6)"

definition word_bit_mask :: "width \<Rightarrow> usize" where
  "word_bit_mask w = word_bits w - 1"

record bitmap =
  bm_words :: "usize list"
  bm_bits :: usize

definition bitmap_new :: "width \<Rightarrow> usize \<Rightarrow> usize \<Rightarrow> bitmap option" where
  "bitmap_new w map_words bits = do {
     max_bits \<leftarrow> ushl w map_words (word_bit_shift w);
     Some \<lparr>bm_words = replicate map_words 0, bm_bits = min bits max_bits\<rparr> }"

definition bitmap_len :: "bitmap \<Rightarrow> usize" where
  "bitmap_len b = bm_bits b"

definition get_word_and_shift :: "width \<Rightarrow> usize \<Rightarrow> usize \<times> usize" where
  "get_word_and_shift w n = (drop_bit (word_bit_shift w) n, n AND word_bit_mask w)"

text \<open>
  The three operations on one bit share their shape: nothing outside the map, otherwise the
  word that holds the bit is combined with the bit's mask.
\<close>

definition set_bit_at :: "width \<Rightarrow> bitmap \<Rightarrow> usize \<Rightarrow> bitmap option" where
  "set_bit_at w b n =
     (if n \<ge> bm_bits b then Some b
      else do {
        let (word, shift) = get_word_and_shift w n;
        x \<leftarrow> idx (bm_words b) word;
        m \<leftarrow> ushl w 1 shift;
        ws \<leftarrow> upd (bm_words b) word (x OR m);
        Some (b\<lparr>bm_words := ws\<rparr>) })"

definition set_all_bits :: "width \<Rightarrow> bitmap \<Rightarrow> bitmap" where
  "set_all_bits w b = b\<lparr>bm_words := map (\<lambda>_. usize_max w) (bm_words b)\<rparr>"

definition clear_bit :: "width \<Rightarrow> bitmap \<Rightarrow> usize \<Rightarrow> bitmap option" where
  "clear_bit w b n =
     (if n \<ge> bm_bits b then Some b
      else do {
        let (word, shift) = get_word_and_shift w n;
        x \<leftarrow> idx (bm_words b) word;
        m \<leftarrow> ushl w 1 shift;
        ws \<leftarrow> upd (bm_words b) word (x AND unot w m);
        Some (b\<lparr>bm_words := ws\<rparr>) })"

definition clear_all_bits :: "bitmap \<Rightarrow> bitmap" where
  "clear_all_bits b = b\<lparr>bm_words := map (\<lambda>_. 0) (bm_words b)\<rparr>"

definition toggle_bit :: "width \<Rightarrow> bitmap \<Rightarrow> usize \<Rightarrow> bitmap option" where
  "toggle_bit w b n =
     (if n \<ge> bm_bits b then Some b
      else do {
        let (word, shift) = get_word_and_shift w n;
        x \<leftarrow> idx (bm_words b) word;
        m \<leftarrow> ushl w 1 shift;
        ws \<leftarrow> upd (bm_words b) word (x XOR m);
        Some (b\<lparr>bm_words := ws\<rparr>) })"

definition toggle_all_bits :: "width \<Rightarrow> bitmap \<Rightarrow> bitmap" where
  "toggle_all_bits w b = b\<lparr>bm_words := map (\<lambda>x. x XOR usize_max w) (bm_words b)\<rparr>"

definition test_bit :: "width \<Rightarrow> bitmap \<Rightarrow> usize \<Rightarrow> bool option option" where
  "test_bit w b n =
     (if n \<ge> bm_bits b then Some None
      else do {
        let (word, shift) = get_word_and_shift w n;
        x \<leftarrow> idx (bm_words b) word;
        m \<leftarrow> ushl w 1 shift;
        Some (Some (x AND m \<noteq> 0)) })"

text \<open>\<open>usize::trailing_zeros\<close>: the width of the word when no bit is set.\<close>

definition trailing_zeros :: "width \<Rightarrow> usize \<Rightarrow> nat" where
  "trailing_zeros w x = length (takeWhile (\<lambda>i. \<not> bit x i) [0..<word_bits w])"

fun first_zero_from :: "width \<Rightarrow> usize list \<Rightarrow> usize \<Rightarrow> usize option" where
  "first_zero_from w [] index = Some index"
| "first_zero_from w (x # xs) index =
     (let z = trailing_zeros w (unot w x) in
      if z < word_bits w then uadd w index z
      else do { index \<leftarrow> uadd w index (word_bits w); first_zero_from w xs index })"

definition first_zero :: "width \<Rightarrow> bitmap \<Rightarrow> usize option option" where
  "first_zero w b = do {
     index \<leftarrow> first_zero_from w (bm_words b) 0;
     Some (if index \<ge> bm_bits b then None else Some index) }"

fun sum_ones :: "width \<Rightarrow> usize list \<Rightarrow> usize \<Rightarrow> usize option" where
  "sum_ones w [] count = Some count"
| "sum_ones w (x # xs) count = do {
     n \<leftarrow> ones w x;
     count \<leftarrow> uadd w count n;
     sum_ones w xs count }"

definition bitmap_ones :: "width \<Rightarrow> bitmap \<Rightarrow> usize option" where
  "bitmap_ones w b = sum_ones w (bm_words b) 0"

text \<open>The iterator. \<open>self.bit\<close> is read and never written, and the mask is shifted by the index.\<close>

record bitmap_iter =
  it_index :: usize
  it_word :: usize
  it_bit :: usize
  it_bitmap :: bitmap

definition into_iter :: "bitmap \<Rightarrow> bitmap_iter" where
  "into_iter b = \<lparr>it_index = 0, it_word = 0, it_bit = 0, it_bitmap = b\<rparr>"

function iter_next :: "width \<Rightarrow> bitmap_iter \<Rightarrow> (bitmap_iter \<times> usize option) option" where
  "iter_next w it =
     (if it_index it < bm_bits (it_bitmap it)
      then do {
        let index = it_index it;
        x \<leftarrow> idx (bm_words (it_bitmap it)) (it_word it);
        m \<leftarrow> ushl w 1 index;
        let val = (x AND m \<noteq> 0);
        let it = it\<lparr>it_index := it_index it + 1\<rparr>;
        let it = (if wrapping_add w (it_bit it) 1 = 0 then it\<lparr>it_word := it_word it + 1\<rparr> else it);
        if val then Some (it, Some index) else iter_next w it }
      else Some (it, None))"
  by pat_completeness auto
termination by (relation "measure (\<lambda>(w, it). bm_bits (it_bitmap it) - it_index it)") auto

declare iter_next.simps [simp del]

section \<open>The members of a map\<close>

definition bit_at :: "width \<Rightarrow> usize list \<Rightarrow> nat \<Rightarrow> bool" where
  "bit_at w ws i \<longleftrightarrow> bit (ws ! (i div word_bits w)) (i mod word_bits w)"

definition members :: "width \<Rightarrow> bitmap \<Rightarrow> nat set" where
  "members w b = {i. i < bm_bits b \<and> bit_at w (bm_words b) i}"

definition bm_inv :: "width \<Rightarrow> bitmap \<Rightarrow> bool" where
  "bm_inv w b \<longleftrightarrow> (\<forall>x\<in>set (bm_words b). x < usize_lim w) \<and> bm_bits b \<le> length (bm_words b) * word_bits w
     \<and> length (bm_words b) * word_bits w < usize_lim w"

lemma word_bits_shift: "word_bits w = 2 ^ word_bit_shift w"
  by (cases w) (simp_all add: word_bit_shift_def)

lemma get_word_and_shift_eq: "get_word_and_shift w i = (i div word_bits w, i mod word_bits w)"
proof -
  have "word_bit_mask w = mask (word_bit_shift w)"
    by (simp add: word_bit_mask_def word_bits_shift mask_eq_exp_minus_1)
  then show ?thesis
    by (simp add: get_word_and_shift_def word_bits_shift drop_bit_eq_div take_bit_eq_mod flip: take_bit_eq_mask)
qed

lemma ushl_one [simp]: "s < word_bits w \<Longrightarrow> ushl w 1 s = Some (2 ^ s)"
  by (simp add: ushl_ok)

lemma ushl_Suc0 [simp]: "s < word_bits w \<Longrightarrow> ushl w (Suc 0) s = Some (2 ^ s)"
  using ushl_one by simp

lemma word_index_less: "i < n * word_bits w \<Longrightarrow> i div word_bits w < n"
  by (simp add: less_mult_imp_div_less)

lemma bit_at_update:
  assumes "i div word_bits w < length ws"
  shows "bit_at w (ws[i div word_bits w := x]) j \<longleftrightarrow>
    (if j div word_bits w = i div word_bits w then bit x (j mod word_bits w) else bit_at w ws j)"
  using assms by (simp add: bit_at_def nth_list_update)

lemma same_index_iff: "j div n = i div n \<and> j mod n = i mod n \<longleftrightarrow> j = (i::nat)"
  by (metis div_mult_mod_eq)

lemma bit_at_combine:
  assumes "i div word_bits w < length ws"
    and "\<And>k. bit x k \<longleftrightarrow> (if k = i mod word_bits w then v else bit (ws ! (i div word_bits w)) k)"
  shows "bit_at w (ws[i div word_bits w := x]) j \<longleftrightarrow> (if j = i then v else bit_at w ws j)"
proof (cases "j div word_bits w = i div word_bits w")
  case True
  then have "j = i \<longleftrightarrow> j mod word_bits w = i mod word_bits w" using same_index_iff by metis
  then show ?thesis using True assms by (simp add: bit_at_update bit_at_def)
next
  case False
  then show ?thesis using assms(1) by (auto simp: bit_at_update)
qed

lemma bit_exp_nat: "bit ((2::nat) ^ s) k \<longleftrightarrow> k = s"
  by (auto simp: bit_exp_iff)

lemma exp_less_lim: "s < word_bits w \<Longrightarrow> 2 ^ s < usize_lim w"
  by simp

lemma bm_inv_word: "bm_inv w b \<Longrightarrow> i < bm_bits b \<Longrightarrow> i div word_bits w < length (bm_words b)"
  by (auto simp: bm_inv_def intro!: word_index_less)

lemma bm_inv_word_less: "bm_inv w b \<Longrightarrow> i < bm_bits b \<Longrightarrow> bm_words b ! (i div word_bits w) < usize_lim w"
  using bm_inv_word by (auto simp: bm_inv_def)

text \<open>A write of one word that changes one bit is a change of one member.\<close>

lemma update_bit:
  assumes "bm_inv w b" "i < bm_bits b" "x < usize_lim w"
    and "\<And>k. bit x k \<longleftrightarrow> (if k = i mod word_bits w then v else bit (bm_words b ! (i div word_bits w)) k)"
  defines "b' \<equiv> b\<lparr>bm_words := (bm_words b)[i div word_bits w := x]\<rparr>"
  shows "bm_inv w b'" "members w b' = (if v then insert i (members w b) else members w b - {i})" "bm_bits b' = bm_bits b"
    "bit_at w (bm_words b') j \<longleftrightarrow> (if j = i then v else bit_at w (bm_words b) j)"
proof -
  have l: "i div word_bits w < length (bm_words b)" by (rule bm_inv_word [OF assms(1,2)])
  show "bm_inv w b'"
    using assms(1,3) set_update_subset_insert [of "bm_words b" "i div word_bits w" x]
    by (auto simp: bm_inv_def b'_def)
  show *: "bit_at w (bm_words b') j \<longleftrightarrow> (if j = i then v else bit_at w (bm_words b) j)" for j
    unfolding b'_def using bit_at_combine [OF l assms(4)] by simp
  show "members w b' = (if v then insert i (members w b) else members w b - {i})"
    using assms(2) by (auto simp: members_def *) (auto simp: b'_def)
  show "bm_bits b' = bm_bits b" by (simp add: b'_def)
qed

lemma set_bit_at_ok:
  assumes "bm_inv w b" "n < bm_bits b"
  shows "\<exists>b'. set_bit_at w b n = Some b' \<and> bm_inv w b' \<and> members w b' = insert n (members w b) \<and> bm_bits b' = bm_bits b
    \<and> (\<forall>j. bit_at w (bm_words b') j \<longleftrightarrow> j = n \<or> bit_at w (bm_words b) j)"
proof -
  let ?x = "bm_words b ! (n div word_bits w)" and ?s = "n mod word_bits w"
  have "?x OR 2 ^ ?s < usize_lim w"
    using bm_inv_word_less [OF assms] by (intro or_less_exp) simp_all
  note upd = update_bit [OF assms this, of True, simplified bit_or_iff bit_exp_nat]
  show ?thesis
    using assms(2) bm_inv_word [OF assms] upd
    by (simp add: set_bit_at_def get_word_and_shift_eq bit_or_iff bit_exp_nat)
qed

lemma clear_bit_ok:
  assumes "bm_inv w b" "n < bm_bits b"
  shows "\<exists>b'. clear_bit w b n = Some b' \<and> bm_inv w b' \<and> members w b' = members w b - {n} \<and> bm_bits b' = bm_bits b
    \<and> (\<forall>j. bit_at w (bm_words b') j \<longleftrightarrow> j \<noteq> n \<and> bit_at w (bm_words b) j)"
proof -
  let ?x = "bm_words b ! (n div word_bits w)" and ?s = "n mod word_bits w"
  have s: "2 ^ ?s < usize_lim w" by simp
  have x: "?x AND unot w (2 ^ ?s) < usize_lim w"
    using bm_inv_word_less [OF assms] by (intro and_less_exp) simp_all
  have "bit (?x AND unot w (2 ^ ?s)) k \<longleftrightarrow> (if k = ?s then False else bit ?x k)" for k
    using bit_less_width [OF bm_inv_word_less [OF assms], of k] by (auto simp: bit_and_iff bit_unot [OF s] bit_exp_nat)
  note upd = update_bit [OF assms x this]
  show ?thesis
    using assms(2) bm_inv_word [OF assms] upd
    by (simp add: clear_bit_def get_word_and_shift_eq)
qed

lemma toggle_bit_ok:
  assumes "bm_inv w b" "n < bm_bits b"
  shows "\<exists>b'. toggle_bit w b n = Some b' \<and> bm_inv w b' \<and> bm_bits b' = bm_bits b
    \<and> members w b' = (if n \<in> members w b then members w b - {n} else insert n (members w b))"
proof -
  let ?x = "bm_words b ! (n div word_bits w)" and ?s = "n mod word_bits w"
  have x: "?x XOR 2 ^ ?s < usize_lim w"
    using bm_inv_word_less [OF assms] by (intro xor_less_exp) simp_all
  have "bit (?x XOR 2 ^ ?s) k \<longleftrightarrow> (if k = ?s then \<not> bit ?x ?s else bit ?x k)" for k
    by (auto simp: bit_xor_iff bit_exp_nat)
  note upd = update_bit [OF assms x this]
  have "n \<in> members w b \<longleftrightarrow> bit ?x ?s" using assms(2) by (simp add: members_def bit_at_def)
  with upd show ?thesis
    using assms(2) bm_inv_word [OF assms]
    by (simp add: toggle_bit_def get_word_and_shift_eq)
qed

lemma test_bit_ok:
  assumes "bm_inv w b"
  shows "test_bit w b n = Some (if n < bm_bits b then Some (n \<in> members w b) else None)"
proof (cases "n < bm_bits b")
  case True
  have "x AND 2 ^ s \<noteq> 0 \<longleftrightarrow> bit x s" for x s :: nat
    by (simp add: and_exp_eq_0_iff_not_bit)
  with True bm_inv_word [OF assms True] show ?thesis
    by (simp add: test_bit_def get_word_and_shift_eq members_def bit_at_def)
qed (simp add: test_bit_def)

lemma trailing_ones:
  assumes "x < usize_lim w"
  defines "z \<equiv> trailing_zeros w (unot w x)"
  shows "z \<le> word_bits w" "i < z \<Longrightarrow> bit x i" "z < word_bits w \<Longrightarrow> \<not> bit x z"
proof -
  let ?P = "\<lambda>i. \<not> bit (unot w x) i"
  have z: "z = length (takeWhile ?P [0..<word_bits w])" by (simp add: z_def trailing_zeros_def)
  show le: "z \<le> word_bits w" using length_takeWhile_le [of ?P "[0..<word_bits w]"] by (simp add: z)
  have P: "?P i \<longleftrightarrow> bit x i" if "i < word_bits w" for i
    using that assms(1) by (simp add: bit_unot)
  show "bit x i" if "i < z"
  proof -
    have "takeWhile ?P [0..<word_bits w] ! i = [0..<word_bits w] ! i"
      using that by (intro takeWhile_nth) (simp add: z)
    then have "takeWhile ?P [0..<word_bits w] ! i = i"
      using that le by simp
    then have "i \<in> set (takeWhile ?P [0..<word_bits w])" using that by (metis nth_mem z)
    then show ?thesis using P that le by (auto dest!: set_takeWhileD)
  qed
  show "\<not> bit x z" if "z < word_bits w"
    using nth_length_takeWhile [of ?P "[0..<word_bits w]"] that P [of z] by (simp add: z)
qed

lemma bit_at_Cons: "bit_at w (x # xs) i \<longleftrightarrow> (if i < word_bits w then bit x i else bit_at w xs (i - word_bits w))"
  by (simp add: bit_at_def le_div_geq le_mod_geq)

lemma first_zero_from_ok:
  assumes "\<forall>x\<in>set ws. x < usize_lim w" "index + length ws * word_bits w < usize_lim w"
  shows "\<exists>z. first_zero_from w ws index = Some (index + z) \<and> z \<le> length ws * word_bits w
    \<and> (\<forall>i<z. bit_at w ws i) \<and> (z < length ws * word_bits w \<longrightarrow> \<not> bit_at w ws z)"
  using assms
proof (induction ws arbitrary: index)
  case (Cons x xs)
  define z where "z = trailing_zeros w (unot w x)"
  have x: "x < usize_lim w" using Cons.prems by simp
  note z = trailing_ones [OF x, folded z_def]
  have b: "index + word_bits w + length xs * word_bits w < usize_lim w" using Cons.prems by simp
  show ?case
  proof (cases "z < word_bits w")
    case True
    have "index + z < usize_lim w" using b True by linarith
    then have "first_zero_from w (x # xs) index = Some (index + z)"
      using True by (simp flip: z_def)
    then show ?thesis
      using True z(2,3) by (intro exI [of _ z]) (simp add: bit_at_Cons)
  next
    case False
    then have all: "bit x i" if "i < word_bits w" for i using z(2) that by simp
    have "index + word_bits w < usize_lim w" using b by linarith
    then have e: "first_zero_from w (x # xs) index = first_zero_from w xs (index + word_bits w)"
      using False by (simp flip: z_def)
    obtain z' where z': "first_zero_from w xs (index + word_bits w) = Some (index + word_bits w + z')"
        "z' \<le> length xs * word_bits w" "\<forall>i<z'. bit_at w xs i" "z' < length xs * word_bits w \<longrightarrow> \<not> bit_at w xs z'"
      using Cons.IH [of "index + word_bits w"] Cons.prems b by auto
    show ?thesis
      unfolding e using z' all
      by (intro exI [of _ "word_bits w + z'"]) (auto simp: bit_at_Cons add.assoc simp del: first_zero_from.simps)
  qed
qed simp

lemma first_zero_ok:
  assumes "bm_inv w b"
  shows "\<exists>z. first_zero w b = Some z \<and>
    (case z of None \<Rightarrow> members w b = {..<bm_bits b}
     | Some n \<Rightarrow> n < bm_bits b \<and> n \<notin> members w b \<and> {..<n} \<subseteq> members w b)"
proof -
  obtain z where z: "first_zero_from w (bm_words b) 0 = Some z" "z \<le> length (bm_words b) * word_bits w"
      "\<forall>i<z. bit_at w (bm_words b) i" "z < length (bm_words b) * word_bits w \<longrightarrow> \<not> bit_at w (bm_words b) z"
    using first_zero_from_ok [of "bm_words b" w 0] assms by (auto simp: bm_inv_def)
  have "bm_bits b \<le> length (bm_words b) * word_bits w" using assms by (simp add: bm_inv_def)
  with z show ?thesis
    by (cases "bm_bits b \<le> z") (auto simp: first_zero_def members_def)
qed

lemma bits_card_Cons:
  assumes "x < usize_lim w"
  shows "card {i. i < length (x # xs) * word_bits w \<and> bit_at w (x # xs) i} =
    popcount x + card {i. i < length xs * word_bits w \<and> bit_at w xs i}"
proof -
  let ?A = "{i. i < word_bits w \<and> bit x i}" and ?B = "{i. i < length xs * word_bits w \<and> bit_at w xs i}"
  have "{i. i < length (x # xs) * word_bits w \<and> bit_at w (x # xs) i} = ?A \<union> (+) (word_bits w) ` ?B"
  proof (intro set_eqI)
    fix i
    show "i \<in> {i. i < length (x # xs) * word_bits w \<and> bit_at w (x # xs) i} \<longleftrightarrow> i \<in> ?A \<union> (+) (word_bits w) ` ?B"
    proof (cases "i < word_bits w")
      case False
      then obtain j where "i = word_bits w + j" by (metis le_Suc_ex not_less)
      then show ?thesis by (auto simp: bit_at_Cons)
    qed (auto simp: bit_at_Cons)
  qed
  moreover have "card (?A \<union> (+) (word_bits w) ` ?B) = card ?A + card ((+) (word_bits w) ` ?B)"
    by (intro card_Un_disjoint) auto
  ultimately show ?thesis
    using popcount_card [OF assms] by (simp add: card_image)
qed

lemma sum_ones_ok:
  assumes "\<forall>x\<in>set ws. x < usize_lim w" "count + length ws * word_bits w < usize_lim w"
  shows "sum_ones w ws count = Some (count + card {i. i < length ws * word_bits w \<and> bit_at w ws i})"
  using assms
proof (induction ws arbitrary: count)
  case (Cons x xs)
  have x: "x < usize_lim w" using Cons.prems by simp
  have "card {i. i < word_bits w \<and> bit x i} \<le> card {..<word_bits w}"
    by (intro card_mono) auto
  then have p: "popcount x \<le> word_bits w" using popcount_card [OF x] by simp
  have b: "count + word_bits w + length xs * word_bits w < usize_lim w" using Cons.prems by simp
  with p have "count + popcount x < usize_lim w" "count + popcount x + length xs * word_bits w < usize_lim w"
    by linarith+
  then show ?case
    using Cons x ones_correct [OF x] bits_card_Cons [OF x, of xs] by (simp del: length_Cons)
qed simp

text \<open>
  What the iterator does from index \<open>k\<close> on: its word never advances, so it sees the bits of the
  first word only, and the shift panics as soon as the index leaves that word.
\<close>

definition iter_at :: "bitmap \<Rightarrow> usize \<Rightarrow> bitmap_iter" where
  "iter_at b k = \<lparr>it_index = k, it_word = 0, it_bit = 0, it_bitmap = b\<rparr>"

lemma iter_at_step:
  assumes "bm_inv w b" "k < bm_bits b"
  shows "iter_next w (iter_at b k) =
    (if k < word_bits w
     then if k \<in> members w b then Some (iter_at b (Suc k), Some k) else iter_next w (iter_at b (Suc k))
     else None)"
proof -
  have ne: "0 < length (bm_words b)" using bm_inv_word [OF assms] by (cases "bm_words b") simp_all
  have wr: "wrapping_add w 0 (Suc 0) \<noteq> 0" by (cases w) (simp_all add: wrapping_add_def)
  have "bm_words b ! 0 AND 2 ^ k \<noteq> 0 \<longleftrightarrow> k \<in> members w b" if "k < word_bits w"
    using that assms(2) by (simp add: and_exp_eq_0_iff_not_bit members_def bit_at_def)
  then show ?thesis
    using assms(2) ne wr by (subst iter_next.simps) (auto simp: iter_at_def ushl_def)
qed

lemma iter_at_end: "bm_bits b \<le> k \<Longrightarrow> iter_next w (iter_at b k) = Some (iter_at b k, None)"
  by (subst iter_next.simps) (simp add: iter_at_def)

lemma iter_next_ok:
  assumes "bm_inv w b"
  shows "iter_next w (iter_at b k) =
    (if members w b \<inter> {k..<word_bits w} \<noteq> {}
     then let m = (LEAST m. k \<le> m \<and> m \<in> members w b) in Some (iter_at b (Suc m), Some m)
     else if bm_bits b \<le> max k (word_bits w) then Some (iter_at b (max k (bm_bits b)), None)
     else None)"
proof (induction "bm_bits b - k" arbitrary: k)
  case 0
  then have "\<not> (members w b \<inter> {k..<word_bits w} \<noteq> {})" by (auto simp: members_def)
  with 0 show ?case by (auto simp: iter_at_end max_def)
next
  case (Suc d)
  then have k: "k < bm_bits b" "d = bm_bits b - Suc k" by simp_all
  note IH = Suc.hyps(1) [OF k(2)]
  show ?case
  proof (cases "k < word_bits w \<and> k \<in> members w b")
    case True
    then have "(LEAST m. k \<le> m \<and> m \<in> members w b) = k" by (intro Least_equality) auto
    with True show ?thesis by (auto simp: iter_at_step [OF assms k(1)])
  next
    case False
    have eq: "k \<le> m \<and> m \<in> members w b \<longleftrightarrow> Suc k \<le> m \<and> m \<in> members w b" if "k < word_bits w" for m
      using False that by (cases "m = k") auto
    show ?thesis
    proof (cases "k < word_bits w")
      case True
      have "members w b \<inter> {k..<word_bits w} = members w b \<inter> {Suc k..<word_bits w}"
        using False True by (auto simp: Suc_le_eq order.strict_iff_order)
      then show ?thesis
        using True False k(1) by (simp add: iter_at_step [OF assms k(1)] IH eq [OF True] max_def Let_def)
    next
      case False
      then have "\<not> (members w b \<inter> {k..<word_bits w} \<noteq> {})" by auto
      with False k(1) show ?thesis by (simp add: iter_at_step [OF assms k(1)])
    qed
  qed
qed

subsection \<open>Counting\<close>

text \<open>
  \<open>ones\<close> counts the bits of the whole words, also those at and above \<open>bits\<close>; the count is the
  number of members as long as no such bit is set, which every operation on one bit keeps.
\<close>

definition bm_tight :: "width \<Rightarrow> bitmap \<Rightarrow> bool" where
  "bm_tight w b \<longleftrightarrow> (\<forall>i. bm_bits b \<le> i \<and> i < length (bm_words b) * word_bits w \<longrightarrow> \<not> bit_at w (bm_words b) i)"

lemma bitmap_ones_ok:
  assumes "bm_inv w b"
  shows "bitmap_ones w b = Some (card {i. i < length (bm_words b) * word_bits w \<and> bit_at w (bm_words b) i})"
  using sum_ones_ok [of "bm_words b" w 0] assms by (simp add: bitmap_ones_def bm_inv_def)

lemma bitmap_ones_tight:
  assumes "bm_inv w b" "bm_tight w b"
  shows "bitmap_ones w b = Some (card (members w b))"
proof -
  have "{i. i < length (bm_words b) * word_bits w \<and> bit_at w (bm_words b) i} = members w b"
    using assms by (auto simp: members_def bm_tight_def bm_inv_def not_less [symmetric])
  then show ?thesis using bitmap_ones_ok [OF assms(1)] by simp
qed

lemma bitmap_new_ok:
  assumes "map_words * word_bits w < usize_lim w"
  shows "\<exists>b. bitmap_new w map_words bits = Some b \<and> bm_inv w b \<and> members w b = {} \<and> bm_tight w b
    \<and> bm_bits b = min bits (map_words * word_bits w)"
proof -
  have s: "word_bit_shift w < word_bits w" by (cases w) (simp_all add: word_bit_shift_def)
  then have "ushl w map_words (word_bit_shift w) = Some (map_words * word_bits w)"
    using assms by (simp add: ushl_ok word_bits_shift)
  moreover have "\<not> bit_at w (replicate map_words 0) i" if "i < map_words * word_bits w" for i
    using word_index_less [OF that] by (simp add: bit_at_def)
  ultimately show ?thesis
    using assms by (auto simp: bitmap_new_def bm_inv_def members_def bm_tight_def)
qed

lemma members_subset: "members w b \<subseteq> {..<bm_bits b}" "finite (members w b)" "card (members w b) \<le> bm_bits b"
proof -
  show s: "members w b \<subseteq> {..<bm_bits b}" by (auto simp: members_def)
  then show "finite (members w b)" by (rule finite_subset) simp
  from card_mono [OF _ s] show "card (members w b) \<le> bm_bits b" by simp
qed

section \<open>The interface of an index allocator\<close>

text \<open>
  What a client that hands out indices relies on: the first free index is free, taking it adds
  exactly it, releasing an index removes exactly it, and the count is the number of taken ones.
\<close>

locale index_set =
  fixes inv :: "'b \<Rightarrow> bool"
    and taken :: "'b \<Rightarrow> nat set"
    and size_of :: "'b \<Rightarrow> nat"
    and mark :: "'b \<Rightarrow> nat \<Rightarrow> 'b option"
    and unmark :: "'b \<Rightarrow> nat \<Rightarrow> 'b option"
    and first_free :: "'b \<Rightarrow> nat option option"
    and count :: "'b \<Rightarrow> nat option"
  assumes mark_law: "inv b \<Longrightarrow> i < size_of b \<Longrightarrow>
      \<exists>b'. mark b i = Some b' \<and> inv b' \<and> taken b' = insert i (taken b) \<and> size_of b' = size_of b"
    and unmark_law: "inv b \<Longrightarrow> i < size_of b \<Longrightarrow>
      \<exists>b'. unmark b i = Some b' \<and> inv b' \<and> taken b' = taken b - {i} \<and> size_of b' = size_of b"
    and first_free_law: "inv b \<Longrightarrow> \<exists>z. first_free b = Some z \<and>
      (case z of None \<Rightarrow> taken b = {..<size_of b} | Some i \<Rightarrow> i < size_of b \<and> i \<notin> taken b \<and> {..<i} \<subseteq> taken b)"
    and count_law: "inv b \<Longrightarrow> count b = Some (card (taken b))"
    and taken_bound: "inv b \<Longrightarrow> taken b \<subseteq> {..<size_of b}"
begin

lemma take_first:
  assumes "inv b" "taken b \<noteq> {..<size_of b}"
  shows "\<exists>i b'. first_free b = Some (Some i) \<and> mark b i = Some b' \<and> inv b' \<and> taken b' = insert i (taken b)
    \<and> i \<notin> taken b \<and> i < size_of b \<and> size_of b' = size_of b \<and> card (taken b') = Suc (card (taken b))"
proof -
  obtain z where z: "first_free b = Some z" "case z of None \<Rightarrow> taken b = {..<size_of b}
      | Some i \<Rightarrow> i < size_of b \<and> i \<notin> taken b \<and> {..<i} \<subseteq> taken b"
    using first_free_law [OF assms(1)] by blast
  with assms(2) obtain i where i: "z = Some i" "i < size_of b" "i \<notin> taken b" by (cases z) auto
  have "finite (taken b)" using taken_bound [OF assms(1)] by (rule finite_subset) simp
  with z i mark_law [OF assms(1) i(2)] show ?thesis by auto
qed

lemma take_none:
  assumes "inv b" "taken b = {..<size_of b}"
  shows "first_free b = Some None"
  using first_free_law [OF assms(1)] assms(2) by (auto split: option.splits)

lemma release:
  assumes "inv b" "i \<in> taken b"
  shows "\<exists>b'. unmark b i = Some b' \<and> inv b' \<and> taken b' = taken b - {i} \<and> size_of b' = size_of b
    \<and> Suc (card (taken b')) = card (taken b)"
proof -
  have "i < size_of b" "finite (taken b)"
    using assms taken_bound [OF assms(1)] by (auto intro: finite_subset)
  with unmark_law [OF assms(1), of i] assms(2) show ?thesis
    by (metis card_Suc_Diff1)
qed

end

definition bm_ok :: "width \<Rightarrow> bitmap \<Rightarrow> bool" where
  "bm_ok w b \<longleftrightarrow> bm_inv w b \<and> bm_tight w b"

lemma tight_update:
  assumes "bm_tight w b" "bm_bits b' = bm_bits b" "length (bm_words b') = length (bm_words b)"
    and "\<And>j. bit_at w (bm_words b') j \<Longrightarrow> j < bm_bits b \<or> bit_at w (bm_words b) j"
  shows "bm_tight w b'"
  using assms by (fastforce simp: bm_tight_def)

lemma bitmap_update_length:
  "set_bit_at w b n = Some b' \<Longrightarrow> length (bm_words b') = length (bm_words b)"
  "clear_bit w b n = Some b' \<Longrightarrow> length (bm_words b') = length (bm_words b)"
  by (cases "n \<ge> bm_bits b"; auto simp: set_bit_at_def clear_bit_def get_word_and_shift_eq panic_simps)+

lemma bitmap_index_set:
  "index_set (bm_ok w) (members w) bm_bits (set_bit_at w) (clear_bit w) (first_zero w) (bitmap_ones w)"
proof (unfold_locales, goal_cases)
  case (1 b i)
  then obtain b' where b': "set_bit_at w b i = Some b'" "bm_inv w b'" "members w b' = insert i (members w b)"
      "bm_bits b' = bm_bits b" "\<forall>j. bit_at w (bm_words b') j \<longleftrightarrow> j = i \<or> bit_at w (bm_words b) j"
    using set_bit_at_ok [of w b i] unfolding bm_ok_def by blast
  moreover have "bm_tight w b'"
  proof (rule tight_update [OF _ b'(4) bitmap_update_length(1) [OF b'(1)]])
    show "bm_tight w b" using 1 by (simp add: bm_ok_def)
    show "j < bm_bits b \<or> bit_at w (bm_words b) j" if "bit_at w (bm_words b') j" for j
      using that b'(5) 1(2) by auto
  qed
  ultimately show ?case by (auto simp: bm_ok_def)
next
  case (2 b i)
  then obtain b' where b': "clear_bit w b i = Some b'" "bm_inv w b'" "members w b' = members w b - {i}"
      "bm_bits b' = bm_bits b" "\<forall>j. bit_at w (bm_words b') j \<longleftrightarrow> j \<noteq> i \<and> bit_at w (bm_words b) j"
    using clear_bit_ok [of w b i] unfolding bm_ok_def by blast
  moreover have "bm_tight w b'"
  proof (rule tight_update [OF _ b'(4) bitmap_update_length(2) [OF b'(1)]])
    show "bm_tight w b" using 2 by (simp add: bm_ok_def)
    show "j < bm_bits b \<or> bit_at w (bm_words b) j" if "bit_at w (bm_words b') j" for j
      using that b'(5) 2(2) by auto
  qed
  ultimately show ?case by (auto simp: bm_ok_def)
qed (simp_all add: bm_ok_def first_zero_ok bitmap_ones_tight members_subset)

interpretation bm: index_set "bm_ok w" "members w" bm_bits "set_bit_at w" "clear_bit w" "first_zero w" "bitmap_ones w"
  for w
  by (rule bitmap_index_set)

section \<open>Properties\<close>

text \<open>
  \<^bold>\<open>C28\<close> The bitmap stores a set of indices: on a well-formed map, setting, clearing and
  toggling a bit below \<open>len\<close> add, remove and flip exactly that index, an index at or above \<open>len\<close>
  changes nothing, \<open>test_bit\<close> reads membership (\<open>None\<close> outside the map), and none of them
  panics or breaks well-formedness.
\<close>

theorem bitmap_is_index_set:
  assumes "bm_inv w b"
  shows "\<exists>s c t. set_bit_at w b n = Some s \<and> clear_bit w b n = Some c \<and> toggle_bit w b n = Some t
    \<and> bm_inv w s \<and> bm_inv w c \<and> bm_inv w t
    \<and> members w s = (if n < bm_bits b then insert n (members w b) else members w b)
    \<and> members w c = members w b - {n}
    \<and> members w t = (if n < bm_bits b \<and> n \<notin> members w b then insert n (members w b) else members w b - {n})
    \<and> test_bit w b n = Some (if n < bm_bits b then Some (n \<in> members w b) else None)"
proof (cases "n < bm_bits b")
  case True
  show ?thesis
    using set_bit_at_ok [OF assms True] clear_bit_ok [OF assms True] toggle_bit_ok [OF assms True] test_bit_ok [OF assms, of n] True
    by auto
next
  case False
  then have "n \<notin> members w b" by (simp add: members_def)
  with False assms show ?thesis
    by (simp add: set_bit_at_def clear_bit_def toggle_bit_def test_bit_def)
qed

theorem bitmap_is_index_set_witness:
  "\<exists>s. set_bit_at W32 \<lparr>bm_words = [5, 0], bm_bits = 40\<rparr> 33 = Some s \<and> 33 \<in> members W32 s"
  using bitmap_is_index_set [of W32 "\<lparr>bm_words = [5, 0], bm_bits = 40\<rparr>" 33] by (auto simp: bm_inv_def)

text \<open>
  \<open>Bitmap::first_zero\<close> returns the least index of the map that is not a member, and
  \<open>None\<close> exactly when every index below \<open>len\<close> is one.
\<close>

theorem first_zero_is_least:
  assumes "bm_inv w b"
  shows "\<exists>z. first_zero w b = Some z \<and> (z = None \<longleftrightarrow> members w b = {..<bm_bits b})
    \<and> (\<forall>n. z = Some n \<longleftrightarrow> n < bm_bits b \<and> n \<notin> members w b \<and> {..<n} \<subseteq> members w b)"
proof -
  obtain z where z: "first_zero w b = Some z" "case z of None \<Rightarrow> members w b = {..<bm_bits b}
      | Some n \<Rightarrow> n < bm_bits b \<and> n \<notin> members w b \<and> {..<n} \<subseteq> members w b"
    using first_zero_ok [OF assms] by blast
  have "n = m" if "n \<notin> members w b" "{..<n} \<subseteq> members w b" "m \<notin> members w b" "{..<m} \<subseteq> members w b" for m n
    using that by (metis lessThan_iff linorder_neqE_nat subsetD)
  with z show ?thesis by (cases z) auto
qed

theorem first_zero_is_least_witness:
  "first_zero W32 \<lparr>bm_words = [0xffffffff, 3], bm_bits = 40\<rparr> = Some (Some 34)"
proof -
  let ?b = "\<lparr>bm_words = [0xffffffff, 3], bm_bits = 40\<rparr>"
  have m: "i \<in> members W32 ?b \<longleftrightarrow> i < 34" if "i \<le> 34" for i
  proof (cases "i < 32")
    case True
    have "(0xffffffff::nat) = mask 32" by (simp add: mask_eq_exp_minus_1)
    then have "bit (0xffffffff::nat) i" using True by (simp only: bit_mask_iff) simp
    with True show ?thesis by (simp add: members_def bit_at_def)
  next
    case False
    with that consider "i = 32" | "i = 33" | "i = 34" by linarith
    then show ?thesis by cases (simp_all add: members_def bit_at_def bit_0)
  qed
  have "bm_inv W32 ?b" by (simp add: bm_inv_def)
  from first_zero_is_least [OF this] m show ?thesis by fastforce
qed

text \<open>
  \<open>BitmapIter\<close> works on maps of one word only: a fresh iterator over a well-formed map
  returns the least member when the first word has one; otherwise it ends without a panic if and
  only if the map is no longer than one machine word, and panics on the shift \<open>1 << index\<close> on every
  longer map.
\<close>

theorem bitmap_iter_one_word:
  assumes "bm_inv w b"
  shows "iter_next w (into_iter b) =
    (if members w b \<inter> {..<word_bits w} \<noteq> {}
     then let m = (LEAST m. m \<in> members w b) in Some (iter_at b (Suc m), Some m)
     else if bm_bits b \<le> word_bits w then Some (iter_at b (bm_bits b), None)
     else None)"
  using iter_next_ok [OF assms, of 0] by (simp add: iter_at_def into_iter_def lessThan_atLeast0)

theorem bitmap_iter_one_word_witness:
  "iter_next W32 (into_iter \<lparr>bm_words = [0, 1], bm_bits = 33\<rparr>) = None"
  using bitmap_iter_one_word [of W32 "\<lparr>bm_words = [0, 1], bm_bits = 33\<rparr>"]
  by (auto simp: bm_inv_def members_def bit_at_def)

end
