(* ===== verification/Page_Source.thy ===== *)
theory Page_Source
  imports Bits
begin

text \<open>
  The trait \<open>PageAllocator\<close> of \<open>src/arch/common/memory.rs\<close> as an interface: what \<open>alloc\<close>
  guarantees of the blocks it returns. A block is the pair of its physical address and its number
  of pages. The clients of the trait (the page table builders, the slab allocator) ask for blocks
  one after another; \<open>alloc_each\<close> is such a run, and the locale proves once that its blocks never
  overlap.
\<close>

type_synonym block = "usize \<times> usize"

definition block_addrs :: "usize \<Rightarrow> block \<Rightarrow> nat set" where
  "block_addrs page_size b = {fst b ..< fst b + snd b * page_size}"

fun alloc_each :: "('s \<Rightarrow> usize \<Rightarrow> ('s \<times> block option) option) \<Rightarrow> 's \<Rightarrow> usize list \<Rightarrow> ('s \<times> block list) option" where
  "alloc_each f s [] = Some (s, [])"
| "alloc_each f s (p # ps) = do {
     (s, r) \<leftarrow> f s p;
     (s, bs) \<leftarrow> alloc_each f s ps;
     Some (s, case r of None \<Rightarrow> bs | Some b \<Rightarrow> b # bs) }"

definition fresh_block :: "usize \<Rightarrow> nat set \<Rightarrow> block set \<Rightarrow> usize \<Rightarrow> block \<Rightarrow> bool" where
  "fresh_block page_size area taken pages b \<longleftrightarrow> snd b = 2 ^ clog2 pages \<and> (snd b * page_size) dvd fst b
     \<and> block_addrs page_size b \<subseteq> area
     \<and> (\<forall>c\<in>taken. block_addrs page_size b \<inter> block_addrs page_size c = {})"

locale page_source =
  fixes inv :: "'s \<Rightarrow> bool"
    and blocks :: "'s \<Rightarrow> block set"
    and page_size :: "'s \<Rightarrow> usize"
    and area :: "'s \<Rightarrow> nat set"
    and request_ok :: "usize \<Rightarrow> bool"
    and alloc :: "'s \<Rightarrow> usize \<Rightarrow> ('s \<times> block option) option"
  assumes alloc_law: "inv s \<Longrightarrow> request_ok p \<Longrightarrow> \<exists>s' r. alloc s p = Some (s', r) \<and> inv s' \<and> page_size s' = page_size s \<and> area s' = area s
      \<and> (case r of
           None \<Rightarrow> blocks s' = blocks s
         | Some b \<Rightarrow> blocks s' = insert b (blocks s) \<and> fresh_block (page_size s) (area s) (blocks s) p b)"
begin

lemma alloc_each_ok:
  assumes "inv s" "\<forall>p\<in>set ps. request_ok p"
  shows "\<exists>s' bs. alloc_each alloc s ps = Some (s', bs) \<and> inv s' \<and> page_size s' = page_size s \<and> area s' = area s \<and> blocks s' = blocks s \<union> set bs
    \<and> sorted_wrt (\<lambda>b c. block_addrs (page_size s) b \<inter> block_addrs (page_size s) c = {}) bs
    \<and> (\<forall>b\<in>set bs. \<exists>p\<in>set ps. fresh_block (page_size s) (area s) (blocks s) p b)"
  using assms
proof (induction ps arbitrary: s)
  case (Cons p ps)
  obtain s1 r where a: "alloc s p = Some (s1, r)" "inv s1" "page_size s1 = page_size s" "area s1 = area s"
      and r: "case r of None \<Rightarrow> blocks s1 = blocks s
         | Some b \<Rightarrow> blocks s1 = insert b (blocks s) \<and> fresh_block (page_size s) (area s) (blocks s) p b"
    using alloc_law [OF Cons.prems(1), of p] Cons.prems(2) by auto
  obtain s2 bs where b: "alloc_each alloc s1 ps = Some (s2, bs)" "inv s2" "page_size s2 = page_size s" "area s2 = area s" "blocks s2 = blocks s1 \<union> set bs"
      "sorted_wrt (\<lambda>b c. block_addrs (page_size s) b \<inter> block_addrs (page_size s) c = {}) bs"
      "\<forall>b\<in>set bs. \<exists>p\<in>set ps. fresh_block (page_size s) (area s) (blocks s1) p b"
    using Cons.IH [OF a(2)] Cons.prems(2) a(3,4) by auto
  show ?case
  proof (cases r)
    case None
    then show ?thesis using a b r by (intro exI [of _ s2] exI [of _ bs]) auto
  next
    case (Some x)
    with r have x: "blocks s1 = insert x (blocks s)" "fresh_block (page_size s) (area s) (blocks s) p x" by auto
    have "\<forall>c\<in>set bs. block_addrs (page_size s) x \<inter> block_addrs (page_size s) c = {}"
      using b(7) x(1) by (auto simp: fresh_block_def)
    moreover have "\<forall>c\<in>set bs. \<exists>p\<in>set ps. fresh_block (page_size s) (area s) (blocks s) p c"
      using b(7) x(1) by (auto simp: fresh_block_def)
    ultimately show ?thesis
      using a b x Some by (intro exI [of _ s2] exI [of _ "x # bs"]) auto
  qed
qed simp

end

end
