(* ===== verification/Buddy.thy ===== *)
theory Buddy
  imports Range_Sets Bitmap Page_Source
begin

text \<open>
  \<open>src/mm/page_allocator.rs\<close>: the buddy page allocator. The list nodes the code places at the
  start of every free block are the function \<open>ba_mem\<close> from physical addresses to nodes, which stands
  for the memory reached through \<open>Task::map_page\<close>; writes to it are made one field group at a time,
  in the order of the code, so that aliased nodes behave as they do there. The architecture's page
  size is 4 KiB on both targets; its maximum physical address is an argument of \<open>buddy_new\<close>.
\<close>

section \<open>Data\<close>

definition page_shift :: nat where
  "page_shift = 12"

definition page_size :: usize where
  "page_size = 4096"

definition BLOCK_LEVELS :: nat where
  "BLOCK_LEVELS = 11"

fun WORD_SHIFT :: "width \<Rightarrow> nat" where
  "WORD_SHIFT W32 = 2"
| "WORD_SHIFT W64 = 3"

record block_node =
  bn_next :: usize
  bn_prev :: usize
  bn_checksum :: usize

definition block_node_new :: "width \<Rightarrow> usize \<Rightarrow> usize \<Rightarrow> block_node" where
  "block_node_new w nxt prv = \<lparr>bn_next = nxt, bn_prev = prv, bn_checksum = xor_checksum w [nxt, prv]\<rparr>"

definition update_checksum :: "width \<Rightarrow> block_node \<Rightarrow> block_node" where
  "update_checksum w n = n\<lparr>bn_checksum := xor_checksum w [bn_prev n, bn_next n]\<rparr>"

definition verify_checksum :: "width \<Rightarrow> block_node \<Rightarrow> bool" where
  "verify_checksum w n \<longleftrightarrow> xor_checksum w [bn_next n, bn_prev n] = bn_checksum n"

record block_level =
  bl_head :: usize
  bl_offset :: usize

record buddy =
  ba_base :: usize
  ba_size :: usize
  ba_levels :: "block_level list"
  ba_flags :: "usize list"
  ba_alloc_mem :: usize
  ba_free_mem :: usize
  ba_mem :: "usize \<Rightarrow> block_node"

section \<open>Metadata geometry\<close>

definition calc_first_level :: "usize \<Rightarrow> usize \<times> usize" where
  "calc_first_level sz = (drop_bit page_shift sz, 0)"

definition calc_next_level :: "width \<Rightarrow> usize \<Rightarrow> usize \<Rightarrow> (usize \<times> usize) option" where
  "calc_next_level w blocks offset = do {
     b \<leftarrow> uadd w blocks 1;
     let bits = drop_bit 1 b;
     t \<leftarrow> uadd w bits (word_bits w);
     t \<leftarrow> usub t 1;
     o' \<leftarrow> uadd w offset (drop_bit (word_bit_shift w) t);
     Some (drop_bit 1 blocks, o') }"

fun next_levels :: "nat \<Rightarrow> width \<Rightarrow> usize \<Rightarrow> usize \<Rightarrow> (usize \<times> usize) option" where
  "next_levels 0 w blocks offset = Some (blocks, offset)"
| "next_levels (Suc i) w blocks offset = do {
     (blocks, offset) \<leftarrow> calc_next_level w blocks offset;
     next_levels i w blocks offset }"

definition calc_metadata_size :: "width \<Rightarrow> usize \<Rightarrow> usize option" where
  "calc_metadata_size w sz = do {
     let (blocks, offset) = calc_first_level sz;
     (blocks, offset) \<leftarrow> next_levels BLOCK_LEVELS w blocks offset;
     ushl w offset (WORD_SHIFT w) }"

fun fill_levels :: "nat \<Rightarrow> width \<Rightarrow> usize \<Rightarrow> usize \<Rightarrow> (block_level list \<times> usize) option" where
  "fill_levels 0 w blocks offset = Some ([], offset)"
| "fill_levels (Suc i) w blocks offset = do {
     (blocks', offset') \<leftarrow> calc_next_level w blocks offset;
     (ls, off) \<leftarrow> fill_levels i w blocks' offset';
     Some (\<lparr>bl_head = 0, bl_offset = offset\<rparr> # ls, off) }"

definition make_levels :: "width \<Rightarrow> usize \<Rightarrow> (block_level list \<times> usize) option" where
  "make_levels w sz = do {
     let (blocks, offset) = calc_first_level sz;
     (levels, offset) \<leftarrow> fill_levels BLOCK_LEVELS w blocks offset;
     meta_size \<leftarrow> ushl w offset (WORD_SHIFT w);
     Some (levels, meta_size) }"

section \<open>Free lists\<close>

definition get_block_node_unchecked_mut :: "width \<Rightarrow> buddy \<Rightarrow> usize \<Rightarrow> block_node option" where
  "get_block_node_unchecked_mut w s addr = do {
     a \<leftarrow> align_down w addr page_size;
     assert_that (a = addr);
     Some (ba_mem s addr) }"

definition get_block_node_mut :: "width \<Rightarrow> buddy \<Rightarrow> usize \<Rightarrow> block_node option" where
  "get_block_node_mut w s addr = do {
     node \<leftarrow> get_block_node_unchecked_mut w s addr;
     assert_that (verify_checksum w node);
     Some node }"

definition get_flag_index_and_bit :: "width \<Rightarrow> buddy \<Rightarrow> usize \<Rightarrow> usize \<Rightarrow> (usize \<times> usize) option" where
  "get_flag_index_and_bit w s block_addr level = do {
     d \<leftarrow> usub block_addr (ba_base s);
     page_num \<leftarrow> ushr w d page_shift;
     block_num \<leftarrow> ushr w page_num level;
     let block_pair = drop_bit 1 block_num;
     lv \<leftarrow> idx (ba_levels s) level;
     index \<leftarrow> uadd w (bl_offset lv) (drop_bit (word_bit_shift w) block_pair);
     Some (index, block_pair AND word_bit_mask w) }"

definition toggle_flag :: "width \<Rightarrow> buddy \<Rightarrow> usize \<Rightarrow> usize \<Rightarrow> buddy option" where
  "toggle_flag w s index bit_idx = do {
     f \<leftarrow> idx (ba_flags s) index;
     m \<leftarrow> ushl w 1 bit_idx;
     fs \<leftarrow> upd (ba_flags s) index (f XOR m);
     Some (s\<lparr>ba_flags := fs\<rparr>) }"

definition set_head :: "buddy \<Rightarrow> usize \<Rightarrow> usize \<Rightarrow> buddy option" where
  "set_head s level head = do {
     lv \<leftarrow> idx (ba_levels s) level;
     ls \<leftarrow> upd (ba_levels s) level (lv\<lparr>bl_head := head\<rparr>);
     Some (s\<lparr>ba_levels := ls\<rparr>) }"

definition add_to_list :: "width \<Rightarrow> buddy \<Rightarrow> usize \<Rightarrow> usize \<Rightarrow> buddy option" where
  "add_to_list w s level block_addr = do {
     (index, bit_idx) \<leftarrow> get_flag_index_and_bit w s block_addr level;
     lv \<leftarrow> idx (ba_levels s) level;
     let head_addr = bl_head lv;
     block \<leftarrow> get_block_node_unchecked_mut w s block_addr;
     s \<leftarrow>
       (if head_addr = 0 then do {
          s \<leftarrow> set_head s level block_addr;
          let mem = ba_mem s;
          let mem = mem(block_addr := update_checksum w ((mem block_addr)\<lparr>bn_prev := block_addr, bn_next := block_addr\<rparr>));
          Some (s\<lparr>ba_mem := mem\<rparr>) }
        else do {
          head \<leftarrow> get_block_node_mut w s head_addr;
          let prev_addr = bn_prev head;
          prev \<leftarrow> get_block_node_mut w s prev_addr;
          let mem = ba_mem s;
          let mem = mem(block_addr := update_checksum w ((mem block_addr)\<lparr>bn_prev := bn_prev (mem head_addr), bn_next := head_addr\<rparr>));
          let mem = mem(head_addr := update_checksum w ((mem head_addr)\<lparr>bn_prev := block_addr\<rparr>));
          let mem = mem(prev_addr := update_checksum w ((mem prev_addr)\<lparr>bn_next := block_addr\<rparr>));
          Some (s\<lparr>ba_mem := mem\<rparr>) });
     toggle_flag w s index bit_idx }"

definition remove_from_list :: "width \<Rightarrow> buddy \<Rightarrow> usize \<Rightarrow> usize \<Rightarrow> buddy option" where
  "remove_from_list w s level block_addr = do {
     (index, bit_idx) \<leftarrow> get_flag_index_and_bit w s block_addr level;
     lv \<leftarrow> idx (ba_levels s) level;
     let head_addr = bl_head lv;
     block \<leftarrow> get_block_node_mut w s block_addr;
     s \<leftarrow>
       (if bn_next block = block_addr then do {
          assert_that (bn_prev block = bn_next block);
          assert_that (head_addr = block_addr);
          set_head s level 0 }
        else do {
          let prev_addr = bn_prev block;
          let next_addr = bn_next block;
          prev \<leftarrow> get_block_node_mut w s prev_addr;
          nxt \<leftarrow> get_block_node_mut w s next_addr;
          let mem = ba_mem s;
          let mem = mem(next_addr := update_checksum w ((mem next_addr)\<lparr>bn_prev := bn_prev (mem block_addr)\<rparr>));
          let mem = mem(prev_addr := update_checksum w ((mem prev_addr)\<lparr>bn_next := bn_next (mem block_addr)\<rparr>));
          let mem = mem(block_addr := \<lparr>bn_next = 0, bn_prev = 0, bn_checksum = 0\<rparr>);
          let s = s\<lparr>ba_mem := mem\<rparr>;
          if block_addr = head_addr then set_head s level (bn_next (mem block_addr)) else Some s });
     toggle_flag w s index bit_idx }"

definition pop_from_list :: "width \<Rightarrow> buddy \<Rightarrow> usize \<Rightarrow> (buddy \<times> usize) option" where
  "pop_from_list w s level = do {
     lv \<leftarrow> idx (ba_levels s) level;
     let head_addr = bl_head lv;
     s \<leftarrow> remove_from_list w s level head_addr;
     Some (s, head_addr) }"

section \<open>Allocation and release\<close>

fun split_loop :: "width \<Rightarrow> buddy \<Rightarrow> usize \<Rightarrow> nat list \<Rightarrow> buddy option" where
  "split_loop w s block_addr [] = Some s"
| "split_loop w s block_addr (l # ls) = do {
     sz \<leftarrow> ushl w page_size l;
     s \<leftarrow> add_to_list w s l (block_addr OR sz);
     split_loop w s block_addr ls }"

definition split_free_block :: "width \<Rightarrow> buddy \<Rightarrow> usize \<Rightarrow> usize \<Rightarrow> (buddy \<times> usize) option" where
  "split_free_block w s level min_level = do {
     (s, block_addr) \<leftarrow> pop_from_list w s level;
     s \<leftarrow> split_loop w s block_addr (rev [min_level..<level]);
     Some (s, block_addr) }"

fun alloc_loop :: "width \<Rightarrow> buddy \<Rightarrow> usize \<Rightarrow> nat list \<Rightarrow> (buddy \<times> block option) option" where
  "alloc_loop w s min_level [] = Some (s, None)"
| "alloc_loop w s min_level (level # ls) = do {
     lv \<leftarrow> idx (ba_levels s) level;
     if bl_head lv = 0 then alloc_loop w s min_level ls
     else do {
       (s, block) \<leftarrow> split_free_block w s level min_level;
       pages \<leftarrow> ushl w 1 min_level;
       block_size \<leftarrow> ushl w pages page_shift;
       f \<leftarrow> usub (ba_free_mem s) block_size;
       a \<leftarrow> uadd w (ba_alloc_mem s) block_size;
       Some (s\<lparr>ba_free_mem := f, ba_alloc_mem := a\<rparr>, Some (block, pages)) } }"

definition allocate :: "width \<Rightarrow> buddy \<Rightarrow> usize \<Rightarrow> (buddy \<times> block option) option" where
  "allocate w s pages =
     (if pages = 0 then Some (s, None)
      else do {
        min_level \<leftarrow> ceil_log2 w pages;
        alloc_loop w s min_level [min_level..<BLOCK_LEVELS] })"

fun free_loop :: "width \<Rightarrow> buddy \<Rightarrow> usize \<Rightarrow> nat list \<Rightarrow> buddy option" where
  "free_loop w s base [] = Some s"
| "free_loop w s base (level # ls) = do {
     (index, bit_idx) \<leftarrow> get_flag_index_and_bit w s base level;
     f \<leftarrow> idx (ba_flags s) index;
     m \<leftarrow> ushl w 1 bit_idx;
     if f AND m = 0 then add_to_list w s level base
     else do {
       d \<leftarrow> usub base (ba_base s);
       b \<leftarrow> ushl w 1 level;
       b \<leftarrow> ushl w b page_shift;
       buddy_addr \<leftarrow> uadd w (d XOR b) (ba_base s);
       s \<leftarrow> remove_from_list w s level buddy_addr;
       free_loop w s (min base buddy_addr) ls } }"

definition buddy_free :: "width \<Rightarrow> buddy \<Rightarrow> usize \<Rightarrow> usize \<Rightarrow> buddy option" where
  "buddy_free w s base pages =
     (if base = 0 \<or> pages = 0 then Some s
      else do {
        assert_that (is_power_of_2 pages);
        min_level \<leftarrow> floor_log2 w pages;
        assert_that (min_level < BLOCK_LEVELS);
        block_size \<leftarrow> ushl w pages page_shift;
        m \<leftarrow> usub block_size 1;
        assert_that (base AND m = 0);
        e \<leftarrow> uadd w base block_size;
        range_end \<leftarrow> usub e 1;
        z \<leftarrow> usub (ba_size s) 1;
        alloc_end \<leftarrow> uadd w (ba_base s) z;
        assert_that (base \<ge> ba_base s \<and> range_end \<le> alloc_end);
        s \<leftarrow> free_loop w s base [min_level..<BLOCK_LEVELS];
        f \<leftarrow> uadd w (ba_free_mem s) block_size;
        a \<leftarrow> usub (ba_alloc_mem s) block_size;
        Some (s\<lparr>ba_free_mem := f, ba_alloc_mem := a\<rparr>) })"

section \<open>Construction\<close>

text \<open>The level and the size of the block that starts at \<open>addr\<close> with \<open>remaining\<close> bytes left.\<close>

definition block_at :: "width \<Rightarrow> usize \<Rightarrow> usize \<Rightarrow> (usize \<times> usize) option" where
  "block_at w addr remaining = do {
     page_num \<leftarrow> ushr w addr page_shift;
     let addr_align = least_significant_bit w page_num;
     a \<leftarrow> floor_log2 w addr_align;
     let max_level = min a (BLOCK_LEVELS - 1);
     pages_remaining \<leftarrow> ushr w remaining page_shift;
     r \<leftarrow> floor_log2 w pages_remaining;
     let level = min r max_level;
     blocks \<leftarrow> ushl w 1 level;
     sz \<leftarrow> ushl w blocks page_shift;
     Some (level, sz) }"

lemma block_at_size:
  assumes "block_at w addr remaining = Some (level, sz)"
  shows "level \<le> 10" "sz = 2 ^ level * page_size"
proof -
  from assms show l: "level \<le> 10"
    by (auto simp: block_at_def BLOCK_LEVELS_def panic_simps Let_def)
  have b: "22 < word_bits w" by (cases w) simp_all
  have "(2::nat) ^ (level + 12) \<le> 2 ^ 22" using l by (intro power_increasing) simp_all
  also have "(2::nat) ^ 22 < 2 ^ word_bits w" using b by (intro power_strict_increasing) simp_all
  finally have "(2::nat) ^ level * 2 ^ 12 < usize_lim w" by (simp add: power_add)
  moreover have lim1: "2 ^ level < usize_lim w" using l b by simp
  ultimately have "ushl w 1 level = Some (2 ^ level)" "ushl w (2 ^ level) page_shift = Some (2 ^ level * page_size)"
    using l b by (simp_all add: ushl_ok page_shift_def page_size_def)
  with assms show "sz = 2 ^ level * page_size"
    by (auto simp: block_at_def panic_simps Let_def simp del: One_nat_def)
qed

function init_range :: "width \<Rightarrow> buddy \<Rightarrow> usize \<Rightarrow> usize \<Rightarrow> buddy option" where
  "init_range w s addr remaining =
     (if remaining \<ge> page_size
      then (case block_at w addr remaining of
              None \<Rightarrow> None
            | Some (level, sz) \<Rightarrow> do {
                s \<leftarrow> add_to_list w s level addr;
                addr' \<leftarrow> uadd w addr sz;
                remaining' \<leftarrow> usub remaining sz;
                init_range w s addr' remaining' })
      else Some s)"
  by pat_completeness auto
termination
proof (relation "measure (\<lambda>(w, s, addr, remaining). remaining)")
  fix w s addr remaining lv level sz s' addr' remaining'
  assume a: "page_size \<le> remaining" "block_at w addr remaining = Some lv" "(level, sz) = lv"
    "usub remaining sz = Some remaining'"
  then have "sz = 2 ^ level * page_size" using block_at_size(2) by metis
  then have "0 < sz" by (simp add: page_size_def)
  with a show "((w, s', addr', remaining'), w, s, addr, remaining) \<in> measure (\<lambda>(w, s, addr, remaining). remaining)"
    by (auto simp: usub_Some_iff page_size_def)
qed simp

declare init_range.simps [simp del]

fun init_ranges :: "width \<Rightarrow> buddy \<Rightarrow> 'tag range list \<Rightarrow> buddy option" where
  "init_ranges w s [] = Some s"
| "init_ranges w s (r # rs) = do {
     s \<leftarrow> init_range w s (r_base r) (r_size r);
     init_ranges w s rs }"

definition init_metadata :: "width \<Rightarrow> buddy \<Rightarrow> 'tag range list \<Rightarrow> buddy option" where
  "init_metadata w s avail = init_ranges w (s\<lparr>ba_flags := map (\<lambda>_. 0) (ba_flags s)\<rparr>) avail"

text \<open>The check of the available ranges; \<open>None\<close> inside is the early \<open>return None\<close>.\<close>

fun check_avail :: "width \<Rightarrow> usize \<Rightarrow> usize \<Rightarrow> 'tag range list \<Rightarrow> usize \<Rightarrow> usize option option" where
  "check_avail w base end_addr [] free_mem = Some (Some free_mem)"
| "check_avail w base end_addr (r # rs) free_mem = do {
     z \<leftarrow> usub (r_size r) 1;
     range_end \<leftarrow> uadd w (r_base r) z;
     if r_base r < base \<or> range_end > end_addr then Some None
     else do {
       free_mem \<leftarrow> uadd w free_mem (r_size r);
       check_avail w base end_addr rs free_mem } }"

definition buddy_new ::
  "width \<Rightarrow> usize \<Rightarrow> (usize \<Rightarrow> block_node) \<Rightarrow> usize \<Rightarrow> usize \<Rightarrow> usize \<Rightarrow> 'tag range list \<Rightarrow> buddy option option" where
  "buddy_new w max_physical mem base sz metadata avail =
     (if base > max_physical then Some None
      else do {
        room \<leftarrow> usub max_physical base;
        z \<leftarrow> usub sz 1;
        if room < z then Some None
        else do {
          e \<leftarrow> uadd w base sz;
          end_addr \<leftarrow> usub e 1;
          base \<leftarrow> align_up w base page_size;
          d \<leftarrow> usub end_addr base;
          d \<leftarrow> uadd w d 1;
          sz \<leftarrow> align_down w d page_size;
          if sz < page_size \<or> metadata = 0 \<or> avail = [] then Some None
          else do {
            checked \<leftarrow> check_avail w base end_addr avail 0;
            case checked of
              None \<Rightarrow> Some None
            | Some free_mem \<Rightarrow> do {
                (levels, meta_size) \<leftarrow> make_levels w sz;
                s \<leftarrow> init_metadata w
                  \<lparr>ba_base = base, ba_size = sz, ba_levels = levels,
                   ba_flags = replicate (drop_bit (WORD_SHIFT w) meta_size) 0,
                   ba_alloc_mem = 0, ba_free_mem = free_mem, ba_mem = mem\<rparr> avail;
                Some (Some s) } } } })"

definition buddy_get_alloc_mem :: "buddy \<Rightarrow> usize" where
  "buddy_get_alloc_mem s = ba_alloc_mem s"

definition buddy_get_free_mem :: "buddy \<Rightarrow> usize" where
  "buddy_get_free_mem s = ba_free_mem s"

section \<open>The flag words of a level\<close>

text \<open>
  A level of \<open>b\<close> blocks has one flag per pair of blocks; \<open>level_offset\<close> is the number of words the
  levels below take.
\<close>

definition level_words :: "width \<Rightarrow> usize \<Rightarrow> nat \<Rightarrow> nat" where
  "level_words w sz k = ((sz div page_size div 2 ^ k + 1) div 2 + word_bits w - 1) div word_bits w"

fun level_offset :: "width \<Rightarrow> usize \<Rightarrow> nat \<Rightarrow> nat" where
  "level_offset w sz 0 = 0"
| "level_offset w sz (Suc k) = level_offset w sz k + level_words w sz k"

lemma page_size_pos [simp]: "0 < page_size"
  by (simp add: page_size_def)

lemma page_size_exp: "page_size = 2 ^ page_shift"
  by (simp add: page_size_def page_shift_def)

lemma page_shift_less [simp]: "page_shift < word_bits w"
  by (cases w) (simp_all add: page_shift_def)

lemma pages_bound:
  assumes "sz < usize_lim w"
  shows "(sz div page_size + 1) * 88 + word_bits w < usize_lim w"
proof (cases w)
  case W32
  have "sz div page_size < 2 ^ 20"
    using assms W32 by (intro less_mult_imp_div_less) (simp add: page_size_def)
  with W32 show ?thesis by simp
next
  case W64
  have "sz div page_size < 2 ^ 52"
    using assms W64 by (intro less_mult_imp_div_less) (simp add: page_size_def)
  with W64 show ?thesis by simp
qed

lemma level_words_le: "level_words w sz k \<le> sz div page_size + 1"
proof -
  let ?b = "sz div page_size div 2 ^ k"
  have "((?b + 1) div 2 + word_bits w - 1) div word_bits w \<le> (?b + word_bits w) div word_bits w"
    by (intro div_le_mono) simp
  also have "\<dots> = ?b div word_bits w + 1" using word_bits_pos [of w] by (simp only: div_add_self2 neq0_conv)
  also have "\<dots> \<le> sz div page_size + 1" by (meson add_le_mono1 div_le_dividend le_trans)
  finally show ?thesis by (simp add: level_words_def)
qed

lemma level_offset_le: "level_offset w sz k \<le> k * (sz div page_size + 1)"
proof (induction k)
  case (Suc k)
  then show ?case using level_words_le [of w sz k] by simp
qed simp

lemma level_offset_mono: "i \<le> k \<Longrightarrow> level_offset w sz i \<le> level_offset w sz k"
  by (rule lift_Suc_mono_le [of "level_offset w sz"]) simp_all

lemma calc_next_level_eq:
  assumes "sz < usize_lim w" "k < BLOCK_LEVELS"
  shows "calc_next_level w (sz div page_size div 2 ^ k) (level_offset w sz k) =
    Some (sz div page_size div 2 ^ Suc k, level_offset w sz (Suc k))"
proof -
  let ?b = "sz div page_size div 2 ^ k"
  have b: "?b \<le> sz div page_size" by (rule div_le_dividend)
  note lim = pages_bound [OF assms(1)]
  have off: "level_offset w sz (Suc k) < usize_lim w"
  proof -
    have "Suc k * (sz div page_size + 1) \<le> 88 * (sz div page_size + 1)"
      using assms(2) by (intro mult_le_mono1) (simp add: BLOCK_LEVELS_def)
    then show ?thesis using level_offset_le [of w sz "Suc k"] lim by (simp only: mult.commute)
  qed
  have s1: "?b + 1 < usize_lim w" "(?b + 1) div 2 + word_bits w < usize_lim w"
  proof -
    have "x + 1 < l \<and> y + v < l" if "x \<le> p" "y \<le> x + 1" "(p + 1) * 88 + v < l" for x y p v l :: nat
      using that by auto
    from this [OF b _ lim, of "(?b + 1) div 2"] show "?b + 1 < usize_lim w" "(?b + 1) div 2 + word_bits w < usize_lim w" by simp_all
  qed
  have d: "drop_bit (word_bit_shift w) x = x div word_bits w" for x :: nat
    by (simp add: drop_bit_eq_div word_bits_shift)
  have h: "drop_bit 1 x = x div 2" for x :: nat by (simp add: drop_bit_eq_div)
  have e: "?b div 2 = sz div page_size div 2 ^ Suc k" by (simp only: power_Suc2 div_mult2_eq)
  have "uadd w ?b 1 = Some (?b + 1)" "uadd w ((?b + 1) div 2) (word_bits w) = Some ((?b + 1) div 2 + word_bits w)"
    using s1 by simp_all
  moreover have "usub ((?b + 1) div 2 + word_bits w) 1 = Some ((?b + 1) div 2 + word_bits w - 1)"
    by (rule usub_ok) (use word_bits_pos [of w] in linarith)
  moreover have "uadd w (level_offset w sz k) (level_words w sz k) = Some (level_offset w sz (Suc k))"
    using off by simp
  ultimately show ?thesis
    unfolding calc_next_level_def Let_def h d by (simp only: bind.simps e level_words_def)
qed

lemma fill_levels_eq:
  assumes "sz < usize_lim w" "k + n \<le> BLOCK_LEVELS"
  shows "fill_levels n w (sz div page_size div 2 ^ k) (level_offset w sz k) =
    Some (map (\<lambda>i. \<lparr>bl_head = 0, bl_offset = level_offset w sz i\<rparr>) [k..<k + n], level_offset w sz (k + n))"
  using assms(2)
proof (induction n arbitrary: k)
  case (Suc n)
  show ?case
    using Suc.prems Suc.IH [of "Suc k"] calc_next_level_eq [OF assms(1), of k]
    by (cases "n = 0") (simp_all add: upt_conv_Cons upt_rec [of k "Suc (k + n)"] del: level_offset.simps power_Suc upt_Suc)
qed simp

lemma next_levels_eq:
  assumes "sz < usize_lim w" "k + n \<le> BLOCK_LEVELS"
  shows "next_levels n w (sz div page_size div 2 ^ k) (level_offset w sz k) =
    Some (sz div page_size div 2 ^ (k + n), level_offset w sz (k + n))"
  using assms(2)
proof (induction n arbitrary: k)
  case (Suc n)
  show ?case
    using Suc.prems Suc.IH [of "Suc k"] calc_next_level_eq [OF assms(1), of k]
    by (simp del: level_offset.simps power_Suc)
qed simp

lemma meta_size_less:
  assumes "sz < usize_lim w"
  shows "level_offset w sz BLOCK_LEVELS * 2 ^ WORD_SHIFT w < usize_lim w"
proof -
  have "level_offset w sz BLOCK_LEVELS * 2 ^ WORD_SHIFT w \<le> (11 * (sz div page_size + 1)) * 8"
    using level_offset_le [of w sz BLOCK_LEVELS] by (intro mult_le_mono) (cases w; simp add: BLOCK_LEVELS_def)+
  then show ?thesis using pages_bound [OF assms] by linarith
qed

lemma meta_size_eq:
  assumes "sz < usize_lim w"
  shows "ushl w (level_offset w sz BLOCK_LEVELS) (WORD_SHIFT w) = Some (level_offset w sz BLOCK_LEVELS * 2 ^ WORD_SHIFT w)"
  using meta_size_less [OF assms] by (intro ushl_ok) (cases w; simp)+

lemma first_level: "calc_first_level sz = (sz div page_size div 2 ^ 0, level_offset w sz 0)"
  by (simp add: calc_first_level_def drop_bit_eq_div page_size_exp)

lemma make_levels_eq:
  assumes "sz < usize_lim w"
  shows "make_levels w sz =
    Some (map (\<lambda>i. \<lparr>bl_head = 0, bl_offset = level_offset w sz i\<rparr>) [0..<BLOCK_LEVELS],
      level_offset w sz BLOCK_LEVELS * 2 ^ WORD_SHIFT w)"
  using fill_levels_eq [OF assms, of 0 BLOCK_LEVELS] meta_size_eq [OF assms] first_level [of sz w]
  by (simp add: make_levels_def)

lemma calc_metadata_size_eq:
  assumes "sz < usize_lim w"
  shows "calc_metadata_size w sz = Some (level_offset w sz BLOCK_LEVELS * 2 ^ WORD_SHIFT w)"
  using next_levels_eq [OF assms, of 0 BLOCK_LEVELS] meta_size_eq [OF assms] first_level [of sz w]
  by (simp add: calc_metadata_size_def)

section \<open>The free lists\<close>

definition bsize :: "nat \<Rightarrow> nat" where
  "bsize l = 2 ^ l * page_size"

definition block_ok :: "buddy \<Rightarrow> nat \<Rightarrow> usize \<Rightarrow> bool" where
  "block_ok s l b \<longleftrightarrow> 0 < b \<and> bsize l dvd b \<and> ba_base s \<le> b \<and> b + bsize l \<le> ba_base s + ba_size s"

definition geometry :: "width \<Rightarrow> buddy \<Rightarrow> bool" where
  "geometry w s \<longleftrightarrow> length (ba_levels s) = BLOCK_LEVELS
     \<and> (\<forall>l<BLOCK_LEVELS. bl_offset (ba_levels s ! l) = level_offset w (ba_size s) l)
     \<and> length (ba_flags s) = level_offset w (ba_size s) BLOCK_LEVELS \<and> (\<forall>f\<in>set (ba_flags s). f < usize_lim w)
     \<and> ba_base s + ba_size s \<le> usize_lim w \<and> ba_size s < usize_lim w"

text \<open>The nodes of a circular doubly linked list that runs through the blocks \<open>xs\<close>.\<close>

definition ring :: "width \<Rightarrow> (usize \<Rightarrow> block_node) \<Rightarrow> usize list \<Rightarrow> bool" where
  "ring w m xs \<longleftrightarrow> (\<forall>i<length xs. m (xs ! i) =
     block_node_new w (if Suc i < length xs then xs ! Suc i else hd xs) (if i = 0 then last xs else xs ! (i - 1)))"

text \<open>
  The abstraction: \<open>L l\<close> is the list of the free blocks of level \<open>l\<close>, in list order. The heads, the
  nodes and the flags' geometry follow from it.
\<close>

definition free_lists :: "width \<Rightarrow> buddy \<Rightarrow> (nat \<Rightarrow> usize list) \<Rightarrow> bool" where
  "free_lists w s L \<longleftrightarrow> geometry w s
     \<and> (\<forall>l<BLOCK_LEVELS. bl_head (ba_levels s ! l) = (if L l = [] then 0 else hd (L l))
          \<and> ring w (ba_mem s) (L l) \<and> distinct (L l) \<and> (\<forall>b\<in>set (L l). block_ok s l b))
     \<and> (\<forall>l<BLOCK_LEVELS. \<forall>k<BLOCK_LEVELS. l \<noteq> k \<longrightarrow> set (L l) \<inter> set (L k) = {})"

lemma free_listsD:
  assumes "free_lists w s L" "l < BLOCK_LEVELS"
  shows "geometry w s" "bl_head (ba_levels s ! l) = (if L l = [] then 0 else hd (L l))" "ring w (ba_mem s) (L l)"
    "distinct (L l)" "b \<in> set (L l) \<Longrightarrow> block_ok s l b"
    "\<And>k. k < BLOCK_LEVELS \<Longrightarrow> l \<noteq> k \<Longrightarrow> set (L l) \<inter> set (L k) = {}"
  using assms by (auto simp: free_lists_def)

lemma update_checksum_eq:
  "update_checksum w (n\<lparr>bn_prev := p, bn_next := q\<rparr>) = block_node_new w q p"
  "update_checksum w ((block_node_new w a b)\<lparr>bn_prev := p\<rparr>) = block_node_new w a p"
  "update_checksum w ((block_node_new w a b)\<lparr>bn_next := q\<rparr>) = block_node_new w q b"
  by (simp_all add: update_checksum_def block_node_new_def xor_checksum_def ac_simps)

lemma node_new_simps [simp]:
  "bn_next (block_node_new w a b) = a" "bn_prev (block_node_new w a b) = b" "verify_checksum w (block_node_new w a b)"
  by (simp_all add: block_node_new_def verify_checksum_def)

lemma bsize_page: "page_size dvd bsize l" "0 < bsize l"
  by (simp_all add: bsize_def)

lemma block_ok_page: "block_ok s l b \<Longrightarrow> page_size dvd b"
  using bsize_page(1) dvd_trans by (auto simp: block_ok_def)

lemma align_page:
  assumes "a < usize_lim w"
  shows "align_down w a page_size = Some a \<longleftrightarrow> page_size dvd a"
proof -
  have "align_down w a page_size = Some (a div page_size * page_size)"
    using align_down_eq [OF assms page_shift_less] by (simp add: page_size_exp)
  then show ?thesis by (metis dvd_div_mult_self dvd_triv_right option.inject)
qed

lemma block_ok_less:
  assumes "geometry w s" "block_ok s l b"
  shows "b < usize_lim w"
  using assms bsize_page(2) [of l] unfolding geometry_def block_ok_def by linarith

lemma get_unchecked_ok:
  assumes "geometry w s" "block_ok s l b"
  shows "get_block_node_unchecked_mut w s b = Some (ba_mem s b)"
  using align_page [OF block_ok_less [OF assms]] block_ok_page [OF assms(2)]
  by (simp add: get_block_node_unchecked_mut_def)

lemma get_node_ok:
  assumes "geometry w s" "block_ok s l b" "ba_mem s b = block_node_new w x y"
  shows "get_block_node_mut w s b = Some (block_node_new w x y)"
  using get_unchecked_ok [OF assms(1,2)] assms(3) by (simp add: get_block_node_mut_def)

text \<open>The pair of buddies that a block belongs to, counted from the base of the area.\<close>

definition pair_of :: "buddy \<Rightarrow> usize \<Rightarrow> nat \<Rightarrow> nat" where
  "pair_of s b l = (b - ba_base s) div page_size div 2 ^ l div 2"

lemma flag_index_eq:
  assumes "geometry w s" "l < BLOCK_LEVELS" "block_ok s l b"
  shows "get_flag_index_and_bit w s b l =
      Some (level_offset w (ba_size s) l + pair_of s b l div word_bits w, pair_of s b l mod word_bits w)"
    "level_offset w (ba_size s) l + pair_of s b l div word_bits w < length (ba_flags s)"
proof -
  let ?n = "word_bits w" and ?sz = "ba_size s"
  define p where "p = (b - ba_base s) div page_size"
  define q where "q = p div 2 ^ l div 2"
  have b: "ba_base s \<le> b" "b - ba_base s + 2 ^ l * page_size \<le> ?sz"
    using assms(3) by (auto simp: block_ok_def bsize_def)
  have "p + 2 ^ l = (b - ba_base s + 2 ^ l * page_size) div page_size" by (simp add: p_def)
  also have "\<dots> \<le> ?sz div page_size" using b(2) by (rule div_le_mono)
  finally have "(p + 2 ^ l) div 2 ^ l \<le> ?sz div page_size div 2 ^ l" by (rule div_le_mono)
  then have "p div 2 ^ l + 1 \<le> ?sz div page_size div 2 ^ l" by (simp add: div_add_self2)
  then have "(p div 2 ^ l + 2) div 2 \<le> (?sz div page_size div 2 ^ l + 1) div 2" by (intro div_le_mono) simp
  then have "q + ?n \<le> (?sz div page_size div 2 ^ l + 1) div 2 + ?n - 1" by (simp add: q_def)
  then have "(q + ?n) div ?n \<le> level_words w ?sz l" unfolding level_words_def by (rule div_le_mono)
  then have q: "q div ?n < level_words w ?sz l" using word_bits_pos [of w] by (simp only: div_add_self2 neq0_conv)
  let ?i = "level_offset w ?sz l + q div ?n"
  have "?i < level_offset w ?sz (Suc l)" using q by simp
  also have le: "\<dots> \<le> level_offset w ?sz BLOCK_LEVELS" using assms(2) by (intro level_offset_mono) simp
  finally have i0: "?i < level_offset w ?sz BLOCK_LEVELS" .
  then have i: "?i < length (ba_flags s)" using assms(1) by (simp add: geometry_def)
  have "level_offset w ?sz BLOCK_LEVELS \<le> level_offset w ?sz BLOCK_LEVELS * 2 ^ WORD_SHIFT w" by simp
  moreover have "level_offset w ?sz BLOCK_LEVELS * 2 ^ WORD_SHIFT w < usize_lim w"
    using assms(1) by (intro meta_size_less) (simp add: geometry_def)
  ultimately have "?i < usize_lim w" using i0 by linarith
  moreover have "l < word_bits w" using assms(2) by (cases w) (simp_all add: BLOCK_LEVELS_def)
  moreover have "get_word_and_shift w q = (q div ?n, q mod ?n)" by (rule get_word_and_shift_eq)
  then have "drop_bit (word_bit_shift w) q = q div ?n" "q AND word_bit_mask w = q mod ?n"
    by (simp_all add: get_word_and_shift_def)
  moreover have "drop_bit 1 (p div 2 ^ l) = q" "drop_bit page_shift (b - ba_base s) = p"
    by (simp_all add: q_def p_def drop_bit_eq_div page_size_exp)
  ultimately have "get_flag_index_and_bit w s b l = Some (?i, q mod ?n)"
    using assms(1,2) b(1) page_shift_less [of w]
    by (simp add: get_flag_index_and_bit_def geometry_def ushr_def drop_bit_eq_div [of l] del: drop_bit_drop_bit)
  with i show "get_flag_index_and_bit w s b l = Some (level_offset w ?sz l + pair_of s b l div ?n, pair_of s b l mod ?n)"
      "level_offset w ?sz l + pair_of s b l div ?n < length (ba_flags s)"
    by (simp_all add: pair_of_def q_def p_def)
qed

lemma flag_index_ok:
  assumes "geometry w s" "l < BLOCK_LEVELS" "block_ok s l b"
  shows "\<exists>i j. get_flag_index_and_bit w s b l = Some (i, j) \<and> i < length (ba_flags s) \<and> j < word_bits w"
  using flag_index_eq [OF assms] by simp

lemma toggle_flag_ok:
  assumes "geometry w s" "i < length (ba_flags s)" "j < word_bits w"
  shows "\<exists>fs. toggle_flag w s i j = Some (s\<lparr>ba_flags := fs\<rparr>) \<and> length fs = length (ba_flags s) \<and> (\<forall>f\<in>set fs. f < usize_lim w)"
proof -
  let ?x = "ba_flags s ! i XOR 2 ^ j"
  have f: "\<forall>f\<in>set (ba_flags s). f < usize_lim w" using assms(1) by (simp add: geometry_def)
  then have "?x < usize_lim w" using assms(2,3) by (intro xor_less_exp) simp_all
  then have "\<forall>f\<in>set ((ba_flags s)[i := ?x]). f < usize_lim w"
    using f set_update_subset_insert [of "ba_flags s" i ?x] by blast
  then show ?thesis
    using assms(2,3) by (intro exI [of _ "(ba_flags s)[i := ?x]"]) (simp add: toggle_flag_def)
qed

text \<open>What the rest of the state sees of a list operation: heads, nodes and flags may change.\<close>

definition same_area :: "buddy \<Rightarrow> buddy \<Rightarrow> bool" where
  "same_area s s' \<longleftrightarrow> ba_base s' = ba_base s \<and> ba_size s' = ba_size s \<and> ba_alloc_mem s' = ba_alloc_mem s \<and> ba_free_mem s' = ba_free_mem s"

lemma same_area_trans: "same_area s t \<Longrightarrow> same_area t u \<Longrightarrow> same_area s u"
  by (simp add: same_area_def)

lemma same_area_block_ok: "same_area s s' \<Longrightarrow> block_ok s' l b \<longleftrightarrow> block_ok s l b"
  by (simp add: same_area_def block_ok_def)

lemma ring_cong: "(\<And>x. x \<in> set xs \<Longrightarrow> m' x = m x) \<Longrightarrow> ring w m xs \<Longrightarrow> ring w m' xs"
  by (simp add: ring_def)

lemma ring_single: "ring w (m(b := block_node_new w b b)) [b]"
  by (simp add: ring_def)

lemma ring_nodes:
  assumes "ring w m xs" "xs \<noteq> []"
  shows "m (hd xs) = block_node_new w (if Suc 0 < length xs then xs ! 1 else hd xs) (last xs)"
    "m (last xs) = block_node_new w (hd xs) (if length xs = 1 then last xs else xs ! (length xs - 2))"
proof -
  have l: "0 < length xs" using assms(2) by simp
  show "m (hd xs) = block_node_new w (if Suc 0 < length xs then xs ! 1 else hd xs) (last xs)"
    using assms(1) l unfolding ring_def by (auto dest: spec [of _ 0] simp: hd_conv_nth)
  have "xs ! (length xs - 1) = last xs" using assms(2) by (simp add: last_conv_nth)
  moreover have "length xs - 1 - 1 = length xs - 2" by simp
  moreover have "length xs - 1 = 0 \<longleftrightarrow> length xs = 1" using assms(2) by (cases xs) auto
  ultimately show "m (last xs) = block_node_new w (hd xs) (if length xs = 1 then last xs else xs ! (length xs - 2))"
    using assms(1) l unfolding ring_def by (auto dest: spec [of _ "length xs - 1"])
qed

lemma distinct_nth_ends:
  assumes "distinct xs" "i < length xs"
  shows "xs ! i = hd xs \<longleftrightarrow> i = 0" "xs ! i = last xs \<longleftrightarrow> i = length xs - 1"
proof -
  have ne: "xs \<noteq> []" using assms(2) by auto
  show "xs ! i = hd xs \<longleftrightarrow> i = 0" "xs ! i = last xs \<longleftrightarrow> i = length xs - 1"
    using assms ne nth_eq_iff_index_eq [of xs i 0] nth_eq_iff_index_eq [of xs i "length xs - 1"]
    by (auto simp: hd_conv_nth last_conv_nth)
qed

lemma ring_append:
  assumes "ring w m xs" "xs \<noteq> []" "distinct (xs @ [b])"
  defines "m1 \<equiv> m(b := block_node_new w (hd xs) (last xs))"
  defines "m2 \<equiv> m1(hd xs := update_checksum w ((m1 (hd xs))\<lparr>bn_prev := b\<rparr>))"
  defines "m3 \<equiv> m2(last xs := update_checksum w ((m2 (last xs))\<lparr>bn_next := b\<rparr>))"
  shows "ring w m3 (xs @ [b])" "a \<notin> set (xs @ [b]) \<Longrightarrow> m3 a = m a"
proof -
  let ?n = "length xs"
  have hl: "hd xs \<in> set xs" "last xs \<in> set xs" "hd xs \<noteq> b" "last xs \<noteq> b" using assms(2,3) by auto
  have dx: "distinct xs" using assms(3) by simp
  note nth = distinct_nth_ends [OF dx]
  have inb: "xs ! i \<noteq> b" if "i < ?n" for i using that assms(3) nth_mem by fastforce
  show "ring w m3 (xs @ [b])"
    unfolding ring_def
  proof (intro allI impI)
    fix i assume i: "i < length (xs @ [b])"
    show "m3 ((xs @ [b]) ! i) = block_node_new w (if Suc i < length (xs @ [b]) then (xs @ [b]) ! Suc i else hd (xs @ [b]))
        (if i = 0 then last (xs @ [b]) else (xs @ [b]) ! (i - 1))"
    proof (cases "i = ?n")
      case True
      have "m3 b = block_node_new w (hd xs) (last xs)" using hl by (simp add: m1_def m2_def m3_def)
      moreover have "?n \<noteq> 0" "xs ! (?n - 1) = last xs" using assms(2) by (simp_all add: last_conv_nth)
      ultimately show ?thesis using True assms(2) by (simp add: nth_append)
    next
      case False
      then have i: "i < ?n" using i by simp
      have old: "m (xs ! i) = block_node_new w (if Suc i < ?n then xs ! Suc i else hd xs) (if i = 0 then last xs else xs ! (i - 1))"
        using assms(1) i by (simp add: ring_def)
      have "m2 (xs ! i) = block_node_new w (if Suc i < ?n then xs ! Suc i else hd xs) (if i = 0 then b else xs ! (i - 1))"
        using old inb [OF i] nth(1) [OF i] by (cases "i = 0") (simp_all add: m2_def m1_def update_checksum_eq)
      then have "m3 (xs ! i) = block_node_new w (if Suc i < ?n then xs ! Suc i else b) (if i = 0 then b else xs ! (i - 1))"
        using nth(2) [OF i] i by (cases "i = ?n - 1") (auto simp: m3_def update_checksum_eq)
      then show ?thesis using i assms(2) by (auto simp: nth_append)
    qed
  qed
  show "m3 a = m a" if "a \<notin> set (xs @ [b])"
    using that hl by (auto simp: m1_def m2_def m3_def)
qed

text \<open>
  Every list operation replaces the list of one level: it writes the level's head, nodes of that
  list and flag words.
\<close>

definition relist :: "buddy \<Rightarrow> nat \<Rightarrow> usize \<Rightarrow> (usize \<Rightarrow> block_node) \<Rightarrow> usize list \<Rightarrow> buddy" where
  "relist s l h m fs = s\<lparr>ba_levels := (ba_levels s)[l := (ba_levels s ! l)\<lparr>bl_head := h\<rparr>], ba_mem := m, ba_flags := fs\<rparr>"

lemma mem_levels_commute: "s\<lparr>ba_mem := m, ba_levels := ls\<rparr> = s\<lparr>ba_levels := ls, ba_mem := m\<rparr>"
  by simp

lemma relist_same_area [simp]: "same_area s (relist s l h m fs)"
  by (simp add: same_area_def relist_def)

lemma relist_geometry:
  assumes "geometry w s" "length fs = length (ba_flags s)" "\<forall>f\<in>set fs. f < usize_lim w" "l < BLOCK_LEVELS"
  shows "geometry w (relist s l h m fs)"
proof -
  have "bl_offset ((ba_levels s)[l := (ba_levels s ! l)\<lparr>bl_head := h\<rparr>] ! k) = bl_offset (ba_levels s ! k)"
    if "k < BLOCK_LEVELS" for k
    using that assms(1) by (cases "k = l") (simp_all add: geometry_def)
  then show ?thesis using assms by (simp add: geometry_def relist_def)
qed

lemma relist_free_lists:
  assumes "free_lists w s L" "l < BLOCK_LEVELS" "length fs = length (ba_flags s)" "\<forall>f\<in>set fs. f < usize_lim w"
    and "h = (if xs = [] then 0 else hd xs)" "ring w m xs" "distinct xs" "\<forall>b\<in>set xs. block_ok s l b"
    and "\<And>k. k < BLOCK_LEVELS \<Longrightarrow> k \<noteq> l \<Longrightarrow> set xs \<inter> set (L k) = {}"
    and "\<And>k x. k < BLOCK_LEVELS \<Longrightarrow> k \<noteq> l \<Longrightarrow> x \<in> set (L k) \<Longrightarrow> m x = ba_mem s x"
  shows "free_lists w (relist s l h m fs) (L(l := xs))"
  unfolding free_lists_def
proof (intro conjI allI impI)
  note D = free_listsD [OF assms(1)]
  show "geometry w (relist s l h m fs)" using relist_geometry [OF D(1) [OF assms(2)] assms(3,4,2)] .
  have len: "length (ba_levels s) = BLOCK_LEVELS" using D(1) [OF assms(2)] by (simp add: geometry_def)
  fix k assume k: "k < BLOCK_LEVELS"
  show "bl_head (ba_levels (relist s l h m fs) ! k) = (if (L(l := xs)) k = [] then 0 else hd ((L(l := xs)) k))"
    using D(2) [OF k] k len assms(2,5) by (cases "k = l") (simp_all add: relist_def)
  show "ring w (ba_mem (relist s l h m fs)) ((L(l := xs)) k)"
    using D(3) [OF k] assms(6) k by (cases "k = l") (auto simp: relist_def intro: ring_cong [OF assms(10)])
  show "distinct ((L(l := xs)) k)" using D(4) [OF k] assms(7) by simp
  show "\<forall>b\<in>set ((L(l := xs)) k). block_ok (relist s l h m fs) k b"
    using D(5) [OF k] assms(8) by (auto simp: same_area_block_ok [OF relist_same_area])
  fix j assume j: "j < BLOCK_LEVELS" "k \<noteq> j"
  show "set ((L(l := xs)) k) \<inter> set ((L(l := xs)) j) = {}"
    using D(6) [OF k j] assms(9) k j by (auto simp: Int_commute)
qed

lemma toggle_relist:
  assumes "geometry w s" "l < BLOCK_LEVELS" "i < length (ba_flags s)" "j < word_bits w"
  shows "\<exists>fs. toggle_flag w (relist s l h m (ba_flags s)) i j = Some (relist s l h m fs) \<and> length fs = length (ba_flags s)
    \<and> (\<forall>f\<in>set fs. f < usize_lim w)"
proof -
  let ?t = "relist s l h m (ba_flags s)"
  have "geometry w ?t" using assms(1,2) by (intro relist_geometry) (simp_all add: geometry_def)
  then obtain fs where "toggle_flag w ?t i j = Some (?t\<lparr>ba_flags := fs\<rparr>)" "length fs = length (ba_flags s)"
      "\<forall>f\<in>set fs. f < usize_lim w"
    using toggle_flag_ok [of w ?t i j] assms(3,4) by (auto simp: relist_def)
  moreover have "?t\<lparr>ba_flags := fs\<rparr> = relist s l h m fs" by (simp add: relist_def)
  ultimately show ?thesis by auto
qed

text \<open>The node writes of \<open>add_to_list\<close>.\<close>

lemma add_to_list_nodes:
  assumes "free_lists w s L" "l < BLOCK_LEVELS" "block_ok s l b" "\<And>k. k < BLOCK_LEVELS \<Longrightarrow> b \<notin> set (L k)"
    and ij: "get_flag_index_and_bit w s b l = Some (i, j)"
  obtains m where "add_to_list w s l b = toggle_flag w (relist s l (hd (L l @ [b])) m (ba_flags s)) i j"
    "ring w m (L l @ [b])" "\<And>x. x \<notin> set (L l @ [b]) \<Longrightarrow> m x = ba_mem s x"
proof -
  note D = free_listsD [OF assms(1,2)]
  have len: "l < length (ba_levels s)" using D(1) assms(2) by (simp add: geometry_def)
  show thesis
  proof (cases "L l = []")
    case True
    let ?m = "(ba_mem s)(b := block_node_new w b b)"
    have "add_to_list w s l b = toggle_flag w (relist s l (hd (L l @ [b])) ?m (ba_flags s)) i j"
      using True D(2) ij len get_unchecked_ok [OF D(1) assms(3)]
      by (simp add: add_to_list_def set_head_def relist_def update_checksum_eq)
    with that [of ?m] show thesis using True ring_single [of w "ba_mem s" b] by simp
  next
    case False
    let ?xs = "L l"
    have hl: "hd ?xs \<in> set ?xs" "last ?xs \<in> set ?xs" using False by simp_all
    have nz: "hd ?xs \<noteq> 0" using D(5) [OF hl(1)] by (simp add: block_ok_def)
    obtain x y where hn: "ba_mem s (hd ?xs) = block_node_new w x (last ?xs)"
        and ln: "ba_mem s (last ?xs) = block_node_new w (hd ?xs) y"
      using ring_nodes [OF D(3) False] by blast
    have ne: "hd ?xs \<noteq> b" "last ?xs \<noteq> b" using hl assms(4) [OF assms(2)] by auto
    define m1 where "m1 = (ba_mem s)(b := block_node_new w (hd ?xs) (last ?xs))"
    define m2 where "m2 = m1(hd ?xs := update_checksum w ((m1 (hd ?xs))\<lparr>bn_prev := b\<rparr>))"
    define m3 where "m3 = m2(last ?xs := update_checksum w ((m2 (last ?xs))\<lparr>bn_next := b\<rparr>))"
    have lv: "(ba_levels s)[l := (ba_levels s ! l)\<lparr>bl_head := hd ?xs\<rparr>] = ba_levels s"
      using D(2) False by (metis block_level.surjective block_level.update_convs(1) list_update_id)
    have "add_to_list w s l b = toggle_flag w (s\<lparr>ba_mem := m3\<rparr>) i j"
      using False D(2) ij len nz get_unchecked_ok [OF D(1) assms(3)]
        get_node_ok [OF D(1) D(5) [OF hl(1)] hn] get_node_ok [OF D(1) D(5) [OF hl(2)] ln]
      by (simp add: add_to_list_def update_checksum_eq hn m1_def m2_def m3_def Let_def)
    also have "s\<lparr>ba_mem := m3\<rparr> = relist s l (hd ?xs) m3 (ba_flags s)"
      unfolding relist_def lv by simp
    finally have "add_to_list w s l b = toggle_flag w (relist s l (hd ?xs) m3 (ba_flags s)) i j" .
    moreover have "distinct (?xs @ [b])" using D(4) assms(4) [OF assms(2)] by simp
    note ring_append [OF D(3) False this, folded m1_def, folded m2_def, folded m3_def]
    ultimately show thesis using that [of m3] False by simp
  qed
qed

lemma add_to_list_ok:
  assumes "free_lists w s L" "l < BLOCK_LEVELS" "block_ok s l b" "\<And>k. k < BLOCK_LEVELS \<Longrightarrow> b \<notin> set (L k)"
  shows "\<exists>s'. add_to_list w s l b = Some s' \<and> free_lists w s' (L(l := L l @ [b])) \<and> same_area s s'"
proof -
  note D = free_listsD [OF assms(1,2)]
  obtain i j where ij: "get_flag_index_and_bit w s b l = Some (i, j)" "i < length (ba_flags s)" "j < word_bits w"
    using flag_index_ok [OF D(1) assms(2,3)] by blast
  obtain m where m: "add_to_list w s l b = toggle_flag w (relist s l (hd (L l @ [b])) m (ba_flags s)) i j"
      "ring w m (L l @ [b])" "\<And>x. x \<notin> set (L l @ [b]) \<Longrightarrow> m x = ba_mem s x"
    using add_to_list_nodes [OF assms ij(1)] by blast
  obtain fs where fs: "add_to_list w s l b = Some (relist s l (hd (L l @ [b])) m fs)" "length fs = length (ba_flags s)"
      "\<forall>f\<in>set fs. f < usize_lim w"
    using toggle_relist [OF D(1) assms(2) ij(2,3)] m(1) by metis
  have "free_lists w (relist s l (hd (L l @ [b])) m fs) (L(l := L l @ [b]))"
  proof (rule relist_free_lists [OF assms(1,2) fs(2,3)])
    show "distinct (L l @ [b])" using D(4) assms(4) [OF assms(2)] by simp
    show "\<forall>c\<in>set (L l @ [b]). block_ok s l c" using assms(3) D(5) by auto
    fix k assume k: "k < BLOCK_LEVELS" "k \<noteq> l"
    show other: "set (L l @ [b]) \<inter> set (L k) = {}" using D(6) [OF k(1)] k assms(4) [OF k(1)] by auto
    show "m x = ba_mem s x" if "x \<in> set (L k)" for x using that other by (intro m(3)) blast
  qed (use m(2) in simp_all)
  with fs(1) show ?thesis by simp
qed

subsection \<open>Removal\<close>

lemma ring_rotate1:
  assumes "ring w m (x # xs)"
  shows "ring w m (xs @ [x])"
  unfolding ring_def
proof (intro allI impI)
  fix i assume i: "i < length (xs @ [x])"
  note old = assms [unfolded ring_def, rule_format]
  show "m ((xs @ [x]) ! i) = block_node_new w (if Suc i < length (xs @ [x]) then (xs @ [x]) ! Suc i else hd (xs @ [x]))
      (if i = 0 then last (xs @ [x]) else (xs @ [x]) ! (i - 1))"
  proof (cases "i = length xs")
    case True
    then show ?thesis
      using old [of 0] by (cases xs rule: rev_cases) (auto simp: nth_append hd_append hd_conv_nth)
  next
    case False
    then have i: "i < length xs" using i by simp
    have "m (xs ! i) = block_node_new w (if Suc i < length xs then xs ! Suc i else x) ((x # xs) ! i)"
      using old [of "Suc i"] i by simp
    moreover have "(xs @ [x]) ! Suc i = (if Suc i < length xs then xs ! Suc i else x)"
      using i by (cases "Suc i < length xs") (simp_all add: nth_append)
    moreover have "(if i = 0 then last (xs @ [x]) else (xs @ [x]) ! (i - 1)) = (x # xs) ! i"
      using i by (cases i) (simp_all add: nth_append)
    ultimately show ?thesis using i by (simp only: nth_append length_append list.size) simp
  qed
qed

lemma ring_rotate: "ring w m (xs @ ys) \<Longrightarrow> ring w m (ys @ xs)"
proof (induction xs arbitrary: ys)
  case (Cons x xs)
  then have "ring w m ((xs @ ys) @ [x])" using ring_rotate1 [of w m x "xs @ ys"] by simp
  with Cons.IH [of "ys @ [x]"] show ?case by simp
qed simp

text \<open>The links of a block in the middle of its ring.\<close>

lemma ring_links:
  assumes "ring w m (xs @ b # ys)" "xs @ ys \<noteq> []"
  shows "m b = block_node_new w (hd (ys @ xs)) (last (ys @ xs))"
proof -
  from ring_rotate [of w m "xs" "b # ys"] assms(1) have "ring w m (b # ys @ xs)" by simp
  then show ?thesis using ring_nodes(1) [of w m "b # ys @ xs"] assms(2) by (cases "ys @ xs") auto
qed

lemma ring_ends:
  assumes "ring w m (b # zs)" "zs \<noteq> []"
  shows "\<exists>x y. m (hd zs) = block_node_new w x b \<and> m (last zs) = block_node_new w b y"
  using ring_nodes(1) [OF ring_rotate1 [OF assms(1)]] ring_nodes(2) [OF assms(1)] assms(2) by auto

lemma ring_drop_last:
  assumes "ring w m (zs @ [b])" "zs \<noteq> []" "distinct (zs @ [b])"
  defines "m1 \<equiv> m(hd zs := update_checksum w ((m (hd zs))\<lparr>bn_prev := last zs\<rparr>))"
  defines "m2 \<equiv> m1(last zs := update_checksum w ((m1 (last zs))\<lparr>bn_next := hd zs\<rparr>))"
  shows "ring w (m2(b := z)) zs" "a \<notin> set (zs @ [b]) \<Longrightarrow> (m2(b := z)) a = m a"
proof -
  let ?n = "length zs"
  have hl: "hd zs \<in> set zs" "last zs \<in> set zs" using assms(2) by auto
  have dz: "distinct zs" "b \<notin> set zs" using assms(3) by simp_all
  note nth = distinct_nth_ends [OF dz(1)]
  show "ring w (m2(b := z)) zs"
    unfolding ring_def
  proof (intro allI impI)
    fix i assume i: "i < ?n"
    have old: "m (zs ! i) = block_node_new w (if Suc i < ?n then zs ! Suc i else b) (if i = 0 then b else zs ! (i - 1))"
    proof -
      have "(zs @ [b]) ! Suc i = (if Suc i < ?n then zs ! Suc i else b)"
        using i by (cases "Suc i < ?n") (simp_all add: nth_append)
      moreover have "(zs @ [b]) ! i = zs ! i" "(if i = 0 then last (zs @ [b]) else (zs @ [b]) ! (i - 1)) = (if i = 0 then b else zs ! (i - 1))"
        using i by (cases i; simp add: nth_append)+
      ultimately show ?thesis
        using assms(1) [unfolded ring_def, rule_format, of i] i by simp
    qed
    have "m1 (zs ! i) = block_node_new w (if Suc i < ?n then zs ! Suc i else b) (if i = 0 then last zs else zs ! (i - 1))"
      using old nth(1) [OF i] by (cases "i = 0") (simp_all add: m1_def update_checksum_eq)
    then have "m2 (zs ! i) = block_node_new w (if Suc i < ?n then zs ! Suc i else hd zs) (if i = 0 then last zs else zs ! (i - 1))"
      using nth(2) [OF i] i by (cases "i = ?n - 1") (auto simp: m2_def update_checksum_eq)
    then show "(m2(b := z)) (zs ! i) =
        block_node_new w (if Suc i < ?n then zs ! Suc i else hd zs) (if i = 0 then last zs else zs ! (i - 1))"
      using dz(2) nth_mem [OF i] by (metis fun_upd_other)
  qed
  show "(m2(b := z)) a = m a" if "a \<notin> set (zs @ [b])"
    using that hl by (auto simp: m1_def m2_def)
qed

text \<open>
  What is left of a list when a block is removed: removing the head of a list with more blocks empties
  the list, because the code reads the new head from the node it has just cleared.
\<close>

definition removed :: "usize list \<Rightarrow> usize \<Rightarrow> usize list" where
  "removed xs b = (if b = hd xs then [] else remove1 b xs)"

text \<open>The node writes of \<open>remove_from_list\<close>.\<close>

lemma remove_from_list_nodes:
  assumes "free_lists w s L" "l < BLOCK_LEVELS" and split: "L l = as @ b # cs" "b \<notin> set as" "b \<notin> set cs"
    and ij: "get_flag_index_and_bit w s b l = Some (i, j)"
  defines "h \<equiv> if b = hd (L l) then 0 else hd (L l)"
  obtains m where "remove_from_list w s l b = toggle_flag w (relist s l h m (ba_flags s)) i j"
    "ring w m (as @ cs)" "\<And>x. x \<notin> set (L l) \<Longrightarrow> m x = ba_mem s x"
proof -
  note D = free_listsD [OF assms(1,2)]
  have len: "l < length (ba_levels s)" using D(1) assms(2) by (simp add: geometry_def)
  have ok: "block_ok s l b" using D(5) split(1) by simp
  have head: "bl_head (ba_levels s ! l) = hd (L l)" using D(2) split(1) by simp
  let ?h = "if b = hd (L l) then 0 else hd (L l)"
  note that = that [unfolded h_def]
  show thesis
  proof (cases "as @ cs = []")
    case True
    then have xs: "L l = [b]" using split(1) by simp
    then have "ba_mem s b = block_node_new w b b" using D(3) by (simp add: ring_def)
    then have "remove_from_list w s l b = toggle_flag w (relist s l 0 (ba_mem s) (ba_flags s)) i j"
      using ij len head xs get_node_ok [OF D(1) ok] by (simp add: remove_from_list_def set_head_def relist_def)
    with that [of "ba_mem s"] True xs show thesis by (simp add: ring_def)
  next
    case False
    let ?zs = "cs @ as"
    have zs: "?zs \<noteq> []" "hd ?zs \<in> set (L l)" "last ?zs \<in> set (L l)" using False split(1)
      by (auto simp: hd_append last_append)
    have rb: "ring w (ba_mem s) (b # ?zs)" using ring_rotate [of w "ba_mem s" as "b # cs"] D(3) split(1) by simp
    then have rz: "ring w (ba_mem s) (?zs @ [b])" by (rule ring_rotate1)
    have dz: "distinct (?zs @ [b])" using D(4) split by auto
    have nb: "ba_mem s b = block_node_new w (hd ?zs) (last ?zs)" using ring_links [of w "ba_mem s" as b cs] D(3) split(1) False by simp
    obtain x y where hn: "ba_mem s (hd ?zs) = block_node_new w x b" and ln: "ba_mem s (last ?zs) = block_node_new w b y"
      using ring_ends [OF rb zs(1)] by blast
    have neq: "hd ?zs \<noteq> b" "last ?zs \<noteq> b" using dz zs(1) hd_in_set [OF zs(1)] last_in_set [OF zs(1)] by auto
    define m1 where "m1 = (ba_mem s)(hd ?zs := update_checksum w ((ba_mem s (hd ?zs))\<lparr>bn_prev := last ?zs\<rparr>))"
    define m2 where "m2 = m1(last ?zs := update_checksum w ((m1 (last ?zs))\<lparr>bn_next := hd ?zs\<rparr>))"
    define m3 where "m3 = m2(b := \<lparr>bn_next = 0, bn_prev = 0, bn_checksum = 0\<rparr>)"
    have lv: "(ba_levels s)[l := (ba_levels s ! l)\<lparr>bl_head := hd (L l)\<rparr>] = ba_levels s"
      using head by (metis block_level.surjective block_level.update_convs(1) list_update_id)
    have "remove_from_list w s l b = toggle_flag w (relist s l ?h m3 (ba_flags s)) i j"
    proof (cases "b = hd (L l)")
      case True
      note b = True [symmetric]
      show ?thesis
        using ij len head neq b get_node_ok [OF D(1) ok nb] get_node_ok [OF D(1) D(5) [OF zs(2)] hn]
          get_node_ok [OF D(1) D(5) [OF zs(3)] ln]
        by (simp add: remove_from_list_def set_head_def relist_def nb m1_def m2_def m3_def Let_def mem_levels_commute)
    next
      case False
      then show ?thesis
        using ij len head neq get_node_ok [OF D(1) ok nb] get_node_ok [OF D(1) D(5) [OF zs(2)] hn]
          get_node_ok [OF D(1) D(5) [OF zs(3)] ln]
        by (simp add: remove_from_list_def relist_def lv nb m1_def m2_def m3_def Let_def)
    qed
    moreover have "ring w m3 (as @ cs)"
      unfolding m3_def m2_def m1_def by (rule ring_rotate [OF ring_drop_last(1) [OF rz zs(1) dz]])
    moreover have "m3 x = ba_mem s x" if "x \<notin> set (L l)" for x
      unfolding m3_def m2_def m1_def by (rule ring_drop_last(2) [OF rz zs(1) dz]) (use that split(1) in auto)
    ultimately show thesis by (rule that)
  qed
qed

lemma remove_from_list_ok:
  assumes "free_lists w s L" "l < BLOCK_LEVELS" "b \<in> set (L l)"
  shows "\<exists>s'. remove_from_list w s l b = Some s' \<and> free_lists w s' (L(l := removed (L l) b)) \<and> same_area s s'
    \<and> ring w (ba_mem s') (remove1 b (L l))"
proof -
  note D = free_listsD [OF assms(1,2)]
  obtain i j where ij: "get_flag_index_and_bit w s b l = Some (i, j)" "i < length (ba_flags s)" "j < word_bits w"
    using flag_index_ok [OF D(1) assms(2) D(5) [OF assms(3)]] by blast
  obtain as cs where split: "L l = as @ b # cs" "b \<notin> set as" "b \<notin> set cs"
    using split_list [OF assms(3)] D(4) by fastforce
  have r1: "remove1 b (L l) = as @ cs" using split by (simp add: remove1_append)
  let ?h = "if b = hd (L l) then 0 else hd (L l)" and ?xs = "removed (L l) b"
  obtain m where m: "remove_from_list w s l b = toggle_flag w (relist s l ?h m (ba_flags s)) i j"
      "ring w m (as @ cs)" "\<And>x. x \<notin> set (L l) \<Longrightarrow> m x = ba_mem s x"
    using remove_from_list_nodes [OF assms(1,2) split ij(1)] by blast
  obtain fs where fs: "remove_from_list w s l b = Some (relist s l ?h m fs)" "length fs = length (ba_flags s)"
      "\<forall>f\<in>set fs. f < usize_lim w"
    using toggle_relist [OF D(1) assms(2) ij(2,3)] m(1) by metis
  have sub: "set ?xs \<subseteq> set (L l)" using set_remove1_subset [of b "L l"] by (auto simp: removed_def)
  have "free_lists w (relist s l ?h m fs) (L(l := ?xs))"
  proof (rule relist_free_lists [OF assms(1,2) fs(2,3)])
    show "?h = (if ?xs = [] then 0 else hd ?xs)"
      using split r1 by (cases as) (auto simp: removed_def)
    show "ring w m ?xs" using m(2) r1 by (simp add: removed_def ring_def)
    show "distinct ?xs" using D(4) by (simp add: removed_def)
    show "\<forall>c\<in>set ?xs. block_ok s l c" using sub D(5) by auto
    fix k assume k: "k < BLOCK_LEVELS" "k \<noteq> l"
    show "set ?xs \<inter> set (L k) = {}" using D(6) [OF k(1)] k sub by auto
    show "m x = ba_mem s x" if "x \<in> set (L k)" for x
      using that D(6) [OF k(1)] k by (intro m(3)) blast
  qed
  moreover have "ring w (ba_mem (relist s l ?h m fs)) (remove1 b (L l))" using m(2) r1 by (simp add: relist_def)
  ultimately show ?thesis using fs(1) by simp
qed

lemma pop_from_list_ok:
  assumes "free_lists w s L" "l < BLOCK_LEVELS" "L l \<noteq> []"
  shows "\<exists>s'. pop_from_list w s l = Some (s', hd (L l)) \<and> free_lists w s' (L(l := [])) \<and> same_area s s'"
proof -
  note D = free_listsD [OF assms(1,2)]
  have "l < length (ba_levels s)" "bl_head (ba_levels s ! l) = hd (L l)"
    using D(1,2) assms(2,3) by (simp_all add: geometry_def)
  then show ?thesis
    using remove_from_list_ok [OF assms(1,2), of "hd (L l)"] assms(3) by (auto simp: pop_from_list_def removed_def)
qed

end
