(* ===== verification/Buddy_Runs.thy ===== *)
theory Buddy_Runs
  imports Buddy
begin

text \<open>
  Runs of the buddy allocator: construction over the available ranges and sequences of
  allocations. The free lists and the blocks handed out are kept apart from each other.
\<close>

section \<open>Free and allocated blocks\<close>

definition free_blocks :: "(nat \<Rightarrow> usize list) \<Rightarrow> block set" where
  "free_blocks L = {(b, 2 ^ l) | l b. l < BLOCK_LEVELS \<and> b \<in> set (L l)}"

abbreviation disjoint_blocks :: "block set \<Rightarrow> bool" where
  "disjoint_blocks \<equiv> pairwise (\<lambda>b c. block_addrs page_size b \<inter> block_addrs page_size c = {})"

definition apart :: "(nat \<Rightarrow> usize list) \<Rightarrow> block set \<Rightarrow> bool" where
  "apart L A \<longleftrightarrow> disjoint_blocks (free_blocks L \<union> A) \<and> free_blocks L \<inter> A = {}"

definition free_bytes :: "(nat \<Rightarrow> usize list) \<Rightarrow> nat" where
  "free_bytes L = (\<Sum>l<BLOCK_LEVELS. length (L l) * bsize l)"

lemma free_blocks_append:
  "l < BLOCK_LEVELS \<Longrightarrow> free_blocks (L(l := L l @ [b])) = insert (b, 2 ^ l) (free_blocks L)"
  by (auto simp: free_blocks_def split: if_splits)

lemma free_blocks_empty: "free_blocks (L(l := [])) \<subseteq> free_blocks L"
  by (auto simp: free_blocks_def split: if_splits)

lemma free_bytes_upd: "l < BLOCK_LEVELS \<Longrightarrow> free_bytes (L(l := xs)) + length (L l) * bsize l = free_bytes L + length xs * bsize l"
proof -
  assume l: "l < BLOCK_LEVELS"
  have "free_bytes (L(l := xs)) = length xs * bsize l + (\<Sum>k\<in>{..<BLOCK_LEVELS} - {l}. length (L k) * bsize k)" for xs
    using l sum.remove [of "{..<BLOCK_LEVELS}" l "\<lambda>k. length ((L(l := xs)) k) * bsize k"] by (simp add: free_bytes_def)
  from this [of xs] this [of "L l"] show ?thesis by simp
qed

lemma free_bytes_append: "l < BLOCK_LEVELS \<Longrightarrow> free_bytes (L(l := L l @ [b])) = free_bytes L + bsize l"
  using free_bytes_upd [of l L "L l @ [b]"] by simp

lemma block_addrs_pages: "block_addrs page_size (b, 2 ^ l) = {b ..< b + bsize l}"
  by (simp add: block_addrs_def bsize_def)

lemma apart_mono: "apart L (A \<union> B) \<Longrightarrow> apart L A"
  unfolding apart_def by (auto elim: pairwise_mono)

text \<open>Taking the head of a list, losing the others: the head is in use from then on.\<close>

lemma apart_pop:
  assumes "apart L A" "l < BLOCK_LEVELS" "L l \<noteq> []"
  shows "apart (L(l := [])) (insert (hd (L l), 2 ^ l) A)" "(hd (L l), 2 ^ l) \<notin> A"
proof -
  have x: "(hd (L l), 2 ^ l) \<in> free_blocks L" using assms(2,3) by (auto simp: free_blocks_def)
  moreover have "(hd (L l), 2 ^ l) \<notin> free_blocks (L(l := []))"
    by (auto simp: free_blocks_def split: if_splits)
  moreover have "free_blocks (L(l := [])) \<union> insert (hd (L l), 2 ^ l) A \<subseteq> free_blocks L \<union> A"
    using x free_blocks_empty [of L l] by blast
  ultimately show "apart (L(l := [])) (insert (hd (L l), 2 ^ l) A)" "(hd (L l), 2 ^ l) \<notin> A"
    using assms(1) free_blocks_empty [of L l] unfolding apart_def by (blast intro: pairwise_subset)+
qed

text \<open>A held block is cut in two; one part goes to the free list of its level.\<close>

lemma apart_give:
  assumes "apart L (insert h A)" "h \<notin> A" "l < BLOCK_LEVELS"
    and sub: "block_addrs page_size (b, 2 ^ l) \<subseteq> block_addrs page_size h" "block_addrs page_size r \<subseteq> block_addrs page_size h"
    and dis: "block_addrs page_size (b, 2 ^ l) \<inter> block_addrs page_size r = {}"
  shows "apart (L(l := L l @ [b])) (insert r A)" "0 < snd r \<Longrightarrow> r \<notin> A" "\<And>k. k < BLOCK_LEVELS \<Longrightarrow> b \<notin> set (L k)"
proof -
  let ?x = "(b, 2 ^ l)" and ?D = "\<lambda>b c. block_addrs page_size b \<inter> block_addrs page_size c = {}"
  have ne: "b \<in> block_addrs page_size ?x" by (simp add: block_addrs_def)
  have old: "disjoint_blocks (free_blocks L \<union> insert h A)" "h \<notin> free_blocks L" "free_blocks L \<inter> A = {}"
    using assms(1) by (auto simp: apart_def)
  have hd: "?D h c" if "c \<in> free_blocks L \<union> A" for c
    by (rule pairwiseD [OF old(1)]) (use that old(2) assms(2) in auto)
  have xs: "?D ?x c" "?D c ?x" "?D r c" "?D c r" if "c \<in> free_blocks L \<union> A" for c
    using hd [OF that] sub by blast+
  have base: "disjoint_blocks (free_blocks L \<union> A)" using old(1) by (rule pairwise_subset) blast
  have "disjoint_blocks (insert ?x (insert r (free_blocks L \<union> A)))"
    unfolding pairwise_insert using base xs dis by (auto simp: Int_commute)
  moreover have "?x \<notin> A" using xs(1) [of ?x] ne by blast
  moreover have "?x \<noteq> r" using dis ne by blast
  moreover have "r \<notin> free_blocks L"
  proof
    assume m: "r \<in> free_blocks L"
    then have "fst r \<in> block_addrs page_size r" by (auto simp: free_blocks_def block_addrs_def)
    with xs(3) [of r] m show False by blast
  qed
  ultimately show "apart (L(l := L l @ [b])) (insert r A)"
    unfolding apart_def free_blocks_append [OF assms(3)] using old(3) by (simp add: insert_commute Un_commute)
  show "r \<notin> A" if "0 < snd r"
    using xs(3) [of r] that by (cases r) (auto simp: block_addrs_def)
  show "b \<notin> set (L k)" if k: "k < BLOCK_LEVELS" for k
  proof
    assume "b \<in> set (L k)"
    with k have "(b, 2 ^ k) \<in> free_blocks L" by (auto simp: free_blocks_def)
    with xs(1) [of "(b, 2 ^ k)"] ne show False by (auto simp: block_addrs_def)
  qed
qed

section \<open>Allocation\<close>

lemma bsize_Suc: "bsize (Suc l) = bsize l + bsize l"
  by (simp add: bsize_def)

lemma level_shift_ok:
  assumes "l < BLOCK_LEVELS"
  shows "ushl w page_size l = Some (bsize l)" "ushl w 1 l = Some (2 ^ l)" "ushl w (2 ^ l) page_shift = Some (bsize l)"
proof -
  have b: "22 < word_bits w" by (cases w) simp_all
  have l: "l \<le> 10" using assms by (simp add: BLOCK_LEVELS_def)
  have "(2::nat) ^ (l + 12) \<le> 2 ^ 22" using l by (intro power_increasing) simp_all
  also have "(2::nat) ^ 22 < 2 ^ word_bits w" using b by (intro power_strict_increasing) simp_all
  finally have "(2::nat) ^ l * 2 ^ 12 < usize_lim w" by (simp add: power_add)
  then show "ushl w page_size l = Some (bsize l)" "ushl w 1 l = Some (2 ^ l)" "ushl w (2 ^ l) page_shift = Some (bsize l)"
    using b l by (simp_all add: ushl_ok page_shift_def page_size_def bsize_def mult.commute)
qed

lemma level_less: "l < BLOCK_LEVELS \<Longrightarrow> 2 ^ l < usize_lim w"
proof -
  assume "l < BLOCK_LEVELS"
  then have "l < word_bits w" by (cases w) (simp_all add: BLOCK_LEVELS_def)
  then show ?thesis by simp
qed

lemma or_disjoint_add: "2 ^ Suc k dvd a \<Longrightarrow> a OR 2 ^ k = a + 2 ^ k" for a :: nat
proof -
  assume "2 ^ Suc k dvd a"
  then have "\<not> bit a k" by (auto simp: bit_iff_odd dvd_def)
  then have "a AND 2 ^ k = 0" by (intro bit_eqI) (auto simp: bit_and_iff bit_exp_iff)
  then show ?thesis by (metis disjunctive_add_eq_or)
qed

lemma bsize_exp: "bsize l = 2 ^ (l + 12)"
  by (simp add: bsize_def page_size_def power_add)

lemma or_bsize: "bsize (Suc l) dvd b \<Longrightarrow> b OR bsize l = b + bsize l"
  using or_disjoint_add [of "l + 12" b] by (simp add: bsize_exp)

lemma block_halves:
  assumes "block_ok s (Suc k) b"
  shows "block_ok s k b" "block_ok s k (b + bsize k)"
proof -
  have "bsize k dvd b" using assms dvd_trans [of "bsize k" "bsize (Suc k)" b] by (simp add: block_ok_def bsize_Suc flip: mult_2)
  then show "block_ok s k b" "block_ok s k (b + bsize k)" using assms by (simp_all add: block_ok_def bsize_Suc)
qed

lemma split_loop_ok:
  assumes "free_lists w s L" "apart L (insert (b, 2 ^ k) A)" "(b, 2 ^ k) \<notin> A" "block_ok s k b" "n \<le> k" "k < BLOCK_LEVELS"
    "free_bytes L + bsize k \<le> m"
  shows "\<exists>s' L'. split_loop w s b (rev [n..<k]) = Some s' \<and> same_area s s' \<and> free_lists w s' L'
    \<and> apart L' (insert (b, 2 ^ n) A) \<and> (b, 2 ^ n) \<notin> A \<and> free_bytes L' + bsize n \<le> m"
  using assms
proof (induction k arbitrary: s L)
  case 0
  then show ?case by (intro exI [of _ s] exI [of _ L]) (simp add: same_area_def)
next
  case (Suc k)
  show ?case
  proof (cases "n = Suc k")
    case True
    with Suc.prems show ?thesis by (intro exI [of _ s] exI [of _ L]) (simp add: same_area_def)
  next
    case False
    then have n: "n \<le> k" "k < BLOCK_LEVELS" using Suc.prems(5,6) by simp_all
    note halves = block_halves [OF Suc.prems(4)]
    have sub: "block_addrs page_size (b + bsize k, 2 ^ k) \<subseteq> block_addrs page_size (b, 2 ^ Suc k)"
        "block_addrs page_size (b, 2 ^ k) \<subseteq> block_addrs page_size (b, 2 ^ Suc k)"
        "block_addrs page_size (b + bsize k, 2 ^ k) \<inter> block_addrs page_size (b, 2 ^ k) = {}"
      unfolding block_addrs_pages bsize_Suc by auto
    note give = apart_give [OF Suc.prems(2,3) n(2) sub]
    obtain s1 where s1: "add_to_list w s k (b + bsize k) = Some s1" "free_lists w s1 (L(k := L k @ [b + bsize k]))" "same_area s s1"
      using add_to_list_ok [OF Suc.prems(1) n(2) halves(2)] give(3) by blast
    have "free_bytes (L(k := L k @ [b + bsize k])) + bsize k \<le> m"
      using Suc.prems(7) by (simp add: free_bytes_append [OF n(2)] bsize_Suc)
    moreover have "block_ok s1 k b" using halves(1) same_area_block_ok [OF s1(3)] by simp
    moreover have "(b, 2 ^ k) \<notin> A" using give(2) by simp
    ultimately obtain s2 L2 where s2: "split_loop w s1 b (rev [n..<k]) = Some s2" "same_area s1 s2" "free_lists w s2 L2"
        "apart L2 (insert (b, 2 ^ n) A)" "(b, 2 ^ n) \<notin> A" "free_bytes L2 + bsize n \<le> m"
      using Suc.IH [OF s1(2) give(1) _ _ n] by blast
    have "rev [n..<Suc k] = k # rev [n..<k]" using n(1) by simp
    moreover have "b OR bsize k = b + bsize k" using Suc.prems(4) by (intro or_bsize) (simp add: block_ok_def)
    ultimately have "split_loop w s b (rev [n..<Suc k]) = Some s2"
      using s1(1) s2(1) level_shift_ok(1) [OF n(2), of w] by (simp del: upt_Suc)
    with s2 same_area_trans [OF s1(3) s2(2)] show ?thesis by blast
  qed
qed


text \<open>
  The state of a run: the allocator and the blocks it has handed out. \<open>free_bytes\<close> may be smaller
  than the allocator's own figure, because taking the head of a list loses the blocks behind it.
\<close>

definition run_lists :: "width \<Rightarrow> buddy \<times> block set \<Rightarrow> (nat \<Rightarrow> usize list) \<Rightarrow> bool" where
  "run_lists w sA L \<longleftrightarrow> free_lists w (fst sA) L \<and> apart L (snd sA) \<and> free_bytes L \<le> ba_free_mem (fst sA)
     \<and> ba_alloc_mem (fst sA) + ba_free_mem (fst sA) < usize_lim w"

definition run_inv :: "width \<Rightarrow> buddy \<times> block set \<Rightarrow> bool" where
  "run_inv w sA \<longleftrightarrow> (\<exists>L. run_lists w sA L)"

definition buddy_area :: "buddy \<times> block set \<Rightarrow> nat set" where
  "buddy_area sA = {ba_base (fst sA) ..< ba_base (fst sA) + ba_size (fst sA)}"

definition allocate_log :: "width \<Rightarrow> buddy \<times> block set \<Rightarrow> usize \<Rightarrow> ((buddy \<times> block set) \<times> block option) option" where
  "allocate_log w sA pages = do {
     (s, r) \<leftarrow> allocate w (fst sA) pages;
     Some ((s, case r of None \<Rightarrow> snd sA | Some b \<Rightarrow> insert b (snd sA)), r) }"

lemma split_free_block_ok:
  assumes "run_lists w (s, A) L" "l < BLOCK_LEVELS" "n \<le> l" "L l \<noteq> []"
  shows "\<exists>s' L'. split_free_block w s l n = Some (s', hd (L l)) \<and> same_area s s' \<and> free_lists w s' L'
    \<and> apart L' (insert (hd (L l), 2 ^ n) A) \<and> (hd (L l), 2 ^ n) \<notin> A \<and> free_bytes L' + bsize n \<le> ba_free_mem s
    \<and> block_ok s l (hd (L l))"
proof -
  from assms(1) have inv: "free_lists w s L" "apart L A" "free_bytes L \<le> ba_free_mem s"
    by (simp_all add: run_lists_def)
  let ?b = "hd (L l)"
  obtain s1 where s1: "pop_from_list w s l = Some (s1, ?b)" "free_lists w s1 (L(l := []))" "same_area s s1"
    using pop_from_list_ok [OF inv(1) assms(2,4)] by blast
  have ok: "block_ok s l ?b" using free_listsD(5) [OF inv(1) assms(2)] assms(4) by simp
  have "bsize l \<le> length (L l) * bsize l" using assms(4) by (cases "L l") simp_all
  then have "free_bytes (L(l := [])) + bsize l \<le> ba_free_mem s"
    using free_bytes_upd [OF assms(2), of L "[]"] inv(3) by (simp only: list.size mult_0 add_0_right)
  from split_loop_ok [OF s1(2) apart_pop [OF inv(2) assms(2,4)] _ assms(3,2) this] ok same_area_block_ok [OF s1(3)]
  obtain s2 L2 where s2: "split_loop w s1 ?b (rev [n..<l]) = Some s2" "same_area s1 s2" "free_lists w s2 L2"
      "apart L2 (insert (?b, 2 ^ n) A)" "(?b, 2 ^ n) \<notin> A" "free_bytes L2 + bsize n \<le> ba_free_mem s" by blast
  then have "split_free_block w s l n = Some (s2, ?b)" using s1(1) by (simp add: split_free_block_def)
  with s2(3-6) ok same_area_trans [OF s1(3) s2(2)] show ?thesis by blast
qed

lemma alloc_loop_ok:
  assumes "run_lists w (s, A) L" "\<forall>l\<in>set ls. n \<le> l \<and> l < BLOCK_LEVELS"
  shows "(\<forall>l\<in>set ls. L l = []) \<and> alloc_loop w s n ls = Some (s, None)
    \<or> (\<exists>l\<in>set ls. L l \<noteq> [] \<and> block_ok s l (hd (L l)) \<and> (\<exists>s' L'. alloc_loop w s n ls = Some (s', Some (hd (L l), 2 ^ n))
        \<and> ba_base s' = ba_base s \<and> ba_size s' = ba_size s \<and> ba_free_mem s' + bsize n = ba_free_mem s
        \<and> ba_alloc_mem s' = ba_alloc_mem s + bsize n
        \<and> run_lists w (s', insert (hd (L l), 2 ^ n) A) L' \<and> (hd (L l), 2 ^ n) \<notin> A))"
  using assms(2)
proof (induction ls)
  case (Cons l ls)
  have l: "n \<le> l" "l < BLOCK_LEVELS" using Cons.prems by simp_all
  have inv: "free_lists w s L" "ba_alloc_mem s + ba_free_mem s < usize_lim w" using assms(1) by (simp_all add: run_lists_def)
  note D = free_listsD [OF inv(1) l(2)]
  have lv: "idx (ba_levels s) l = Some (ba_levels s ! l)" using D(1) l(2) by (simp add: geometry_def)
  show ?case
  proof (cases "L l = []")
    case True
    with D(2) lv Cons show ?thesis by simp
  next
    case False
    have nz: "bl_head (ba_levels s ! l) \<noteq> 0" using D(2,5) False by (auto simp: block_ok_def)
    obtain s1 L1 where s1: "split_free_block w s l n = Some (s1, hd (L l))" "same_area s s1" "free_lists w s1 L1"
        "apart L1 (insert (hd (L l), 2 ^ n) A)" "(hd (L l), 2 ^ n) \<notin> A" "free_bytes L1 + bsize n \<le> ba_free_mem s"
        "block_ok s l (hd (L l))"
      using split_free_block_ok [OF assms(1) l(2,1) False] by blast
    let ?s = "s1\<lparr>ba_free_mem := ba_free_mem s - bsize n, ba_alloc_mem := ba_alloc_mem s + bsize n\<rparr>"
    have n: "n < BLOCK_LEVELS" using l by simp
    have mem: "ba_free_mem s1 = ba_free_mem s" "ba_alloc_mem s1 = ba_alloc_mem s" "ba_base s1 = ba_base s" "ba_size s1 = ba_size s"
      using s1(2) by (simp_all add: same_area_def)
    have "alloc_loop w s n (l # ls) = Some (?s, Some (hd (L l), 2 ^ n))"
      using lv nz s1(1,6) mem inv(2) level_shift_ok(2,3) [OF n, of w] by (simp del: One_nat_def)
    moreover have "free_lists w ?s L1" using s1(3) by (simp add: free_lists_def geometry_def block_ok_def)
    then have "run_lists w (?s, insert (hd (L l), 2 ^ n) A) L1" using s1(4,6) inv(2) by (simp add: run_lists_def)
    ultimately show ?thesis using False s1(5-7) mem by (intro disjI2) (force intro!: bexI [of _ l] exI [of _ ?s])
  qed
qed simp


lemma allocate_eq:
  assumes "0 < p" "p < usize_lim w"
  shows "allocate w s p = alloc_loop w s (clog2 p) [clog2 p..<BLOCK_LEVELS]"
  using assms ceil_log2_correct [OF assms(2)] by (simp add: allocate_def)

lemma allocate_ok:
  assumes "run_lists w (s, A) L" "p < usize_lim w"
  shows "(p = 0 \<or> (\<forall>l\<in>{clog2 p..<BLOCK_LEVELS}. L l = [])) \<and> allocate w s p = Some (s, None)
    \<or> (\<exists>l\<in>{clog2 p..<BLOCK_LEVELS}. L l \<noteq> [] \<and> block_ok s l (hd (L l)) \<and> (\<exists>s' L'. allocate w s p = Some (s', Some (hd (L l), 2 ^ clog2 p))
        \<and> ba_base s' = ba_base s \<and> ba_size s' = ba_size s \<and> ba_free_mem s' + bsize (clog2 p) = ba_free_mem s
        \<and> ba_alloc_mem s' = ba_alloc_mem s + bsize (clog2 p)
        \<and> run_lists w (s', insert (hd (L l), 2 ^ clog2 p) A) L' \<and> (hd (L l), 2 ^ clog2 p) \<notin> A))"
proof (cases "p = 0")
  case False
  then have "allocate w s p = alloc_loop w s (clog2 p) [clog2 p..<BLOCK_LEVELS]" using assms(2) by (simp add: allocate_eq)
  then show ?thesis using alloc_loop_ok [OF assms(1), of "[clog2 p..<BLOCK_LEVELS]" "clog2 p"] False by simp
qed (simp add: allocate_def)

lemma bsize_le_dvd: "n \<le> l \<Longrightarrow> bsize n \<le> bsize l \<and> bsize n dvd bsize l"
  by (simp add: bsize_def le_imp_power_dvd)

lemma run_fresh:
  assumes "apart L' (insert (b, 2 ^ n) A)" "(b, 2 ^ n) \<notin> A" "block_ok s l b" "clog2 p = n" "n \<le> l"
  shows "fresh_block page_size (buddy_area (s, A)) A p (b, 2 ^ n)"
proof -
  have p: "disjoint_blocks (free_blocks L' \<union> insert (b, 2 ^ n) A)" using assms(1) by (simp add: apart_def)
  have "block_addrs page_size (b, 2 ^ n) \<inter> block_addrs page_size c = {}" if "c \<in> A" for c
    by (rule pairwiseD [OF p]) (use that assms(2) in auto)
  moreover have "bsize n dvd b" "b + bsize n \<le> ba_base s + ba_size s" "ba_base s \<le> b"
    using assms(3) bsize_le_dvd [OF assms(5)] dvd_trans [of "bsize n" "bsize l" b] by (auto simp: block_ok_def)
  ultimately show ?thesis
    using assms(4) by (auto simp: fresh_block_def buddy_area_def block_addrs_pages) (simp add: bsize_def)
qed

interpretation bu: page_source "run_inv w" snd "\<lambda>_. page_size" buddy_area "\<lambda>p. p < usize_lim w" "allocate_log w" for w
proof
  fix sA :: "buddy \<times> block set" and p
  assume "run_inv w sA" and p: "p < usize_lim w"
  then obtain L s A where sA: "sA = (s, A)" and L: "run_lists w (s, A) L" by (cases sA) (auto simp: run_inv_def)
  from allocate_ok [OF L p]
  show "\<exists>s' r. allocate_log w sA p = Some (s', r) \<and> run_inv w s' \<and> page_size = page_size \<and> buddy_area s' = buddy_area sA
      \<and> (case r of None \<Rightarrow> snd s' = snd sA
         | Some b \<Rightarrow> snd s' = insert b (snd sA) \<and> fresh_block page_size (buddy_area sA) (snd sA) p b)"
  proof (elim disjE bexE exE conjE)
    fix l s' L'
    let ?b = "(hd (L l), 2 ^ clog2 p)"
    assume l: "l \<in> {clog2 p..<BLOCK_LEVELS}" and ok: "block_ok s l (hd (L l))" and a: "allocate w s p = Some (s', Some ?b)"
      and ar: "ba_base s' = ba_base s" "ba_size s' = ba_size s" and r: "run_lists w (s', insert ?b A) L'" "?b \<notin> A"
    have "fresh_block page_size (buddy_area sA) A p ?b"
      using run_fresh [OF _ r(2) ok refl] r(1) l sA by (auto simp: run_lists_def)
    then show ?thesis using a ar r(1) sA by (auto simp: allocate_log_def run_inv_def buddy_area_def)
  qed (use L sA in \<open>auto simp: allocate_log_def run_inv_def\<close>)
qed


section \<open>Construction\<close>

lemma block_at_ok:
  assumes "page_size dvd addr" "0 < addr" "addr < usize_lim w" "page_size \<le> remaining" "remaining < usize_lim w"
  shows "\<exists>l. block_at w addr remaining = Some (l, bsize l) \<and> l < BLOCK_LEVELS \<and> bsize l dvd addr \<and> bsize l \<le> remaining"
proof -
  let ?p = "addr div page_size" and ?r = "remaining div page_size"
  have p: "0 < ?p" "?p < usize_lim w" "addr = ?p * page_size"
    using assms(1-3) by (auto simp: dvd_div_eq_0_iff intro: le_less_trans [OF div_le_dividend])
  have r: "0 < ?r" "?r < usize_lim w"
    using assms(4,5) by (auto simp: div_greater_zero_iff intro: le_less_trans [OF div_le_dividend])
  obtain k where k: "least_significant_bit w ?p = 2 ^ k" "2 ^ k dvd ?p" "k < word_bits w"
    using least_significant_bit_dvd [OF p(1,2)] by metis
  let ?l = "min (ilog2 ?r) (min k 10)"
  have l: "?l < BLOCK_LEVELS" by (simp add: BLOCK_LEVELS_def)
  have "(2::nat) ^ k < usize_lim w" using k(3) by simp
  then have "floor_log2 w (2 ^ k) = Some k" using floor_log2_correct [of "2 ^ k" w] by simp
  moreover have "ushr w addr page_shift = Some ?p" "ushr w remaining page_shift = Some ?r"
    using page_shift_less [of w] by (simp_all add: ushr_def drop_bit_eq_div page_size_exp)
  ultimately have "block_at w addr remaining = Some (?l, bsize ?l)"
    using floor_log2_correct [OF r(2)] k(1) level_shift_ok(2,3) [OF l, of w]
    by (simp add: block_at_def BLOCK_LEVELS_def Let_def del: One_nat_def)
  moreover have "bsize ?l dvd addr"
  proof -
    have "2 ^ ?l dvd ?p" by (rule dvd_trans [OF le_imp_power_dvd k(2)]) simp
    then show ?thesis by (subst p(3)) (simp add: bsize_def)
  qed
  moreover have "bsize ?l \<le> remaining"
  proof -
    have "2 ^ ?l \<le> (2::nat) ^ ilog2 ?r" by (intro power_increasing) simp_all
    also have "\<dots> \<le> ?r" using r(1) by simp
    finally have "2 ^ ?l * page_size \<le> ?r * page_size" by (rule mult_le_mono1)
    also have "\<dots> \<le> remaining" by (rule div_times_less_eq_dividend)
    finally show ?thesis by (simp add: bsize_def)
  qed
  ultimately show ?thesis using l by blast
qed

definition covered :: "(nat \<Rightarrow> usize list) \<Rightarrow> nat set" where
  "covered L = (\<Union>b\<in>free_blocks L. block_addrs page_size b)"

lemma covered_append: "l < BLOCK_LEVELS \<Longrightarrow> covered (L(l := L l @ [b])) = {b ..< b + bsize l} \<union> covered L"
  by (simp add: covered_def free_blocks_append block_addrs_pages)

lemma init_range_ok:
  assumes "free_lists w s L" "apart L (insert (addr, remaining div page_size) A)"
    "0 < remaining div page_size \<Longrightarrow> (addr, remaining div page_size) \<notin> A"
    "page_size dvd addr" "0 < addr" "ba_base s \<le> addr" "remaining < usize_lim w"
    "addr + remaining div page_size * page_size \<le> ba_base s + ba_size s" "ba_base s + ba_size s < usize_lim w"
  shows "\<exists>s' L'. init_range w s addr remaining = Some s' \<and> same_area s s' \<and> free_lists w s' L' \<and> apart L' A
    \<and> covered L' = covered L \<union> {addr ..< addr + remaining div page_size * page_size}
    \<and> free_bytes L' = free_bytes L + remaining div page_size * page_size"
  using assms
proof (induction remaining arbitrary: s L addr rule: less_induct)
  case (less remaining)
  let ?n = "remaining div page_size"
  show ?case
  proof (cases "page_size \<le> remaining")
    case False
    have "apart L A" using less.prems(2) apart_mono [of L A "{(addr, ?n)}"] by simp
    with False less.prems show ?thesis
      by (intro exI [of _ s] exI [of _ L]) (simp add: init_range.simps same_area_def)
  next
    case True
    have n: "0 < ?n" using True by (simp add: div_greater_zero_iff)
    have lt: "addr < usize_lim w" using less.prems(8,9) by linarith
    obtain l where l: "block_at w addr remaining = Some (l, bsize l)" "l < BLOCK_LEVELS" "bsize l dvd addr" "bsize l \<le> remaining"
      using block_at_ok [OF less.prems(4,5) lt True less.prems(7)] by blast
    let ?r = "remaining - bsize l" and ?a = "addr + bsize l"
    have cut: "?n = ?r div page_size + 2 ^ l" "2 ^ l \<le> ?n"
    proof -
      have "remaining = ?r + 2 ^ l * page_size" using l(4) by (simp add: bsize_def)
      then show "?n = ?r div page_size + 2 ^ l" by (metis div_mult_self1 add.commute page_size_pos neq0_conv)
      then show "2 ^ l \<le> ?n" by simp
    qed
    have room: "?a + ?r div page_size * page_size = addr + ?n * page_size"
      by (simp add: cut(1) bsize_def add_mult_distrib)
    have ok: "block_ok s l addr"
      using less.prems(5,6,8) l(3) room by (simp add: block_ok_def)
    have sub: "block_addrs page_size (addr, 2 ^ l) \<subseteq> block_addrs page_size (addr, ?n)"
        "block_addrs page_size (?a, ?r div page_size) \<subseteq> block_addrs page_size (addr, ?n)"
        "block_addrs page_size (addr, 2 ^ l) \<inter> block_addrs page_size (?a, ?r div page_size) = {}"
      using room cut(2) unfolding block_addrs_def by (auto simp: bsize_def)
    note give = apart_give [OF less.prems(2) less.prems(3) [OF n] l(2) sub]
    obtain s1 where s1: "add_to_list w s l addr = Some s1" "free_lists w s1 (L(l := L l @ [addr]))" "same_area s s1"
      using add_to_list_ok [OF less.prems(1) l(2) ok] give(3) by blast
    have "init_range w s addr remaining = init_range w s1 ?a ?r"
      using l(1,4) s1(1) True less.prems(8,9) room by (subst init_range.simps) simp
    moreover have "\<exists>s' L'. init_range w s1 ?a ?r = Some s' \<and> same_area s1 s' \<and> free_lists w s' L' \<and> apart L' A
      \<and> covered L' = covered (L(l := L l @ [addr])) \<union> {?a ..< ?a + ?r div page_size * page_size}
      \<and> free_bytes L' = free_bytes (L(l := L l @ [addr])) + ?r div page_size * page_size"
    proof (rule less.IH [OF _ s1(2) give(1)])
      show "?r < remaining" using l(4) bsize_page(2) [of l] by linarith
      show "page_size dvd ?a" using less.prems(4) by (simp add: bsize_def)
    qed (use s1(3) give(2) less.prems room in \<open>auto simp: same_area_def\<close>)
    then obtain s2 L2 where s2: "init_range w s1 ?a ?r = Some s2" "same_area s1 s2" "free_lists w s2 L2" "apart L2 A"
      "covered L2 = covered (L(l := L l @ [addr])) \<union> {?a ..< ?a + ?r div page_size * page_size}"
      "free_bytes L2 = free_bytes (L(l := L l @ [addr])) + ?r div page_size * page_size" by blast
    have "{addr ..< addr + ?n * page_size} = {addr ..< ?a} \<union> {?a ..< ?a + ?r div page_size * page_size}"
      unfolding room [symmetric] by auto
    then have "covered L2 = covered L \<union> {addr ..< addr + ?n * page_size}"
      using s2(5) covered_append [OF l(2), of L addr] by (simp only: Un_ac)
    moreover have "free_bytes L2 = free_bytes L + ?n * page_size"
      using s2(6) room by (simp add: free_bytes_append [OF l(2)])
    ultimately show ?thesis
      using s2(1-4) same_area_trans [OF s1(3) s2(2)] by (metis (no_types))
  qed
qed

text \<open>The whole pages at the start of a range.\<close>

definition whole_pages :: "'tag range \<Rightarrow> block" where
  "whole_pages r = (r_base r, r_size r div page_size)"

definition avail_ok :: "usize \<Rightarrow> usize \<Rightarrow> 'tag range list \<Rightarrow> bool" where
  "avail_ok base sz avail \<longleftrightarrow>
     (\<forall>r\<in>set avail. 0 < r_size r \<and> 0 < r_base r \<and> page_size dvd r_base r \<and> base \<le> r_base r \<and> r_base r + r_size r \<le> base + sz)
     \<and> sorted_wrt (\<lambda>r q. addrs r \<inter> addrs q = {}) avail"

lemma whole_pages_sub: "block_addrs page_size (whole_pages r) \<subseteq> addrs r"
  using div_times_less_eq_dividend [of "r_size r" page_size] by (auto simp: block_addrs_def whole_pages_def addrs_def)

lemma init_ranges_ok:
  assumes "free_lists w s L" "apart L (whole_pages ` set rs)" "avail_ok (ba_base s) sz rs"
    "ba_size s = sz div page_size * page_size" "page_size dvd ba_base s" "ba_base s + sz < usize_lim w"
  shows "\<exists>s' L'. init_ranges w s rs = Some s' \<and> same_area s s' \<and> free_lists w s' L' \<and> apart L' {}
    \<and> covered L' = covered L \<union> (\<Union>r\<in>set rs. block_addrs page_size (whole_pages r))
    \<and> free_bytes L' \<le> free_bytes L + sum_list (map r_size rs)"
  using assms
proof (induction rs arbitrary: s L)
  case Nil
  then show ?case by (intro exI [of _ s] exI [of _ L]) (simp add: same_area_def)
next
  case (Cons r rs)
  let ?n = "r_size r div page_size" and ?A = "whole_pages ` set rs"
  have r: "page_size dvd r_base r" "0 < r_base r" "ba_base s \<le> r_base r" "r_base r + r_size r \<le> ba_base s + sz"
      "\<forall>q\<in>set rs. addrs r \<inter> addrs q = {}" and rs: "avail_ok (ba_base s) sz rs"
    using Cons.prems(3) by (auto simp: avail_ok_def)
  have fresh: "(r_base r, ?n) \<notin> ?A" if "0 < ?n"
  proof
    assume "(r_base r, ?n) \<in> ?A"
    then obtain q where q: "q \<in> set rs" "r_base q = r_base r" "r_size q div page_size = ?n" by (auto simp: whole_pages_def)
    then have "0 < r_size q" "0 < r_size r" using that by (auto intro: gr0I)
    with r(5) q show False by (auto simp: addrs_def)
  qed
  have "(r_base r - ba_base s + ?n * page_size) div page_size \<le> sz div page_size"
    by (rule div_le_mono) (use r(3,4) div_times_less_eq_dividend [of "r_size r" page_size] in linarith)
  then have "(r_base r - ba_base s + ?n * page_size) div page_size * page_size \<le> ba_size s"
    using Cons.prems(4) by simp
  moreover have "page_size dvd r_base r - ba_base s + ?n * page_size"
    using r(1) Cons.prems(5) by (simp add: dvd_diff_nat)
  ultimately have top: "r_base r + ?n * page_size \<le> ba_base s + ba_size s"
    using r(3) by (simp only: dvd_div_mult_self)
  have "ba_size s \<le> sz" using Cons.prems(4) by simp
  with Cons.prems(6) have lim: "ba_base s + ba_size s < usize_lim w" by linarith
  have "\<exists>s' L'. init_range w s (r_base r) (r_size r) = Some s' \<and> same_area s s' \<and> free_lists w s' L' \<and> apart L' ?A
    \<and> covered L' = covered L \<union> {r_base r ..< r_base r + ?n * page_size} \<and> free_bytes L' = free_bytes L + ?n * page_size"
    by (rule init_range_ok [OF Cons.prems(1)])
      (use Cons.prems(2,6) r top fresh lim in \<open>auto simp: whole_pages_def\<close>)
  then obtain s1 L1 where s1: "init_range w s (r_base r) (r_size r) = Some s1" "same_area s s1" "free_lists w s1 L1" "apart L1 ?A"
      "covered L1 = covered L \<union> {r_base r ..< r_base r + ?n * page_size}" "free_bytes L1 = free_bytes L + ?n * page_size" by blast
  have ar: "ba_base s1 = ba_base s" "ba_size s1 = ba_size s" using s1(2) by (simp_all add: same_area_def)
  obtain s2 L2 where s2: "init_ranges w s1 rs = Some s2" "same_area s1 s2" "free_lists w s2 L2" "apart L2 {}"
      "covered L2 = covered L1 \<union> (\<Union>r\<in>set rs. block_addrs page_size (whole_pages r))"
      "free_bytes L2 \<le> free_bytes L1 + sum_list (map r_size rs)"
    using Cons.IH [OF s1(3,4)] rs Cons.prems(4-6) ar by auto
  have "covered L2 = covered L \<union> (\<Union>r\<in>set (r # rs). block_addrs page_size (whole_pages r))"
    using s1(5) s2(5) by (simp add: block_addrs_def whole_pages_def Un_ac)
  moreover have "free_bytes L2 \<le> free_bytes L + sum_list (map r_size (r # rs))"
    unfolding list.map sum_list.Cons using s1(6) s2(6) div_times_less_eq_dividend [of "r_size r" page_size] by linarith
  moreover have "init_ranges w s (r # rs) = Some s2" using s1(1) s2(1) by simp
  ultimately show ?case using s2(3,4) same_area_trans [OF s1(2) s2(2)] by blast
qed


lemma check_avail_ok:
  assumes "\<forall>r\<in>set rs. 0 < r_size r \<and> base \<le> r_base r \<and> r_base r + r_size r \<le> Suc end_addr" "Suc end_addr < usize_lim w"
    "m + sum_list (map r_size rs) < usize_lim w"
  shows "check_avail w base end_addr rs m = Some (Some (m + sum_list (map r_size rs)))"
  using assms(1,3)
proof (induction rs arbitrary: m)
  case (Cons r rs)
  have "r_base r + (r_size r - 1) < usize_lim w" "\<not> end_addr < r_base r + (r_size r - 1)"
    using Cons.prems(1) assms(2) by auto
  with Cons show ?case by (simp del: One_nat_def add: add.assoc)
qed simp

lemma addrs_sum:
  assumes "sorted_wrt (\<lambda>r q. addrs r \<inter> addrs q = {}) rs"
  shows "card (\<Union>r\<in>set rs. addrs r) = sum_list (map r_size rs)"
  using assms
proof (induction rs)
  case (Cons r rs)
  have "addrs r \<inter> (\<Union>q\<in>set rs. addrs q) = {}" using Cons.prems by auto
  then have "card (addrs r \<union> (\<Union>q\<in>set rs. addrs q)) = card (addrs r) + card (\<Union>q\<in>set rs. addrs q)"
    by (intro card_Un_disjoint) (auto simp: addrs_def)
  with Cons show ?case by (simp add: addrs_def [of r])
qed simp

lemma avail_sum: "avail_ok base sz rs \<Longrightarrow> sum_list (map r_size rs) \<le> sz"
proof -
  assume a: "avail_ok base sz rs"
  then have "(\<Union>r\<in>set rs. addrs r) \<subseteq> {base ..< base + sz}" by (fastforce simp: avail_ok_def addrs_def)
  from card_mono [OF _ this] show ?thesis using addrs_sum [of rs] a by (simp add: avail_ok_def)
qed

lemma no_free_blocks: "free_blocks (\<lambda>_. []) = {}" "free_bytes (\<lambda>_. []) = 0" "covered (\<lambda>_. []) = {}"
  by (simp_all add: free_blocks_def free_bytes_def covered_def)

lemma whole_pages_apart:
  assumes "avail_ok base sz rs"
  shows "apart (\<lambda>_. []) (whole_pages ` set rs)"
proof -
  have "addrs r \<inter> addrs q = {}" if "r \<in> set rs" "q \<in> set rs" "r \<noteq> q" for r q
  proof -
    obtain i j where ij: "i < length rs" "rs ! i = r" "j < length rs" "rs ! j = q" using \<open>r \<in> set rs\<close> \<open>q \<in> set rs\<close> by (auto simp: in_set_conv_nth)
    with that(3) have "i < j \<or> j < i" by (metis nat_neq_iff)
    moreover have "sorted_wrt (\<lambda>r q. addrs r \<inter> addrs q = {}) rs" using assms by (simp add: avail_ok_def)
    ultimately show ?thesis using ij by (auto simp: sorted_wrt_iff_nth_less)
  qed
  then have "block_addrs page_size (whole_pages r) \<inter> block_addrs page_size (whole_pages q) = {}"
    if "r \<in> set rs" "q \<in> set rs" "r \<noteq> q" for r q
    using that whole_pages_sub [of r] whole_pages_sub [of q] by blast
  then show ?thesis unfolding apart_def no_free_blocks by (auto simp: pairwise_def)
qed

text \<open>An allocator with nothing on its lists.\<close>

definition empty_area :: "width \<Rightarrow> usize \<Rightarrow> usize \<Rightarrow> usize \<Rightarrow> usize \<Rightarrow> (usize \<Rightarrow> block_node) \<Rightarrow> buddy" where
  "empty_area w base sz used free mem =
     \<lparr>ba_base = base, ba_size = sz, ba_levels = map (\<lambda>i. \<lparr>bl_head = 0, bl_offset = level_offset w sz i\<rparr>) [0..<BLOCK_LEVELS],
      ba_flags = replicate (level_offset w sz BLOCK_LEVELS) 0, ba_alloc_mem = used, ba_free_mem = free, ba_mem = mem\<rparr>"

lemma empty_area_lists:
  assumes "sz < usize_lim w" "base + sz \<le> usize_lim w"
  shows "free_lists w (empty_area w base sz used free mem) (\<lambda>_. [])"
  using assms by (simp add: empty_area_def free_lists_def geometry_def ring_def)

lemma buddy_new_ok:
  assumes "base \<le> maxp" "sz - 1 \<le> maxp - base" "base + sz < usize_lim w" "page_size dvd base" "page_size \<le> sz"
    "metadata \<noteq> 0" "avail \<noteq> []" "avail_ok base sz avail"
  shows "\<exists>s L. buddy_new w maxp mem base sz metadata avail = Some (Some s) \<and> run_lists w (s, {}) L
    \<and> ba_base s = base \<and> ba_size s = sz div page_size * page_size
    \<and> ba_alloc_mem s = 0 \<and> ba_free_mem s = sum_list (map r_size avail)
    \<and> covered L = (\<Union>r\<in>set avail. block_addrs page_size (whole_pages r))"
proof -
  let ?sz = "sz div page_size * page_size" and ?free = "sum_list (map r_size avail)" and ?e = "base + sz - 1"
  have pos: "0 < sz" using assms(5) page_size_pos by linarith
  have szlt: "sz < usize_lim w" "?sz \<le> sz" using assms(3) by simp_all
  have szl: "?sz < usize_lim w" using szlt by linarith
  have top: "base + ?sz \<le> usize_lim w" using szlt assms(3) by linarith
  have free: "?free \<le> sz" by (rule avail_sum [OF assms(8)])
  have up: "align_up w base page_size = Some base"
  proof -
    have "base + mask page_shift < usize_lim w"
      using assms(3,5) by (simp add: mask_eq_exp_minus_1 page_size_exp)
    moreover have "(base + mask page_shift) div 2 ^ page_shift * 2 ^ page_shift = base"
      using assms(4) by (auto simp: page_size_def page_shift_def mask_eq_exp_minus_1 dvd_def)
    ultimately show ?thesis using align_up_eq [OF page_shift_less, of w base] by (simp add: page_size_exp)
  qed
  have down: "align_down w sz page_size = Some ?sz"
    using align_down_eq [OF szlt(1) page_shift_less] by (simp add: page_size_exp)
  have "sz \<le> Suc (maxp - base)" using assms(2) by simp
  have check: "check_avail w base ?e avail 0 = Some (Some ?free)"
    using check_avail_ok [of avail base ?e w 0] assms(3,8) free szlt pos by (auto simp: avail_ok_def)
  let ?s = "empty_area w base ?sz 0 ?free mem"
  have area: "ba_base ?s = base" "ba_size ?s = ?sz" "ba_alloc_mem ?s = 0" "ba_free_mem ?s = ?free" by (simp_all add: empty_area_def)
  have fl: "free_lists w ?s (\<lambda>_. [])" by (rule empty_area_lists [OF szl top])
  obtain s L where s: "init_ranges w ?s avail = Some s" "same_area ?s s" "free_lists w s L" "apart L {}"
      "covered L = (\<Union>r\<in>set avail. block_addrs page_size (whole_pages r))" "free_bytes L \<le> ?free"
    using init_ranges_ok [OF fl whole_pages_apart [OF assms(8)], of sz] assms(3,4,8) area by (auto simp: no_free_blocks)
  have "drop_bit (WORD_SHIFT w) (level_offset w ?sz BLOCK_LEVELS * 2 ^ WORD_SHIFT w) = level_offset w ?sz BLOCK_LEVELS"
    by (simp add: drop_bit_eq_div)
  moreover have "page_size \<le> ?sz" using assms(5) by (simp add: div_greater_zero_iff Suc_le_eq)
  ultimately have "buddy_new w maxp mem base sz metadata avail = Some (Some s)"
    using assms(1-3,6,7) pos up down check s(1) make_levels_eq [OF szl]
    by (simp add: buddy_new_def init_metadata_def empty_area_def Suc_diff_Suc map_replicate_const)
  moreover have "run_lists w (s, {}) L" using s free szlt area by (simp add: run_lists_def same_area_def)
  ultimately show ?thesis using s(2,5) area by (intro exI [of _ s] exI [of _ L]) (simp add: same_area_def)
qed


section \<open>Release\<close>

lemma and_bsize_mask: "bsize l dvd b \<Longrightarrow> b AND (bsize l - 1) = 0"
proof -
  assume d: "bsize l dvd b"
  have "bsize l - 1 = mask (l + 12)" by (simp add: bsize_exp mask_eq_exp_minus_1)
  then have "b AND (bsize l - 1) = b mod bsize l" by (simp only: bsize_exp flip: take_bit_eq_mask take_bit_eq_mod)
  then show ?thesis using d by simp
qed

lemma power_of_2: "is_power_of_2 (2 ^ l)"
  by (auto simp: is_power_of_2_iff)

text \<open>The checks of \<open>free\<close> pass for every block of the area; the search for a buddy follows.\<close>

lemma buddy_free_eq:
  assumes "geometry w s" "l < BLOCK_LEVELS" "block_ok s l b" "ba_base s + ba_size s < usize_lim w"
  shows "buddy_free w s b (2 ^ l) = do {
     s \<leftarrow> free_loop w s b [l..<BLOCK_LEVELS];
     f \<leftarrow> uadd w (ba_free_mem s) (bsize l);
     a \<leftarrow> usub (ba_alloc_mem s) (bsize l);
     Some (s\<lparr>ba_free_mem := f, ba_alloc_mem := a\<rparr>) }"
proof -
  have b: "0 < b" "bsize l dvd b" "ba_base s \<le> b" "b + bsize l \<le> ba_base s + ba_size s" using assms(3) by (simp_all add: block_ok_def)
  have pos: "0 < bsize l" by (rule bsize_page)
  have "floor_log2 w (2 ^ l) = Some l" using floor_log2_correct [OF level_less [OF assms(2)]] by simp
  moreover have "b + bsize l < usize_lim w" "ba_base s + (ba_size s - 1) < usize_lim w" "0 < ba_size s"
    "b + bsize l - 1 \<le> ba_base s + (ba_size s - 1)"
    using b assms(4) pos by linarith+
  ultimately show ?thesis
    using b(1,3) pos power_of_2 [of l] and_bsize_mask [OF b(2)] assms(2) level_shift_ok(3) [OF assms(2), of w]
    by (simp add: buddy_free_def del: One_nat_def)
qed

lemma buddy_free_ok:
  assumes "free_lists w s L" "l < BLOCK_LEVELS" "block_ok s l b" "\<And>k. k < BLOCK_LEVELS \<Longrightarrow> b \<notin> set (L k)"
    "ba_base s + ba_size s < usize_lim w" "get_flag_index_and_bit w s b l = Some (i, j)" "\<not> bit (ba_flags s ! i) j"
    "bsize l \<le> ba_alloc_mem s" "ba_free_mem s + bsize l < usize_lim w"
  shows "\<exists>s'. buddy_free w s b (2 ^ l) = Some s' \<and> free_lists w s' (L(l := L l @ [b]))
    \<and> ba_free_mem s' = ba_free_mem s + bsize l \<and> ba_alloc_mem s' + bsize l = ba_alloc_mem s"
proof -
  note D = free_listsD [OF assms(1,2)]
  have ij: "i < length (ba_flags s)" "j < word_bits w" using flag_index_ok [OF D(1) assms(2,3)] assms(6) by auto
  obtain s1 where s1: "add_to_list w s l b = Some s1" "free_lists w s1 (L(l := L l @ [b]))" "same_area s s1"
    using add_to_list_ok [OF assms(1-4)] by blast
  have "ba_flags s ! i AND 2 ^ j = 0" using assms(7) by (intro bit_eqI) (auto simp: bit_and_iff bit_exp_iff)
  then have "free_loop w s b (l # ls) = Some s1" for ls using assms(6) ij s1(1) by simp
  then have loop: "free_loop w s b [l..<BLOCK_LEVELS] = Some s1" using assms(2) by (simp add: upt_conv_Cons)
  let ?s = "s1\<lparr>ba_free_mem := ba_free_mem s + bsize l, ba_alloc_mem := ba_alloc_mem s - bsize l\<rparr>"
  have "buddy_free w s b (2 ^ l) = Some ?s"
    using loop s1(3) assms(8,9) by (simp add: buddy_free_eq [OF D(1) assms(2,3,5)] same_area_def)
  moreover have "free_lists w ?s (L(l := L l @ [b]))" using s1(2) by (simp add: free_lists_def geometry_def block_ok_def)
  ultimately show ?thesis using assms(8) by (intro exI [of _ ?s]) simp
qed


subsection \<open>A list of two buddies\<close>

lemma toggle_flag_flags:
  "toggle_flag w t i j = Some s' \<Longrightarrow> j < word_bits w \<Longrightarrow> ba_flags s' = (ba_flags t)[i := ba_flags t ! i XOR 2 ^ j]"
  by (auto simp: toggle_flag_def panic_simps bind_eq_Some_conv)

lemma remove_from_list_flags:
  assumes "remove_from_list w s l b = Some s'" "get_flag_index_and_bit w s b l = Some (i, j)" "j < word_bits w"
  shows "ba_flags s' = (ba_flags s)[i := ba_flags s ! i XOR 2 ^ j]"
proof -
  obtain t where "toggle_flag w t i j = Some s'" "ba_flags t = ba_flags s"
    using assms(1,2) by (auto simp: remove_from_list_def set_head_def panic_simps bind_eq_Some_conv Let_def split: if_splits)
  then show ?thesis using toggle_flag_flags [OF _ assms(3)] by metis
qed

lemma add_to_list_flags:
  assumes "add_to_list w s l b = Some s'" "get_flag_index_and_bit w s b l = Some (i, j)" "j < word_bits w"
  shows "ba_flags s' = (ba_flags s)[i := ba_flags s ! i XOR 2 ^ j]"
proof -
  obtain t where "toggle_flag w t i j = Some s'" "ba_flags t = ba_flags s"
    using assms(1,2) by (auto simp: add_to_list_def set_head_def panic_simps bind_eq_Some_conv Let_def split: if_splits)
  then show ?thesis using toggle_flag_flags [OF _ assms(3)] by metis
qed

lemma remove_unreachable:
  assumes "geometry w s" "l < BLOCK_LEVELS" "block_ok s l b" "ba_mem s b = block_node_new w b b" "bl_head (ba_levels s ! l) = 0"
  shows "remove_from_list w s l b = None"
proof -
  have "0 < b" using assms(3) by (simp add: block_ok_def)
  then show ?thesis
    using flag_index_eq(1) [OF assms(1-3)] get_node_ok [OF assms(1,3,4)] assms(1,2,5)
    by (simp add: remove_from_list_def geometry_def)
qed

lemma two_buddies:
  assumes "run_lists w (s, A) L" "l < BLOCK_LEVELS" "L l = [a, b]" "b = ((a - ba_base s) XOR bsize l) + ba_base s"
    "get_flag_index_and_bit w s a l = Some (i, j)" "\<not> bit (ba_flags s ! i) j" "ba_base s + ba_size s < usize_lim w"
  shows "\<exists>s'. allocate w s (2 ^ l) = Some (s', Some (a, 2 ^ l)) \<and> buddy_free w s' a (2 ^ l) = None"
proof -
  from assms(1) have fl: "free_lists w s L" and mem: "free_bytes L \<le> ba_free_mem s" "ba_alloc_mem s + ba_free_mem s < usize_lim w"
    by (simp_all add: run_lists_def)
  note D = free_listsD [OF fl assms(2)]
  have ok: "block_ok s l a" "block_ok s l b" using D(5) assms(3) by simp_all
  have ij: "i < length (ba_flags s)" "j < word_bits w" using flag_index_ok [OF D(1) assms(2) ok(1)] assms(5) by auto
  obtain s1 where s1: "remove_from_list w s l a = Some s1" "free_lists w s1 (L(l := []))" "same_area s s1" "ring w (ba_mem s1) [b]"
    using remove_from_list_ok [OF fl assms(2), of a] assms(3) by (auto simp: removed_def)
  have flags: "ba_flags s1 = (ba_flags s)[i := ba_flags s ! i XOR 2 ^ j]"
    by (rule remove_from_list_flags [OF s1(1) assms(5) ij(2)])
  note D1 = free_listsD [OF s1(2) assms(2)]
  note p = level_less [OF assms(2), of w]
  have lv: "l < length (ba_levels s)" "bl_head (ba_levels s ! l) = a" "0 < a" using D(1,2) assms(2,3) ok by (simp_all add: geometry_def block_ok_def)
  have room: "bsize l \<le> ba_free_mem s" "ba_alloc_mem s + bsize l < usize_lim w"
    using free_bytes_upd [OF assms(2), of L "[]"] mem assms(3) by simp_all
  let ?s = "s1\<lparr>ba_free_mem := ba_free_mem s - bsize l, ba_alloc_mem := ba_alloc_mem s + bsize l\<rparr>"
  have ar: "ba_base s1 = ba_base s" "ba_size s1 = ba_size s" "ba_free_mem s1 = ba_free_mem s" "ba_alloc_mem s1 = ba_alloc_mem s"
    using s1(3) by (simp_all add: same_area_def)
  have "allocate w s (2 ^ l) = Some (?s, Some (a, 2 ^ l))"
    using lv s1(1) ar room level_shift_ok(2,3) [OF assms(2), of w] assms(2)
    by (simp add: allocate_eq [OF _ p] upt_conv_Cons split_free_block_def pop_from_list_def del: One_nat_def)
  moreover have "buddy_free w ?s a (2 ^ l) = None"
  proof -
    have g: "geometry w ?s" using D1(1) by (simp add: geometry_def)
    have oks: "block_ok ?s l a" "block_ok ?s l b" using ok ar by (simp_all add: block_ok_def)
    have "get_flag_index_and_bit w ?s a l = Some (i, j)"
      using flag_index_eq(1) [OF g assms(2) oks(1)] flag_index_eq(1) [OF D(1) assms(2) ok(1)] assms(5) ar by (simp add: pair_of_def)
    moreover have "bit (ba_flags ?s ! i AND 2 ^ j) j" using flags ij assms(6) by (simp add: bit_simps)
    then have "ba_flags ?s ! i AND 2 ^ j \<noteq> 0" by (rule contrapos_pn) simp
    moreover have "remove_from_list w ?s l b = None"
      using remove_unreachable [OF g assms(2) oks(2)] s1(4) D1(2) by (simp add: ring_def)
    moreover have "b < usize_lim w" by (rule block_ok_less [OF D(1) ok(2)])
    ultimately have "free_loop w ?s a (l # ls) = None" for ls
      using ij(1) flags assms(4) ar ok(1) ij(2) level_shift_ok(2,3) [OF assms(2), of w] by (simp add: block_ok_def del: One_nat_def)
    then show ?thesis
      using assms(2,7) ar buddy_free_eq [OF g assms(2) oks(1)] by (simp add: upt_conv_Cons)
  qed
  ultimately show ?thesis by blast
qed

section \<open>Properties\<close>

text \<open>
  The documentation of \<open>PageAllocator::new\<close> says that it returns \<open>None\<close> for a base of 0. There is no such check: it returns an allocator.
\<close>

lemma buddy_new_base_zero:
  assumes "sz - 1 \<le> maxp" "sz < usize_lim w" "page_size \<le> sz" "metadata \<noteq> 0" "avail \<noteq> []" "avail_ok 0 sz avail"
  shows "\<exists>s. buddy_new w maxp mem 0 sz metadata avail = Some (Some s)"
  using buddy_new_ok [of 0 maxp sz w metadata avail mem] assms by auto

text \<open>
  \<^bold>\<open>C6\<close> Construction: for a page-aligned base above 0 and a size of at least a page within the physical addresses, with metadata, and over at least one
  available range, all of them not empty, at page-aligned bases above 0, without overlap and in the area,
  \<open>PageAllocator::new\<close> returns an allocator; its free lists hold disjoint blocks that cover exactly the whole
  pages of the available ranges, and its accounting says that all of it is free.
\<close>
theorem buddy_new_covers:
  assumes "0 < base" "base \<le> maxp" "sz - 1 \<le> maxp - base" "base + sz < usize_lim w" "page_size dvd base" "page_size \<le> sz"
    "metadata \<noteq> 0" "avail \<noteq> []" "avail_ok base sz avail"
  shows "\<exists>s L. buddy_new w maxp mem base sz metadata avail = Some (Some s) \<and> free_lists w s L
    \<and> disjoint_blocks (free_blocks L) \<and> (\<Union>b\<in>free_blocks L. block_addrs page_size b) = (\<Union>r\<in>set avail. block_addrs page_size (whole_pages r))
    \<and> buddy_get_alloc_mem s = 0 \<and> buddy_get_free_mem s = sum_list (map r_size avail)"
  using buddy_new_ok [OF assms(2-), of mem]
  by (auto simp: run_lists_def apart_def covered_def buddy_get_alloc_mem_def buddy_get_free_mem_def)

lemma avail_example: "avail_ok 0x1000 0x8000 [\<lparr>r_tag = (), r_base = 0x3000, r_size = 0x4000\<rparr>]"
  by (simp add: avail_ok_def page_size_def)

definition clear_memory :: "usize \<Rightarrow> block_node" where
  "clear_memory = (\<lambda>_. \<lparr>bn_next = 0, bn_prev = 0, bn_checksum = 0\<rparr>)"

theorem buddy_new_covers_witness:
  "\<exists>s L. buddy_new W64 0xffffffff clear_memory 0x1000 0x8000 1 [\<lparr>r_tag = (), r_base = 0x3000, r_size = 0x4000\<rparr>] = Some (Some s)
    \<and> free_lists W64 s L \<and> buddy_get_free_mem s = 0x4000"
  using buddy_new_covers [where base = "0x1000" and maxp = "0xffffffff" and sz = "0x8000" and w = W64 and metadata = 1,
      OF _ _ _ _ _ _ _ _ avail_example, of clear_memory]
  by (auto simp: page_size_def)

text \<open>
  \<^bold>\<open>C5\<close> Runs: any sequence of allocations on a new allocator, constructed with a base above 0 over available ranges as in the property of the
  construction, whose bases are above 0 too, returns (no assertion fails, no
  arithmetic overflows); every block has the requested number of pages rounded up to a power of two, is
  aligned to its size, lies in the allocator's area, and no two blocks overlap.
\<close>
theorem buddy_run_disjoint:
  assumes "0 < base" "base \<le> maxp" "sz - 1 \<le> maxp - base" "base + sz < usize_lim w" "page_size dvd base" "page_size \<le> sz"
    "metadata \<noteq> 0" "avail \<noteq> []" "avail_ok base sz avail" "\<forall>p\<in>set ps. p < usize_lim w"
  shows "\<exists>s s' bs. buddy_new w maxp mem base sz metadata avail = Some (Some s)
    \<and> alloc_each (allocate_log w) (s, {}) ps = Some (s', bs)
    \<and> sorted_wrt (\<lambda>b c. block_addrs page_size b \<inter> block_addrs page_size c = {}) bs
    \<and> (\<forall>b\<in>set bs. \<exists>p\<in>set ps. fresh_block page_size {base ..< base + sz} {} p b)"
proof -
  obtain s L where s: "buddy_new w maxp mem base sz metadata avail = Some (Some s)" "run_lists w (s, {}) L"
      "ba_base s = base" "ba_size s = sz div page_size * page_size"
    using buddy_new_ok [OF assms(2-9), of mem] by blast
  have "ba_size s \<le> sz" using s(4) by simp
  then have "buddy_area (s, {}) \<subseteq> {base ..< base + sz}" using s(3) by (auto simp: buddy_area_def)
  then have mono: "fresh_block page_size {base ..< base + sz} {} p b" if "fresh_block page_size (buddy_area (s, {})) {} p b" for p b
    using that by (auto simp: fresh_block_def)
  have "run_inv w (s, {})" using s(2) by (auto simp: run_inv_def)
  from bu.alloc_each_ok [OF this assms(10)] obtain s' bs where
      "alloc_each (allocate_log w) (s, {}) ps = Some (s', bs)"
      "sorted_wrt (\<lambda>b c. block_addrs page_size b \<inter> block_addrs page_size c = {}) bs"
      "\<forall>b\<in>set bs. \<exists>p\<in>set ps. fresh_block page_size (buddy_area (s, {})) {} p b" by auto
  with s(1) mono show ?thesis by blast
qed

theorem buddy_run_disjoint_witness:
  "\<exists>s s' bs. buddy_new W32 0xffffffff clear_memory 0x1000 0x8000 1 [\<lparr>r_tag = (), r_base = 0x3000, r_size = 0x4000\<rparr>] = Some (Some s)
    \<and> alloc_each (allocate_log W32) (s, {}) [1, 3] = Some (s', bs)"
  using buddy_run_disjoint [where base = "0x1000" and maxp = "0xffffffff" and sz = "0x8000" and w = W32 and metadata = 1
      and ps = "[1, 3]", OF _ _ _ _ _ _ _ _ avail_example, of clear_memory]
  by (auto simp: page_size_def)

text \<open>
  \<^bold>\<open>C19\<close> One allocation, in any state a run reaches: either no list from the level of the request upward
  has a block, and the state is unchanged; or the lowest part of the head of one of these lists is returned,
  disjoint from everything in use, and its size moves from the free to the allocated figure.
\<close>
theorem allocate_accounts:
  assumes "run_lists w (s, A) L" "p < usize_lim w"
  shows "(p = 0 \<or> (\<forall>l\<in>{clog2 p..<BLOCK_LEVELS}. L l = [])) \<and> allocate w s p = Some (s, None)
    \<or> (\<exists>l\<in>{clog2 p..<BLOCK_LEVELS}. \<exists>s'. L l \<noteq> [] \<and> allocate w s p = Some (s', Some (hd (L l), 2 ^ clog2 p))
        \<and> ba_free_mem s' + 2 ^ clog2 p * page_size = ba_free_mem s \<and> ba_alloc_mem s' = ba_alloc_mem s + 2 ^ clog2 p * page_size
        \<and> run_inv w (s', insert (hd (L l), 2 ^ clog2 p) A))"
  using allocate_ok [OF assms] unfolding bsize_def run_inv_def by blast

theorem allocate_accounts_witness:
  "\<exists>s L. run_lists W64 (s, {}) L \<and> (\<exists>s' r. allocate W64 s 2 = Some (s', r))"
proof -
  obtain s L where "run_lists W64 (s, {}) L"
    using buddy_new_ok [where base = "0x1000" and maxp = "0xffffffff" and sz = "0x8000" and w = W64 and metadata = 1,
        OF _ _ _ _ _ _ _ avail_example, of clear_memory] by (auto simp: page_size_def)
  with allocate_accounts [OF this, of 2] show ?thesis by fastforce
qed

text \<open>
  \<^bold>\<open>C30\<close> Metadata: \<open>calc_metadata_size\<close> returns for every area size, equals the size \<open>make_levels\<close> uses for the
  flags, and is enough for the flag of every block of every level.
\<close>
theorem metadata_holds_flags:
  assumes "sz < usize_lim w" "base + sz \<le> usize_lim w" "l < BLOCK_LEVELS" "0 < b" "2 ^ l * page_size dvd b"
    "base \<le> b" "b + 2 ^ l * page_size \<le> base + sz"
  shows "\<exists>n levels i j. calc_metadata_size w sz = Some n \<and> make_levels w sz = Some (levels, n)
    \<and> get_flag_index_and_bit w (empty_area w base sz 0 0 mem) b l = Some (i, j)
    \<and> ba_levels (empty_area w base sz 0 0 mem) = levels \<and> i < drop_bit (WORD_SHIFT w) n \<and> j < word_bits w"
proof -
  let ?s = "empty_area w base sz 0 0 mem"
  have "geometry w ?s" using empty_area_lists [OF assms(1,2)] by (simp add: free_lists_def)
  moreover have "block_ok ?s l b" using assms(4-7) by (simp add: block_ok_def bsize_def empty_area_def)
  ultimately obtain i j where "get_flag_index_and_bit w ?s b l = Some (i, j)" "i < length (ba_flags ?s)" "j < word_bits w"
    using flag_index_ok assms(3) by blast
  then show ?thesis
    using make_levels_eq [OF assms(1)] calc_metadata_size_eq [OF assms(1)] by (simp add: empty_area_def drop_bit_eq_div)
qed

theorem metadata_holds_flags_witness: "\<exists>n. calc_metadata_size W32 0x400000 = Some n"
  using metadata_holds_flags [where sz = "0x400000" and w = W32 and base = "0x1000" and l = 3 and b = "0x8000"] by (auto simp: BLOCK_LEVELS_def page_size_def)

text \<open>
  \<open>add_to_list\<close> refines appending to the list of free blocks of the level, whatever is on the lists.
\<close>
theorem add_to_list_appends:
  assumes "free_lists w s L" "l < BLOCK_LEVELS" "block_ok s l b" "\<forall>k<BLOCK_LEVELS. b \<notin> set (L k)"
  shows "\<exists>s'. add_to_list w s l b = Some s' \<and> free_lists w s' (L(l := L l @ [b])) \<and> same_area s s'"
  using add_to_list_ok [OF assms(1-3)] assms(4) by blast

lemma empty_area_block: "block_ok (empty_area w 0x1000 0x8000 u f m) 1 0x2000"
  by (simp add: block_ok_def empty_area_def bsize_def page_size_def)

lemma empty_area_example: "free_lists W64 (empty_area W64 0x1000 0x8000 u f m) (\<lambda>_. [])"
  by (rule empty_area_lists) simp_all

theorem add_to_list_appends_witness:
  "\<exists>s'. add_to_list W64 (empty_area W64 0x1000 0x8000 0 0 clear_memory) 1 0x2000 = Some s' \<and> free_lists W64 s' ((\<lambda>_. [])(1 := [0x2000]))"
  using add_to_list_appends [OF empty_area_example _ empty_area_block, of 0 0 clear_memory] by (auto simp: BLOCK_LEVELS_def)

text \<open>
  \<^bold>\<open>C35\<close> \<open>remove_from_list\<close>, on every path: the block's neighbours are linked to each other; a block that is
  not the head leaves its list without it, but a head leaves the whole list empty, because the new head is
  read from the node that was just cleared.
\<close>
theorem remove_from_list_effect:
  assumes "free_lists w s L" "l < BLOCK_LEVELS" "b \<in> set (L l)"
  shows "\<exists>s'. remove_from_list w s l b = Some s' \<and> ring w (ba_mem s') (remove1 b (L l)) \<and> same_area s s'
    \<and> free_lists w s' (L(l := if b = hd (L l) then [] else remove1 b (L l)))"
  using remove_from_list_ok [OF assms] by (auto simp: removed_def)

theorem remove_from_list_effect_witness:
  "\<exists>s L. free_lists W64 s L \<and> L 1 = [0x2000] \<and> (\<exists>s'. remove_from_list W64 s 1 0x2000 = Some s')"
proof -
  obtain s where s: "free_lists W64 s ((\<lambda>_. [])(1 := [0x2000]))"
    using add_to_list_ok [OF empty_area_example _ empty_area_block, of 0 0 clear_memory] by (auto simp: BLOCK_LEVELS_def)
  from remove_from_list_effect [OF this, of 1 "0x2000"] s show ?thesis by (fastforce simp: BLOCK_LEVELS_def)
qed

text \<open>
  \<open>free\<close> of a block whose buddy flag is clear: every check passes, the block goes to the end of the
  list of its level, and its size moves from the allocated to the free figure.
\<close>
theorem buddy_free_appends:
  assumes "free_lists w s L" "l < BLOCK_LEVELS" "block_ok s l b" "\<forall>k<BLOCK_LEVELS. b \<notin> set (L k)"
    "ba_base s + ba_size s < usize_lim w" "get_flag_index_and_bit w s b l = Some (i, j)" "\<not> bit (ba_flags s ! i) j"
    "2 ^ l * page_size \<le> ba_alloc_mem s" "ba_free_mem s + 2 ^ l * page_size < usize_lim w"
  shows "\<exists>s'. buddy_free w s b (2 ^ l) = Some s' \<and> free_lists w s' (L(l := L l @ [b]))
    \<and> ba_free_mem s' = ba_free_mem s + 2 ^ l * page_size \<and> ba_alloc_mem s' + 2 ^ l * page_size = ba_alloc_mem s"
  using buddy_free_ok [OF assms(1-3) _ assms(5-7)] assms(4,8,9) unfolding bsize_def by blast

theorem buddy_free_appends_witness:
  "\<exists>s'. buddy_free W64 (empty_area W64 0x1000 0x8000 0x2000 0 clear_memory) 0x2000 2 = Some s'
    \<and> free_lists W64 s' ((\<lambda>_. [])(1 := [0x2000]))"
proof -
  let ?s = "empty_area W64 0x1000 0x8000 0x2000 0 clear_memory"
  have "geometry W64 ?s" using empty_area_example by (simp add: free_lists_def)
  note flag = flag_index_eq [OF this _ empty_area_block]
  have "level_offset W64 0x8000 1 = 1" by (simp add: level_words_def page_size_def)
  moreover have "pair_of ?s 0x2000 1 = 0" by (simp add: pair_of_def empty_area_def page_size_def)
  ultimately have "get_flag_index_and_bit W64 ?s 0x2000 1 = Some (1, 0)" "1 < length (ba_flags ?s)"
    using flag by (simp_all add: BLOCK_LEVELS_def empty_area_def)
  moreover from this(2) have "\<not> bit (ba_flags ?s ! 1) 0" by (simp add: empty_area_def)
  ultimately show ?thesis
    using buddy_free_appends [OF empty_area_example _ empty_area_block, of "0x2000" 0 clear_memory 1 0]
    by (auto simp add: BLOCK_LEVELS_def empty_area_def page_size_def)
qed

text \<open>
  \<^bold>\<open>C36\<close> The effect of an emptied list on a run: when the list of a level consists of two buddies, allocating
  a block of that level and freeing it again fails an assertion of \<open>remove_from_list\<close>, because the other
  buddy is no longer reachable from the head.
\<close>
theorem alloc_free_panics:
  assumes "run_lists w (s, A) L" "l < BLOCK_LEVELS" "L l = [a, b]" "b = ((a - ba_base s) XOR (2 ^ l * page_size)) + ba_base s"
    "get_flag_index_and_bit w s a l = Some (i, j)" "\<not> bit (ba_flags s ! i) j" "ba_base s + ba_size s < usize_lim w"
  shows "\<exists>s'. allocate w s (2 ^ l) = Some (s', Some (a, 2 ^ l)) \<and> buddy_free w s' a (2 ^ l) = None"
  using two_buddies [OF assms(1-3) _ assms(5-7)] assms(4) by (simp add: bsize_def)


text \<open>The two pages of an area at 0x3000 are buddies; both are on the list of level 0 after construction.\<close>

lemma two_pages:
  "\<exists>s L. run_lists W64 (s, {}) L \<and> L 0 = [0x3000, 0x4000] \<and> ba_base s = 0x3000 \<and> ba_size s = 0x2000
    \<and> (\<exists>i j. get_flag_index_and_bit W64 s 0x3000 0 = Some (i, j) \<and> \<not> bit (ba_flags s ! i) j)"
proof -
  let ?s = "empty_area W64 0x3000 0x2000 0 0x2000 clear_memory" and ?L = "(\<lambda>_. [])(0 := [0x3000])"
  have l0: "0 < BLOCK_LEVELS" by (simp add: BLOCK_LEVELS_def)
  have fl: "free_lists W64 ?s (\<lambda>_. [])" by (rule empty_area_lists) simp_all
  have ok: "block_ok t 0 0x3000" "block_ok t 0 0x4000" "pair_of t 0x3000 0 = 0" "pair_of t 0x4000 0 = 0"
    if "ba_base t = 0x3000" "ba_size t = 0x2000" for t
    using that by (simp_all add: block_ok_def bsize_def page_size_def pair_of_def)
  have ar: "ba_base ?s = 0x3000" "ba_size ?s = 0x2000" "ba_free_mem ?s = 0x2000" "ba_alloc_mem ?s = 0" by (simp_all add: empty_area_def)
  obtain s1 where s1: "add_to_list W64 ?s 0 0x3000 = Some s1" "free_lists W64 s1 ?L" "same_area ?s s1"
    using add_to_list_ok [OF fl l0 ok(1) [OF ar(1,2)]] by auto
  have ar1: "ba_base s1 = 0x3000" "ba_size s1 = 0x2000" using s1(3) ar by (simp_all add: same_area_def)
  obtain s2 where s2: "add_to_list W64 s1 0 0x4000 = Some s2" "free_lists W64 s2 (?L(0 := [0x3000, 0x4000]))" "same_area s1 s2"
    using add_to_list_ok [OF s1(2) l0 ok(2) [OF ar1]] by auto
  have ar2: "ba_base s2 = 0x3000" "ba_size s2 = 0x2000" "ba_free_mem s2 = 0x2000" "ba_alloc_mem s2 = 0"
    using s1(3) s2(3) ar by (simp_all add: same_area_def)
  have g: "geometry W64 ?s" "geometry W64 s1" "geometry W64 s2" using fl s1(2) s2(2) by (simp_all add: free_lists_def)
  note f = flag_index_eq [OF g(1) l0 ok(1) [OF ar(1,2)]] flag_index_eq [OF g(2) l0 ok(2) [OF ar1]] flag_index_eq [OF g(3) l0 ok(1) [OF ar2(1,2)]]
  have "ba_flags s1 = (ba_flags ?s)[0 := ba_flags ?s ! 0 XOR 2 ^ 0]"
    using add_to_list_flags [OF s1(1) f(1)] ok(3) [OF ar(1,2)] ar by simp
  moreover have "ba_flags s2 = (ba_flags s1)[0 := ba_flags s1 ! 0 XOR 2 ^ 0]"
    using add_to_list_flags [OF s2(1) f(3)] ok(4) [OF ar1] ar1 by simp
  moreover have "0 < length (ba_flags ?s)" using f(2) by linarith
  moreover from this have "ba_flags ?s ! 0 = 0" by (simp add: empty_area_def)
  ultimately have "ba_flags s2 ! 0 = 0" by simp
  moreover have "run_lists W64 (s2, {}) (?L(0 := [0x3000, 0x4000]))"
  proof -
    have fb: "free_blocks (?L(0 := [0x3000, 0x4000])) = {(0x3000, 1), (0x4000, 1)}"
      using l0 by (auto simp: free_blocks_def)
    have "free_bytes (?L(0 := [0x3000, 0x4000])) = 0x2000"
      using free_bytes_upd [OF l0, of "\<lambda>_. []" "[0x3000, 0x4000]"] no_free_blocks(2) by (simp add: bsize_def page_size_def)
    moreover have "apart (?L(0 := [0x3000, 0x4000])) {}"
      unfolding apart_def fb by (auto simp: pairwise_def block_addrs_def page_size_def)
    ultimately show ?thesis using s2(2) ar2 by (simp add: run_lists_def)
  qed
  ultimately show ?thesis using f(5) ok(3) [OF ar2(1,2)] ar2
    by (intro exI [of _ s2] exI [of _ "?L(0 := [0x3000, 0x4000])"]) simp
qed

theorem alloc_free_panics_witness:
  "\<exists>s s'. allocate W64 s 1 = Some (s', Some (0x3000, 1)) \<and> buddy_free W64 s' 0x3000 1 = None"
proof -
  obtain s L i j where s: "run_lists W64 (s, {}) L" "L 0 = [0x3000, 0x4000]" "ba_base s = 0x3000" "ba_size s = 0x2000"
      "get_flag_index_and_bit W64 s 0x3000 0 = Some (i, j)" "\<not> bit (ba_flags s ! i) j"
    using two_pages by blast
  from alloc_free_panics [OF s(1) _ s(2) _ s(5,6)] s(3,4) show ?thesis
    by (auto simp: BLOCK_LEVELS_def page_size_def)
qed

end
