(* ===== verification/Slabs.thy ===== *)
theory Slabs
  imports Buddy_Runs
begin

text \<open>
  The slab layer of \<open>src/mm/slab_allocator.rs\<close>: \<open>SlabNode\<close> and \<open>SlabManager\<close>. The memory the manager
  reaches through linear addresses is the record \<open>slab_heap\<close>: the node at the end of every slab and the \<open>next\<close>
  field of every object wrapper. The page allocator \<open>A\<close> is an argument: its state \<open>'a\<close> and its two
  operations. The type \<open>T\<close> of the objects enters through the size of its wrapper.
\<close>

section \<open>Data\<close>

record slab_node =
  sn_avail :: usize
  sn_free :: usize
  sn_prev :: usize
  sn_next :: usize
  sn_checksum :: usize

definition slab_node_new :: "width \<Rightarrow> usize \<Rightarrow> usize \<Rightarrow> usize \<Rightarrow> usize \<Rightarrow> slab_node" where
  "slab_node_new w avail free nxt prv =
     \<lparr>sn_avail = avail, sn_free = free, sn_prev = prv, sn_next = nxt, sn_checksum = xor_checksum w [avail, free, prv, nxt]\<rparr>"

definition slab_checksum :: "width \<Rightarrow> slab_node \<Rightarrow> slab_node" where
  "slab_checksum w n = n\<lparr>sn_checksum := xor_checksum w [sn_avail n, sn_free n, sn_prev n, sn_next n]\<rparr>"

definition slab_verify :: "width \<Rightarrow> slab_node \<Rightarrow> bool" where
  "slab_verify w n \<longleftrightarrow> xor_checksum w [sn_avail n, sn_free n, sn_prev n, sn_next n] = sn_checksum n"

definition slab_node_size :: "width \<Rightarrow> usize" where
  "slab_node_size w = 5 * (word_bits w div 8)"

record slab_heap =
  sh_node :: "usize \<Rightarrow> slab_node"
  sh_next :: "usize \<Rightarrow> usize"

record slab_manager =
  sm_slab_pages :: usize
  sm_objs_per_slab :: usize
  sm_unused :: usize
  sm_in_use :: usize
  sm_empty :: usize
  sm_slabs_allocated :: usize
  sm_objects_allocated :: usize
  sm_objects_available :: usize
  sm_obj_size :: usize

definition MIN_OBJECTS_PER_SLAB :: usize where
  "MIN_OBJECTS_PER_SLAB = 7"

definition slab_manager_new :: "width \<Rightarrow> usize \<Rightarrow> usize \<Rightarrow> slab_manager option" where
  "slab_manager_new w max_block_pages obj_size = do {
     t \<leftarrow> umul w obj_size MIN_OBJECTS_PER_SLAB;
     min_slab_size \<leftarrow> uadd w t (slab_node_size w);
     t \<leftarrow> uadd w min_slab_size page_size;
     t \<leftarrow> usub t 1;
     lg \<leftarrow> ceil_log2 w (t div page_size);
     slab_pages \<leftarrow> ushl w 1 lg;
     assert_that (slab_pages \<le> max_block_pages);
     slab_size \<leftarrow> umul w slab_pages page_size;
     t \<leftarrow> usub slab_size (slab_node_size w);
     assert_that (obj_size \<noteq> 0);
     let objs_per_slab = t div obj_size;
     assert_that (objs_per_slab > 0);
     Some \<lparr>sm_slab_pages = slab_pages, sm_objs_per_slab = objs_per_slab, sm_unused = 0, sm_in_use = 0, sm_empty = 0,
           sm_slabs_allocated = 0, sm_objects_allocated = 0, sm_objects_available = 0, sm_obj_size = obj_size\<rparr> }"

section \<open>Slab lists\<close>

definition get_slab_node_unchecked_mut :: "'h slab_heap_scheme \<Rightarrow> usize \<Rightarrow> slab_node option" where
  "get_slab_node_unchecked_mut h node_addr = do {
     assert_that (node_addr \<noteq> 0);
     Some (sh_node h node_addr) }"

definition get_slab_node_mut :: "width \<Rightarrow> 'h slab_heap_scheme \<Rightarrow> usize \<Rightarrow> slab_node option" where
  "get_slab_node_mut w h node_addr = do {
     node \<leftarrow> get_slab_node_unchecked_mut h node_addr;
     assert_that (slab_verify w node);
     Some node }"

definition get_object_mut :: "'h slab_heap_scheme \<Rightarrow> usize \<Rightarrow> usize option" where
  "get_object_mut h obj_addr = do {
     assert_that (obj_addr \<noteq> 0);
     Some (sh_next h obj_addr) }"

definition set_node :: "'h slab_heap_scheme \<Rightarrow> usize \<Rightarrow> slab_node \<Rightarrow> 'h slab_heap_scheme" where
  "set_node h a n = h\<lparr>sh_node := (sh_node h)(a := n)\<rparr>"

definition add_slab_to_tail :: "width \<Rightarrow> 'h slab_heap_scheme \<Rightarrow> usize \<Rightarrow> usize \<Rightarrow> ('h slab_heap_scheme \<times> usize) option" where
  "add_slab_to_tail w h list node_addr =
     (if node_addr = 0 then Some (h, list)
      else do {
        node \<leftarrow> get_slab_node_mut w h node_addr;
        if list = 0 then
          Some (set_node h node_addr (slab_checksum w (node\<lparr>sn_prev := node_addr, sn_next := node_addr\<rparr>)), node_addr)
        else do {
          head \<leftarrow> get_slab_node_mut w h list;
          let prev_addr = sn_prev head;
          prev \<leftarrow> get_slab_node_mut w h prev_addr;
          let h = set_node h node_addr (slab_checksum w ((sh_node h node_addr)\<lparr>sn_prev := sn_prev (sh_node h list), sn_next := list\<rparr>));
          let h = set_node h list (slab_checksum w ((sh_node h list)\<lparr>sn_prev := node_addr\<rparr>));
          let h = set_node h prev_addr (slab_checksum w ((sh_node h prev_addr)\<lparr>sn_next := node_addr\<rparr>));
          Some (h, list) } })"

definition remove_slab_from_list :: "width \<Rightarrow> 'h slab_heap_scheme \<Rightarrow> usize \<Rightarrow> usize \<Rightarrow> ('h slab_heap_scheme \<times> usize) option" where
  "remove_slab_from_list w h list node_addr =
     (if node_addr = 0 then Some (h, list)
      else do {
        node \<leftarrow> get_slab_node_mut w h node_addr;
        if sn_prev node = node_addr \<and> sn_next node = node_addr then
          Some (set_node h node_addr (slab_checksum w (node\<lparr>sn_prev := 0, sn_next := 0\<rparr>)), 0)
        else do {
          let next_addr = sn_next node;
          let prev_addr = sn_prev node;
          nxt \<leftarrow> get_slab_node_mut w h next_addr;
          prv \<leftarrow> get_slab_node_mut w h prev_addr;
          let h = set_node h next_addr (slab_checksum w ((sh_node h next_addr)\<lparr>sn_prev := sn_prev (sh_node h node_addr)\<rparr>));
          let h = set_node h prev_addr (slab_checksum w ((sh_node h prev_addr)\<lparr>sn_next := sn_next (sh_node h node_addr)\<rparr>));
          let h = set_node h node_addr (slab_checksum w ((sh_node h node_addr)\<lparr>sn_next := 0, sn_prev := 0\<rparr>));
          Some (h, if list = node_addr then sn_next (sh_node h prev_addr) else list) } })"

section \<open>Slabs\<close>

text \<open>The loop of \<open>alloc_slab\<close> that links the objects of a new slab into its free list.\<close>

fun link_objects :: "nat \<Rightarrow> width \<Rightarrow> usize \<Rightarrow> usize \<Rightarrow> 'h slab_heap_scheme \<Rightarrow> usize \<Rightarrow> 'h slab_heap_scheme option" where
  "link_objects 0 w obj_size node_addr h obj_addr = Some h"
| "link_objects (Suc n) w obj_size node_addr h obj_addr = do {
     wrapper \<leftarrow> get_object_mut h obj_addr;
     let h = h\<lparr>sh_next := (sh_next h)(obj_addr := sn_free (sh_node h node_addr))\<rparr>;
     let h = set_node h node_addr ((sh_node h node_addr)\<lparr>sn_free := obj_addr\<rparr>);
     obj_addr \<leftarrow> uadd w obj_addr obj_size;
     link_objects n w obj_size node_addr h obj_addr }"

type_synonym 'a page_alloc = "'a \<Rightarrow> usize \<Rightarrow> ('a \<times> block option) option"
type_synonym 'a page_free = "'a \<Rightarrow> usize \<Rightarrow> usize \<Rightarrow> 'a option"

definition alloc_slab ::
  "width \<Rightarrow> usize \<Rightarrow> 'a page_alloc \<Rightarrow> 'a \<Rightarrow> slab_manager \<Rightarrow> 'h slab_heap_scheme \<Rightarrow> (('a \<times> slab_manager \<times> 'h slab_heap_scheme) \<times> usize option) option" where
  "alloc_slab w virt_base pg_alloc a sm h = do {
     (a, r) \<leftarrow> pg_alloc a (sm_slab_pages sm);
     case r of
       None \<Rightarrow> Some ((a, sm, h), None)
     | Some (phys_addr, _) \<Rightarrow> do {
         slab_size \<leftarrow> umul w (sm_slab_pages sm) page_size;
         virt_addr \<leftarrow> uadd w phys_addr virt_base;
         t \<leftarrow> uadd w virt_addr slab_size;
         node_addr \<leftarrow> usub t (slab_node_size w);
         node \<leftarrow> get_slab_node_unchecked_mut h node_addr;
         let h = set_node h node_addr (node\<lparr>sn_avail := sm_objs_per_slab sm, sn_free := 0, sn_prev := 0, sn_next := 0\<rparr>);
         h \<leftarrow> link_objects (sm_objs_per_slab sm) w (sm_obj_size sm) node_addr h virt_addr;
         let h = set_node h node_addr (slab_checksum w (sh_node h node_addr));
         slabs \<leftarrow> uadd w (sm_slabs_allocated sm) 1;
         avail \<leftarrow> uadd w (sm_objects_available sm) (sm_objs_per_slab sm);
         Some ((a, sm\<lparr>sm_slabs_allocated := slabs, sm_objects_available := avail\<rparr>, h), Some node_addr) } }"

text \<open>
  The parts of \<open>SlabManager::alloc\<close>: an unused slab goes to the in-use list; a new slab is
  allocated when there is still none; an object is taken from the first in-use slab.
\<close>

definition reuse_slab :: "width \<Rightarrow> slab_manager \<Rightarrow> 'h slab_heap_scheme \<Rightarrow> (slab_manager \<times> 'h slab_heap_scheme) option" where
  "reuse_slab w sm h =
     (if sm_in_use sm = 0 \<and> sm_unused sm \<noteq> 0 then do {
        let tmp_addr = sm_unused sm;
        (h, unused) \<leftarrow> remove_slab_from_list w h (sm_unused sm) tmp_addr;
        (h, in_use) \<leftarrow> add_slab_to_tail w h (sm_in_use sm) tmp_addr;
        Some (sm\<lparr>sm_unused := unused, sm_in_use := in_use\<rparr>, h) }
      else Some (sm, h))"

definition grow_slabs ::
  "width \<Rightarrow> usize \<Rightarrow> 'a page_alloc \<Rightarrow> 'a \<Rightarrow> slab_manager \<Rightarrow> 'h slab_heap_scheme \<Rightarrow> ('a \<times> slab_manager \<times> 'h slab_heap_scheme) option" where
  "grow_slabs w virt_base pg_alloc a sm h =
     (if sm_in_use sm = 0 then do {
        ((a, sm, h), r) \<leftarrow> alloc_slab w virt_base pg_alloc a sm h;
        let tmp_addr = (case r of None \<Rightarrow> 0 | Some x \<Rightarrow> x);
        (h, in_use) \<leftarrow> add_slab_to_tail w h (sm_in_use sm) tmp_addr;
        Some (a, sm\<lparr>sm_in_use := in_use\<rparr>, h) }
      else Some (a, sm, h))"

definition take_object ::
  "width \<Rightarrow> slab_manager \<Rightarrow> 'h slab_heap_scheme \<Rightarrow> ((slab_manager \<times> 'h slab_heap_scheme) \<times> usize option) option" where
  "take_object w sm h =
     (if sm_in_use sm = 0 then Some ((sm, h), None)
      else do {
        let node_addr = sm_in_use sm;
        node \<leftarrow> get_slab_node_mut w h node_addr;
        assert_that (sn_free node \<noteq> 0);
        assert_that (sn_avail node > 0);
        let obj_addr = sn_free node;
        obj_next \<leftarrow> get_object_mut h obj_addr;
        avail \<leftarrow> usub (sn_avail node) 1;
        let h = set_node h node_addr (slab_checksum w (node\<lparr>sn_avail := avail, sn_free := obj_next\<rparr>));
        let h = h\<lparr>sh_next := (sh_next h)(obj_addr := POISON w)\<rparr>;
        (sm, h) \<leftarrow>
          (if sn_avail (sh_node h node_addr) = 0 then do {
             let tmp_addr = sm_in_use sm;
             (h, in_use) \<leftarrow> remove_slab_from_list w h (sm_in_use sm) tmp_addr;
             (h, empty) \<leftarrow> add_slab_to_tail w h (sm_empty sm) tmp_addr;
             Some (sm\<lparr>sm_in_use := in_use, sm_empty := empty\<rparr>, h) }
           else Some (sm, h));
        allocated \<leftarrow> uadd w (sm_objects_allocated sm) 1;
        available \<leftarrow> usub (sm_objects_available sm) 1;
        Some ((sm\<lparr>sm_objects_allocated := allocated, sm_objects_available := available\<rparr>, h), Some obj_addr) })"

definition sm_alloc ::
  "width \<Rightarrow> usize \<Rightarrow> 'a page_alloc \<Rightarrow> 'a \<Rightarrow> slab_manager \<Rightarrow> 'h slab_heap_scheme \<Rightarrow> (('a \<times> slab_manager \<times> 'h slab_heap_scheme) \<times> usize option) option" where
  "sm_alloc w virt_base pg_alloc a sm h = do {
     (sm, h) \<leftarrow> reuse_slab w sm h;
     (a, sm, h) \<leftarrow> grow_slabs w virt_base pg_alloc a sm h;
     ((sm, h), r) \<leftarrow> take_object w sm h;
     Some ((a, sm, h), r) }"

definition slab_node_addr :: "width \<Rightarrow> slab_manager \<Rightarrow> usize \<Rightarrow> usize option" where
  "slab_node_addr w sm obj_addr = do {
     slab_size \<leftarrow> ushl w (sm_slab_pages sm) page_shift;
     slab_addr \<leftarrow> align_down w obj_addr slab_size;
     t \<leftarrow> uadd w slab_addr slab_size;
     usub t (slab_node_size w) }"

text \<open>
  The parts of \<open>SlabManager::free\<close>: the slab leaves the empty list; the object goes back to the slab's
  free list; a slab whose objects are all free goes to the unused list.
\<close>

definition refill_slab :: "width \<Rightarrow> slab_manager \<Rightarrow> 'h slab_heap_scheme \<Rightarrow> usize \<Rightarrow> (slab_manager \<times> 'h slab_heap_scheme) option" where
  "refill_slab w sm h node_addr =
     (if sn_avail (sh_node h node_addr) = 0 then do {
        (h, empty) \<leftarrow> remove_slab_from_list w h (sm_empty sm) node_addr;
        (h, in_use) \<leftarrow> add_slab_to_tail w h (sm_in_use sm) node_addr;
        Some (sm\<lparr>sm_empty := empty, sm_in_use := in_use\<rparr>, h) }
      else Some (sm, h))"

definition put_object :: "width \<Rightarrow> 'h slab_heap_scheme \<Rightarrow> usize \<Rightarrow> usize \<Rightarrow> 'h slab_heap_scheme option" where
  "put_object w h node_addr obj_addr = do {
     obj_next \<leftarrow> get_object_mut h obj_addr;
     assert_that (obj_next = POISON w);
     let h = h\<lparr>sh_next := (sh_next h)(obj_addr := sn_free (sh_node h node_addr))\<rparr>;
     avail \<leftarrow> uadd w (sn_avail (sh_node h node_addr)) 1;
     Some (set_node h node_addr (slab_checksum w ((sh_node h node_addr)\<lparr>sn_avail := avail, sn_free := obj_addr\<rparr>))) }"

definition retire_slab :: "width \<Rightarrow> slab_manager \<Rightarrow> 'h slab_heap_scheme \<Rightarrow> usize \<Rightarrow> (slab_manager \<times> 'h slab_heap_scheme) option" where
  "retire_slab w sm h node_addr =
     (if sn_avail (sh_node h node_addr) = sm_objs_per_slab sm then do {
        (h, in_use) \<leftarrow> remove_slab_from_list w h (sm_in_use sm) node_addr;
        (h, unused) \<leftarrow> add_slab_to_tail w h (sm_unused sm) node_addr;
        Some (sm\<lparr>sm_in_use := in_use, sm_unused := unused\<rparr>, h) }
      else Some (sm, h))"

definition sm_free :: "width \<Rightarrow> slab_manager \<Rightarrow> 'h slab_heap_scheme \<Rightarrow> usize \<Rightarrow> (slab_manager \<times> 'h slab_heap_scheme) option" where
  "sm_free w sm h obj_addr =
     (if obj_addr = 0 then Some (sm, h)
      else do {
        node_addr \<leftarrow> slab_node_addr w sm obj_addr;
        node \<leftarrow> get_slab_node_mut w h node_addr;
        assert_that (sn_avail node < sm_objs_per_slab sm);
        (sm, h) \<leftarrow> refill_slab w sm h node_addr;
        h \<leftarrow> put_object w h node_addr obj_addr;
        (sm, h) \<leftarrow> retire_slab w sm h node_addr;
        allocated \<leftarrow> usub (sm_objects_allocated sm) 1;
        available \<leftarrow> uadd w (sm_objects_available sm) 1;
        Some (sm\<lparr>sm_objects_allocated := allocated, sm_objects_available := available\<rparr>, h) })"

definition poison_node :: "width \<Rightarrow> slab_node" where
  "poison_node w = \<lparr>sn_avail = POISON w, sn_free = POISON w, sn_prev = POISON w, sn_next = POISON w, sn_checksum = POISON w\<rparr>"

text \<open>The loop ends because every round takes one from \<open>slabs_allocated\<close>, with an underflow check.\<close>

function free_unused_loop ::
  "width \<Rightarrow> usize \<Rightarrow> usize \<Rightarrow> 'a page_free \<Rightarrow> 'a \<Rightarrow> slab_manager \<Rightarrow> 'h slab_heap_scheme \<Rightarrow> usize \<Rightarrow> ('a \<times> slab_manager \<times> 'h slab_heap_scheme) option" where
  "free_unused_loop w virt_base slab_size pg_free a sm h node_addr =
     (case get_slab_node_mut w h node_addr of
        None \<Rightarrow> None
      | Some node \<Rightarrow> do {
          let next_addr = sn_next node;
          let h = set_node h node_addr (poison_node w);
          slab_addr \<leftarrow> align_down w next_addr slab_size;
          phys \<leftarrow> usub slab_addr virt_base;
          a \<leftarrow> pg_free a phys (sm_slab_pages sm);
          slabs \<leftarrow> usub (sm_slabs_allocated sm) 1;
          available \<leftarrow> usub (sm_objects_available sm) (sm_objs_per_slab sm);
          let sm' = sm\<lparr>sm_slabs_allocated := slabs, sm_objects_available := available\<rparr>;
          if next_addr = sm_unused sm then Some (a, sm', h)
          else free_unused_loop w virt_base slab_size pg_free a sm' h next_addr })"
  by pat_completeness auto
termination
  by (relation "measure (\<lambda>(_, _, _, _, _, sm, _, _). sm_slabs_allocated sm)") (auto simp: usub_Some_iff)

declare free_unused_loop.simps [simp del]

definition free_unused ::
  "width \<Rightarrow> usize \<Rightarrow> 'a page_free \<Rightarrow> 'a \<Rightarrow> slab_manager \<Rightarrow> 'h slab_heap_scheme \<Rightarrow> ('a \<times> slab_manager \<times> 'h slab_heap_scheme) option" where
  "free_unused w virt_base pg_free a sm h = do {
     slab_size \<leftarrow> ushl w (sm_slab_pages sm) page_shift;
     (a, sm, h) \<leftarrow> free_unused_loop w virt_base slab_size pg_free a sm h (sm_unused sm);
     Some (a, sm\<lparr>sm_unused := 0\<rparr>, h) }"

definition get_pages_per_slab :: "slab_manager \<Rightarrow> usize" where
  "get_pages_per_slab sm = sm_slab_pages sm"

definition get_objects_per_slab :: "slab_manager \<Rightarrow> usize" where
  "get_objects_per_slab sm = sm_objs_per_slab sm"

definition get_slabs_allocated :: "slab_manager \<Rightarrow> usize" where
  "get_slabs_allocated sm = sm_slabs_allocated sm"

definition get_objects_allocated :: "slab_manager \<Rightarrow> usize" where
  "get_objects_allocated sm = sm_objects_allocated sm"

definition get_objects_available :: "slab_manager \<Rightarrow> usize" where
  "get_objects_available sm = sm_objects_available sm"

end
