(* ===== verification/Slab_Lists.thy ===== *)
theory Slab_Lists
  imports Slabs
begin

text \<open>
  The circular lists of slabs. A node's links, seen without its counters, are a node of the page
  allocator's rings, so the lemmas on those rings apply to the slab lists.
\<close>

definition links :: "width \<Rightarrow> (usize \<Rightarrow> slab_node) \<Rightarrow> usize \<Rightarrow> block_node" where
  "links w m a = block_node_new w (sn_next (m a)) (sn_prev (m a))"

definition node_ok :: "width \<Rightarrow> (usize \<Rightarrow> slab_node) \<Rightarrow> usize \<Rightarrow> bool" where
  "node_ok w m a \<longleftrightarrow> a \<noteq> 0 \<and> slab_verify w (m a)"

definition slab_list :: "width \<Rightarrow> (usize \<Rightarrow> slab_node) \<Rightarrow> usize \<Rightarrow> usize list \<Rightarrow> bool" where
  "slab_list w m head xs \<longleftrightarrow> head = (if xs = [] then 0 else hd xs) \<and> distinct xs \<and> (\<forall>a\<in>set xs. node_ok w m a) \<and> ring w (links w m) xs"

text \<open>List operations change links only: the counters of every node stay.\<close>

definition same_counts :: "(usize \<Rightarrow> slab_node) \<Rightarrow> (usize \<Rightarrow> slab_node) \<Rightarrow> bool" where
  "same_counts m m' \<longleftrightarrow> (\<forall>a. sn_avail (m' a) = sn_avail (m a) \<and> sn_free (m' a) = sn_free (m a))"

lemma slab_checksum_simps [simp]:
  "sn_avail (slab_checksum w n) = sn_avail n" "sn_free (slab_checksum w n) = sn_free n"
  "sn_prev (slab_checksum w n) = sn_prev n" "sn_next (slab_checksum w n) = sn_next n" "slab_verify w (slab_checksum w n)"
  by (simp_all add: slab_checksum_def slab_verify_def)

lemma links_upd: "links w (m(a := n)) = (links w m)(a := block_node_new w (sn_next n) (sn_prev n))"
  by (simp add: links_def fun_eq_iff)

lemma links_prev: "update_checksum w ((links w m a)\<lparr>bn_prev := p\<rparr>) = block_node_new w (sn_next (m a)) p"
  by (simp add: links_def update_checksum_eq)

lemma links_next: "update_checksum w ((links w m a)\<lparr>bn_next := q\<rparr>) = block_node_new w q (sn_prev (m a))"
  by (simp add: links_def update_checksum_eq)

lemma node_new_inject: "block_node_new w a b = block_node_new w c d \<longleftrightarrow> a = c \<and> b = d"
  by (metis node_new_simps(1,2))

lemma node_ok_get: "node_ok w (sh_node h) a \<Longrightarrow> get_slab_node_mut w h a = Some (sh_node h a)"
  by (simp add: node_ok_def get_slab_node_mut_def get_slab_node_unchecked_mut_def)

lemma node_ok_upd: "node_ok w m b \<Longrightarrow> node_ok w (m(a := slab_checksum w n)) b"
  by (simp add: node_ok_def)

lemma same_counts_refl [simp]: "same_counts m m"
  by (simp add: same_counts_def)

lemma same_counts_upd: "same_counts m m' \<Longrightarrow> sn_avail n = sn_avail (m' a) \<Longrightarrow> sn_free n = sn_free (m' a) \<Longrightarrow> same_counts m (m'(a := n))"
  by (simp add: same_counts_def)

lemma same_counts_trans: "same_counts m m' \<Longrightarrow> same_counts m' m'' \<Longrightarrow> same_counts m m''"
  by (simp add: same_counts_def)

lemma set_node_eq: "set_node h a n = h\<lparr>sh_node := (sh_node h)(a := n)\<rparr>"
  by (simp add: set_node_def)

lemma add_slab_ok:
  assumes "slab_list w (sh_node h) head xs" "a \<notin> set xs" "node_ok w (sh_node h) a"
  shows "\<exists>m. add_slab_to_tail w h head a = Some (h\<lparr>sh_node := m\<rparr>, hd (xs @ [a])) \<and> slab_list w m (hd (xs @ [a])) (xs @ [a])
    \<and> same_counts (sh_node h) m \<and> (\<forall>b. b \<notin> set (xs @ [a]) \<longrightarrow> m b = sh_node h b)"
proof (cases "xs = []")
  case True
  let ?m = "(sh_node h)(a := slab_checksum w ((sh_node h a)\<lparr>sn_prev := a, sn_next := a\<rparr>))"
  have "add_slab_to_tail w h head a = Some (h\<lparr>sh_node := ?m\<rparr>, a)"
    using True assms(1,3) node_ok_get [OF assms(3)] by (simp add: add_slab_to_tail_def slab_list_def node_ok_def set_node_eq)
  moreover have "slab_list w ?m a [a]" using assms(3) ring_single [of w "links w (sh_node h)" a]
    by (simp add: slab_list_def node_ok_def links_upd)
  moreover have "same_counts (sh_node h) ?m" by (intro same_counts_upd) simp_all
  ultimately show ?thesis using True by (intro exI [of _ ?m]) simp
next
  case False
  let ?m = "sh_node h" and ?p = "last xs"
  have L: "head = hd xs" "distinct xs" "\<forall>a\<in>set xs. node_ok w ?m a" "ring w (links w ?m) xs"
    using assms(1) False by (simp_all add: slab_list_def)
  have hl: "hd xs \<in> set xs" "?p \<in> set xs" using False by simp_all
  have ne: "hd xs \<noteq> a" "?p \<noteq> a" "hd xs \<noteq> 0" using hl assms(2) L(3) by (auto simp: node_ok_def)
  have prev: "sn_prev (?m (hd xs)) = ?p"
    using ring_nodes(1) [OF L(4) False] by (simp add: links_def node_new_inject)
  define m1 where "m1 = ?m(a := slab_checksum w ((?m a)\<lparr>sn_prev := ?p, sn_next := hd xs\<rparr>))"
  define m2 where "m2 = m1(hd xs := slab_checksum w ((m1 (hd xs))\<lparr>sn_prev := a\<rparr>))"
  define m3 where "m3 = m2(?p := slab_checksum w ((m2 ?p)\<lparr>sn_next := a\<rparr>))"
  note ms = m1_def m2_def m3_def
  have "add_slab_to_tail w h head a = Some (h\<lparr>sh_node := m3\<rparr>, hd xs)"
    using False L(1,3) ne assms(3) prev node_ok_get [OF assms(3)] hl
    by (simp add: add_slab_to_tail_def node_ok_get set_node_eq ms node_ok_def [of _ _ a] Let_def)
  moreover have "ring w (links w m3) (xs @ [a])"
  proof -
    have "links w m3 = ((links w m2)(?p := update_checksum w ((links w m2 ?p)\<lparr>bn_next := a\<rparr>)))"
      by (simp add: m3_def links_upd links_next)
    moreover have "links w m2 = (links w m1)(hd xs := update_checksum w ((links w m1 (hd xs))\<lparr>bn_prev := a\<rparr>))"
      by (simp add: m2_def links_upd links_prev)
    moreover have "links w m1 = (links w ?m)(a := block_node_new w (hd xs) ?p)" by (simp add: m1_def links_upd)
    ultimately show ?thesis using ring_append(1) [OF L(4) False, of a] L(2) assms(2) by simp
  qed
  moreover have "\<forall>b\<in>set (xs @ [a]). node_ok w m3 b"
    using L(3) assms(3) by (auto simp: ms intro!: node_ok_upd)
  moreover have "same_counts ?m m3" unfolding ms by (intro same_counts_upd) simp_all
  moreover have "\<forall>b. b \<notin> set (xs @ [a]) \<longrightarrow> m3 b = ?m b" using hl by (auto simp: ms)
  ultimately show ?thesis using False L(2) assms(2) by (intro exI [of _ m3]) (simp add: slab_list_def)
qed

lemma remove_slab_ok:
  assumes "slab_list w (sh_node h) head xs" "a \<in> set xs"
  defines "ys \<equiv> remove1 a xs"
  defines "head' \<equiv> (if ys = [] then 0 else hd ys)"
  shows "\<exists>m. remove_slab_from_list w h head a = Some (h\<lparr>sh_node := m\<rparr>, head') \<and> slab_list w m head' ys
    \<and> node_ok w m a \<and> same_counts (sh_node h) m \<and> (\<forall>b. b \<notin> set xs \<longrightarrow> m b = sh_node h b)"
proof -
  let ?m = "sh_node h"
  have L: "head = hd xs" "distinct xs" "\<forall>a\<in>set xs. node_ok w ?m a" "ring w (links w ?m) xs"
    using assms(1,2) by (auto simp: slab_list_def)
  have a: "node_ok w ?m a" "a \<noteq> 0" using L(3) assms(2) by (auto simp: node_ok_def)
  obtain bs cs where split: "xs = bs @ a # cs" "a \<notin> set bs" "a \<notin> set cs"
    using split_list [OF assms(2)] L(2) by fastforce
  have ys: "ys = bs @ cs" using split by (simp add: ys_def remove1_append)
  show ?thesis
  proof (cases "ys = []")
    case True
    then have xs: "xs = [a]" using split ys by simp
    let ?n = "?m(a := slab_checksum w ((?m a)\<lparr>sn_prev := 0, sn_next := 0\<rparr>))"
    have "sn_prev (?m a) = a" "sn_next (?m a) = a" using L(4) xs by (simp_all add: ring_def links_def node_new_inject)
    then have "remove_slab_from_list w h head a = Some (h\<lparr>sh_node := ?n\<rparr>, 0)"
      using a node_ok_get [OF a(1)] by (simp add: remove_slab_from_list_def set_node_eq)
    moreover have "same_counts ?m ?n" by (intro same_counts_upd) simp_all
    ultimately show ?thesis using True xs a(2)
      by (intro exI [of _ ?n]) (simp add: head'_def slab_list_def ring_def node_ok_def)
  next
    case False
    let ?zs = "cs @ bs"
    have zs: "?zs \<noteq> []" "hd ?zs \<in> set xs" "last ?zs \<in> set xs" using False split(1) ys by (auto simp: hd_append last_append)
    have rb: "ring w (links w ?m) (?zs @ [a])"
      using ring_rotate1 [OF ring_rotate [of w "links w ?m" bs "a # cs", simplified]] L(4) split(1) by simp
    have dz: "distinct (?zs @ [a])" using L(2) split by auto
    have nb: "sn_next (?m a) = hd ?zs" "sn_prev (?m a) = last ?zs"
      using ring_links [of w "links w ?m" bs a cs] L(4) split(1) False ys by (auto simp: links_def node_new_inject)
    have neq: "hd ?zs \<noteq> a" "last ?zs \<noteq> a" using dz zs(1) hd_in_set [OF zs(1)] last_in_set [OF zs(1)] by auto
    define m1 where "m1 = ?m(hd ?zs := slab_checksum w ((?m (hd ?zs))\<lparr>sn_prev := last ?zs\<rparr>))"
    define m2 where "m2 = m1(last ?zs := slab_checksum w ((m1 (last ?zs))\<lparr>sn_next := hd ?zs\<rparr>))"
    define m3 where "m3 = m2(a := slab_checksum w ((m2 a)\<lparr>sn_next := 0, sn_prev := 0\<rparr>))"
    note ms = m1_def m2_def m3_def
    have "sn_next (m3 (last ?zs)) = hd ?zs" using neq by (simp add: ms)
    then have "remove_slab_from_list w h head a = Some (h\<lparr>sh_node := m3\<rparr>, if head = a then hd ?zs else head)"
      using a nb neq zs L(3) node_ok_get [OF a(1)]
      by (simp add: remove_slab_from_list_def node_ok_get set_node_eq ms Let_def)
    moreover have "(if head = a then hd ?zs else head) = head'"
      using split L(1) False ys by (cases bs) (auto simp: head'_def)
    moreover have "ring w (links w m3) ys"
    proof -
      have "links w m3 = ((links w m2)(a := block_node_new w 0 0))" by (simp add: m3_def links_upd)
      moreover have "links w m2 = (links w m1)(last ?zs := update_checksum w ((links w m1 (last ?zs))\<lparr>bn_next := hd ?zs\<rparr>))"
        by (simp add: m2_def links_upd links_next)
      moreover have "links w m1 = (links w ?m)(hd ?zs := update_checksum w ((links w ?m (hd ?zs))\<lparr>bn_prev := last ?zs\<rparr>))"
        by (simp add: m1_def links_upd links_prev)
      ultimately have "ring w (links w m3) ?zs" using ring_drop_last(1) [OF rb zs(1) dz] by simp
      then show ?thesis using ring_rotate ys by blast
    qed
    moreover have "node_ok w m3 b" if "b \<in> set xs" for b
      using L(3) that by (auto simp: ms intro!: node_ok_upd)
    moreover have "same_counts ?m m3" unfolding ms by (intro same_counts_upd) simp_all
    moreover have "\<forall>b. b \<notin> set xs \<longrightarrow> m3 b = ?m b" using zs split(1) by (auto simp: ms)
    moreover have "set ys \<subseteq> set xs" "distinct ys" using L(2) by (auto simp: ys_def dest: notin_set_remove1)
    ultimately show ?thesis using assms(2) by (intro exI [of _ m3]) (auto simp: slab_list_def head'_def)
  qed
qed

end
