(* ===== verification/Slab_Runs.thy ===== *)
theory Slab_Runs
  imports Slab_Lists
begin

text \<open>
  Runs of the slab layer. The abstract state of a slab manager is the three lists of slab nodes and, for
  every node, the list of its free objects; the live objects are the slots of the slabs that are on no free list.
\<close>

section \<open>The shape of a slab\<close>

text \<open>The size of a slab, the number of its objects and the size of an object's wrapper.\<close>

type_synonym slab_shape = "nat \<times> nat \<times> nat"

definition shape_of :: "slab_manager \<Rightarrow> slab_shape" where
  "shape_of sm = (sm_slab_pages sm * page_size, sm_objs_per_slab sm, sm_obj_size sm)"

fun shape_ok :: "width \<Rightarrow> slab_shape \<Rightarrow> bool" where
  "shape_ok w (S, n, z) \<longleftrightarrow> 0 < n \<and> 0 < z \<and> n * z + slab_node_size w \<le> S \<and> S < usize_lim w \<and> (\<exists>k. S = 2 ^ k)"

fun node_at :: "width \<Rightarrow> slab_shape \<Rightarrow> nat \<Rightarrow> usize" where
  "node_at w (S, n, z) b = b + S - slab_node_size w"

fun base_ok :: "width \<Rightarrow> slab_shape \<Rightarrow> nat \<Rightarrow> bool" where
  "base_ok w (S, n, z) b \<longleftrightarrow> 0 < b \<and> S dvd b \<and> b + S < usize_lim w"

fun slot_list :: "slab_shape \<Rightarrow> nat \<Rightarrow> usize list" where
  "slot_list (S, n, z) b = map (\<lambda>i. b + i * z) [0..<n]"

lemma slab_node_size_eq: "slab_node_size W32 = 20" "slab_node_size W64 = 40" "0 < slab_node_size w"
  by (simp_all add: slab_node_size_def) (cases w; simp)

lemma slab_manager_new_ok:
  assumes "slab_manager_new w max_pages z = Some sm"
  shows "shape_ok w (shape_of sm)" "sm_slab_pages sm \<le> max_pages" "\<exists>k. sm_slab_pages sm = 2 ^ k"
    "MIN_OBJECTS_PER_SLAB \<le> sm_objs_per_slab sm" "sm_obj_size sm = z"
    "sm_unused sm = 0 \<and> sm_in_use sm = 0 \<and> sm_empty sm = 0"
    "sm_slabs_allocated sm = 0 \<and> sm_objects_allocated sm = 0 \<and> sm_objects_available sm = 0"
proof -
  let ?N = "slab_node_size w" and ?q = "(z * MIN_OBJECTS_PER_SLAB + slab_node_size w + page_size - 1) div page_size"
  from assms obtain lg where lg: "ceil_log2 w ?q = Some lg" "ushl w 1 lg = Some (sm_slab_pages sm)" "sm_slab_pages sm \<le> max_pages"
      and lim: "z * MIN_OBJECTS_PER_SLAB + ?N + page_size < usize_lim w" "sm_slab_pages sm * page_size < usize_lim w"
      and objs: "sm_objs_per_slab sm = (sm_slab_pages sm * page_size - ?N) div z" "0 < sm_objs_per_slab sm" "0 < z" "?N \<le> sm_slab_pages sm * page_size"
      and rest: "sm_obj_size sm = z" "sm_unused sm = 0 \<and> sm_in_use sm = 0 \<and> sm_empty sm = 0"
        "sm_slabs_allocated sm = 0 \<and> sm_objects_allocated sm = 0 \<and> sm_objects_available sm = 0"
    by (auto simp: slab_manager_new_def panic_simps bind_eq_Some_conv Let_def simp del: One_nat_def)
  have q: "?q < usize_lim w" by (rule le_less_trans [OF div_le_dividend]) (use lim in linarith)
  then have lgv: "lg = clog2 ?q" using lg(1) ceil_log2_correct by simp
  have lw: "lg < word_bits w" using lg(2) by (auto simp: ushl_def split: if_splits)
  then have pages: "sm_slab_pages sm = 2 ^ lg" using lg(2) by simp
  have "z * MIN_OBJECTS_PER_SLAB + ?N \<le> ?q * page_size"
  proof -
    let ?x = "z * MIN_OBJECTS_PER_SLAB + ?N"
    have "x \<le> (x + p - 1) div p * p" if "0 < p" for x p :: nat
    proof -
      have "(x + p - 1) = (x + p - 1) div p * p + (x + p - 1) mod p" by simp
      moreover have "(x + p - 1) mod p < p" using that by simp
      ultimately show ?thesis by linarith
    qed
    from this [of page_size ?x] show ?thesis by simp
  qed
  also have "\<dots> \<le> sm_slab_pages sm * page_size"
    unfolding pages lgv by (rule mult_le_mono1 [OF clog2_ge])
  finally have room: "MIN_OBJECTS_PER_SLAB * z \<le> sm_slab_pages sm * page_size - ?N" by (simp add: mult.commute)
  have "sm_objs_per_slab sm * z + ?N \<le> sm_slab_pages sm * page_size"
    unfolding objs(1) using objs(4) div_times_less_eq_dividend [of "sm_slab_pages sm * page_size - ?N" z] by linarith
  moreover have "sm_slab_pages sm * page_size = 2 ^ (lg + page_shift)" by (simp add: pages page_size_exp power_add)
  ultimately show "shape_ok w (shape_of sm)"
    using objs(2,3) lim(2) rest(1) by (auto simp: shape_of_def)
  show "MIN_OBJECTS_PER_SLAB \<le> sm_objs_per_slab sm"
    using div_le_mono [OF room, of z] objs(1,3) by simp
  show "sm_slab_pages sm \<le> max_pages" "\<exists>k. sm_slab_pages sm = 2 ^ k" "sm_obj_size sm = z"
    "sm_unused sm = 0 \<and> sm_in_use sm = 0 \<and> sm_empty sm = 0"
    "sm_slabs_allocated sm = 0 \<and> sm_objects_allocated sm = 0 \<and> sm_objects_available sm = 0"
    using lg(3) pages rest by auto
qed

text \<open>The slab that an object belongs to is found by aligning its address down.\<close>

lemma slot_bounds:
  assumes "shape_ok w (S, n, z)" "x \<in> set (slot_list (S, n, z) b)"
  shows "b \<le> x" "x + z + slab_node_size w \<le> b + S"
proof -
  from assms obtain i where i: "i < n" "x = b + i * z" by auto
  then have "Suc i * z \<le> n * z" by (intro mult_le_mono1) simp
  with assms i show "b \<le> x" "x + z + slab_node_size w \<le> b + S" by auto
qed

lemma slot_div:
  assumes "shape_ok w (S, n, z)" "S dvd b" "x \<in> set (slot_list (S, n, z) b)"
  shows "x div S * S = b"
proof -
  have x: "b \<le> x" "x < b + S" using slot_bounds [OF assms(1,3)] assms(1) by auto
  obtain q where q: "b = S * q" using assms(2) by blast
  have "(S * q + (x - b)) div S = q" using x by (subst div_mult_self4) auto
  with x(1) q show ?thesis by simp
qed

lemma slab_node_addr_slot:
  assumes "shape_ok w (shape_of sm)" "base_ok w (shape_of sm) b" "x \<in> set (slot_list (shape_of sm) b)"
  shows "slab_node_addr w sm x = Some (node_at w (shape_of sm) b)"
proof -
  let ?S = "sm_slab_pages sm * page_size"
  obtain k where k: "?S = 2 ^ k" using assms(1) by (auto simp: shape_of_def)
  have lim: "?S < usize_lim w" "slab_node_size w \<le> ?S" using assms(1) by (auto simp: shape_of_def)
  have kw: "k < word_bits w" using lim(1) k by simp
  have "x < usize_lim w" using slot_bounds [OF assms(1) [unfolded shape_of_def] assms(3) [unfolded shape_of_def]] assms(2)
    by (simp add: shape_of_def)
  then have "align_down w x ?S = Some b"
    using align_down_eq [OF _ kw, of x] slot_div [OF assms(1) [unfolded shape_of_def] _ assms(3) [unfolded shape_of_def]] assms(2) k
    by (simp add: shape_of_def)
  moreover have "ushl w (sm_slab_pages sm) page_shift = Some ?S"
    using lim(1) ushl_ok [OF page_shift_less, of "sm_slab_pages sm" w] by (simp add: page_size_exp)
  ultimately show ?thesis using lim(2) assms(2) by (simp add: slab_node_addr_def shape_of_def)
qed

lemma slots_disjoint:
  assumes "shape_ok w g" "base_ok w g b" "base_ok w g c" "x \<in> set (slot_list g b)" "x \<in> set (slot_list g c)"
  shows "b = c"
proof (cases g)
  case (fields S n z)
  with assms slot_div [of w S n z b x] slot_div [of w S n z c x] show ?thesis by simp
qed

lemma node_at_inject:
  assumes "shape_ok w g" "node_at w g b = node_at w g c"
  shows "b = c"
  using assms by (cases g) auto

lemma distinct_slots: "shape_ok w g \<Longrightarrow> distinct (slot_list g b)"
  by (cases g) (auto simp: distinct_map inj_on_def)

lemma length_slots: "length (slot_list g b) = fst (snd g)"
  by (cases g) simp


section \<open>The objects of a slab\<close>

fun chain :: "(usize \<Rightarrow> usize) \<Rightarrow> usize \<Rightarrow> usize list \<Rightarrow> bool" where
  "chain nx a [] \<longleftrightarrow> a = 0"
| "chain nx a (x # xs) \<longleftrightarrow> a = x \<and> x \<noteq> 0 \<and> chain nx (nx x) xs"

definition node_inv :: "width \<Rightarrow> slab_shape \<Rightarrow> (usize \<Rightarrow> slab_node) \<Rightarrow> (usize \<Rightarrow> usize) \<Rightarrow> nat \<Rightarrow> usize list \<Rightarrow> bool" where
  "node_inv w g m nx b fs \<longleftrightarrow> base_ok w g b \<and> sn_avail (m (node_at w g b)) = length fs \<and> chain nx (sn_free (m (node_at w g b))) fs
     \<and> distinct fs \<and> set fs \<subseteq> set (slot_list g b) \<and> (\<forall>x\<in>set (slot_list g b) - set fs. nx x = POISON w)"

lemma chain_cong: "(\<And>x. x \<in> set xs \<Longrightarrow> nx' x = nx x) \<Longrightarrow> chain nx' a xs \<longleftrightarrow> chain nx a xs"
  by (induction xs arbitrary: a) auto

lemma chain_upd [simp]: "x \<notin> set xs \<Longrightarrow> chain (nx(x := v)) a xs \<longleftrightarrow> chain nx a xs"
  by (rule chain_cong) auto

lemma node_inv_cong:
  assumes "node_inv w g m nx b fs" "\<And>x. x \<in> set (slot_list g b) \<Longrightarrow> nx' x = nx x"
    "sn_avail (m' (node_at w g b)) = sn_avail (m (node_at w g b))" "sn_free (m' (node_at w g b)) = sn_free (m (node_at w g b))"
  shows "node_inv w g m' nx' b fs"
proof -
  have "chain nx' a fs = chain nx a fs" for a
    by (rule chain_cong) (use assms(1,2) in \<open>auto simp: node_inv_def\<close>)
  with assms show ?thesis by (auto simp: node_inv_def)
qed

lemma node_inv_counts: "node_inv w g m nx b fs \<Longrightarrow> same_counts m m' \<Longrightarrow> node_inv w g m' nx b fs"
  by (rule node_inv_cong) (auto simp: same_counts_def)

lemma nodes_counts: "\<forall>c\<in>N. node_inv w g m nx c (F c) \<Longrightarrow> same_counts m m' \<Longrightarrow> \<forall>c\<in>N. node_inv w g m' nx c (F c)"
  using node_inv_counts by blast

lemma node_inv_length:
  assumes "shape_ok w g" "node_inv w g m nx b fs"
  shows "length fs \<le> fst (snd g)" "length fs = fst (snd g) \<Longrightarrow> set fs = set (slot_list g b)"
proof -
  have s: "distinct fs" "set fs \<subseteq> set (slot_list g b)" "distinct (slot_list g b)"
    using assms distinct_slots by (auto simp: node_inv_def)
  then show "length fs \<le> fst (snd g)"
    using card_mono [OF _ s(2)] by (simp add: distinct_card length_slots)
  assume "length fs = fst (snd g)"
  then show "set fs = set (slot_list g b)"
    using s by (intro card_subset_eq) (simp_all add: distinct_card length_slots)
qed

text \<open>Taking the first free object and putting an object back.\<close>

lemma node_inv_take:
  assumes "node_inv w g m nx b (x # fs)"
  shows "node_inv w g (m(node_at w g b := slab_checksum w ((m (node_at w g b))\<lparr>sn_avail := length fs, sn_free := nx x\<rparr>))) (nx(x := POISON w)) b fs"
proof -
  have "x \<notin> set fs" using assms by (simp add: node_inv_def)
  with assms show ?thesis by (auto simp: node_inv_def)
qed

lemma slot_nonzero: "base_ok w g b \<Longrightarrow> x \<in> set (slot_list g b) \<Longrightarrow> x \<noteq> 0"
  by (cases g) auto

lemma node_inv_put:
  assumes "node_inv w g m nx b fs" "x \<in> set (slot_list g b)" "x \<notin> set fs"
  shows "node_inv w g (m(node_at w g b := slab_checksum w ((m (node_at w g b))\<lparr>sn_avail := Suc (length fs), sn_free := x\<rparr>)))
    (nx(x := sn_free (m (node_at w g b)))) b (x # fs)"
  using assms slot_nonzero [of w g b x] by (auto simp: node_inv_def)

section \<open>A new slab\<close>

lemma heap_commute: "h\<lparr>sh_next := a, sh_node := b\<rparr> = h\<lparr>sh_node := b, sh_next := a\<rparr>"
  by (cases h) simp

lemma link_objects_ok:
  assumes "a + k * z < usize_lim w" "0 < a" "0 < z" "chain (sh_next h) (sn_free (sh_node h n)) xs" "\<forall>x\<in>set xs. x < a"
  shows "\<exists>nx f. link_objects k w z n h a = Some (h\<lparr>sh_node := (sh_node h)(n := (sh_node h n)\<lparr>sn_free := f\<rparr>), sh_next := nx\<rparr>)
    \<and> chain nx f (rev (map (\<lambda>i. a + i * z) [0..<k]) @ xs) \<and> (\<forall>x. x \<notin> set (map (\<lambda>i. a + i * z) [0..<k]) \<longrightarrow> nx x = sh_next h x)"
  using assms
proof (induction k arbitrary: h a xs)
  case 0
  then show ?case by (intro exI [of _ "sh_next h"] exI [of _ "sn_free (sh_node h n)"]) simp
next
  case (Suc k)
  let ?h = "h\<lparr>sh_node := (sh_node h)(n := (sh_node h n)\<lparr>sn_free := a\<rparr>), sh_next := (sh_next h)(a := sn_free (sh_node h n))\<rparr>"
  have add: "uadd w a z = Some (a + z)" "a + z + k * z < usize_lim w" using Suc.prems(1) by (auto simp: add.assoc)
  have ch: "chain (sh_next ?h) (sn_free (sh_node ?h n)) (a # xs)"
    using Suc.prems(2,4,5) by auto
  obtain nx f where ih: "link_objects k w z n ?h (a + z) = Some (?h\<lparr>sh_node := (sh_node ?h)(n := (sh_node ?h n)\<lparr>sn_free := f\<rparr>), sh_next := nx\<rparr>)"
      "chain nx f (rev (map (\<lambda>i. a + z + i * z) [0..<k]) @ a # xs)"
      "\<forall>x. x \<notin> set (map (\<lambda>i. a + z + i * z) [0..<k]) \<longrightarrow> nx x = sh_next ?h x"
    using Suc.IH [OF add(2) _ Suc.prems(3) ch] Suc.prems(2,3,5) by (metis add_gr_0 less_add_same_cancel1 list.set_intros(1) set_ConsD trans_less_add1)
  have m: "map (\<lambda>i. a + i * z) [0..<Suc k] = a # map (\<lambda>i. a + z + i * z) [0..<k]"
    by (simp add: upt_conv_Cons map_Suc_upt [symmetric] add.assoc comp_def del: upt_Suc)
  have "link_objects (Suc k) w z n h a = Some (h\<lparr>sh_node := (sh_node h)(n := (sh_node h n)\<lparr>sn_free := f\<rparr>), sh_next := nx\<rparr>)"
    using add(1) Suc.prems(2) ih(1) by (simp add: get_object_mut_def set_node_def heap_commute)
  moreover have "\<forall>x. x \<notin> set (map (\<lambda>i. a + i * z) [0..<Suc k]) \<longrightarrow> nx x = sh_next h x" unfolding m using ih(3) by simp
  moreover have "chain nx f (rev (map (\<lambda>i. a + i * z) [0..<Suc k]) @ xs)" unfolding m using ih(2) by simp
  ultimately show ?case by blast
qed


section \<open>The lists of a manager\<close>

definition head_of :: "usize list \<Rightarrow> usize" where
  "head_of xs = (if xs = [] then 0 else hd xs)"

lemma slab_list_head: "slab_list w m h xs \<Longrightarrow> h = head_of xs"
  by (simp add: slab_list_def head_of_def)

lemma slab_list_cong: "slab_list w m h xs \<Longrightarrow> (\<And>a. a \<in> set xs \<Longrightarrow> m' a = m a) \<Longrightarrow> slab_list w m' h xs"
  by (auto simp: slab_list_def node_ok_def links_def intro: ring_cong [where m = "links w m"])

lemma slab_list_counts:
  assumes "slab_list w m h xs" "sn_next n = sn_next (m a)" "sn_prev n = sn_prev (m a)"
  shows "slab_list w (m(a := slab_checksum w n)) h xs"
proof -
  have "links w (m(a := slab_checksum w n)) = links w m" using assms(2,3) by (simp add: links_upd) (simp add: links_def fun_eq_iff)
  with assms(1) node_ok_upd show ?thesis by (simp add: slab_list_def)
qed

lemma slab_list_node: "slab_list w m h xs \<Longrightarrow> a \<in> set xs \<Longrightarrow> node_ok w m a"
  by (simp add: slab_list_def)

lemma move_slab_ok:
  assumes "slab_list w (sh_node h) hx xs" "slab_list w (sh_node h) hy ys" "slab_list w (sh_node h) hz zs" "a \<in> set xs"
    "set xs \<inter> set ys = {}" "set xs \<inter> set zs = {}" "set ys \<inter> set zs = {}"
  shows "\<exists>m1 m. remove_slab_from_list w h hx a = Some (h\<lparr>sh_node := m1\<rparr>, head_of (remove1 a xs))
    \<and> add_slab_to_tail w (h\<lparr>sh_node := m1\<rparr>) hy a = Some (h\<lparr>sh_node := m\<rparr>, head_of (ys @ [a]))
    \<and> slab_list w m (head_of (remove1 a xs)) (remove1 a xs) \<and> slab_list w m (head_of (ys @ [a])) (ys @ [a])
    \<and> slab_list w m hz zs \<and> same_counts (sh_node h) m"
proof -
  obtain m1 where m1: "remove_slab_from_list w h hx a = Some (h\<lparr>sh_node := m1\<rparr>, head_of (remove1 a xs))"
      "slab_list w m1 (head_of (remove1 a xs)) (remove1 a xs)" "node_ok w m1 a" "same_counts (sh_node h) m1"
      "\<forall>b. b \<notin> set xs \<longrightarrow> m1 b = sh_node h b"
    using remove_slab_ok [OF assms(1,4)] by (auto simp: head_of_def)
  let ?h = "h\<lparr>sh_node := m1\<rparr>"
  have ys: "slab_list w (sh_node ?h) hy ys" using assms(2,5) m1(5) by (auto intro: slab_list_cong)
  have "a \<notin> set ys" "node_ok w (sh_node ?h) a" using assms(4,5) m1(3) by auto
  from add_slab_ok [OF ys this] obtain m where m: "add_slab_to_tail w ?h hy a = Some (h\<lparr>sh_node := m\<rparr>, head_of (ys @ [a]))"
      "slab_list w m (head_of (ys @ [a])) (ys @ [a])" "same_counts m1 m" "\<forall>b. b \<notin> set (ys @ [a]) \<longrightarrow> m b = m1 b"
    by (auto simp: head_of_def)
  have "distinct xs" using assms(1) by (simp add: slab_list_def)
  then have "slab_list w m (head_of (remove1 a xs)) (remove1 a xs)"
    using m(4) assms(5) by (intro slab_list_cong [OF m1(2)]) (auto dest: notin_set_remove1)
  moreover have "slab_list w m hz zs"
    using m(4) m1(5) assms(4,6,7) by (intro slab_list_cong [OF assms(3)]) (metis Un_iff disjoint_iff empty_iff empty_set set_ConsD set_append)
  ultimately show ?thesis using m1(1) m(1,2) same_counts_trans [OF m1(4) m(3)] by blast
qed

definition lists_inv :: "width \<Rightarrow> slab_manager \<Rightarrow> (usize \<Rightarrow> slab_node) \<Rightarrow> nat list \<Rightarrow> nat list \<Rightarrow> nat list \<Rightarrow> bool" where
  "lists_inv w sm m U I E \<longleftrightarrow> distinct (U @ I @ E)
     \<and> slab_list w m (sm_unused sm) (map (node_at w (shape_of sm)) U)
     \<and> slab_list w m (sm_in_use sm) (map (node_at w (shape_of sm)) I)
     \<and> slab_list w m (sm_empty sm) (map (node_at w (shape_of sm)) E)"

lemma shape_of_upd [simp]:
  "shape_of (sm\<lparr>sm_unused := x\<rparr>) = shape_of sm" "shape_of (sm\<lparr>sm_in_use := x\<rparr>) = shape_of sm"
  "shape_of (sm\<lparr>sm_empty := x\<rparr>) = shape_of sm" "shape_of (sm\<lparr>sm_slabs_allocated := x\<rparr>) = shape_of sm"
  "shape_of (sm\<lparr>sm_objects_allocated := x\<rparr>) = shape_of sm" "shape_of (sm\<lparr>sm_objects_available := x\<rparr>) = shape_of sm"
  by (simp_all add: shape_of_def)

lemma remove1_map_node: "shape_ok w g \<Longrightarrow> remove1 (node_at w g b) (map (node_at w g) xs) = map (node_at w g) (remove1 b xs)"
  by (induction xs) (auto dest: node_at_inject)

lemma node_sets: "shape_ok w g \<Longrightarrow> set X \<inter> set Y = {} \<Longrightarrow> set (map (node_at w g) X) \<inter> set (map (node_at w g) Y) = {}"
  by (auto dest: node_at_inject)

lemma lists_move:
  assumes "shape_ok w g" "distinct (X @ Y @ Z)" "slab_list w (sh_node h) hx (map (node_at w g) X)"
    "slab_list w (sh_node h) hy (map (node_at w g) Y)" "slab_list w (sh_node h) hz (map (node_at w g) Z)" "b \<in> set X"
  shows "\<exists>m1 m x y. remove_slab_from_list w h hx (node_at w g b) = Some (h\<lparr>sh_node := m1\<rparr>, x)
    \<and> add_slab_to_tail w (h\<lparr>sh_node := m1\<rparr>) hy (node_at w g b) = Some (h\<lparr>sh_node := m\<rparr>, y)
    \<and> slab_list w m x (map (node_at w g) (remove1 b X)) \<and> slab_list w m y (map (node_at w g) (Y @ [b]))
    \<and> slab_list w m hz (map (node_at w g) Z) \<and> same_counts (sh_node h) m \<and> distinct (remove1 b X @ (Y @ [b]) @ Z)
    \<and> set (remove1 b X) \<union> set (Y @ [b]) = set X \<union> set Y"
proof -
  have d: "set X \<inter> set Y = {}" "set X \<inter> set Z = {}" "set Y \<inter> set Z = {}" using assms(2) by auto
  note n = node_sets [OF assms(1) d(1)] node_sets [OF assms(1) d(2)] node_sets [OF assms(1) d(3)]
  have "distinct (remove1 b X @ (Y @ [b]) @ Z)" "set (remove1 b X) \<union> set (Y @ [b]) = set X \<union> set Y"
    using assms(2,6) by (auto simp: set_remove1_eq)
  moreover have "node_at w g b \<in> set (map (node_at w g) X)" using assms(6) by simp
  note mv = move_slab_ok [OF assms(3-5) this n]
  ultimately show ?thesis
    using mv unfolding remove1_map_node [OF assms(1)] by (simp only: map_append list.map) blast
qed


section \<open>The invariant\<close>

definition slab_inv ::
  "width \<Rightarrow> slab_manager \<Rightarrow> (usize \<Rightarrow> slab_node) \<Rightarrow> (usize \<Rightarrow> usize) \<Rightarrow> nat list \<Rightarrow> nat list \<Rightarrow> nat list \<Rightarrow> (nat \<Rightarrow> usize list) \<Rightarrow> bool" where
  "slab_inv w sm m nx U I E F \<longleftrightarrow> shape_ok w (shape_of sm) \<and> lists_inv w sm m U I E
     \<and> (\<forall>b\<in>set (U @ I @ E). node_inv w (shape_of sm) m nx b (F b))
     \<and> (\<forall>b\<in>set U. length (F b) = sm_objs_per_slab sm) \<and> (\<forall>b\<in>set I. F b \<noteq> []) \<and> (\<forall>b\<in>set E. F b = [])
     \<and> sm_slabs_allocated sm = card (set (U @ I @ E)) \<and> sm_objects_available sm = (\<Sum>b\<in>set (U @ I @ E). length (F b))
     \<and> sm_objects_allocated sm + sm_objects_available sm = card (set (U @ I @ E)) * sm_objs_per_slab sm"

definition live :: "slab_shape \<Rightarrow> nat list \<Rightarrow> nat list \<Rightarrow> nat list \<Rightarrow> (nat \<Rightarrow> usize list) \<Rightarrow> usize set" where
  "live g U I E F = (\<Union>b\<in>set (U @ I @ E). set (slot_list g b) - set (F b))"

lemma objs_eq: "fst (snd (shape_of sm)) = sm_objs_per_slab sm"
  by (simp add: shape_of_def)

lemma list_empty_iff: "slab_list w m h (map f xs) \<Longrightarrow> h = 0 \<longleftrightarrow> xs = []"
  by (cases xs) (auto simp: slab_list_def node_ok_def)

lemma slab_inv_lists:
  assumes "slab_inv w sm m nx U I E F"
  shows "shape_ok w (shape_of sm)" "distinct (U @ I @ E)" "slab_list w m (sm_unused sm) (map (node_at w (shape_of sm)) U)"
    "slab_list w m (sm_in_use sm) (map (node_at w (shape_of sm)) I)" "slab_list w m (sm_empty sm) (map (node_at w (shape_of sm)) E)"
    "sm_unused sm = 0 \<longleftrightarrow> U = []" "sm_in_use sm = 0 \<longleftrightarrow> I = []" "sm_empty sm = 0 \<longleftrightarrow> E = []"
  using assms list_empty_iff unfolding slab_inv_def lists_inv_def by metis+

text \<open>A change of the lists that keeps the set of slabs and every node's counters keeps the invariant.\<close>

lemma slab_inv_relist:
  assumes "slab_inv w sm m nx U I E F" "lists_inv w sm' m' U' I' E'" "same_counts m m'" "set (U' @ I' @ E') = set (U @ I @ E)"
    "sm' = sm\<lparr>sm_unused := u, sm_in_use := i, sm_empty := e\<rparr>"
    "\<forall>b\<in>set U'. length (F b) = sm_objs_per_slab sm" "\<forall>b\<in>set I'. F b \<noteq> []" "\<forall>b\<in>set E'. F b = []"
  shows "slab_inv w sm' m' nx U' I' E' F"
proof -
  have "node_inv w (shape_of sm) m' nx b (F b)" if "b \<in> set (U @ I @ E)" for b
    using assms(1,3) that node_inv_counts unfolding slab_inv_def by blast
  then show ?thesis
    using assms unfolding slab_inv_def assms(4) assms(5) by simp
qed

lemma reuse_slab_ok:
  assumes "slab_inv w sm (sh_node h) nx U I E F" "I = []" "U \<noteq> []"
  shows "\<exists>sm' m. reuse_slab w sm h = Some (sm', h\<lparr>sh_node := m\<rparr>) \<and> slab_inv w sm' m nx (tl U) [hd U] E F \<and> shape_of sm' = shape_of sm"
proof -
  note L = slab_inv_lists [OF assms(1)]
  let ?g = "shape_of sm" and ?b = "hd U"
  have un: "sm_unused sm = node_at w ?g ?b" "?b \<in> set U" "remove1 ?b U = tl U"
    using L(3) assms(3) by (cases U; simp add: slab_list_def)+
  obtain m1 m x y where mv: "remove_slab_from_list w h (sm_unused sm) (node_at w ?g ?b) = Some (h\<lparr>sh_node := m1\<rparr>, x)"
      "add_slab_to_tail w (h\<lparr>sh_node := m1\<rparr>) (sm_in_use sm) (node_at w ?g ?b) = Some (h\<lparr>sh_node := m\<rparr>, y)"
      "slab_list w m x (map (node_at w ?g) (remove1 ?b U))" "slab_list w m y (map (node_at w ?g) (I @ [?b]))"
      "slab_list w m (sm_empty sm) (map (node_at w ?g) E)" "same_counts (sh_node h) m" "distinct (remove1 ?b U @ (I @ [?b]) @ E)"
      "set (remove1 ?b U) \<union> set (I @ [?b]) = set U \<union> set I"
    using lists_move [OF L(1,2,3,4,5) un(2)] by blast
  let ?sm = "sm\<lparr>sm_unused := x, sm_in_use := y\<rparr>"
  have "reuse_slab w sm h = Some (?sm, h\<lparr>sh_node := m\<rparr>)"
    using L(6,7) assms(2,3) un(1) mv(1,2) by (simp add: reuse_slab_def)
  moreover have "slab_inv w ?sm m nx (tl U) [?b] E F"
  proof (rule slab_inv_relist [OF assms(1)])
    show "lists_inv w ?sm m (tl U) [?b] E" using mv un(3) assms(2) by (simp add: lists_inv_def)
    show "set (tl U @ [?b] @ E) = set (U @ I @ E)" using assms(2,3) by (cases U) auto
    show "?sm = sm\<lparr>sm_unused := x, sm_in_use := y, sm_empty := sm_empty sm\<rparr>" by simp
    have U: "\<forall>b\<in>set U. length (F b) = sm_objs_per_slab sm" "\<forall>b\<in>set E. F b = []" using assms(1) by (simp_all add: slab_inv_def)
    then show "\<forall>b\<in>set (tl U). length (F b) = sm_objs_per_slab sm" "\<forall>b\<in>set E. F b = []" using assms(3) by (cases U; simp)+
    have "0 < sm_objs_per_slab sm" using L(1) by (simp add: shape_of_def)
    with U(1) un(2) show "\<forall>b\<in>set [?b]. F b \<noteq> []" by fastforce
  qed (use mv(6) in simp)
  ultimately show ?thesis by auto
qed


lemma slab_invI:
  assumes "shape_ok w (shape_of sm)" "lists_inv w sm m U I E" "set (U @ I @ E) = N" "\<forall>b\<in>N. node_inv w (shape_of sm) m nx b (F b)"
    "\<forall>b\<in>set U. length (F b) = sm_objs_per_slab sm" "\<forall>b\<in>set I. F b \<noteq> []" "\<forall>b\<in>set E. F b = []"
    "sm_slabs_allocated sm = card N" "sm_objects_available sm = (\<Sum>b\<in>N. length (F b))"
    "sm_objects_allocated sm + sm_objects_available sm = card N * sm_objs_per_slab sm"
  shows "slab_inv w sm m nx U I E F"
  using assms unfolding slab_inv_def by blast

lemma slabs_bound:
  assumes "shape_ok w g" "finite N" "\<forall>b\<in>N. base_ok w g b"
  shows "card N * fst (snd g) < usize_lim w"
proof (cases g)
  case (fields S n z)
  have S: "0 < S" "n < S"
  proof -
    have "n \<le> n * z" "n * z + slab_node_size w \<le> S" using assms(1) fields by auto
    then show "0 < S" "n < S" using slab_node_size_eq(3) [of w] by linarith+
  qed
  have q: "b div S < usize_lim w div S" "b div S * S = b" if "b \<in> N" for b
  proof -
    from that assms(3) fields have b: "S dvd b" "b + S < usize_lim w" by auto
    then show "b div S * S = b" by simp
    have "(b + S) div S \<le> usize_lim w div S" using b(2) by (intro div_le_mono) simp
    moreover have "(b + S) div S = b div S + 1" using S(1) by (intro div_add_self2) simp
    ultimately show "b div S < usize_lim w div S" by linarith
  qed
  have "inj_on (\<lambda>b. b div S) N" by (rule inj_onI) (metis q(2))
  moreover have "(\<lambda>b. b div S) ` N \<subseteq> {..<usize_lim w div S}" using q(1) by auto
  ultimately have "card N \<le> usize_lim w div S" using card_inj_on_le [of "\<lambda>b. b div S" N "{..<usize_lim w div S}"] by (simp only: card_lessThan finite_lessThan)
  then have le: "card N * S \<le> usize_lim w" by (meson div_times_less_eq_dividend le_trans mult_le_mono1)
  show ?thesis
  proof (cases "card N = 0")
    case False
    then have "card N * n < card N * S" using S(2) by simp
    with le have "card N * n < usize_lim w" by linarith
    with fields show ?thesis by simp
  qed simp
qed

lemma nodes_upd:
  assumes "shape_ok w g" "\<forall>c\<in>N. node_inv w g m nx c (F c)" "b \<in> N" "x \<in> set (slot_list g b)"
    "node_inv w g (m(node_at w g b := n)) (nx(x := v)) b fs"
  shows "\<forall>c\<in>N. node_inv w g (m(node_at w g b := n)) (nx(x := v)) c ((F(b := fs)) c)"
proof
  fix c assume c: "c \<in> N"
  show "node_inv w g (m(node_at w g b := n)) (nx(x := v)) c ((F(b := fs)) c)"
  proof (cases "c = b")
    case False
    have ok: "base_ok w g b" "base_ok w g c" using assms(2,3) c by (auto simp: node_inv_def)
    have "node_at w g c \<noteq> node_at w g b" using False node_at_inject [OF assms(1)] by blast
    moreover have "x \<notin> set (slot_list g c)" using slots_disjoint [OF assms(1) ok assms(4)] False by blast
    ultimately have "node_inv w g (m(node_at w g b := n)) (nx(x := v)) c (F c)"
      by (intro node_inv_cong [OF assms(2) [rule_format, OF c]]) auto
    with False show ?thesis by simp
  qed (use assms(5) in simp)
qed

lemma sum_upd:
  assumes "finite N" "b \<in> N"
  shows "(\<Sum>c\<in>N. length ((F(b := fs)) c)) + length (F b) = (\<Sum>c\<in>N. length (F c)) + length fs"
proof -
  have "(\<Sum>c\<in>N. length ((F(b := fs)) c)) = length fs + (\<Sum>c\<in>N - {b}. length (F c))" for fs
    using assms sum.remove [of N b "\<lambda>c. length ((F(b := fs)) c)"] by simp
  from this [of fs] this [of "F b"] show ?thesis by simp
qed

lemma slab_inv_bound:
  assumes "slab_inv w sm m nx U I E F"
  shows "sm_objects_allocated sm + sm_objects_available sm < usize_lim w"
proof -
  have "\<forall>b\<in>set (U @ I @ E). base_ok w (shape_of sm) b" using assms by (auto simp: slab_inv_def node_inv_def)
  from slabs_bound [OF _ _ this] show ?thesis using assms by (simp add: slab_inv_def objs_eq)
qed

lemma take_object_ok:
  assumes "slab_inv w sm (sh_node h) (sh_next h) U (b # I) E F" "\<forall>c\<in>set I. length (F c) < sm_objs_per_slab sm"
  shows "\<exists>sm' m nx I' E'. take_object w sm h = Some ((sm', h\<lparr>sh_node := m, sh_next := nx\<rparr>), Some (hd (F b)))
    \<and> slab_inv w sm' m nx U I' E' (F(b := tl (F b))) \<and> (\<forall>c\<in>set I'. length ((F(b := tl (F b))) c) < sm_objs_per_slab sm)
    \<and> shape_of sm' = shape_of sm \<and> set (U @ I' @ E') = set (U @ (b # I) @ E)"
proof -
  note L = slab_inv_lists [OF assms(1)]
  let ?g = "shape_of sm" and ?n = "node_at w (shape_of sm) b" and ?N = "set (U @ (b # I) @ E)"
  obtain x fs where F: "F b = x # fs" using assms(1) by (cases "F b") (auto simp: slab_inv_def)
  have ni: "\<forall>c\<in>?N. node_inv w ?g (sh_node h) (sh_next h) c (F c)" using assms(1) by (simp add: slab_inv_def)
  then have nb: "node_inv w ?g (sh_node h) (sh_next h) b (x # fs)" using F by (metis Un_iff list.set_intros(1) set_append)
  then have node: "sn_avail (sh_node h ?n) = Suc (length fs)" "sn_free (sh_node h ?n) = x" "x \<noteq> 0" "x \<in> set (slot_list ?g b)"
    by (auto simp: node_inv_def)
  define m1 where "m1 = (sh_node h)(?n := slab_checksum w ((sh_node h ?n)\<lparr>sn_avail := length fs, sn_free := sh_next h x\<rparr>))"
  define nx where "nx = (sh_next h)(x := POISON w)"
  let ?F = "F(b := fs)"
  have all: "\<forall>c\<in>?N. node_inv w ?g m1 nx c (?F c)"
    unfolding m1_def nx_def using nodes_upd [OF L(1) ni _ node(4) node_inv_take [OF nb]] by simp
  have lists: "slab_list w m1 hd' xs" if "slab_list w (sh_node h) hd' xs" for hd' xs
    unfolding m1_def by (rule slab_list_counts [OF that]) simp_all
  have get: "get_slab_node_mut w h (sm_in_use sm) = Some (sh_node h ?n)" "sm_in_use sm = ?n" "?n \<noteq> 0"
    using slab_list_node [OF L(4)] L(4) node_ok_get by (auto simp: slab_list_def node_ok_def)
  have cnt: "sm_objects_available sm = (\<Sum>c\<in>?N. length (F c))" using assms(1) by (simp add: slab_inv_def)
  have sum: "(\<Sum>c\<in>?N. length (?F c)) + 1 = sm_objects_available sm"
    using sum_upd [of ?N b F fs] cnt F by simp
  then have av: "1 \<le> sm_objects_available sm" by linarith
  have bound: "sm_objects_allocated sm + 1 < usize_lim w" using slab_inv_bound [OF assms(1)] av by linarith
  let ?h = "h\<lparr>sh_node := m1, sh_next := nx\<rparr>"
  let ?fin = "\<lambda>sm. sm\<lparr>sm_objects_allocated := sm_objects_allocated sm + 1, sm_objects_available := sm_objects_available sm - 1\<rparr>"
  have take: "take_object w sm h = do { (sm', h') \<leftarrow> (if fs = [] then do {
             (h, in_use) \<leftarrow> remove_slab_from_list w ?h (sm_in_use sm) ?n;
             (h, empty) \<leftarrow> add_slab_to_tail w h (sm_empty sm) ?n;
             Some (sm\<lparr>sm_in_use := in_use, sm_empty := empty\<rparr>, h) } else Some (sm, ?h));
        allocated \<leftarrow> uadd w (sm_objects_allocated sm') 1;
        available \<leftarrow> usub (sm_objects_available sm') 1;
        Some ((sm'\<lparr>sm_objects_allocated := allocated, sm_objects_available := available\<rparr>, h'), Some x) }"
    using get node by (simp add: take_object_def get_object_mut_def set_node_def m1_def nx_def heap_commute Let_def)
  have cards: "sm_slabs_allocated sm = card ?N" "sm_objects_allocated sm + sm_objects_available sm = card ?N * sm_objs_per_slab sm"
      "\<forall>c\<in>set U. length (F c) = sm_objs_per_slab sm" "\<forall>c\<in>set I. F c \<noteq> []" "\<forall>c\<in>set E. F c = []"
    using assms(1) by (simp_all add: slab_inv_def)
  have counts: "sm_objects_available sm - 1 = (\<Sum>c\<in>?N. length (?F c))"
      "sm_objects_allocated sm + 1 + (sm_objects_available sm - 1) = card ?N * sm_objs_per_slab sm"
    using sum cards(2) by linarith+
  have bn: "b \<notin> set U" "b \<notin> set I" "b \<notin> set E" using L(2) by auto
  have len: "length fs < sm_objs_per_slab sm" using node_inv_length(1) [OF L(1) nb] by (simp add: objs_eq)
  show ?thesis
  proof (cases "fs = []")
    case False
    have "take_object w sm h = Some ((?fin sm, ?h), Some x)" using False bound av by (simp add: take)
    moreover have "slab_inv w (?fin sm) m1 nx U (b # I) E ?F"
    proof (rule slab_invI [where N = ?N])
      show "lists_inv w (?fin sm) m1 U (b # I) E" using L lists by (simp add: lists_inv_def)
      show "\<forall>c\<in>?N. node_inv w (shape_of (?fin sm)) m1 nx c (?F c)" using all by simp
      show "\<forall>c\<in>set (b # I). ?F c \<noteq> []" using cards(4) bn False by auto
    qed (use L(1) cards bn sum av counts in auto)
    ultimately show ?thesis using F len assms(2) bn
      by (intro exI [of _ "?fin sm"] exI [of _ m1] exI [of _ nx] exI [of _ "b # I"] exI [of _ E]) auto
  next
    case True
    have d: "distinct ((b # I) @ E @ U)" using L(2) by auto
    have l3: "slab_list w (sh_node ?h) (sm_in_use sm) (map (node_at w ?g) (b # I))" "slab_list w (sh_node ?h) (sm_empty sm) (map (node_at w ?g) E)"
        "slab_list w (sh_node ?h) (sm_unused sm) (map (node_at w ?g) U)"
      using lists [OF L(4)] lists [OF L(5)] lists [OF L(3)] by simp_all
    from lists_move [OF L(1) d l3 list.set_intros(1)]
    obtain m2 m y e where mv: "remove_slab_from_list w ?h (sm_in_use sm) ?n = Some (?h\<lparr>sh_node := m2\<rparr>, y)"
        "add_slab_to_tail w (?h\<lparr>sh_node := m2\<rparr>) (sm_empty sm) ?n = Some (?h\<lparr>sh_node := m\<rparr>, e)"
        "slab_list w m y (map (node_at w ?g) (remove1 b (b # I)))" "slab_list w m e (map (node_at w ?g) (E @ [b]))"
        "slab_list w m (sm_unused sm) (map (node_at w ?g) U)" "same_counts (sh_node ?h) m" "distinct (remove1 b (b # I) @ (E @ [b]) @ U)"
      by blast
    let ?sm = "?fin (sm\<lparr>sm_in_use := y, sm_empty := e\<rparr>)"
    have N: "set (U @ I @ E @ [b]) = ?N" by auto
    have "\<forall>c\<in>?N. node_inv w ?g m nx c (?F c)" using nodes_counts [OF all] mv(6) by simp
    then have "slab_inv w ?sm m nx U I (E @ [b]) ?F"
    proof (intro slab_invI [OF _ _ N])
      show "lists_inv w ?sm m U I (E @ [b])" using mv(3-5,7) by (auto simp: lists_inv_def)
      show "\<forall>c\<in>set (E @ [b]). ?F c = []" using cards(5) True by auto
    qed (use L(1) cards bn sum av counts in auto)
    moreover have "take_object w sm h = Some ((?sm, h\<lparr>sh_node := m, sh_next := nx\<rparr>), Some x)"
      using True bound av mv(1,2) by (simp add: take heap_commute)
    moreover have "\<forall>c\<in>set I. length (?F c) < sm_objs_per_slab sm" using assms(2) bn by auto
    ultimately show ?thesis using F N by (intro exI [of _ ?sm] exI [of _ m] exI [of _ nx] exI [of _ I] exI [of _ "E @ [b]"]) simp
  qed
qed


section \<open>Release\<close>

lemma lists_invD:
  assumes "lists_inv w sm m U I E"
  shows "distinct (U @ I @ E)" "slab_list w m (sm_unused sm) (map (node_at w (shape_of sm)) U)"
    "slab_list w m (sm_in_use sm) (map (node_at w (shape_of sm)) I)" "slab_list w m (sm_empty sm) (map (node_at w (shape_of sm)) E)"
  using assms by (simp_all add: lists_inv_def)

lemma refill_slab_ok:
  assumes "shape_ok w (shape_of sm)" "lists_inv w sm (sh_node h) U I E" "sn_avail (sh_node h (node_at w (shape_of sm) b)) = 0 \<longleftrightarrow> b \<in> set E"
    "b \<in> set I \<union> set E"
  shows "\<exists>i e m I' E'. refill_slab w sm h (node_at w (shape_of sm) b) = Some (sm\<lparr>sm_in_use := i, sm_empty := e\<rparr>, h\<lparr>sh_node := m\<rparr>)
    \<and> lists_inv w (sm\<lparr>sm_in_use := i, sm_empty := e\<rparr>) m U I' E' \<and> same_counts (sh_node h) m
    \<and> set I' = insert b (set I) \<and> set E' = set E - {b}"
proof (cases "b \<in> set E")
  case True
  note L = lists_invD [OF assms(2)]
  have d: "distinct (E @ I @ U)" using L(1) by auto
  let ?g = "shape_of sm"
  obtain m1 m x y where mv: "remove_slab_from_list w h (sm_empty sm) (node_at w ?g b) = Some (h\<lparr>sh_node := m1\<rparr>, x)"
      "add_slab_to_tail w (h\<lparr>sh_node := m1\<rparr>) (sm_in_use sm) (node_at w ?g b) = Some (h\<lparr>sh_node := m\<rparr>, y)"
      "slab_list w m x (map (node_at w ?g) (remove1 b E))" "slab_list w m y (map (node_at w ?g) (I @ [b]))"
      "slab_list w m (sm_unused sm) (map (node_at w ?g) U)" "same_counts (sh_node h) m" "distinct (remove1 b E @ (I @ [b]) @ U)"
    using lists_move [OF assms(1) d L(4,3,2) True] by blast
  have "refill_slab w sm h (node_at w ?g b) = Some (sm\<lparr>sm_in_use := y, sm_empty := x\<rparr>, h\<lparr>sh_node := m\<rparr>)"
    using True assms(3) mv(1,2) by (simp add: refill_slab_def)
  moreover have "lists_inv w (sm\<lparr>sm_in_use := y, sm_empty := x\<rparr>) m U (I @ [b]) (remove1 b E)"
    using mv(3-5,7) by (auto simp: lists_inv_def)
  moreover have "set (remove1 b E) = set E - {b}" using L(1) by (intro set_remove1_eq) simp
  ultimately show ?thesis using mv(6) by (intro exI [of _ y] exI [of _ x] exI [of _ m] exI [of _ "I @ [b]"] exI [of _ "remove1 b E"]) simp
next
  case False
  then show ?thesis using assms
    by (intro exI [of _ "sm_in_use sm"] exI [of _ "sm_empty sm"] exI [of _ "sh_node h"] exI [of _ I] exI [of _ E]) (auto simp: refill_slab_def)
qed

lemma retire_slab_ok:
  assumes "shape_ok w (shape_of sm)" "lists_inv w sm (sh_node h) U I E" "b \<in> set I"
  defines "full \<equiv> sn_avail (sh_node h (node_at w (shape_of sm) b)) = sm_objs_per_slab sm"
  shows "\<exists>i u m I' U'. retire_slab w sm h (node_at w (shape_of sm) b) = Some (sm\<lparr>sm_in_use := i, sm_unused := u\<rparr>, h\<lparr>sh_node := m\<rparr>)
    \<and> lists_inv w (sm\<lparr>sm_in_use := i, sm_unused := u\<rparr>) m U' I' E \<and> same_counts (sh_node h) m
    \<and> set I' = (if full then set I - {b} else set I) \<and> set U' = (if full then insert b (set U) else set U)"
proof (cases full)
  case True
  note L = lists_invD [OF assms(2)]
  have d: "distinct (I @ U @ E)" using L(1) by auto
  let ?g = "shape_of sm"
  obtain m1 m x y where mv: "remove_slab_from_list w h (sm_in_use sm) (node_at w ?g b) = Some (h\<lparr>sh_node := m1\<rparr>, x)"
      "add_slab_to_tail w (h\<lparr>sh_node := m1\<rparr>) (sm_unused sm) (node_at w ?g b) = Some (h\<lparr>sh_node := m\<rparr>, y)"
      "slab_list w m x (map (node_at w ?g) (remove1 b I))" "slab_list w m y (map (node_at w ?g) (U @ [b]))"
      "slab_list w m (sm_empty sm) (map (node_at w ?g) E)" "same_counts (sh_node h) m" "distinct (remove1 b I @ (U @ [b]) @ E)"
    using lists_move [OF assms(1) d L(3,2,4) assms(3)] by blast
  have "retire_slab w sm h (node_at w ?g b) = Some (sm\<lparr>sm_in_use := x, sm_unused := y\<rparr>, h\<lparr>sh_node := m\<rparr>)"
    using True mv(1,2) by (simp add: retire_slab_def full_def)
  moreover have "lists_inv w (sm\<lparr>sm_in_use := x, sm_unused := y\<rparr>) m (U @ [b]) (remove1 b I) E"
    using mv(3-5,7) by (auto simp: lists_inv_def)
  moreover have "set (remove1 b I) = set I - {b}" using L(1) by (intro set_remove1_eq) simp
  ultimately show ?thesis using mv(6) True
    by (intro exI [of _ x] exI [of _ y] exI [of _ m] exI [of _ "remove1 b I"] exI [of _ "U @ [b]"]) simp
next
  case False
  then show ?thesis using assms(2)
    by (intro exI [of _ "sm_in_use sm"] exI [of _ "sm_unused sm"] exI [of _ "sh_node h"] exI [of _ I] exI [of _ U])
      (auto simp: retire_slab_def full_def)
qed

lemma live_slab:
  assumes "slab_inv w sm m nx U I E F" "x \<in> live (shape_of sm) U I E F"
  obtains b where "b \<in> set I \<union> set E" "x \<in> set (slot_list (shape_of sm) b)" "x \<notin> set (F b)"
    "node_inv w (shape_of sm) m nx b (F b)" "length (F b) < sm_objs_per_slab sm" "F b = [] \<longleftrightarrow> b \<in> set E"
proof -
  from assms(2) obtain b where b: "b \<in> set (U @ I @ E)" "x \<in> set (slot_list (shape_of sm) b)" "x \<notin> set (F b)"
    by (auto simp: live_def)
  have ni: "node_inv w (shape_of sm) m nx b (F b)" using assms(1) b(1) by (auto simp: slab_inv_def)
  have "length (F b) \<noteq> sm_objs_per_slab sm" "length (F b) \<le> sm_objs_per_slab sm"
    using node_inv_length [OF slab_inv_lists(1) [OF assms(1)] ni] b(2,3) by (auto simp: objs_eq)
  moreover from this have "b \<in> set I \<union> set E" using b(1) assms(1) by (auto simp: slab_inv_def)
  moreover have "F b = [] \<longleftrightarrow> b \<in> set E" using \<open>b \<in> set I \<union> set E\<close> assms(1) by (auto simp: slab_inv_def)
  ultimately show thesis using that b(2,3) ni by force
qed

lemma put_object_ok:
  assumes "x \<noteq> 0" "sh_next h x = POISON w" "sn_avail (sh_node h n) + 1 < usize_lim w"
  shows "put_object w h n x = Some (h\<lparr>sh_node := (sh_node h)(n := slab_checksum w ((sh_node h n)\<lparr>sn_avail := sn_avail (sh_node h n) + 1, sn_free := x\<rparr>)),
      sh_next := (sh_next h)(x := sn_free (sh_node h n))\<rparr>)"
  using assms by (simp add: put_object_def get_object_mut_def set_node_def heap_commute)

lemma lists_inv_counts:
  "lists_inv w sm m U I E \<Longrightarrow> sn_next n = sn_next (m a) \<Longrightarrow> sn_prev n = sn_prev (m a) \<Longrightarrow> lists_inv w sm (m(a := slab_checksum w n)) U I E"
  by (simp add: lists_inv_def slab_list_counts)

lemma slab_node_ok: "lists_inv w sm m U I E \<Longrightarrow> b \<in> set (U @ I @ E) \<Longrightarrow> node_ok w m (node_at w (shape_of sm) b)"
  by (auto simp: lists_inv_def slab_list_def)

lemma sm_free_ok:
  assumes "slab_inv w sm (sh_node h) (sh_next h) U I E F" "\<forall>c\<in>set I. length (F c) < sm_objs_per_slab sm"
    "x \<in> live (shape_of sm) U I E F"
  shows "\<exists>sm' m nx U' I' E' F'. sm_free w sm h x = Some (sm', h\<lparr>sh_node := m, sh_next := nx\<rparr>) \<and> slab_inv w sm' m nx U' I' E' F'
    \<and> (\<forall>c\<in>set I'. length (F' c) < sm_objs_per_slab sm) \<and> live (shape_of sm) U' I' E' F' = live (shape_of sm) U I E F - {x}
    \<and> shape_of sm' = shape_of sm \<and> set (U' @ I' @ E') = set (U @ I @ E)"
proof -
  let ?g = "shape_of sm" and ?N = "set (U @ I @ E)"
  obtain b where b: "b \<in> set I \<union> set E" "x \<in> set (slot_list ?g b)" "x \<notin> set (F b)" "node_inv w ?g (sh_node h) (sh_next h) b (F b)"
      "length (F b) < sm_objs_per_slab sm" "F b = [] \<longleftrightarrow> b \<in> set E"
    using live_slab [OF assms(1,3)] by blast
  note L = slab_inv_lists [OF assms(1)]
  have li: "lists_inv w sm (sh_node h) U I E" and ni: "\<forall>c\<in>?N. node_inv w ?g (sh_node h) (sh_next h) c (F c)"
    using assms(1) by (simp_all add: slab_inv_def)
  have ok: "base_ok w ?g b" "sn_avail (sh_node h (node_at w ?g b)) = length (F b)" "sh_next h x = POISON w"
    using b(2,3,4) by (auto simp: node_inv_def)
  let ?n = "node_at w ?g b"
  have av0: "sn_avail (sh_node h ?n) = 0 \<longleftrightarrow> b \<in> set E" using ok(2) b(6) by simp
  obtain i e m1 I1 E1 where rf: "refill_slab w sm h ?n = Some (sm\<lparr>sm_in_use := i, sm_empty := e\<rparr>, h\<lparr>sh_node := m1\<rparr>)"
      "lists_inv w (sm\<lparr>sm_in_use := i, sm_empty := e\<rparr>) m1 U I1 E1" "same_counts (sh_node h) m1"
      "set I1 = insert b (set I)" "set E1 = set E - {b}"
    using refill_slab_ok [OF L(1) li av0 b(1)] by blast
  let ?sm1 = "sm\<lparr>sm_in_use := i, sm_empty := e\<rparr>" and ?F = "F(b := x # F b)"
  have n1: "sn_avail (m1 ?n) = length (F b)" using rf(3) ok(2) by (simp add: same_counts_def)
  have x0: "x \<noteq> 0" using slot_nonzero [OF ok(1) b(2)] .
  have lim: "length (F b) + 1 < usize_lim w"
  proof -
    have "card {b} * fst (snd ?g) < usize_lim w" by (rule slabs_bound [OF L(1)]) (use ok(1) in auto)
    then have "sm_objs_per_slab sm < usize_lim w" by (simp add: objs_eq)
    with b(5) show ?thesis by linarith
  qed
  define m2 where "m2 = m1(?n := slab_checksum w ((m1 ?n)\<lparr>sn_avail := Suc (length (F b)), sn_free := x\<rparr>))"
  define nx where "nx = (sh_next h)(x := sn_free (m1 ?n))"
  let ?h2 = "h\<lparr>sh_node := m2, sh_next := nx\<rparr>"
  have put: "put_object w (h\<lparr>sh_node := m1\<rparr>) ?n x = Some ?h2"
    using put_object_ok [of x "h\<lparr>sh_node := m1\<rparr>" w ?n] x0 ok(3) n1 lim by (simp add: m2_def nx_def)
  have bN: "b \<in> ?N" using b(1) by auto
  have all: "\<forall>c\<in>?N. node_inv w ?g m2 nx c (?F c)"
    unfolding m2_def nx_def
    by (rule nodes_upd [OF L(1) nodes_counts [OF ni rf(3)] bN b(2) node_inv_put [OF node_inv_counts [OF b(4) rf(3)] b(2,3)]])
  have li2: "lists_inv w ?sm1 (sh_node ?h2) U I1 E1" using lists_inv_counts [OF rf(2)] by (simp add: m2_def)
  have bI: "b \<in> set I1" using rf(4) by simp
  let ?full = "Suc (length (F b)) = sm_objs_per_slab sm"
  have sh1: "shape_ok w (shape_of ?sm1)" using L(1) by simp
  obtain i' u m I' U' where rt: "retire_slab w ?sm1 ?h2 ?n = Some (?sm1\<lparr>sm_in_use := i', sm_unused := u\<rparr>, ?h2\<lparr>sh_node := m\<rparr>)"
      "lists_inv w (?sm1\<lparr>sm_in_use := i', sm_unused := u\<rparr>) m U' I' E1" "same_counts m2 m"
      "set I' = (if ?full then set I1 - {b} else set I1)" "set U' = (if ?full then insert b (set U) else set U)"
    using retire_slab_ok [OF sh1 li2 bI] by (auto simp: m2_def)
  let ?sm2 = "?sm1\<lparr>sm_in_use := i', sm_unused := u\<rparr>"
  let ?sm = "?sm2\<lparr>sm_objects_allocated := sm_objects_allocated sm - 1, sm_objects_available := sm_objects_available sm + 1\<rparr>"
  have cards: "sm_slabs_allocated sm = card ?N" "sm_objects_available sm = (\<Sum>c\<in>?N. length (F c))"
      "sm_objects_allocated sm + sm_objects_available sm = card ?N * sm_objs_per_slab sm"
      "\<forall>c\<in>set U. length (F c) = sm_objs_per_slab sm" "\<forall>c\<in>set I. F c \<noteq> []" "\<forall>c\<in>set E. F c = []"
    using assms(1) by (simp_all add: slab_inv_def)
  have sum: "(\<Sum>c\<in>?N. length (?F c)) = sm_objects_available sm + 1"
    using sum_upd [OF finite_set bN, of F "x # F b"] cards(2) by simp
  have "(\<Sum>c\<in>?N. length (?F c)) \<le> (\<Sum>c\<in>?N. sm_objs_per_slab sm)"
    using node_inv_length(1) [OF L(1) all [rule_format]] by (intro sum_mono) (simp only: objs_eq)
  then have one: "1 \<le> sm_objects_allocated sm" using sum cards(3) by simp
  have lim2: "sm_objects_available sm + 1 < usize_lim w" using slab_inv_bound [OF assms(1)] one by linarith
  have ac: "sm_objects_allocated sm - 1 + (sm_objects_available sm + 1) = card ?N * sm_objs_per_slab sm"
    using one cards(3) by linarith
  have bU: "b \<notin> set U" using L(2) b(1) by auto
  have N: "set (U' @ I' @ E1) = ?N" using rt(4,5) rf(4,5) b(1) by auto
  have "slab_inv w ?sm m nx U' I' E1 ?F"
  proof (rule slab_invI [OF _ _ N])
    show "lists_inv w ?sm m U' I' E1" using rt(2) by (simp add: lists_inv_def)
    show "\<forall>c\<in>?N. node_inv w (shape_of ?sm) m nx c (?F c)" using nodes_counts [OF all rt(3)] by simp
    show "\<forall>c\<in>set U'. length (?F c) = sm_objs_per_slab ?sm" using cards(4) rt(5) bU by (auto split: if_splits)
    show "\<forall>c\<in>set I'. ?F c \<noteq> []" using cards(5) rt(4) rf(4) by (auto split: if_splits)
    show "\<forall>c\<in>set E1. ?F c = []" using cards(6) rf(5) by auto
  qed (use L(1) cards(1) sum ac in auto)
  moreover have "sm_free w sm h x = Some (?sm, h\<lparr>sh_node := m, sh_next := nx\<rparr>)"
    using x0 slab_node_addr_slot [OF L(1) ok(1) b(2)] slab_node_ok [OF li, of b] b(1,5) ok(2) rf(1) put rt(1) one lim2
    by (simp add: sm_free_def heap_commute node_ok_get)
  moreover have "\<forall>c\<in>set I'. length (?F c) < sm_objs_per_slab sm"
    using assms(2) rt(4) rf(4) b(5) by (auto split: if_splits)
  moreover have "live ?g U' I' E1 ?F = live ?g U I E F - {x}"
  proof -
    have "set (slot_list ?g c) - set (?F c) = set (slot_list ?g c) - set (F c) - {x}" if c: "c \<in> ?N" for c
    proof (cases "c = b")
      case False
      have "base_ok w ?g c" using ni c by (simp add: node_inv_def)
      with slots_disjoint [OF L(1) ok(1) _ b(2)] False have "x \<notin> set (slot_list ?g c)" by blast
      with False show ?thesis by simp
    qed auto
    then show ?thesis unfolding live_def N by blast
  qed
  ultimately show ?thesis using N by (intro exI conjI) (assumption | simp)+
qed


section \<open>Growth\<close>

lemma alloc_slab_ok:
  assumes "slab_inv w sm (sh_node h) (sh_next h) U [] E F" "pg_alloc a (sm_slab_pages sm) = Some (a', Some (phys, p))"
    "base_ok w (shape_of sm) (phys + vb)" "phys + vb \<notin> set (U @ E)"
  defines "b \<equiv> phys + vb"
  shows "\<exists>m nx. alloc_slab w vb pg_alloc a sm h = Some ((a', sm\<lparr>sm_slabs_allocated := sm_slabs_allocated sm + 1,
        sm_objects_available := sm_objects_available sm + sm_objs_per_slab sm\<rparr>, h\<lparr>sh_node := m, sh_next := nx\<rparr>), Some (node_at w (shape_of sm) b))
    \<and> node_ok w m (node_at w (shape_of sm) b) \<and> node_inv w (shape_of sm) m nx b (rev (slot_list (shape_of sm) b))
    \<and> (\<forall>n. n \<noteq> node_at w (shape_of sm) b \<longrightarrow> m n = sh_node h n) \<and> (\<forall>x. x \<notin> set (slot_list (shape_of sm) b) \<longrightarrow> nx x = sh_next h x)"
proof -
  note L = slab_inv_lists [OF assms(1)]
  let ?S = "sm_slab_pages sm * page_size" and ?k = "sm_objs_per_slab sm" and ?z = "sm_obj_size sm" and ?N = "slab_node_size w"
  have sh: "0 < ?k" "0 < ?z" "?k * ?z + ?N \<le> ?S" "?S < usize_lim w" using L(1) by (auto simp: shape_of_def)
  have b: "0 < b" "b + ?S < usize_lim w" using assms(3) by (auto simp: shape_of_def b_def)
  let ?n = "b + ?S - ?N"
  have n: "node_at w (shape_of sm) b = ?n" "?n \<noteq> 0" using b sh(3) by (auto simp: shape_of_def)
  let ?m0 = "(sh_node h)(?n := (sh_node h ?n)\<lparr>sn_avail := ?k, sn_free := 0, sn_prev := 0, sn_next := 0\<rparr>)"
  have "b + ?k * ?z < usize_lim w" using b(2) sh(3) by linarith
  from link_objects_ok [of b ?k ?z w "h\<lparr>sh_node := ?m0\<rparr>" ?n "[]", OF this b(1) sh(2)]
  obtain nx f where lk: "link_objects ?k w ?z ?n (h\<lparr>sh_node := ?m0\<rparr>) b = Some (h\<lparr>sh_node := ?m0(?n := (?m0 ?n)\<lparr>sn_free := f\<rparr>), sh_next := nx\<rparr>)"
      "chain nx f (rev (map (\<lambda>i. b + i * ?z) [0..<?k]))"
      "\<forall>x. x \<notin> set (map (\<lambda>i. b + i * ?z) [0..<?k]) \<longrightarrow> nx x = sh_next h x"
    by auto
  let ?m = "?m0(?n := slab_checksum w ((?m0 ?n)\<lparr>sn_free := f\<rparr>))"
  have "card (set (U @ E)) + 1 = card (insert b (set (U @ E)))" using assms(4) by (simp add: b_def)
  moreover have "card (insert b (set (U @ E))) * fst (snd (shape_of sm)) < usize_lim w"
    using assms(1,3) by (intro slabs_bound [OF L(1)]) (auto simp: slab_inv_def node_inv_def b_def)
  moreover have "sm_objects_available sm \<le> card (set (U @ E)) * ?k" "sm_slabs_allocated sm = card (set (U @ E))"
    using assms(1) by (simp_all add: slab_inv_def)
  ultimately have cnt: "sm_slabs_allocated sm + 1 < usize_lim w" "sm_objects_available sm + ?k < usize_lim w"
  proof -
    assume a: "card (set (U @ E)) + 1 = card (insert b (set (U @ E)))" "card (insert b (set (U @ E))) * fst (snd (shape_of sm)) < usize_lim w"
      "sm_objects_available sm \<le> card (set (U @ E)) * ?k" "sm_slabs_allocated sm = card (set (U @ E))"
    from a(1,2) have l: "card (set (U @ E)) * ?k + ?k < usize_lim w" unfolding objs_eq by (metis add_mult_distrib mult_1)
    with a(3) show "sm_objects_available sm + ?k < usize_lim w" by linarith
    have "card (set (U @ E)) + 1 \<le> card (set (U @ E)) * ?k + ?k" using sh(1) by (metis add_le_mono less_eq_Suc_le mult_le_mono2 mult.right_neutral One_nat_def)
    with l a(4) show "sm_slabs_allocated sm + 1 < usize_lim w" by linarith
  qed
  have "alloc_slab w vb pg_alloc a sm h = Some ((a', sm\<lparr>sm_slabs_allocated := sm_slabs_allocated sm + 1,
      sm_objects_available := sm_objects_available sm + ?k\<rparr>, h\<lparr>sh_node := ?m, sh_next := nx\<rparr>), Some ?n)"
    using assms(2) sh(3,4) b(2) n(2) lk(1) cnt
    by (simp add: alloc_slab_def get_slab_node_unchecked_mut_def set_node_def heap_commute b_def)
  moreover have "node_ok w ?m ?n" using n(2) by (simp add: node_ok_def)
  moreover have "node_inv w (shape_of sm) ?m nx b (rev (slot_list (shape_of sm) b))"
    unfolding node_inv_def n(1) using assms(3) lk(2) distinct_slots [OF L(1)] by (simp add: b_def length_slots objs_eq) (simp add: shape_of_def)
  ultimately show ?thesis using lk(3) unfolding n(1) by (intro exI [of _ ?m] exI [of _ nx]) (simp add: shape_of_def)
qed


lemma grow_slabs_ok:
  assumes "slab_inv w sm (sh_node h) (sh_next h) U [] E F" "pg_alloc a (sm_slab_pages sm) = Some (a', Some (phys, p))"
    "base_ok w (shape_of sm) (phys + vb)" "phys + vb \<notin> set (U @ E)"
  defines "b \<equiv> phys + vb"
  shows "\<exists>sm' m nx. grow_slabs w vb pg_alloc a sm h = Some (a', sm', h\<lparr>sh_node := m, sh_next := nx\<rparr>)
    \<and> slab_inv w sm' m nx U [b] E (F(b := rev (slot_list (shape_of sm) b))) \<and> shape_of sm' = shape_of sm"
proof -
  note L = slab_inv_lists [OF assms(1)]
  let ?g = "shape_of sm" and ?n = "node_at w (shape_of sm) b" and ?F = "F(b := rev (slot_list (shape_of sm) b))"
  obtain m nx where al: "alloc_slab w vb pg_alloc a sm h = Some ((a', sm\<lparr>sm_slabs_allocated := sm_slabs_allocated sm + 1,
        sm_objects_available := sm_objects_available sm + sm_objs_per_slab sm\<rparr>, h\<lparr>sh_node := m, sh_next := nx\<rparr>), Some ?n)"
      "node_ok w m ?n" "node_inv w ?g m nx b (rev (slot_list ?g b))"
      "\<forall>n. n \<noteq> ?n \<longrightarrow> m n = sh_node h n" "\<forall>x. x \<notin> set (slot_list ?g b) \<longrightarrow> nx x = sh_next h x"
    using alloc_slab_ok [OF assms(1), of pg_alloc a a' phys p vb, OF assms(2-4)] unfolding b_def by blast
  have bn: "b \<notin> set U" "b \<notin> set E" using assms(4) by (simp_all add: b_def)
  have other: "?n \<notin> set (map (node_at w ?g) X)" if "b \<notin> set X" for X
    using that by (auto dest: node_at_inject [OF L(1)])
  have lists: "slab_list w m hd' (map (node_at w ?g) X)" if "slab_list w (sh_node h) hd' (map (node_at w ?g) X)" "b \<notin> set X" for hd' X
    using that(1) by (rule slab_list_cong) (use al(4) other [OF that(2)] in metis)
  let ?h = "h\<lparr>sh_node := m, sh_next := nx\<rparr>"
  have "slab_list w (sh_node ?h) 0 []" by (simp add: slab_list_def ring_def)
  from add_slab_ok [OF this, of ?n] al(2)
  obtain m' where ad: "add_slab_to_tail w ?h 0 ?n = Some (?h\<lparr>sh_node := m'\<rparr>, ?n)" "slab_list w m' ?n [?n]"
      "same_counts m m'" "\<forall>c. c \<noteq> ?n \<longrightarrow> m' c = m c" by auto
  let ?sm = "sm\<lparr>sm_in_use := ?n, sm_slabs_allocated := sm_slabs_allocated sm + 1, sm_objects_available := sm_objects_available sm + sm_objs_per_slab sm\<rparr>"
  have "grow_slabs w vb pg_alloc a sm h = Some (a', ?sm, h\<lparr>sh_node := m', sh_next := nx\<rparr>)"
    using L(7) al(1) ad(1) by (simp add: grow_slabs_def heap_commute)
  moreover have "slab_inv w ?sm m' nx U [b] E ?F"
  proof (rule slab_invI [where N = "insert b (set (U @ E))"])
    have "slab_list w m' hd' (map (node_at w ?g) X)" if "slab_list w (sh_node h) hd' (map (node_at w ?g) X)" "b \<notin> set X" for hd' X
      using lists [OF that] by (rule slab_list_cong) (use ad(4) other [OF that(2)] in metis)
    then show "lists_inv w ?sm m' U [b] E" using L(2,3,5) bn ad(2) by (simp add: lists_inv_def)
    have "node_inv w ?g m nx c (F c)" if "c \<in> set (U @ E)" for c
    proof (rule node_inv_cong)
      show c: "node_inv w ?g (sh_node h) (sh_next h) c (F c)" using assms(1) that by (auto simp: slab_inv_def)
      have "c \<noteq> b" using that bn by auto
      moreover have "base_ok w ?g b" "base_ok w ?g c" using assms(3) c by (simp_all add: b_def node_inv_def)
      ultimately show "nx x = sh_next h x" if "x \<in> set (slot_list ?g c)" for x
        using that al(5) slots_disjoint [OF L(1)] by metis
      have "node_at w ?g c \<noteq> ?n" using \<open>c \<noteq> b\<close> node_at_inject [OF L(1)] by blast
      then show "sn_avail (m (node_at w ?g c)) = sn_avail (sh_node h (node_at w ?g c))"
          "sn_free (m (node_at w ?g c)) = sn_free (sh_node h (node_at w ?g c))" using al(4) by simp_all
    qed
    then have "\<forall>c\<in>insert b (set (U @ E)). node_inv w ?g m nx c (?F c)" using al(3) by auto
    from nodes_counts [OF this ad(3)] show "\<forall>c\<in>insert b (set (U @ E)). node_inv w (shape_of ?sm) m' nx c (?F c)" by simp
    have "0 < sm_objs_per_slab sm" using L(1) by (simp add: shape_of_def)
    then show "\<forall>c\<in>set [b]. ?F c \<noteq> []" using length_slots [of ?g b] by (auto simp: objs_eq)
    have "(\<Sum>c\<in>set (U @ E). length (?F c)) = (\<Sum>c\<in>set (U @ E). length (F c))" using bn by (intro sum.cong) auto
    then show "sm_objects_available ?sm = (\<Sum>c\<in>insert b (set (U @ E)). length (?F c))"
      using assms(1) bn by (simp add: slab_inv_def length_slots objs_eq)
  qed (use assms(1) bn L(1) in \<open>auto simp: slab_inv_def\<close>)
  ultimately show ?thesis by auto
qed

lemma grow_slabs_none:
  assumes "slab_inv w sm (sh_node h) nx U [] E F" "pg_alloc a (sm_slab_pages sm) = Some (a', None)"
  shows "grow_slabs w vb pg_alloc a sm h = Some (a', sm, h)"
  using slab_inv_lists(7) [OF assms(1)] assms(2) by (simp add: grow_slabs_def alloc_slab_def add_slab_to_tail_def)

lemma UN_insert_at:
  assumes "b \<in> N" "A b = insert x (B b)" "\<And>c. c \<noteq> b \<Longrightarrow> A c = B c"
  shows "(\<Union>c\<in>N. A c) = insert x (\<Union>c\<in>N. B c)"
proof -
  have N: "insert b (N - {b}) = N" using assms(1) by blast
  have "(\<Union>c\<in>N - {b}. A c) = (\<Union>c\<in>N - {b}. B c)" using assms(3) by (intro SUP_cong) auto
  then have "(\<Union>c\<in>insert b (N - {b}). A c) = insert x (\<Union>c\<in>insert b (N - {b}). B c)"
    by (simp only: UN_insert assms(2) Un_insert_left)
  then show ?thesis unfolding N .
qed

lemma live_take:
  assumes "slab_inv w sm m nx U I E F" "b \<in> set (U @ I @ E)" "F b \<noteq> []" "set (U' @ I' @ E') = set (U @ I @ E)"
  shows "hd (F b) \<notin> live (shape_of sm) U I E F"
    "live (shape_of sm) U' I' E' (F(b := tl (F b))) = insert (hd (F b)) (live (shape_of sm) U I E F)"
proof -
  let ?g = "shape_of sm"
  note L = slab_inv_lists [OF assms(1)]
  obtain x fs where F: "F b = x # fs" using assms(3) by (cases "F b") auto
  have ni: "node_inv w ?g m nx c (F c)" if "c \<in> set (U @ I @ E)" for c using assms(1) that by (simp add: slab_inv_def)
  from ni [OF assms(2)] F have x: "x \<in> set (slot_list ?g b)" "x \<notin> set fs" "base_ok w ?g b" by (auto simp: node_inv_def)
  have other: "x \<notin> set (slot_list ?g c)" if "c \<in> set (U @ I @ E)" "c \<noteq> b" for c
  proof -
    have "base_ok w ?g c" using ni [OF that(1)] by (simp add: node_inv_def)
    then show ?thesis using slots_disjoint [OF L(1) x(3) _ x(1)] that(2) by blast
  qed
  have nl: "x \<notin> set (slot_list ?g c) - set (F c)" if "c \<in> set (U @ I @ E)" for c
    using other [OF that] F by (cases "c = b") auto
  then show "hd (F b) \<notin> live ?g U I E F" using F by (simp only: live_def UN_iff list.sel) blast
  have "(\<Union>c\<in>set (U @ I @ E). set (slot_list ?g c) - set ((F(b := fs)) c)) =
      insert x (\<Union>c\<in>set (U @ I @ E). set (slot_list ?g c) - set (F c))" (is "(\<Union>c\<in>?N. ?A c) = insert x (\<Union>c\<in>?N. ?B c)")
  proof -
    have "?A b = insert x (?B b)" using F x by auto
    moreover have "?A c = ?B c" if "c \<noteq> b" for c using that by simp
    ultimately show ?thesis by (rule UN_insert_at [OF assms(2)])
  qed
  then show "live ?g U' I' E' (F(b := tl (F b))) = insert (hd (F b)) (live ?g U I E F)"
    using F unfolding live_def assms(4) by simp
qed


section \<open>A source of linear pages\<close>

text \<open>
  What the slab layer needs of its page allocator beyond \<open>page_source\<close>: pages of the kernel's size, no
  limit on requests, and addresses that the linear mapping at \<open>virt_base\<close> keeps below the top of the
  address space.
\<close>

locale linear_pages = page_source inv blocks page_size area request_ok alloc
  for inv :: "'s \<Rightarrow> bool" and blocks page_size area request_ok alloc +
  fixes w :: width and virt_base :: usize
  assumes page_law: "page_size s = Buddy.page_size"
    and request_law: "p < usize_lim w \<Longrightarrow> request_ok p"
    and linear_law: "inv s \<Longrightarrow> x \<in> area s \<Longrightarrow> 0 < x \<and> x + virt_base + 1 < usize_lim w"

text \<open>The slabs of a manager are blocks that the page allocator has handed out.\<close>

definition owned :: "slab_manager \<Rightarrow> usize \<Rightarrow> block set \<Rightarrow> nat set \<Rightarrow> bool" where
  "owned sm virt_base B N \<longleftrightarrow> sm_slab_pages sm * Buddy.page_size dvd virt_base \<and> (\<exists>k. sm_slab_pages sm = 2 ^ k)
     \<and> (\<forall>b\<in>N. \<exists>phys. b = phys + virt_base \<and> (phys, sm_slab_pages sm) \<in> B)"

lemma owned_mono: "owned sm vb B N \<Longrightarrow> B \<subseteq> B' \<Longrightarrow> owned sm vb B' N"
  by (fastforce simp: owned_def)

definition slab_state_inv :: "width \<Rightarrow> slab_manager \<Rightarrow> usize \<Rightarrow> block set \<Rightarrow> 'h slab_heap_scheme \<Rightarrow> usize set \<Rightarrow> bool" where
  "slab_state_inv w sm vb B h H \<longleftrightarrow> (\<exists>U I E F. slab_inv w sm (sh_node h) (sh_next h) U I E F
     \<and> (\<forall>c\<in>set I. length (F c) < sm_objs_per_slab sm) \<and> owned sm vb B (set (U @ I @ E)) \<and> live (shape_of sm) U I E F = H)"

lemma shape_size:
  assumes "shape_ok w (shape_of sm)"
  shows "0 < sm_slab_pages sm * Buddy.page_size \<and> sm_slab_pages sm < usize_lim w"
proof -
  have "slab_node_size w \<le> sm_slab_pages sm * Buddy.page_size" "sm_slab_pages sm * Buddy.page_size < usize_lim w"
    using assms by (auto simp: shape_of_def)
  moreover have "sm_slab_pages sm \<le> sm_slab_pages sm * Buddy.page_size" by (simp add: page_size_def)
  ultimately show ?thesis using slab_node_size_eq(3) [of w] by linarith
qed

lemma shape_pages: "shape_of sm' = shape_of sm \<Longrightarrow> sm_slab_pages sm' = sm_slab_pages sm \<and> sm_objs_per_slab sm' = sm_objs_per_slab sm"
  by (simp add: shape_of_def page_size_def)

lemma owned_shape: "shape_of sm' = shape_of sm \<Longrightarrow> owned sm' vb B N \<longleftrightarrow> owned sm vb B N"
  using shape_pages [of sm' sm] by (simp add: owned_def)

text \<open>The last part of an allocation, from a state with an in-use slab.\<close>

lemma take_from_slab:
  assumes "slab_inv w sm (sh_node h) (sh_next h) U (b # I) E F" "\<forall>c\<in>set I. length (F c) < sm_objs_per_slab sm"
    "owned sm vb B (set (U @ (b # I) @ E))"
  shows "\<exists>sm' h' x. take_object w sm h = Some ((sm', h'), Some x) \<and> x \<notin> live (shape_of sm) U (b # I) E F
    \<and> slab_state_inv w sm' vb B h' (insert x (live (shape_of sm) U (b # I) E F)) \<and> shape_of sm' = shape_of sm"
proof -
  let ?F = "F(b := tl (F b))"
  obtain sm' m nx I' E' where t: "take_object w sm h = Some ((sm', h\<lparr>sh_node := m, sh_next := nx\<rparr>), Some (hd (F b)))"
      "slab_inv w sm' m nx U I' E' ?F" "\<forall>c\<in>set I'. length (?F c) < sm_objs_per_slab sm"
      "shape_of sm' = shape_of sm" "set (U @ I' @ E') = set (U @ (b # I) @ E)"
    using take_object_ok [OF assms(1,2)] by blast
  have bN: "b \<in> set (U @ (b # I) @ E)" "F b \<noteq> []" using assms(1) by (auto simp: slab_inv_def)
  note lv = live_take [OF assms(1) bN t(5)]
  have "slab_state_inv w sm' vb B (h\<lparr>sh_node := m, sh_next := nx\<rparr>) (insert (hd (F b)) (live (shape_of sm) U (b # I) E F))"
    unfolding slab_state_inv_def using t(2-5) lv(2) assms(3) owned_shape [OF t(4)] shape_pages [OF t(4)]
    by (intro exI [of _ U] exI [of _ I'] exI [of _ E'] exI [of _ ?F]) simp
  with t(1,4) lv(1) show ?thesis by blast
qed

text \<open>
  The states a manager reaches from \<open>sm0\<close> by allocations and by releases of objects it has handed out;
  \<open>H\<close> is the set of these objects. The heap at the start is arbitrary.
\<close>

inductive slab_reach ::
  "width \<Rightarrow> usize \<Rightarrow> 'a page_alloc \<Rightarrow> 'a \<Rightarrow> slab_manager \<Rightarrow> 'a \<Rightarrow> slab_manager \<Rightarrow> 'h slab_heap_scheme \<Rightarrow> usize set \<Rightarrow> bool"
  for w vb pg a0 sm0 where
  start: "slab_reach w vb pg a0 sm0 a0 sm0 h {}"
| alloc: "slab_reach w vb pg a0 sm0 a sm h H \<Longrightarrow> sm_alloc w vb pg a sm h = Some ((a', sm', h'), Some x) \<Longrightarrow>
    slab_reach w vb pg a0 sm0 a' sm' h' (insert x H)"
| alloc_none: "slab_reach w vb pg a0 sm0 a sm h H \<Longrightarrow> sm_alloc w vb pg a sm h = Some ((a', sm', h'), None) \<Longrightarrow>
    slab_reach w vb pg a0 sm0 a' sm' h' H"
| free: "slab_reach w vb pg a0 sm0 a sm h H \<Longrightarrow> x \<in> H \<Longrightarrow> sm_free w sm h x = Some (sm', h') \<Longrightarrow>
    slab_reach w vb pg a0 sm0 a sm' h' (H - {x})"

context linear_pages
begin

lemma new_base:
  assumes "inv a" "alloc a (sm_slab_pages sm) = Some (a', Some (phys, p))" "shape_ok w (shape_of sm)"
    "owned sm virt_base (blocks a) N"
  shows "base_ok w (shape_of sm) (phys + virt_base)" "phys + virt_base \<notin> N" "inv a'" "p = sm_slab_pages sm"
    "owned sm virt_base (blocks a') (insert (phys + virt_base) N)"
proof -
  let ?P = "sm_slab_pages sm" and ?S = "sm_slab_pages sm * Buddy.page_size"
  have S: "0 < ?S" "?P < usize_lim w" using shape_size [OF assms(3)] by simp_all
  have "request_ok ?P" by (rule request_law [OF S(2)])
  from alloc_law [OF assms(1) this] assms(2)
  have al: "inv a'" "blocks a' = insert (phys, p) (blocks a)" "fresh_block Buddy.page_size (area a) (blocks a) ?P (phys, p)"
    by (auto simp: page_law)
  obtain k where k: "?P = 2 ^ k" using assms(4) by (auto simp: owned_def)
  have fr: "p = ?P" "?S dvd phys" "block_addrs Buddy.page_size (phys, ?P) \<subseteq> area a"
      "\<forall>c\<in>blocks a. block_addrs Buddy.page_size (phys, ?P) \<inter> block_addrs Buddy.page_size c = {}"
    using al(3) k by (auto simp: fresh_block_def)
  have "phys \<in> {phys ..< phys + ?S}" "phys + ?S - 1 \<in> {phys ..< phys + ?S}" using S(1) unfolding atLeastLessThan_iff by linarith+
  then have mem: "phys \<in> area a" "phys + ?S - 1 \<in> area a" using fr(3) by (auto simp only: block_addrs_def fst_conv snd_conv subset_iff)
  have "0 < phys" "phys + ?S + virt_base < usize_lim w"
    using linear_law [OF assms(1) mem(1)] linear_law [OF assms(1) mem(2)] S(1) by linarith+
  moreover have "?S dvd virt_base" using assms(4) by (simp add: owned_def)
  ultimately show "base_ok w (shape_of sm) (phys + virt_base)" using fr(2) by (simp add: shape_of_def)
  show "phys + virt_base \<notin> N"
  proof
    assume "phys + virt_base \<in> N"
    then have "(phys, ?P) \<in> blocks a" using assms(4) by (auto simp: owned_def)
    with fr(4) have "block_addrs Buddy.page_size (phys, ?P) = {}" by blast
    with S(1) show False by (simp add: block_addrs_def)
  qed
  show "inv a'" "p = ?P" using al(1) fr(1) by simp_all
  show "owned sm virt_base (blocks a') (insert (phys + virt_base) N)"
    using assms(4) al(2) fr(1) by (fastforce simp: owned_def)
qed

lemma sm_alloc_ok:
  assumes "inv a" "slab_state_inv w sm virt_base (blocks a) h H"
  shows "\<exists>a' sm' h' r. sm_alloc w virt_base alloc a sm h = Some ((a', sm', h'), r) \<and> inv a' \<and> shape_of sm' = shape_of sm
    \<and> (case r of None \<Rightarrow> slab_state_inv w sm' virt_base (blocks a') h' H
       | Some x \<Rightarrow> x \<notin> H \<and> slab_state_inv w sm' virt_base (blocks a') h' (insert x H))
    \<and> (r = None \<longrightarrow> (\<exists>a''. alloc a (sm_slab_pages sm) = Some (a'', None)))"
proof -
  obtain U I E F where s: "slab_inv w sm (sh_node h) (sh_next h) U I E F" "\<forall>c\<in>set I. length (F c) < sm_objs_per_slab sm"
      "owned sm virt_base (blocks a) (set (U @ I @ E))" "live (shape_of sm) U I E F = H"
    using assms(2) by (auto simp: slab_state_inv_def)
  note L = slab_inv_lists [OF s(1)]
  show ?thesis
  proof (cases I)
    case (Cons b I')
    then have "reuse_slab w sm h = Some (sm, h)" "grow_slabs w virt_base alloc a sm h = Some (a, sm, h)"
      using L(7) by (simp_all add: reuse_slab_def grow_slabs_def)
    with take_from_slab [of w sm h U b I' E F virt_base "blocks a"] s Cons assms(1) show ?thesis
      by (fastforce simp: sm_alloc_def)
  next
    case Nil
    show ?thesis
    proof (cases "U = []")
      case False
      obtain sm1 m where r: "reuse_slab w sm h = Some (sm1, h\<lparr>sh_node := m\<rparr>)" "slab_inv w sm1 m (sh_next h) (tl U) [hd U] E F"
          "shape_of sm1 = shape_of sm" using reuse_slab_ok [OF s(1) Nil False] by blast
      have N: "set (tl U @ [hd U] @ E) = set (U @ I @ E)" using False Nil by (cases U) auto
      then have lv: "live (shape_of sm1) (tl U) [hd U] E F = H" using s(4) r(3) by (simp only: live_def)
      have ow: "owned sm1 virt_base (blocks a) (set (tl U @ [hd U] @ E))" using s(3) N owned_shape [OF r(3)] by simp
      have "sm_in_use sm1 \<noteq> 0" using slab_inv_lists(7) [OF r(2)] by simp
      then have "grow_slabs w virt_base alloc a sm1 (h\<lparr>sh_node := m\<rparr>) = Some (a, sm1, h\<lparr>sh_node := m\<rparr>)" by (simp add: grow_slabs_def)
      with take_from_slab [of w sm1 "h\<lparr>sh_node := m\<rparr>" "tl U" "hd U" "[]" E F virt_base "blocks a"] r lv ow assms(1) show ?thesis
        by (fastforce simp: sm_alloc_def)
    next
      case True
      have re: "reuse_slab w sm h = Some (sm, h)" using True L(6) by (simp add: reuse_slab_def)
      have "request_ok (sm_slab_pages sm)" using request_law shape_size [OF L(1)] by simp
      from alloc_law [OF assms(1) this] obtain a' r where al: "alloc a (sm_slab_pages sm) = Some (a', r)" "inv a'"
          "r = None \<Longrightarrow> blocks a' = blocks a" by (auto split: option.splits)
      show ?thesis
      proof (cases r)
        case None
        have g: "grow_slabs w virt_base alloc a sm h = Some (a', sm, h)"
          using grow_slabs_none [of w sm h "sh_next h" U E F alloc a a'] s(1) Nil al(1) None by simp
        have "take_object w sm h = Some ((sm, h), None)" using L(7) Nil by (simp add: take_object_def)
        with re g assms(2) al None show ?thesis by (simp add: sm_alloc_def)
      next
        case (Some q)
        obtain phys p where q: "q = (phys, p)" by force
        have al': "alloc a (sm_slab_pages sm) = Some (a', Some (phys, p))" using al(1) Some q by simp
        note nb = new_base [OF assms(1) al' L(1) s(3)]
        let ?b = "phys + virt_base" and ?F = "F(phys + virt_base := rev (slot_list (shape_of sm) (phys + virt_base)))"
        have nN: "?b \<notin> set (U @ E)" using nb(2) Nil by simp
        have s1: "slab_inv w sm (sh_node h) (sh_next h) U [] E F" using s(1) Nil by simp
        obtain sm1 m nx where g: "grow_slabs w virt_base alloc a sm h = Some (a', sm1, h\<lparr>sh_node := m, sh_next := nx\<rparr>)"
            "slab_inv w sm1 m nx U [?b] E ?F" "shape_of sm1 = shape_of sm"
          using grow_slabs_ok [OF s1, of alloc a a' phys p virt_base, OF al' nb(1) nN] by blast
        have lv: "live (shape_of sm1) U [?b] E ?F = H"
        proof -
          have "(\<Union>c\<in>set (U @ E). set (slot_list (shape_of sm) c) - set (?F c)) = (\<Union>c\<in>set (U @ E). set (slot_list (shape_of sm) c) - set (F c))"
            using nN by (intro SUP_cong) auto
          with s(4) Nil show ?thesis by (simp add: live_def g(3) Un_ac)
        qed
        have ow: "owned sm1 virt_base (blocks a') (set (U @ [?b] @ E))"
          using nb(5) Nil owned_shape [OF g(3)] by (simp add: insert_commute Un_insert_right)
        with take_from_slab [of w sm1 "h\<lparr>sh_node := m, sh_next := nx\<rparr>" U ?b "[]" E ?F virt_base "blocks a'"] re g lv nb(3) show ?thesis
          by (fastforce simp: sm_alloc_def)
      qed
    qed
  qed
qed

lemma sm_free_state:
  assumes "slab_state_inv w sm virt_base B h H" "x \<in> H"
  shows "\<exists>sm' h'. sm_free w sm h x = Some (sm', h') \<and> slab_state_inv w sm' virt_base B h' (H - {x}) \<and> shape_of sm' = shape_of sm"
proof -
  obtain U I E F where s: "slab_inv w sm (sh_node h) (sh_next h) U I E F" "\<forall>c\<in>set I. length (F c) < sm_objs_per_slab sm"
      "owned sm virt_base B (set (U @ I @ E))" "live (shape_of sm) U I E F = H"
    using assms(1) by (auto simp: slab_state_inv_def)
  have x: "x \<in> live (shape_of sm) U I E F" using s(4) assms(2) by simp
  obtain sm' m nx U' I' E' F' where f: "sm_free w sm h x = Some (sm', h\<lparr>sh_node := m, sh_next := nx\<rparr>)" "slab_inv w sm' m nx U' I' E' F'"
      "\<forall>c\<in>set I'. length (F' c) < sm_objs_per_slab sm" "live (shape_of sm) U' I' E' F' = live (shape_of sm) U I E F - {x}"
      "shape_of sm' = shape_of sm" "set (U' @ I' @ E') = set (U @ I @ E)"
    using sm_free_ok [OF s(1,2) x] by (elim exE conjE) (erule (5) that)
  have "slab_state_inv w sm' virt_base B (h\<lparr>sh_node := m, sh_next := nx\<rparr>) (H - {x})"
    unfolding slab_state_inv_def using f(2-6) s(3,4) owned_shape [OF f(5)] shape_pages [OF f(5)]
    by (intro exI [of _ U'] exI [of _ I'] exI [of _ E'] exI [of _ F']) simp
  with f(1,5) show ?thesis by blast
qed

lemma reach_inv:
  fixes h :: "'h slab_heap_scheme"
  assumes "slab_reach w virt_base alloc a0 sm0 a sm h H" "inv a0" "\<And>h :: 'h slab_heap_scheme. slab_state_inv w sm0 virt_base (blocks a0) h {}"
  shows "inv a \<and> slab_state_inv w sm virt_base (blocks a) h H"
  using assms
proof (induction rule: slab_reach.induct)
  case (start h)
  then show ?case by simp
next
  case (alloc a sm h H a' sm' h' x)
  then show ?case using sm_alloc_ok [of a sm h H] by auto
next
  case (alloc_none a sm h H a' sm' h')
  then show ?case using sm_alloc_ok [of a sm h H] by auto
next
  case (free a sm h H x sm' h')
  then show ?case using sm_free_state [of sm "blocks a" h H x] by auto
qed

end

section \<open>On the buddy allocator\<close>

definition linear_area :: "width \<Rightarrow> usize \<Rightarrow> buddy \<times> block set \<Rightarrow> bool" where
  "linear_area w virt_base sA \<longleftrightarrow> (\<forall>x\<in>buddy_area sA. 0 < x \<and> x + virt_base + 1 < usize_lim w)"

interpretation bl: linear_pages "\<lambda>sA. run_inv w sA \<and> linear_area w vb sA" snd "\<lambda>_. Buddy.page_size" buddy_area
  "\<lambda>p. p < usize_lim w" "allocate_log w" w vb for w vb
proof
  fix sA p
  assume inv: "run_inv w sA \<and> linear_area w vb sA" and p: "p < usize_lim w"
  from bu.alloc_law [of w sA p] inv p obtain s' r where
      "allocate_log w sA p = Some (s', r)" "run_inv w s'" "buddy_area s' = buddy_area sA"
      "case r of None \<Rightarrow> snd s' = snd sA
       | Some b \<Rightarrow> snd s' = insert b (snd sA) \<and> fresh_block Buddy.page_size (buddy_area sA) (snd sA) p b" by auto
  with inv show "\<exists>s' r. allocate_log w sA p = Some (s', r) \<and> (run_inv w s' \<and> linear_area w vb s') \<and> Buddy.page_size = Buddy.page_size
      \<and> buddy_area s' = buddy_area sA \<and> (case r of None \<Rightarrow> snd s' = snd sA
       | Some b \<Rightarrow> snd s' = insert b (snd sA) \<and> fresh_block Buddy.page_size (buddy_area sA) (snd sA) p b)"
    by (auto simp: linear_area_def)
qed (auto simp: linear_area_def)

section \<open>The live objects\<close>

lemma new_state_inv:
  assumes "slab_manager_new w max_pages z = Some sm" "sm_slab_pages sm * Buddy.page_size dvd vb"
  shows "slab_state_inv w sm vb B h {}"
proof -
  note n = slab_manager_new_ok [OF assms(1)]
  have "slab_inv w sm (sh_node h) (sh_next h) [] [] [] (\<lambda>_. [])"
    using n(1,6,7) by (simp add: slab_inv_def lists_inv_def slab_list_def ring_def)
  moreover have "owned sm vb B {}" using n(3) assms(2) by (simp add: owned_def)
  ultimately show ?thesis unfolding slab_state_inv_def
    by (intro exI [of _ "[]"] exI [of _ "\<lambda>_. []"]) (simp add: live_def)
qed

lemma slot_extents:
  assumes "shape_ok w g" "base_ok w g b" "base_ok w g c" "x \<in> set (slot_list g b)" "y \<in> set (slot_list g c)" "x \<noteq> y"
  shows "{x ..< x + snd (snd g)} \<inter> {y ..< y + snd (snd g)} = {}"
proof (cases g)
  case (fields S n z)
  note bx = slot_bounds [OF assms(1) [unfolded fields] assms(4) [unfolded fields]]
  note cy = slot_bounds [OF assms(1) [unfolded fields] assms(5) [unfolded fields]]
  show ?thesis
  proof (cases "b = c")
    case True
    obtain i j where ij: "x = b + i * z" "y = b + j * z" using assms(4,5) fields True by auto
    with assms(6) have "i < j \<or> j < i" by auto
    then have "Suc i * z \<le> j * z \<or> Suc j * z \<le> i * z" by (metis Suc_leI mult_le_mono1)
    with ij fields show ?thesis by auto
  next
    case False
    obtain p q where pq: "b = S * p" "c = S * q" using assms(2,3) fields by (auto elim!: dvdE)
    with False have "p < q \<or> q < p" by auto
    then have "S * Suc p \<le> S * q \<or> S * Suc q \<le> S * p" by (metis Suc_leI mult_le_mono2)
    with pq have "b + S \<le> c \<or> c + S \<le> b" by (simp add: add.commute)
    with bx cy fields show ?thesis by auto
  qed
qed

lemma live_extents:
  assumes "slab_state_inv w sm vb B h H" "x \<in> H" "y \<in> H" "x \<noteq> y"
  shows "{x ..< x + sm_obj_size sm} \<inter> {y ..< y + sm_obj_size sm} = {}"
proof -
  obtain U I E F where s: "slab_inv w sm (sh_node h) (sh_next h) U I E F" "live (shape_of sm) U I E F = H"
    using assms(1) by (auto simp: slab_state_inv_def)
  have ok: "base_ok w (shape_of sm) b" if "b \<in> set (U @ I @ E)" for b using s(1) that by (simp add: slab_inv_def node_inv_def)
  obtain b c where "b \<in> set (U @ I @ E)" "x \<in> set (slot_list (shape_of sm) b)" "c \<in> set (U @ I @ E)" "y \<in> set (slot_list (shape_of sm) c)"
    using assms(2,3) s(2) by (auto simp: live_def)
  with slot_extents [OF slab_inv_lists(1) [OF s(1)] ok ok _ _ assms(4), of b c] show ?thesis by (simp add: shape_of_def)
qed

lemma live_count:
  assumes "slab_state_inv w sm vb B h H"
  shows "finite H \<and> card H = sm_objects_allocated sm"
proof -
  obtain U I E F where s: "slab_inv w sm (sh_node h) (sh_next h) U I E F" "live (shape_of sm) U I E F = H"
    using assms(1) by (auto simp: slab_state_inv_def)
  let ?g = "shape_of sm" and ?N = "set (U @ I @ E)" and ?A = "\<lambda>b. set (slot_list (shape_of sm) b) - set (F b)"
  note L = slab_inv_lists [OF s(1)]
  have ni: "node_inv w ?g (sh_node h) (sh_next h) b (F b)" if "b \<in> ?N" for b using s(1) that by (simp add: slab_inv_def)
  have "card (?A b) + length (F b) = sm_objs_per_slab sm" if "b \<in> ?N" for b
  proof -
    have f: "distinct (F b)" "set (F b) \<subseteq> set (slot_list ?g b)" using ni [OF that] by (simp_all add: node_inv_def)
    have "card (set (slot_list ?g b)) = sm_objs_per_slab sm" using distinct_slots [OF L(1)] by (simp add: distinct_card length_slots objs_eq)
    with f card_mono [OF _ f(2)] show ?thesis by (simp add: card_Diff_subset distinct_card)
  qed
  then have "(\<Sum>b\<in>?N. card (?A b) + length (F b)) = card ?N * sm_objs_per_slab sm" by simp
  moreover have "card (\<Union>b\<in>?N. ?A b) = (\<Sum>b\<in>?N. card (?A b))"
  proof (rule card_UN_disjoint)
    show "\<forall>b\<in>?N. \<forall>c\<in>?N. b \<noteq> c \<longrightarrow> ?A b \<inter> ?A c = {}"
      using slots_disjoint [OF L(1)] ni unfolding node_inv_def by (metis DiffD1 disjoint_iff)
  qed auto
  ultimately show ?thesis using s by (auto simp: slab_inv_def live_def sum.distrib)
qed


section \<open>Properties\<close>

lemma buddy_reach_inv:
  assumes "run_inv w sA" "linear_area w vb sA" "slab_manager_new w max_pages z = Some sm0" "sm_slab_pages sm0 * page_size dvd vb"
    "slab_reach w vb (allocate_log w) sA sm0 a sm h H"
  shows "(run_inv w a \<and> linear_area w vb a) \<and> slab_state_inv w sm vb (snd a) h H"
  using bl.reach_inv [OF assms(5)] assms(1,2) new_state_inv [OF assms(3,4)] by auto

text \<open>
  \<^bold>\<open>C7\<close> Safety of the slab layer on the buddy allocator: whatever sequence of allocations and releases has
  run, the live objects do not overlap, an allocation returns (no assertion fails, no arithmetic overflows)
  and gives an object that is not live, and a live object can be released.
\<close>
theorem slab_run_safe:
  assumes "run_inv w sA" "linear_area w vb sA" "slab_manager_new w max_pages z = Some sm0" "sm_slab_pages sm0 * page_size dvd vb"
    "slab_reach w vb (allocate_log w) sA sm0 a sm h H"
  shows "(\<forall>x\<in>H. \<forall>y\<in>H. x \<noteq> y \<longrightarrow> {x ..< x + sm_obj_size sm} \<inter> {y ..< y + sm_obj_size sm} = {})
    \<and> (\<exists>a' sm' h' r. sm_alloc w vb (allocate_log w) a sm h = Some ((a', sm', h'), r) \<and> (\<forall>x. r = Some x \<longrightarrow> x \<notin> H))
    \<and> (\<forall>x\<in>H. \<exists>sm' h'. sm_free w sm h x = Some (sm', h'))"
proof -
  note inv = buddy_reach_inv [OF assms]
  from bl.sm_alloc_ok [OF conjunct1 [OF inv] conjunct2 [OF inv]] have
    "\<exists>a' sm' h' r. sm_alloc w vb (allocate_log w) a sm h = Some ((a', sm', h'), r) \<and> (\<forall>x. r = Some x \<longrightarrow> x \<notin> H)"
    by (fastforce split: option.splits)
  moreover have "\<forall>x\<in>H. \<exists>sm' h'. sm_free w sm h x = Some (sm', h')" using bl.sm_free_state inv by metis
  moreover have "\<forall>x\<in>H. \<forall>y\<in>H. x \<noteq> y \<longrightarrow> {x ..< x + sm_obj_size sm} \<inter> {y ..< y + sm_obj_size sm} = {}"
    using live_extents inv by blast
  ultimately show ?thesis by blast
qed

lemma manager_example: "\<exists>sm. slab_manager_new W64 1024 64 = Some sm \<and> sm_slab_pages sm = 1 \<and> sm_objs_per_slab sm = 63"
  using ceil_log2_correct [of 1 W64]
  by (simp add: slab_manager_new_def MIN_OBJECTS_PER_SLAB_def slab_node_size_eq page_size_def ushl_def clog2_def)

lemma buddy_example: "\<exists>s. run_inv W64 (s, {}) \<and> ba_base s = 0x1000 \<and> ba_size s = 0x8000 \<and> (\<exists>s' b. allocate W64 s 1 = Some (s', Some b))"
proof -
  obtain s L where s: "run_lists W64 (s, {}) L" "ba_base s = 0x1000" "ba_size s = 0x8000" "covered L = block_addrs page_size (0x3000, 4)"
    using buddy_new_ok [where base = "0x1000" and maxp = "0xffffffff" and sz = "0x8000" and w = W64 and metadata = 1,
        OF _ _ _ _ _ _ _ avail_example, of clear_memory]
    by (auto simp: page_size_def whole_pages_def)
  have "covered L \<noteq> {}" by (simp add: s(4) block_addrs_def page_size_def)
  then have "\<exists>l\<in>{clog2 1..<BLOCK_LEVELS}. L l \<noteq> []" by (fastforce simp: covered_def free_blocks_def clog2_def)
  then have "\<exists>s' b. allocate W64 s 1 = Some (s', Some b)" using allocate_ok [OF s(1), of 1] by auto
  with s show ?thesis by (auto simp: run_inv_def)
qed

text \<open>A first object from a manager on an allocator of eight pages.\<close>

lemma slab_example:
  "\<exists>sA sm0 a sm h x. run_inv W64 sA \<and> linear_area W64 0xffff000000000000 sA \<and> slab_manager_new W64 1024 64 = Some sm0
    \<and> sm_slab_pages sm0 * page_size dvd 0xffff000000000000
    \<and> slab_reach W64 0xffff000000000000 (allocate_log W64) sA sm0 a sm (h :: slab_heap) {x}"
proof -
  let ?v = "0xffff000000000000" and ?h = "\<lparr>sh_node = (\<lambda>_. slab_node_new W64 0 0 0 0), sh_next = (\<lambda>_. 0)\<rparr>"
  obtain s s1 b where s: "run_inv W64 (s, {})" "ba_base s = 0x1000" "ba_size s = 0x8000" "allocate W64 s 1 = Some (s1, Some b)"
    using buddy_example by blast
  obtain sm0 where sm0: "slab_manager_new W64 1024 64 = Some sm0" "sm_slab_pages sm0 = 1" using manager_example by blast
  have lin: "linear_area W64 ?v (s, {})" using s(2,3) by (auto simp: linear_area_def buddy_area_def)
  have dv: "sm_slab_pages sm0 * page_size dvd ?v" using sm0(2) by (simp add: page_size_def)
  have "allocate_log W64 (s, {}) (sm_slab_pages sm0) \<noteq> Some (a, None)" for a using s(4) sm0(2) by (auto simp: allocate_log_def)
  moreover obtain a sm h r where al: "sm_alloc W64 ?v (allocate_log W64) (s, {}) sm0 ?h = Some ((a, sm, h), r)"
      "r = None \<longrightarrow> (\<exists>a''. allocate_log W64 (s, {}) (sm_slab_pages sm0) = Some (a'', None))"
    using bl.sm_alloc_ok [OF conjI [OF s(1) lin] new_state_inv [OF sm0(1) dv], of ?h] by (elim exE conjE) (rule that)
  ultimately obtain x where "r = Some x" by (cases r) auto
  with al(1) have "sm_alloc W64 ?v (allocate_log W64) (s, {}) sm0 ?h = Some ((a, sm, h), Some x)" by simp
  from slab_reach.alloc [OF slab_reach.start this] s(1) lin sm0(1) dv show ?thesis by blast
qed

theorem slab_run_safe_witness:
  "\<exists>sA sm0 a sm h x. slab_manager_new W64 1024 64 = Some sm0
    \<and> slab_reach W64 0xffff000000000000 (allocate_log W64) sA sm0 a sm (h :: slab_heap) {x}
    \<and> (\<exists>a' sm' h' r. sm_alloc W64 0xffff000000000000 (allocate_log W64) a sm h = Some ((a', sm', h'), r) \<and> r \<noteq> Some x)
    \<and> (\<exists>sm' h'. sm_free W64 sm h x = Some (sm', h'))"
proof -
  obtain sA sm0 a sm h x where ex: "run_inv W64 sA" "linear_area W64 0xffff000000000000 sA" "slab_manager_new W64 1024 64 = Some sm0"
      "sm_slab_pages sm0 * page_size dvd 0xffff000000000000"
      "slab_reach W64 0xffff000000000000 (allocate_log W64) sA sm0 a sm (h :: slab_heap) {x}"
    using slab_example by blast
  note run = slab_run_safe [OF ex]
  have "\<exists>a' sm' h' r. sm_alloc W64 0xffff000000000000 (allocate_log W64) a sm h = Some ((a', sm', h'), r) \<and> r \<noteq> Some x"
    using conjunct1 [OF conjunct2 [OF run]] by blast
  moreover have "\<exists>sm' h'. sm_free W64 sm h x = Some (sm', h')" using conjunct2 [OF conjunct2 [OF run]] by blast
  ultimately show ?thesis using ex(3,5) by blast
qed

text \<open>
  \<^bold>\<open>C20\<close> Accounting of the slab layer: in every reachable state there are lists \<open>U\<close>, \<open>I\<close> and \<open>E\<close> of distinct slabs
  that the manager's three circular lists hold, each slab a block of the page allocator with a chain \<open>F b\<close> of free objects
  that fills its node's count, such that the live objects are the slots on no chain, the manager's number of slabs is the number
  of these slabs, its number of available objects the number of objects on the chains and its number of allocated objects the
  number of live objects; every slab holds \<open>get_objects_per_slab\<close> objects.
\<close>
theorem slab_accounting:
  assumes "run_inv w sA" "linear_area w vb sA" "slab_manager_new w max_pages z = Some sm0" "sm_slab_pages sm0 * page_size dvd vb"
    "slab_reach w vb (allocate_log w) sA sm0 a sm h H"
  shows "\<exists>U I E F. lists_inv w sm (sh_node h) U I E \<and> owned sm vb (snd a) (set (U @ I @ E))
    \<and> (\<forall>b\<in>set (U @ I @ E). node_inv w (shape_of sm) (sh_node h) (sh_next h) b (F b)) \<and> live (shape_of sm) U I E F = H
    \<and> get_slabs_allocated sm = length (U @ I @ E) \<and> get_objects_available sm = (\<Sum>b\<leftarrow>U @ I @ E. length (F b))
    \<and> finite H \<and> get_objects_allocated sm = card H
    \<and> get_objects_allocated sm + get_objects_available sm = get_slabs_allocated sm * get_objects_per_slab sm"
proof -
  have inv: "slab_state_inv w sm vb (snd a) h H" using buddy_reach_inv [OF assms] by simp
  then obtain U I E F where s: "slab_inv w sm (sh_node h) (sh_next h) U I E F" "owned sm vb (snd a) (set (U @ I @ E))"
      "live (shape_of sm) U I E F = H" by (auto simp: slab_state_inv_def)
  note getters = get_objects_allocated_def get_objects_available_def get_slabs_allocated_def get_objects_per_slab_def
  have d: "distinct (U @ I @ E)" by (rule slab_inv_lists(2) [OF s(1)])
  have c: "sm_slabs_allocated sm = card (set (U @ I @ E))" "sm_objects_available sm = (\<Sum>b\<in>set (U @ I @ E). length (F b))"
      "sm_objects_allocated sm + sm_objects_available sm = card (set (U @ I @ E)) * sm_objs_per_slab sm"
    using s(1) unfolding slab_inv_def by blast+
  have n: "get_slabs_allocated sm = length (U @ I @ E)" "get_objects_available sm = (\<Sum>b\<leftarrow>U @ I @ E. length (F b))"
      "get_objects_allocated sm + get_objects_available sm = get_slabs_allocated sm * get_objects_per_slab sm"
    using c distinct_card [OF d] sum_list_distinct_conv_sum_set [OF d, of "\<lambda>b. length (F b)"] by (simp_all only: getters)
  have l: "lists_inv w sm (sh_node h) U I E" "\<forall>b\<in>set (U @ I @ E). node_inv w (shape_of sm) (sh_node h) (sh_next h) b (F b)"
    using s(1) unfolding slab_inv_def by blast+
  have "get_objects_allocated sm = card H" using live_count [OF inv] by (simp add: getters)
  then show ?thesis using l n s(2,3) conjunct1 [OF live_count [OF inv]] by blast
qed

theorem slab_accounting_witness:
  "\<exists>sA sm0 a sm h x U I E F. slab_reach W64 0xffff000000000000 (allocate_log W64) sA sm0 a sm (h :: slab_heap) {x}
    \<and> lists_inv W64 sm (sh_node h) U I E \<and> live (shape_of sm) U I E F = {x} \<and> get_slabs_allocated sm = length (U @ I @ E)
    \<and> get_objects_available sm = (\<Sum>b\<leftarrow>U @ I @ E. length (F b)) \<and> get_objects_allocated sm = 1"
proof -
  obtain sA sm0 a sm h x where ex: "run_inv W64 sA" "linear_area W64 0xffff000000000000 sA" "slab_manager_new W64 1024 64 = Some sm0"
      "sm_slab_pages sm0 * page_size dvd 0xffff000000000000"
      "slab_reach W64 0xffff000000000000 (allocate_log W64) sA sm0 a sm (h :: slab_heap) {x}"
    using slab_example by blast
  obtain U I E and F :: "nat \<Rightarrow> usize list" where "lists_inv W64 sm (sh_node h) U I E" "live (shape_of sm) U I E F = {x}" "get_slabs_allocated sm = length (U @ I @ E)"
      "get_objects_available sm = (\<Sum>b\<leftarrow>U @ I @ E. length (F b))" "get_objects_allocated sm = card {x}"
    using slab_accounting [OF ex] by (elim exE conjE) (rule that; assumption)
  with ex(5) show ?thesis by (intro exI conjI) (assumption | simp)+
qed

text \<open>
  Geometry of a slab: a manager that is constructed has a power of two of pages within the page
  allocator's limit, at least seven objects per slab, and its objects and the node at the end do not overlap.
\<close>
theorem slab_geometry:
  assumes "slab_manager_new w max_pages z = Some sm"
  shows "(\<exists>k. get_pages_per_slab sm = 2 ^ k) \<and> get_pages_per_slab sm \<le> max_pages \<and> 7 \<le> get_objects_per_slab sm
    \<and> get_objects_per_slab sm * z + slab_node_size w \<le> get_pages_per_slab sm * page_size"
  using slab_manager_new_ok [OF assms]
  by (auto simp: get_pages_per_slab_def get_objects_per_slab_def MIN_OBJECTS_PER_SLAB_def shape_of_def)

theorem slab_geometry_witness: "\<exists>sm. slab_manager_new W64 1024 64 = Some sm \<and> 7 \<le> get_objects_per_slab sm"
  using manager_example slab_geometry [of W64 1024 64] by metis

text \<open>
  \<open>add_slab_to_tail\<close> and \<open>remove_slab_from_list\<close> refine appending to and removing from a list of slabs,
  for every position of the removed slab, and change no counter of a node.
\<close>
theorem slab_lists_refine:
  assumes "slab_list w (sh_node h) head xs"
  shows "(a \<notin> set xs \<and> node_ok w (sh_node h) a \<longrightarrow>
      (\<exists>h' head'. add_slab_to_tail w h head a = Some (h', head') \<and> slab_list w (sh_node h') head' (xs @ [a]) \<and> same_counts (sh_node h) (sh_node h')))
    \<and> (a \<in> set xs \<longrightarrow>
      (\<exists>h' head'. remove_slab_from_list w h head a = Some (h', head') \<and> slab_list w (sh_node h') head' (remove1 a xs) \<and> same_counts (sh_node h) (sh_node h')))"
  using add_slab_ok [OF assms, of a] remove_slab_ok [OF assms, of a] by fastforce

theorem slab_lists_refine_witness:
  "\<exists>h' head'. add_slab_to_tail W64 \<lparr>sh_node = (\<lambda>_. slab_node_new W64 1 0 0 0), sh_next = (\<lambda>_. 0)\<rparr> 0 0x2fd8 = Some (h', head')
    \<and> slab_list W64 (sh_node h') head' [0x2fd8]"
  using slab_lists_refine [of W64 "\<lparr>sh_node = (\<lambda>_. slab_node_new W64 1 0 0 0), sh_next = (\<lambda>_. 0)\<rparr>" 0 "[]" "0x2fd8"]
  by (auto simp: slab_list_def ring_def node_ok_def slab_node_new_def slab_verify_def)

end
