(* ===== verification/Hashing.thy ===== *)
theory Hashing
  imports Bits
begin

text \<open>
  \<open>src/support/hash.rs\<close> and \<open>src/support/hash_map.rs\<close>: the FNV-1a hasher and the fixed-size hash
  map with quadratic probing. The hash function is a parameter of the map, as it is in the code;
  its values are 64-bit numbers and the probe arithmetic is checked 64-bit arithmetic.
\<close>

section \<open>FNV-1a\<close>

definition FNV1A_BASIS :: "32 word" where
  "FNV1A_BASIS = 0x811c9dc5"

definition FNV1A_PRIME :: "32 word" where
  "FNV1A_PRIME = 0x01000193"

record fnv1a_hasher =
  fnv_state :: "32 word"

definition fnv1a_new :: "fnv1a_hasher" where
  "fnv1a_new = \<lparr>fnv_state = FNV1A_BASIS\<rparr>"

definition fnv1a_finish :: "fnv1a_hasher \<Rightarrow> nat" where
  "fnv1a_finish s = unat (fnv_state s)"

fun fnv1a_write :: "fnv1a_hasher \<Rightarrow> 8 word list \<Rightarrow> fnv1a_hasher" where
  "fnv1a_write s [] = s"
| "fnv1a_write s (c # bytes) =
     (let x = xor (fnv_state s) (ucast c) in fnv1a_write \<lparr>fnv_state = x * FNV1A_PRIME\<rparr> bytes)"

text \<open>\<open>Hash for usize\<close> writes the bytes of the number, least significant first on the ARM targets.\<close>

definition usize_bytes :: "width \<Rightarrow> usize \<Rightarrow> 8 word list" where
  "usize_bytes w n = map (\<lambda>i. word_of_nat (n div 256 ^ i)) [0..<word_bits w div 8]"

definition fnv1a_hash_usize :: "width \<Rightarrow> usize \<Rightarrow> nat" where
  "fnv1a_hash_usize w key = fnv1a_finish (fnv1a_write fnv1a_new (usize_bytes w key))"

lemma fnv1a_hash_less: "fnv1a_hash_usize w key < 2 ^ 32"
  using unsigned_less [where ?'a = nat, of "fnv_state (fnv1a_write fnv1a_new (usize_bytes w key))"]
  by (simp add: fnv1a_hash_usize_def fnv1a_finish_def)

section \<open>The hash map\<close>

record ('k, 'v) hash_map =
  hm_map :: "('k \<times> 'v) option list"

definition make_probe_index :: "nat \<Rightarrow> nat \<Rightarrow> nat \<Rightarrow> nat option" where
  "make_probe_index h i m = do {
     sq \<leftarrow> umul W64 i i;
     s \<leftarrow> uadd W64 h sq;
     if m = 0 then None else Some (s mod m) }"

definition hm_new :: "nat \<Rightarrow> ('k, 'v) hash_map" where
  "hm_new n = \<lparr>hm_map = replicate n None\<rparr>"

text \<open>The probe loops run over the list of the remaining probe iterations.\<close>

fun insert_probe :: "nat \<Rightarrow> 'k \<Rightarrow> 'v \<Rightarrow> nat list \<Rightarrow> ('k, 'v) hash_map \<Rightarrow> (('k, 'v) hash_map \<times> bool) option" where
  "insert_probe h key v [] m = Some (m, False)"
| "insert_probe h key v (i # is) m = do {
     j \<leftarrow> make_probe_index h i (length (hm_map m));
     e \<leftarrow> idx (hm_map m) j;
     case e of
       Some p \<Rightarrow>
         if fst p = key then do { t \<leftarrow> upd (hm_map m) j (Some (fst p, v)); Some (\<lparr>hm_map = t\<rparr>, True) }
         else insert_probe h key v is m
     | None \<Rightarrow> do { t \<leftarrow> upd (hm_map m) j (Some (key, v)); Some (\<lparr>hm_map = t\<rparr>, True) } }"

definition hm_insert :: "('k \<Rightarrow> nat) \<Rightarrow> ('k, 'v) hash_map \<Rightarrow> 'k \<Rightarrow> 'v \<Rightarrow> (('k, 'v) hash_map \<times> bool) option" where
  "hm_insert hash_key m key v = insert_probe (hash_key key) key v [0..<length (hm_map m)] m"

fun find_probe :: "nat \<Rightarrow> 'k \<Rightarrow> nat list \<Rightarrow> ('k, 'v) hash_map \<Rightarrow> 'v option option" where
  "find_probe h key [] m = Some None"
| "find_probe h key (i # is) m = do {
     j \<leftarrow> make_probe_index h i (length (hm_map m));
     e \<leftarrow> idx (hm_map m) j;
     case e of
       Some p \<Rightarrow> if fst p = key then Some (Some (snd p)) else find_probe h key is m
     | None \<Rightarrow> find_probe h key is m }"

definition hm_find :: "('k \<Rightarrow> nat) \<Rightarrow> ('k, 'v) hash_map \<Rightarrow> 'k \<Rightarrow> 'v option option" where
  "hm_find hash_key m key = find_probe (hash_key key) key [0..<length (hm_map m)] m"

definition hm_clear :: "('k, 'v) hash_map \<Rightarrow> ('k, 'v) hash_map" where
  "hm_clear m = \<lparr>hm_map = map (\<lambda>_. None) (hm_map m)\<rparr>"

fun erase_probe :: "nat \<Rightarrow> 'k \<Rightarrow> nat list \<Rightarrow> ('k, 'v) hash_map \<Rightarrow> (('k, 'v) hash_map \<times> bool) option" where
  "erase_probe h key [] m = Some (m, False)"
| "erase_probe h key (i # is) m = do {
     j \<leftarrow> make_probe_index h i (length (hm_map m));
     e \<leftarrow> idx (hm_map m) j;
     case e of
       Some p \<Rightarrow>
         if fst p = key then do { t \<leftarrow> upd (hm_map m) j None; Some (\<lparr>hm_map = t\<rparr>, True) }
         else erase_probe h key is m
     | None \<Rightarrow> erase_probe h key is m }"

definition hm_erase :: "('k \<Rightarrow> nat) \<Rightarrow> ('k, 'v) hash_map \<Rightarrow> 'k \<Rightarrow> (('k, 'v) hash_map \<times> bool) option" where
  "hm_erase hash_key m key = erase_probe (hash_key key) key [0..<length (hm_map m)] m"

section \<open>Probing\<close>

definition probe_safe :: "nat \<Rightarrow> nat \<Rightarrow> bool" where
  "probe_safe h n \<longleftrightarrow> h + n * n < usize_lim W64"

definition slot :: "nat \<Rightarrow> nat \<Rightarrow> nat \<Rightarrow> nat" where
  "slot h n i = (h + i * i) mod n"

lemma make_probe_index_eq:
  assumes "probe_safe h n" "i < n"
  shows "make_probe_index h i n = Some (slot h n i)" "slot h n i < n"
proof -
  have "i * i \<le> n * n" using assms(2) by (simp add: mult_le_mono)
  then have "i * i < usize_lim W64" "h + i * i < usize_lim W64"
    using assms(1) unfolding probe_safe_def by linarith+
  then show "make_probe_index h i n = Some (slot h n i)"
    using assms(2) by (simp add: make_probe_index_def slot_def)
  show "slot h n i < n" using assms(2) by (simp add: slot_def)
qed

text \<open>
  The first iteration of a list whose slot satisfies a predicate; the three loops are searches for
  such an iteration.
\<close>

definition key_at :: "'k \<Rightarrow> ('k \<times> 'v) option \<Rightarrow> bool" where
  "key_at k e \<longleftrightarrow> (\<exists>v. e = Some (k, v))"

lemma key_at_simps [simp]: "\<not> key_at k None" "key_at k (Some p) \<longleftrightarrow> fst p = k"
  by (auto simp: key_at_def prod_eq_iff)

lemma insert_probe_eq:
  assumes "probe_safe h (length (hm_map m))" "\<forall>i\<in>set is. i < length (hm_map m)"
  shows "insert_probe h key v is m =
    (case find (\<lambda>i. hm_map m ! slot h (length (hm_map m)) i = None \<or> key_at key (hm_map m ! slot h (length (hm_map m)) i)) is of
       None \<Rightarrow> Some (m, False)
     | Some i \<Rightarrow> Some (\<lparr>hm_map = (hm_map m)[slot h (length (hm_map m)) i := Some (key, v)]\<rparr>, True))"
  using assms(2)
proof (induction "is")
  case (Cons i "is")
  then have i: "make_probe_index h i (length (hm_map m)) = Some (slot h (length (hm_map m)) i)"
      "slot h (length (hm_map m)) i < length (hm_map m)"
    using make_probe_index_eq [OF assms(1)] by auto
  then show ?case using Cons by (auto simp: i(1) split: option.split)
qed simp

lemma find_probe_eq:
  assumes "probe_safe h (length (hm_map m))" "\<forall>i\<in>set is. i < length (hm_map m)"
  shows "find_probe h key is m =
    Some (case find (\<lambda>i. key_at key (hm_map m ! slot h (length (hm_map m)) i)) is of
       None \<Rightarrow> None
     | Some i \<Rightarrow> map_option snd (hm_map m ! slot h (length (hm_map m)) i))"
  using assms(2)
proof (induction "is")
  case (Cons i "is")
  then have i: "make_probe_index h i (length (hm_map m)) = Some (slot h (length (hm_map m)) i)"
      "slot h (length (hm_map m)) i < length (hm_map m)"
    using make_probe_index_eq [OF assms(1)] by auto
  then show ?case using Cons by (auto simp: i(1) split: option.split)
qed simp

lemma erase_probe_eq:
  assumes "probe_safe h (length (hm_map m))" "\<forall>i\<in>set is. i < length (hm_map m)"
  shows "erase_probe h key is m =
    (case find (\<lambda>i. key_at key (hm_map m ! slot h (length (hm_map m)) i)) is of
       None \<Rightarrow> Some (m, False)
     | Some i \<Rightarrow> Some (\<lparr>hm_map = (hm_map m)[slot h (length (hm_map m)) i := None]\<rparr>, True))"
  using assms(2)
proof (induction "is")
  case (Cons i "is")
  then have i: "make_probe_index h i (length (hm_map m)) = Some (slot h (length (hm_map m)) i)"
      "slot h (length (hm_map m)) i < length (hm_map m)"
    using make_probe_index_eq [OF assms(1)] by auto
  then show ?case using Cons by (auto simp: i(1) split: option.split)
qed simp

lemma find_upt_Some: "find P [0..<n] = Some i \<longleftrightarrow> i < n \<and> P i \<and> (\<forall>j<i. \<not> P j)"
  by (auto simp: find_Some_iff)

lemma find_upt_None: "find P [0..<n] = None \<longleftrightarrow> (\<forall>i<n. \<not> P i)"
  by (auto simp: find_None_iff)

section \<open>The map it stands for\<close>

abbreviation entry :: "('k \<Rightarrow> nat) \<Rightarrow> ('k, 'v) hash_map \<Rightarrow> 'k \<Rightarrow> nat \<Rightarrow> ('k \<times> 'v) option" where
  "entry hash_key m k i \<equiv> hm_map m ! slot (hash_key k) (length (hm_map m)) i"

definition hm_lookup :: "('k \<Rightarrow> nat) \<Rightarrow> ('k, 'v) hash_map \<Rightarrow> 'k \<Rightarrow> 'v option" where
  "hm_lookup hash_key m k =
     (case find (\<lambda>i. key_at k (entry hash_key m k i)) [0..<length (hm_map m)] of
        None \<Rightarrow> None
      | Some i \<Rightarrow> map_option snd (entry hash_key m k i))"

definition probes_safe :: "('k \<Rightarrow> nat) \<Rightarrow> ('k, 'v) hash_map \<Rightarrow> bool" where
  "probes_safe hash_key m \<longleftrightarrow> (\<forall>k. probe_safe (hash_key k) (length (hm_map m)))"

text \<open>
  A map is packed when every entry is the first occurrence of its key on the key's probe sequence
  and is reached over occupied slots only. Insertions keep maps packed; an erasure need not.
\<close>

definition packed :: "('k \<Rightarrow> nat) \<Rightarrow> ('k, 'v) hash_map \<Rightarrow> bool" where
  "packed hash_key m \<longleftrightarrow> (\<forall>j k. j < length (hm_map m) \<and> key_at k (hm_map m ! j) \<longrightarrow>
     (\<exists>i<length (hm_map m). slot (hash_key k) (length (hm_map m)) i = j
        \<and> (\<forall>i'<i. entry hash_key m k i' \<noteq> None \<and> \<not> key_at k (entry hash_key m k i'))))"

definition hm_inv :: "('k \<Rightarrow> nat) \<Rightarrow> ('k, 'v) hash_map \<Rightarrow> bool" where
  "hm_inv hash_key m \<longleftrightarrow> probes_safe hash_key m \<and> packed hash_key m"

lemma slot_less: "i < n \<Longrightarrow> slot h n i < n"
  by (simp add: slot_def)

lemma hm_find_eq: "probes_safe hash_key m \<Longrightarrow> hm_find hash_key m k = Some (hm_lookup hash_key m k)"
  by (simp add: hm_find_def hm_lookup_def find_probe_eq probes_safe_def)

lemma hm_inv_new: "(\<And>k. probe_safe (hash_key k) n) \<Longrightarrow> hm_inv hash_key (hm_new n)" "hm_lookup hash_key (hm_new n) = Map.empty"
proof -
  have "\<not> key_at k (replicate n None ! j)" if "j < n" for j :: nat and k :: 'a using that by simp
  then show "hm_inv hash_key (hm_new n)" if "\<And>k. probe_safe (hash_key k) n"
    using that by (auto simp: hm_inv_def probes_safe_def packed_def hm_new_def)
  show "hm_lookup hash_key (hm_new n) = Map.empty"
    by (rule ext) (auto simp: hm_lookup_def hm_new_def find_upt_Some slot_less split: option.split)
qed

text \<open>Writing an entry over an empty slot or over one of the same key leaves every other key alone.\<close>

lemma lookup_other:
  assumes "j < length (hm_map m)" "\<not> key_at k (hm_map m ! j)" "\<not> key_at k e"
  shows "hm_lookup hash_key \<lparr>hm_map = (hm_map m)[j := e]\<rparr> k = hm_lookup hash_key m k"
proof -
  let ?n = "length (hm_map m)"
  have e: "key_at k ((hm_map m)[j := e] ! q) \<longleftrightarrow> key_at k (hm_map m ! q)"
    "key_at k (hm_map m ! q) \<Longrightarrow> (hm_map m)[j := e] ! q = hm_map m ! q" for q
    using assms by (cases "q = j"; simp)+
  have "find (\<lambda>i. key_at k ((hm_map m)[j := e] ! slot (hash_key k) ?n i)) [0..<?n] =
      find (\<lambda>i. key_at k (entry hash_key m k i)) [0..<?n]"
    by (simp add: e(1))
  moreover have "(hm_map m)[j := e] ! slot (hash_key k) ?n i = entry hash_key m k i"
    if "find (\<lambda>i. key_at k (entry hash_key m k i)) [0..<?n] = Some i" for i
    using that e(2) by (simp add: find_upt_Some)
  ultimately show ?thesis
    by (cases "find (\<lambda>i. key_at k (entry hash_key m k i)) [0..<?n]") (simp_all add: hm_lookup_def)
qed

lemma hm_insert_cases:
  assumes "probes_safe hash_key m"
  obtains i where "i < length (hm_map m)" "entry hash_key m k i = None \<or> key_at k (entry hash_key m k i)"
      "\<forall>i'<i. entry hash_key m k i' \<noteq> None \<and> \<not> key_at k (entry hash_key m k i')"
      "hm_insert hash_key m k v = Some (\<lparr>hm_map = (hm_map m)[slot (hash_key k) (length (hm_map m)) i := Some (k, v)]\<rparr>, True)"
    | "\<forall>i<length (hm_map m). entry hash_key m k i \<noteq> None \<and> \<not> key_at k (entry hash_key m k i)"
      "hm_insert hash_key m k v = Some (m, False)"
proof -
  let ?P = "\<lambda>i. entry hash_key m k i = None \<or> key_at k (entry hash_key m k i)"
  have ins: "hm_insert hash_key m k v = (case find ?P [0..<length (hm_map m)] of
       None \<Rightarrow> Some (m, False)
     | Some i \<Rightarrow> Some (\<lparr>hm_map = (hm_map m)[slot (hash_key k) (length (hm_map m)) i := Some (k, v)]\<rparr>, True))"
    using assms by (simp add: hm_insert_def insert_probe_eq probes_safe_def)
  show thesis
  proof (cases "find ?P [0..<length (hm_map m)]")
    case None
    show thesis
    proof (rule that(2))
      show "hm_insert hash_key m k v = Some (m, False)" using ins None by simp
      show "\<forall>i<length (hm_map m). entry hash_key m k i \<noteq> None \<and> \<not> key_at k (entry hash_key m k i)"
        using iffD1 [OF find_upt_None None] by simp
    qed
  next
    case (Some i)
    show thesis
    proof (rule that(1))
      show "hm_insert hash_key m k v = Some (\<lparr>hm_map = (hm_map m)[slot (hash_key k) (length (hm_map m)) i := Some (k, v)]\<rparr>, True)"
        using ins Some by simp
    qed (use iffD1 [OF find_upt_Some Some] in simp_all)
  qed
qed

lemma packed_write:
  assumes "packed hash_key m" "i < length (hm_map m)"
    and "entry hash_key m k i = None \<or> key_at k (entry hash_key m k i)"
    and pre: "\<forall>i'<i. entry hash_key m k i' \<noteq> None \<and> \<not> key_at k (entry hash_key m k i')"
  defines "j \<equiv> slot (hash_key k) (length (hm_map m)) i"
  shows "packed hash_key \<lparr>hm_map = (hm_map m)[j := Some (k, v)]\<rparr>"
proof -
  let ?n = "length (hm_map m)" and ?t = "(hm_map m)[j := Some (k, v)]"
  have j: "j < ?n" using assms(2) by (simp add: j_def slot_less)
  have full: "hm_map m ! q \<noteq> None \<Longrightarrow> ?t ! q \<noteq> None" for q
    using j by (cases "q = j") simp_all
  have key: "key_at k' (?t ! q) \<longleftrightarrow> (if q = j then k' = k else key_at k' (hm_map m ! q))" for q k'
    using j by (cases "q = j") auto
  have "\<exists>i<?n. slot (hash_key k') ?n i = q
      \<and> (\<forall>i'<i. ?t ! slot (hash_key k') ?n i' \<noteq> None \<and> \<not> key_at k' (?t ! slot (hash_key k') ?n i'))"
    if "q < ?n" "key_at k' (?t ! q)" for q k'
  proof (cases "q = j")
    case True
    then have "k' = k" using that key by simp
    moreover have "slot (hash_key k) ?n i' \<noteq> j" if "i' < i" for i'
      using pre that assms(3) unfolding j_def by metis
    ultimately show ?thesis
      using True assms(2) pre full key by (intro exI [of _ i]) (auto simp: j_def)
  next
    case False
    then have kq: "key_at k' (hm_map m ! q)" using that(2) key by simp
    with assms(1) that(1) obtain i2 where i2: "i2 < ?n" "slot (hash_key k') ?n i2 = q"
        "\<forall>i'<i2. entry hash_key m k' i' \<noteq> None \<and> \<not> key_at k' (entry hash_key m k' i')"
      unfolding packed_def by blast
    have "k' \<noteq> k"
    proof
      assume "k' = k"
      then have "i \<noteq> i2" "\<not> i2 < i" "\<not> i < i2"
        using i2 pre kq assms(3) False by (auto simp: j_def)
      then show False by linarith
    qed
    then show ?thesis using i2 full key by (intro exI [of _ i2]) auto
  qed
  then show ?thesis unfolding packed_def by simp
qed

lemma lookup_write:
  assumes "i < length (hm_map m)" "entry hash_key m k i = None \<or> key_at k (entry hash_key m k i)"
    and pre: "\<forall>i'<i. entry hash_key m k i' \<noteq> None \<and> \<not> key_at k (entry hash_key m k i')"
  defines "j \<equiv> slot (hash_key k) (length (hm_map m)) i"
  shows "hm_lookup hash_key \<lparr>hm_map = (hm_map m)[j := Some (k, v)]\<rparr> = (hm_lookup hash_key m)(k \<mapsto> v)"
proof (rule ext)
  fix k'
  let ?n = "length (hm_map m)" and ?t = "(hm_map m)[j := Some (k, v)]"
  have j: "j < ?n" using assms(1) by (simp add: j_def slot_less)
  show "hm_lookup hash_key \<lparr>hm_map = ?t\<rparr> k' = ((hm_lookup hash_key m)(k \<mapsto> v)) k'"
  proof (cases "k' = k")
    case True
    have "?t ! slot (hash_key k) ?n i' = entry hash_key m k i'" if "i' < i" for i'
      using pre that assms(2) unfolding j_def by (metis nth_list_update_neq)
    then have "find (\<lambda>i. key_at k (?t ! slot (hash_key k) ?n i)) [0..<?n] = Some i"
      unfolding find_upt_Some using assms(1) pre j by (auto simp flip: j_def)
    then show ?thesis using True j by (simp add: hm_lookup_def flip: j_def)
  next
    case False
    then have "\<not> key_at k' (hm_map m ! j)" using assms(2) unfolding j_def [symmetric] by (auto simp: key_at_def)
    then show ?thesis using False lookup_other [OF j, of k' "Some (k, v)" hash_key] by simp
  qed
qed

lemma occupied_write:
  assumes "j < length t"
  shows "length (filter (\<lambda>e. e \<noteq> None) (t[j := e])) \<le> Suc (length (filter (\<lambda>e. e \<noteq> None) t))"
proof -
  have t: "t = take j t @ t ! j # drop (Suc j) t" using assms by (simp add: id_take_nth_drop)
  have u: "t[j := e] = take j t @ e # drop (Suc j) t" using assms by (simp add: upd_conv_take_nth_drop)
  have "length (filter (\<lambda>e. e \<noteq> None) t) = length (filter (\<lambda>e. e \<noteq> None) (take j t @ t ! j # drop (Suc j) t))"
    using t by simp
  then show ?thesis unfolding u by simp
qed

lemma hm_insert_law:
  assumes "hm_inv hash_key m"
  shows "\<exists>m' b. hm_insert hash_key m k v = Some (m', b) \<and> hm_inv hash_key m'
    \<and> hm_lookup hash_key m' = (if b then (hm_lookup hash_key m)(k \<mapsto> v) else hm_lookup hash_key m)
    \<and> (hm_lookup hash_key m k \<noteq> None \<longrightarrow> b) \<and> length (hm_map m') = length (hm_map m)
    \<and> length (filter (\<lambda>e. e \<noteq> None) (hm_map m')) \<le> Suc (length (filter (\<lambda>e. e \<noteq> None) (hm_map m)))"
proof -
  have safe: "probes_safe hash_key m" and pk: "packed hash_key m" using assms by (simp_all add: hm_inv_def)
  show ?thesis
  proof (cases rule: hm_insert_cases [OF safe, where k = k and v = v])
    case (1 i)
    let ?m = "\<lparr>hm_map = (hm_map m)[slot (hash_key k) (length (hm_map m)) i := Some (k, v)]\<rparr>"
    have "hm_inv hash_key ?m"
      using safe packed_write [of hash_key m i k, OF pk 1(1-3), of v] by (simp add: hm_inv_def probes_safe_def)
    moreover have "length (filter (\<lambda>e. e \<noteq> None) (hm_map ?m)) \<le> Suc (length (filter (\<lambda>e. e \<noteq> None) (hm_map m)))"
      unfolding hash_map.simps by (rule occupied_write) (simp add: slot_less 1(1))
    ultimately show ?thesis
      using 1(4) lookup_write [of i m hash_key k, OF 1(1-3), of v] by (intro exI [of _ ?m] exI [of _ True]) simp
  next
    case 2
    then have "find (\<lambda>i. key_at k (entry hash_key m k i)) [0..<length (hm_map m)] = None"
      unfolding find_upt_None by simp
    then have "hm_lookup hash_key m k = None" by (simp add: hm_lookup_def)
    with 2(2) assms show ?thesis by (intro exI [of _ m] exI [of _ False]) simp
  qed
qed

section \<open>Quadratic probing on a prime table\<close>

definition prime_size :: "nat \<Rightarrow> bool" where
  "prime_size n \<longleftrightarrow> 1 < n \<and> (\<forall>d\<in>{2..<n}. \<not> d dvd n)"

lemma prime_size_dvd_mult:
  assumes "prime_size p" "p dvd a * b"
  shows "p dvd a \<or> p dvd b"
proof (rule disjCI)
  assume "\<not> p dvd b"
  let ?g = "gcd p b"
  have g: "?g dvd p" "?g dvd b" by simp_all
  have "?g \<noteq> p" using g(2) \<open>\<not> p dvd b\<close> by metis
  moreover have "?g \<le> p" "?g \<noteq> 0"
    using assms(1) g by (auto simp: prime_size_def dvd_imp_le)
  ultimately have "?g = 1"
    using assms(1) g(1) unfolding prime_size_def by (metis One_nat_def Suc_leI atLeastLessThan_iff le_neq_implies_less neq0_conv numeral_2_eq_2)
  then have "coprime p b" by (simp add: coprime_iff_gcd_eq_1)
  with assms(2) show "p dvd a" by (simp add: coprime_dvd_mult_left_iff)
qed

lemma slots_distinct:
  assumes "prime_size p" "i < j" "j \<le> p div 2"
  shows "slot h p i \<noteq> slot h p j"
proof
  assume "slot h p i = slot h p j"
  moreover have "i * i \<le> j * j" using assms(2) by (simp add: mult_le_mono)
  ultimately have "p dvd (h + j * j) - (h + i * i)"
    by (subst mod_eq_dvd_iff_nat [symmetric]) (simp_all add: slot_def)
  moreover have "(j - i) * (j + i) = (h + j * j) - (h + i * i)"
    using assms(2) by (simp add: diff_mult_distrib add_mult_distrib2 diff_mult_distrib2 algebra_simps)
  ultimately have "p dvd (j - i) * (j + i)" by metis
  then have "p dvd j - i \<or> p dvd j + i" by (rule prime_size_dvd_mult [OF assms(1)])
  moreover have "0 < j - i" "0 < j + i" "j - i < p" "j + i < p" using assms(2,3) by auto
  ultimately show False by (meson nat_dvd_not_less)
qed

definition occupied :: "('k, 'v) hash_map \<Rightarrow> nat" where
  "occupied m = length (filter (\<lambda>e. e \<noteq> None) (hm_map m))"

lemma free_slot_reached:
  assumes "prime_size (length (hm_map m))" "occupied m \<le> length (hm_map m) div 2"
  shows "\<exists>i<length (hm_map m). entry hash_key m k i = None"
proof (rule ccontr)
  let ?n = "length (hm_map m)" and ?h = "hash_key k"
  assume "\<not> ?thesis"
  moreover have half: "?n div 2 < ?n" using assms(1) by (auto simp: prime_size_def)
  ultimately have "slot ?h ?n ` {..?n div 2} \<subseteq> {j. j < ?n \<and> hm_map m ! j \<noteq> None}"
    by (fastforce simp: slot_less)
  then have "card (slot ?h ?n ` {..?n div 2}) \<le> occupied m"
    unfolding occupied_def length_filter_conv_card by (intro card_mono) auto
  moreover have "inj_on (slot ?h ?n) {..?n div 2}"
    by (rule linorder_inj_onI') (use slots_distinct [OF assms(1)] in auto)
  then have "card (slot ?h ?n ` {..?n div 2}) = Suc (?n div 2)" by (simp add: card_image)
  ultimately show False using assms(2) by simp
qed

lemma occupied_overwrite:
  assumes "j < length t" "t ! j \<noteq> None" "e \<noteq> None"
  shows "length (filter (\<lambda>e. e \<noteq> None) (t[j := e])) = length (filter (\<lambda>e. e \<noteq> None) t)"
proof -
  have "(\<lambda>i. (t[j := e]) ! i \<noteq> None) i = (t ! i \<noteq> None)" for i
    using assms by (cases "i = j") simp_all
  then show ?thesis by (simp add: length_filter_conv_card)
qed

lemma lookup_None_iff:
  "hm_lookup hash_key m k = None \<longleftrightarrow> (\<forall>i<length (hm_map m). \<not> key_at k (entry hash_key m k i))"
proof -
  have "hm_lookup hash_key m k = None \<longleftrightarrow> find (\<lambda>i. key_at k (entry hash_key m k i)) [0..<length (hm_map m)] = None"
  proof (cases "find (\<lambda>i. key_at k (entry hash_key m k i)) [0..<length (hm_map m)]")
    case (Some i)
    then have "key_at k (entry hash_key m k i)" by (simp add: find_upt_Some)
    with Some show ?thesis by (auto simp: hm_lookup_def key_at_def)
  qed (simp add: hm_lookup_def)
  then show ?thesis by (simp only: find_upt_None)
qed

definition hm_ok :: "('k \<Rightarrow> nat) \<Rightarrow> ('k, 'v) hash_map \<Rightarrow> bool" where
  "hm_ok hash_key m \<longleftrightarrow> hm_inv hash_key m \<and> prime_size (length (hm_map m))"

lemma hm_put_law:
  assumes "hm_ok hash_key m" "hm_lookup hash_key m k \<noteq> None \<or> occupied m \<le> length (hm_map m) div 2"
  shows "\<exists>m'. hm_insert hash_key m k v = Some (m', True) \<and> hm_ok hash_key m'
    \<and> hm_lookup hash_key m' = (hm_lookup hash_key m)(k \<mapsto> v) \<and> length (hm_map m') = length (hm_map m)
    \<and> occupied m' \<le> (if hm_lookup hash_key m k = None then Suc (occupied m) else occupied m)"
proof -
  have inv: "hm_inv hash_key m" and safe: "probes_safe hash_key m" and pk: "packed hash_key m"
      and pr: "prime_size (length (hm_map m))"
    using assms(1) by (simp_all add: hm_ok_def hm_inv_def)
  obtain m' b where m': "hm_insert hash_key m k v = Some (m', b)" "hm_inv hash_key m'" "length (hm_map m') = length (hm_map m)"
      "hm_lookup hash_key m' = (if b then (hm_lookup hash_key m)(k \<mapsto> v) else hm_lookup hash_key m)"
      "hm_lookup hash_key m k \<noteq> None \<longrightarrow> b" "occupied m' \<le> Suc (occupied m)"
    using hm_insert_law [OF inv] unfolding occupied_def by blast
  show ?thesis
  proof (cases rule: hm_insert_cases [OF safe, where k = k and v = v])
    case (1 i)
    let ?j = "slot (hash_key k) (length (hm_map m)) i"
    have "occupied m' \<le> occupied m" if some: "hm_lookup hash_key m k \<noteq> None"
    proof -
      from some obtain i2 where i2: "i2 < length (hm_map m)" "key_at k (entry hash_key m k i2)"
        unfolding lookup_None_iff by blast
      have "entry hash_key m k i \<noteq> None"
      proof
        assume none: "entry hash_key m k i = None"
        obtain i3 where i3: "i3 < length (hm_map m)" "entry hash_key m k i3 = entry hash_key m k i2"
            "\<forall>i'<i3. entry hash_key m k i' \<noteq> None \<and> \<not> key_at k (entry hash_key m k i')"
          using pk i2 slot_less [OF i2(1), of "hash_key k"] unfolding packed_def by metis
        have "\<not> i < i3" "\<not> i3 < i" "i \<noteq> i3" using i3 none 1(3) i2(2) by auto
        then show False by linarith
      qed
      then show ?thesis
        using 1(1,4) m'(1) occupied_overwrite [of ?j "hm_map m" "Some (k, v)"]
        by (auto simp: occupied_def slot_less)
    qed
    then show ?thesis using 1(4) m' pr by (auto simp: hm_ok_def)
  next
    case 2
    then have "\<not> (\<exists>i<length (hm_map m). entry hash_key m k i = None)" "hm_lookup hash_key m k = None"
      unfolding lookup_None_iff by auto
    with assms(2) free_slot_reached [OF pr, of hash_key k] show ?thesis by blast
  qed
qed

section \<open>The interface of a map with limited room\<close>

text \<open>
  What the core configuration relies on: a present key can always be rebound, a new one as long as
  the map has room, and \<open>find\<close> reads the binding.
\<close>

locale bounded_map =
  fixes inv :: "'m \<Rightarrow> bool"
    and lookup :: "'m \<Rightarrow> 'k \<Rightarrow> 'v option"
    and used :: "'m \<Rightarrow> nat"
    and room :: "'m \<Rightarrow> nat"
    and put :: "'m \<Rightarrow> 'k \<Rightarrow> 'v \<Rightarrow> ('m \<times> bool) option"
    and get :: "'m \<Rightarrow> 'k \<Rightarrow> 'v option option"
  assumes put_law: "inv m \<Longrightarrow> lookup m k \<noteq> None \<or> used m \<le> room m \<Longrightarrow>
      \<exists>m'. put m k v = Some (m', True) \<and> inv m' \<and> lookup m' = (lookup m)(k \<mapsto> v) \<and> room m' = room m
        \<and> used m' \<le> (if lookup m k = None then Suc (used m) else used m)"
    and get_law: "inv m \<Longrightarrow> get m k = Some (lookup m k)"
begin

text \<open>Binding a new key, then exchanging its value with that of a present one.\<close>

lemma put_swap:
  assumes "inv m" "used m \<le> room m" "lookup m k = None" "lookup m k0 \<noteq> None \<or> k0 = k"
  shows "\<exists>m1 m2 m3. put m k v = Some (m1, True) \<and> put m1 k0 v = Some (m2, True) \<and> put m2 k v0 = Some (m3, True)
    \<and> inv m3 \<and> lookup m3 = (lookup m)(k0 \<mapsto> v, k \<mapsto> v0) \<and> room m3 = room m \<and> used m3 \<le> Suc (used m)"
proof -
  obtain m1 where m1: "put m k v = Some (m1, True)" "inv m1" "lookup m1 = (lookup m)(k \<mapsto> v)" "room m1 = room m"
      "used m1 \<le> Suc (used m)"
    using put_law [OF assms(1), of k v] assms(2,3) by auto
  have k0: "lookup m1 k0 \<noteq> None" using assms(4) by (auto simp: m1(3))
  obtain m2 where m2: "put m1 k0 v = Some (m2, True)" "inv m2" "lookup m2 = (lookup m1)(k0 \<mapsto> v)" "room m2 = room m"
      "used m2 \<le> used m1"
    using put_law [OF m1(2), of k0 v] k0 m1(4) by auto
  have k2: "lookup m2 k \<noteq> None" by (simp add: m2(3) m1(3))
  obtain m3 where m3: "put m2 k v0 = Some (m3, True)" "inv m3" "lookup m3 = (lookup m2)(k \<mapsto> v0)" "room m3 = room m"
      "used m3 \<le> used m2"
    using put_law [OF m2(2), of k v0] k2 m2(4) by auto
  have "lookup m3 = (lookup m)(k0 \<mapsto> v, k \<mapsto> v0)"
    by (rule ext) (simp add: m1(3) m2(3) m3(3))
  with m1 m2 m3 show ?thesis by (intro exI [of _ m1] exI [of _ m2] exI [of _ m3]) auto
qed

end

interpretation hm: bounded_map "hm_ok hash_key" "hm_lookup hash_key" occupied "\<lambda>m. length (hm_map m) div 2"
    "hm_insert hash_key" "hm_find hash_key"
  for hash_key
proof (unfold_locales, goal_cases)
  case (1 m k v)
  then show ?case using hm_put_law [OF 1(1), of k v] by (auto split: if_splits)
qed (simp add: hm_find_eq hm_ok_def hm_inv_def)

section \<open>Erasing\<close>

lemma hm_erase_cases:
  assumes "probes_safe hash_key m"
  obtains i where "i < length (hm_map m)" "key_at k (entry hash_key m k i)" "\<forall>i'<i. \<not> key_at k (entry hash_key m k i')"
      "hm_erase hash_key m k = Some (\<lparr>hm_map = (hm_map m)[slot (hash_key k) (length (hm_map m)) i := None]\<rparr>, True)"
    | "hm_lookup hash_key m k = None" "hm_erase hash_key m k = Some (m, False)"
proof -
  let ?P = "\<lambda>i. key_at k (entry hash_key m k i)"
  have er: "hm_erase hash_key m k = (case find ?P [0..<length (hm_map m)] of
       None \<Rightarrow> Some (m, False)
     | Some i \<Rightarrow> Some (\<lparr>hm_map = (hm_map m)[slot (hash_key k) (length (hm_map m)) i := None]\<rparr>, True))"
    using assms by (simp add: hm_erase_def erase_probe_eq probes_safe_def)
  show thesis
  proof (cases "find ?P [0..<length (hm_map m)]")
    case None
    then show thesis using er that(2) by (simp add: hm_lookup_def)
  next
    case (Some i)
    then show thesis using er that(1) [of i] iffD1 [OF find_upt_Some Some] by simp
  qed
qed

lemma packed_unique:
  assumes "packed hash_key m" "q < length (hm_map m)" "q' < length (hm_map m)" "key_at k (hm_map m ! q)" "key_at k (hm_map m ! q')"
  shows "q = q'"
proof -
  from assms obtain i i' where i: "slot (hash_key k) (length (hm_map m)) i = q" "\<forall>x<i. \<not> key_at k (entry hash_key m k x)"
      "slot (hash_key k) (length (hm_map m)) i' = q'" "\<forall>x<i'. \<not> key_at k (entry hash_key m k x)"
    unfolding packed_def by metis
  then have "\<not> i < i'" "\<not> i' < i" using assms(4,5) by auto
  with i show ?thesis by (metis linorder_neqE_nat)
qed

lemma lookup_erased:
  assumes "packed hash_key m" "i < length (hm_map m)" "key_at k (entry hash_key m k i)"
  shows "hm_lookup hash_key \<lparr>hm_map = (hm_map m)[slot (hash_key k) (length (hm_map m)) i := None]\<rparr> = (hm_lookup hash_key m)(k := None)"
proof (rule ext)
  fix k'
  let ?n = "length (hm_map m)" and ?j = "slot (hash_key k) (length (hm_map m)) i"
  have j: "?j < ?n" using assms(2) by (rule slot_less)
  show "hm_lookup hash_key \<lparr>hm_map = (hm_map m)[?j := None]\<rparr> k' = ((hm_lookup hash_key m)(k := None)) k'"
  proof (cases "k' = k")
    case True
    have "\<not> key_at k ((hm_map m)[?j := None] ! q)" if "q < ?n" for q
      using packed_unique [OF assms(1) that j _ assms(3)] j by (cases "q = ?j") auto
    then show ?thesis using True by (simp add: lookup_None_iff slot_less)
  next
    case False
    then have "\<not> key_at k' (hm_map m ! ?j)" using assms(3) by (auto simp: key_at_def)
    then show ?thesis using False lookup_other [OF j, of k' None hash_key] by simp
  qed
qed

section \<open>Properties\<close>

text \<open>
  \<^bold>\<open>C22\<close> \<open>HashMap::insert\<close> and \<open>find\<close> implement a map. On a packed map an insertion does not panic and the map stays packed. It returns true
  exactly if the key was bound or one of the slots of its probe sequence is free, which is so whenever the table has prime size and at most half of its slots are occupied.
  Then \<open>find\<close> returns the new value for the key and what it returned before for every other key; otherwise nothing has changed.
\<close>

theorem hash_map_insert_find:
  assumes "hm_inv hash_key m"
  shows "\<exists>m' b. hm_insert hash_key m k v = Some (m', b) \<and> hm_inv hash_key m'
    \<and> (b \<longleftrightarrow> hm_find hash_key m k \<noteq> Some None \<or> (\<exists>i<length (hm_map m). entry hash_key m k i = None))
    \<and> (prime_size (length (hm_map m)) \<and> occupied m \<le> length (hm_map m) div 2 \<longrightarrow> b)
    \<and> (\<forall>k'. hm_find hash_key m' k' = (if b \<and> k' = k then Some (Some v) else hm_find hash_key m k')) \<and> (\<not> b \<longrightarrow> m' = m)"
proof -
  have safe: "probes_safe hash_key m" using assms by (simp add: hm_inv_def)
  obtain m' b where m': "hm_insert hash_key m k v = Some (m', b)" "hm_inv hash_key m'"
      "hm_lookup hash_key m' = (if b then (hm_lookup hash_key m)(k \<mapsto> v) else hm_lookup hash_key m)"
      "hm_lookup hash_key m k \<noteq> None \<longrightarrow> b"
    using hm_insert_law [OF assms] by blast
  have find: "hm_find hash_key m' k' = Some (hm_lookup hash_key m' k')" "hm_find hash_key m k' = Some (hm_lookup hash_key m k')" for k'
    using m'(2) safe by (simp_all add: hm_find_eq hm_inv_def)
  have b: "(b \<longleftrightarrow> hm_lookup hash_key m k \<noteq> None \<or> (\<exists>i<length (hm_map m). entry hash_key m k i = None)) \<and> (\<not> b \<longrightarrow> m' = m)"
  proof (cases rule: hm_insert_cases [OF safe, where k = k and v = v, case_names stored full])
    case (stored i)
    have "hm_lookup hash_key m k \<noteq> None" if "key_at k (entry hash_key m k i)"
      using that stored(1) by (auto simp: lookup_None_iff)
    then show "(b \<longleftrightarrow> hm_lookup hash_key m k \<noteq> None \<or> (\<exists>i<length (hm_map m). entry hash_key m k i = None)) \<and> (\<not> b \<longrightarrow> m' = m)"
      using stored m'(1) by auto
  next
    case full
    then show "(b \<longleftrightarrow> hm_lookup hash_key m k \<noteq> None \<or> (\<exists>i<length (hm_map m). entry hash_key m k i = None)) \<and> (\<not> b \<longrightarrow> m' = m)"
      using m'(1,4) by auto
  qed
  moreover have "b" if "prime_size (length (hm_map m)) \<and> occupied m \<le> length (hm_map m) div 2"
    using free_slot_reached [of m hash_key k] that b by blast
  ultimately show ?thesis using m'(1-3) by (intro exI [of _ m'] exI [of _ b]) (auto simp: find)
qed

theorem hash_map_insert_find_witness:
  "\<exists>m'. hm_insert (fnv1a_hash_usize W32) (hm_new 29 :: (nat, nat) hash_map) 7 5 = Some (m', True)
    \<and> hm_inv (fnv1a_hash_usize W32) m' \<and> hm_find (fnv1a_hash_usize W32) m' 7 = Some (Some 5) \<and> hm_find (fnv1a_hash_usize W32) m' 8 = Some None"
proof -
  let ?h = "fnv1a_hash_usize W32" and ?m = "hm_new 29 :: (nat, nat) hash_map"
  have "probe_safe (fnv1a_hash_usize W32 k) 29" for k
    using fnv1a_hash_less [of W32 k] by (simp add: probe_safe_def)
  then have inv: "hm_inv ?h ?m" by (rule hm_inv_new(1))
  then have f: "hm_find ?h ?m 8 = Some None" by (simp add: hm_find_eq hm_inv_def hm_inv_new(2))
  have "entry ?h ?m 7 0 = None" "0 < length (hm_map ?m)" by (simp_all add: hm_new_def slot_def)
  then have "\<exists>i<length (hm_map ?m). entry ?h ?m 7 i = None" by blast
  with hash_map_insert_find [OF inv, of 7 5] obtain m' b where m': "hm_insert ?h ?m 7 5 = Some (m', b)" "hm_inv ?h m'" b
      "\<forall>k'. hm_find ?h m' k' = (if b \<and> k' = 7 then Some (Some 5) else hm_find ?h ?m k')" by blast
  have "hm_find ?h m' 7 = Some (Some 5)" "hm_find ?h m' 8 = Some None" using f m'(3,4) by simp_all
  with m'(1-3) show ?thesis by auto
qed

text \<open>
  Quadratic probing on a prime table reaches more than half of its slots: an insertion into a
  table of prime size succeeds whenever at most half of the slots (rounded down) are occupied.
\<close>

theorem hash_map_insert_succeeds:
  assumes "probes_safe hash_key m" "prime_size (length (hm_map m))" "occupied m \<le> length (hm_map m) div 2"
  shows "\<exists>m'. hm_insert hash_key m k v = Some (m', True)"
proof (cases rule: hm_insert_cases [OF assms(1), where k = k and v = v])
  case 2
  then show ?thesis using free_slot_reached [OF assms(2,3), of hash_key k] by auto
qed blast

theorem hash_map_insert_succeeds_witness:
  "\<exists>m'. hm_insert (\<lambda>k. k mod 3) \<lparr>hm_map = [None, Some (4, 0), None]\<rparr> 1 5 = Some (m' :: (nat, nat) hash_map, True)"
proof (rule hash_map_insert_succeeds)
  show "probes_safe (\<lambda>k. k mod 3) \<lparr>hm_map = [None, Some (4::nat, 0::nat), None]\<rparr>"
  proof -
    have "k mod 3 < (3::nat)" for k by simp
    then have "k mod 3 + 9 < (2::nat) ^ 64" for k by (rule order.strict_trans2 [OF add_strict_right_mono]) simp
    then show ?thesis by (simp add: probes_safe_def probe_safe_def)
  qed
  have "{2..<3} = {2::nat}" by auto
  then have "prime_size 3" by (simp add: prime_size_def)
  then show "prime_size (length (hm_map \<lparr>hm_map = [None, Some (4::nat, 0::nat), None]\<rparr>))"
    by (simp add: numeral_3_eq_3)
qed (simp add: occupied_def)

text \<open>
  \<open>HashMap::erase\<close> on a packed map: it does not panic, returns whether the key was bound,
  unbinds exactly that key and leaves the binding of every other key alone.
\<close>

theorem hash_map_erase_find:
  assumes "hm_inv hash_key m"
  shows "\<exists>m' b. hm_erase hash_key m k = Some (m', b) \<and> (b \<longleftrightarrow> hm_find hash_key m k \<noteq> Some None)
    \<and> hm_find hash_key m' k = Some None \<and> (\<forall>k'. k' \<noteq> k \<longrightarrow> hm_find hash_key m' k' = hm_find hash_key m k')"
proof -
  have safe: "probes_safe hash_key m" and pk: "packed hash_key m" using assms by (simp_all add: hm_inv_def)
  show ?thesis
  proof (cases rule: hm_erase_cases [OF safe, where k = k])
    case (1 i)
    let ?m = "\<lparr>hm_map = (hm_map m)[slot (hash_key k) (length (hm_map m)) i := None]\<rparr>"
    have "probes_safe hash_key ?m" using safe by (simp add: probes_safe_def)
    moreover have "hm_lookup hash_key m k \<noteq> None" using 1(1,2) unfolding lookup_None_iff by blast
    ultimately show ?thesis
      using 1(4) lookup_erased [OF pk 1(1,2)] safe by (intro exI [of _ ?m] exI [of _ True]) (simp add: hm_find_eq)
  next
    case 2
    then show ?thesis using safe by (intro exI [of _ m] exI [of _ False]) (simp add: hm_find_eq)
  qed
qed

theorem hash_map_erase_find_witness:
  "\<exists>m' b. hm_erase (fnv1a_hash_usize W64) (hm_new 389 :: (nat, nat) hash_map) 7 = Some (m', b) \<and> \<not> b"
proof -
  have "probe_safe (fnv1a_hash_usize W64 k) 389" for k
    using fnv1a_hash_less [of W64 k] by (simp add: probe_safe_def)
  then have i: "hm_inv (fnv1a_hash_usize W64) (hm_new 389 :: (nat, nat) hash_map)" by (rule hm_inv_new(1))
  then have "hm_find (fnv1a_hash_usize W64) (hm_new 389 :: (nat, nat) hash_map) 7 = Some None"
    by (simp add: hm_find_eq hm_inv_def hm_inv_new(2))
  with hash_map_erase_find [OF i, of 7] show ?thesis by auto
qed

text \<open>
  An erased slot breaks the map: with two keys of one hash value, insert both, erase the
  first, and insert the second again. The new binding goes to the freed slot and the old one stays
  behind, so erasing the second key returns true and still leaves it bound, to its stale value.
\<close>

lemma hash_map_stale_binding:
  "do { (m, _) \<leftarrow> hm_insert (\<lambda>_. 0) (hm_new 3 :: (nat, nat) hash_map) 1 10;
        (m, _) \<leftarrow> hm_insert (\<lambda>_. 0) m 2 20;
        (m, _) \<leftarrow> hm_erase (\<lambda>_. 0) m 1;
        (m, _) \<leftarrow> hm_insert (\<lambda>_. 0) m 2 30;
        (m, erased) \<leftarrow> hm_erase (\<lambda>_. 0) m 2;
        found \<leftarrow> hm_find (\<lambda>_. 0) m 2;
        Some (erased, found) } = Some (True, Some 20)"
proof -
  have l: "[0..<Suc (Suc (Suc 0))] = [0, 1, 2]" by (simp add: upt_rec)
  have t: "replicate 3 None = [None, None, None :: (nat \<times> nat) option]" by (simp add: numeral_3_eq_3)
  show ?thesis
    by (simp add: hm_new_def t hm_insert_def hm_erase_def hm_find_def l make_probe_index_def)
qed

end
