(* ===== verification/Cores.thy ===== *)
theory Cores
  imports Hashing
begin

text \<open>
  \<open>src/arch/common/cpu.rs\<close>: the table of logical cores and the map from hardware identifiers to
  core indices, searched linearly for up to 32 cores and through the hash map above. The proofs use
  the map through the interface \<open>bounded_map\<close>.
\<close>

section \<open>Data and operations\<close>

fun MAX_CORES :: "width \<Rightarrow> nat" where
  "MAX_CORES W64 = 256"
| "MAX_CORES W32 = 16"

definition CORE_TYPE_LEN :: nat where
  "CORE_TYPE_LEN = 64"

fun CORE_MAP_SIZE :: "width \<Rightarrow> nat" where
  "CORE_MAP_SIZE W64 = 389"
| "CORE_MAP_SIZE W32 = 29"

datatype core_enable_method = InvalidMethod | SpinTable | Bcm2836

record core =
  core_id :: usize
  core_type :: "8 word list"
  enable_method :: core_enable_method
  release_addr :: usize

definition core_new :: core where
  "core_new = \<lparr>core_id = 0, core_type = replicate CORE_TYPE_LEN 0, enable_method = InvalidMethod, release_addr = 0\<rparr>"

type_synonym id_map = "(usize, usize) hash_map"

record core_config =
  cc_cores :: "core list"
  cc_core_count :: usize
  cc_id_map :: id_map

definition core_config_new :: "width \<Rightarrow> core_config" where
  "core_config_new w =
     \<lparr>cc_cores = replicate (MAX_CORES w) core_new, cc_core_count = 0, cc_id_map = hm_new (CORE_MAP_SIZE w)\<rparr>"

definition add_core :: "width \<Rightarrow> core_config \<Rightarrow> core \<Rightarrow> bool \<Rightarrow> (core_config \<times> bool) option" where
  "add_core w c cr is_primary =
     (if cc_core_count c \<ge> MAX_CORES w then Some (c, False)
      else do {
        let n = cc_core_count c;
        (im, _) \<leftarrow> hm_insert (fnv1a_hash_usize w) (cc_id_map c) (core_id cr) n;
        cores \<leftarrow> upd (cc_cores c) n cr;
        (im, cores) \<leftarrow>
          (if is_primary then do {
             c0 \<leftarrow> idx cores 0;
             cn \<leftarrow> idx cores n;
             (im, _) \<leftarrow> hm_insert (fnv1a_hash_usize w) im (core_id c0) n;
             (im, _) \<leftarrow> hm_insert (fnv1a_hash_usize w) im (core_id cn) 0;
             Some (im, cores[0 := cn, n := c0]) }
           else Some (im, cores));
        Some (\<lparr>cc_cores = cores, cc_core_count = n + 1, cc_id_map = im\<rparr>, True) })"

definition cores_reset :: "core_config \<Rightarrow> core_config" where
  "cores_reset c = c\<lparr>cc_core_count := 0, cc_id_map := hm_clear (cc_id_map c)\<rparr>"

fun search_core :: "core list \<Rightarrow> usize \<Rightarrow> nat list \<Rightarrow> usize option option" where
  "search_core cores i [] = Some None"
| "search_core cores i (k # ks) = do {
     cr \<leftarrow> idx cores k;
     if core_id cr = i then Some (Some k) else search_core cores i ks }"

definition get_core_index :: "width \<Rightarrow> core_config \<Rightarrow> usize \<Rightarrow> usize option option" where
  "get_core_index w c i =
     (if cc_core_count c \<le> 32 then search_core (cc_cores c) i [0..<cc_core_count c]
      else hm_find (fnv1a_hash_usize w) (cc_id_map c) i)"

definition get_core_count :: "core_config \<Rightarrow> usize" where
  "get_core_count c = cc_core_count c"

definition get_cores :: "core_config \<Rightarrow> core list option" where
  "get_cores c = (if cc_core_count c \<le> length (cc_cores c) then Some (take (cc_core_count c) (cc_cores c)) else None)"

section \<open>Sizes\<close>

lemma prime_size_bound:
  assumes "1 < n" "n < b * b" "\<forall>d\<in>{2..<b}. \<not> d dvd n"
  shows "prime_size n"
  unfolding prime_size_def
proof (intro conjI ballI assms(1) notI)
  fix d assume d: "d \<in> {2..<n}" "d dvd n"
  then obtain q where q: "n = d * q" by (auto elim: dvdE)
  then have "q \<noteq> 0" "q \<noteq> 1" using d assms(1) by auto
  moreover have "\<not> (b \<le> d \<and> b \<le> q)" using assms(2) q mult_le_mono [of b d b q] by auto
  moreover have "q dvd n" using q by simp
  ultimately show False using assms(3) d by (metis One_nat_def Suc_leI atLeastLessThan_iff le_neq_implies_less neq0_conv not_le numeral_2_eq_2)
qed

lemma prime_core_map_size: "prime_size (CORE_MAP_SIZE w)"
proof -
  have "\<forall>d\<in>{2..<20}. \<not> d dvd (389::nat)" unfolding atLeastLessThan_upt by (simp add: upt_rec)
  then have "prime_size 389" by (intro prime_size_bound [of 389 20]) simp_all
  moreover have "\<forall>d\<in>{2..<6}. \<not> d dvd (29::nat)" unfolding atLeastLessThan_upt by (simp add: upt_rec)
  then have "prime_size 29" by (intro prime_size_bound [of 29 6]) simp_all
  ultimately show ?thesis by (cases w) simp_all
qed

lemma core_probe_safe: "probe_safe (fnv1a_hash_usize w k) (CORE_MAP_SIZE w)"
  using fnv1a_hash_less [of w k] by (cases w) (simp_all add: probe_safe_def)

section \<open>Invariant\<close>

definition core_ids :: "core_config \<Rightarrow> usize list" where
  "core_ids c = map core_id (take (cc_core_count c) (cc_cores c))"

abbreviation core_lookup :: "width \<Rightarrow> core_config \<Rightarrow> usize \<Rightarrow> usize option" where
  "core_lookup w c \<equiv> hm_lookup (fnv1a_hash_usize w) (cc_id_map c)"

text \<open>
  The identifiers are distinct. The hash map agrees with the table as long as no insertion into it
  can have failed.
\<close>

definition map_agrees :: "width \<Rightarrow> core_config \<Rightarrow> bool" where
  "map_agrees w c \<longleftrightarrow> occupied (cc_id_map c) \<le> cc_core_count c \<and> dom (core_lookup w c) = set (core_ids c)
     \<and> (\<forall>i<cc_core_count c. core_lookup w c (core_ids c ! i) = Some i)"

definition cc_inv :: "width \<Rightarrow> core_config \<Rightarrow> bool" where
  "cc_inv w c \<longleftrightarrow> length (cc_cores c) = MAX_CORES w \<and> cc_core_count c \<le> MAX_CORES w \<and> distinct (core_ids c)
     \<and> hm_ok (fnv1a_hash_usize w) (cc_id_map c) \<and> length (hm_map (cc_id_map c)) = CORE_MAP_SIZE w
     \<and> (cc_core_count c \<le> Suc (CORE_MAP_SIZE w div 2) \<longrightarrow> map_agrees w c)"

lemma cc_inv_new: "cc_inv w (core_config_new w)"
  using hm_inv_new [of "fnv1a_hash_usize w" "CORE_MAP_SIZE w"] core_probe_safe prime_core_map_size
  by (auto simp: cc_inv_def core_config_new_def core_ids_def map_agrees_def hm_ok_def occupied_def hm_new_def)

lemma core_ids_length: "cc_inv w c \<Longrightarrow> length (core_ids c) = cc_core_count c"
  by (simp add: core_ids_def cc_inv_def)

lemma search_core_eq:
  assumes "\<forall>k\<in>set ks. k < length cores"
  shows "search_core cores i ks = Some (find (\<lambda>k. core_id (cores ! k) = i) ks)"
  using assms by (induction ks) auto

lemma insert_keeps_ok:
  assumes "hm_ok hash_key m"
  shows "\<exists>m' b. hm_insert hash_key m k v = Some (m', b) \<and> hm_ok hash_key m' \<and> length (hm_map m') = length (hm_map m)"
  using hm_insert_law [of hash_key m k v] assms by (auto simp: hm_ok_def)

definition added_cores :: "core_config \<Rightarrow> core \<Rightarrow> bool \<Rightarrow> core list" where
  "added_cores c cr is_primary =
     (let cores = (cc_cores c)[cc_core_count c := cr] in
      if is_primary then cores[0 := cr, cc_core_count c := cores ! 0] else cores)"

lemma add_core_primary_map:
  assumes "hm_ok hash_key m"
  shows "\<exists>m1 b1 m2 b2 m3 b3. hm_insert hash_key m k v = Some (m1, b1) \<and> hm_insert hash_key m1 k0 v = Some (m2, b2)
    \<and> hm_insert hash_key m2 k v0 = Some (m3, b3) \<and> hm_ok hash_key m3 \<and> length (hm_map m3) = length (hm_map m)"
proof -
  obtain m1 b1 where m1: "hm_insert hash_key m k v = Some (m1, b1)" "hm_ok hash_key m1" "length (hm_map m1) = length (hm_map m)"
    using insert_keeps_ok [OF assms] by blast
  obtain m2 b2 where m2: "hm_insert hash_key m1 k0 v = Some (m2, b2)" "hm_ok hash_key m2" "length (hm_map m2) = length (hm_map m)"
    using insert_keeps_ok [OF m1(2), of k0 v] m1(3) by auto
  obtain m3 b3 where "hm_insert hash_key m2 k v0 = Some (m3, b3)" "hm_ok hash_key m3" "length (hm_map m3) = length (hm_map m)"
    using insert_keeps_ok [OF m2(2), of k v0] m2(3) by auto
  with m1 m2 show ?thesis by blast
qed

lemma add_core_eq:
  fixes cr :: core
  assumes "cc_inv w c" "cc_core_count c < MAX_CORES w"
  defines "n \<equiv> cc_core_count c" and "k0 \<equiv> core_id ((cc_cores c)[cc_core_count c := cr] ! 0)"
  shows "\<exists>im. add_core w c cr is_primary =
      Some (\<lparr>cc_cores = added_cores c cr is_primary, cc_core_count = Suc n, cc_id_map = im\<rparr>, True)
    \<and> hm_ok (fnv1a_hash_usize w) im \<and> length (hm_map im) = CORE_MAP_SIZE w
    \<and> (n \<le> CORE_MAP_SIZE w div 2 \<and> core_lookup w c (core_id cr) = None \<and> (core_lookup w c k0 \<noteq> None \<or> k0 = core_id cr) \<longrightarrow>
        hm_lookup (fnv1a_hash_usize w) im =
          (if is_primary then (core_lookup w c)(k0 \<mapsto> n, core_id cr \<mapsto> 0) else (core_lookup w c)(core_id cr \<mapsto> n))
        \<and> occupied im \<le> Suc n)"
proof -
  let ?h = "fnv1a_hash_usize w" and ?m = "cc_id_map c" and ?k = "core_id cr"
  have inv: "hm_ok ?h ?m" "length (hm_map ?m) = CORE_MAP_SIZE w" "length (cc_cores c) = MAX_CORES w"
    using assms(1) by (auto simp: cc_inv_def)
  have occ: "occupied ?m \<le> n" if "n \<le> CORE_MAP_SIZE w div 2"
    using assms(1) that by (auto simp: cc_inv_def map_agrees_def n_def)
  have n: "n < length (cc_cores c)" "0 < length (cc_cores c)" using assms(2) inv(3) by (auto simp: n_def)
  note simps = add_core_def added_cores_def n_def [symmetric] Let_def
  show ?thesis
  proof (cases is_primary)
    case True
    obtain m1 b1 m2 b2 m3 b3 where m: "hm_insert ?h ?m ?k n = Some (m1, b1)" "hm_insert ?h m1 k0 n = Some (m2, b2)"
        "hm_insert ?h m2 ?k 0 = Some (m3, b3)" "hm_ok ?h m3" "length (hm_map m3) = length (hm_map ?m)"
      using add_core_primary_map [OF inv(1)] by blast
    have "add_core w c cr is_primary =
        Some (\<lparr>cc_cores = added_cores c cr is_primary, cc_core_count = Suc n, cc_id_map = m3\<rparr>, True)"
      using True assms(2) n m(1-3) by (simp add: simps k0_def)
    moreover have "hm_lookup ?h m3 = (core_lookup w c)(k0 \<mapsto> n, ?k \<mapsto> 0) \<and> occupied m3 \<le> Suc n"
      if "n \<le> CORE_MAP_SIZE w div 2" "core_lookup w c ?k = None" "core_lookup w c k0 \<noteq> None \<or> k0 = ?k"
      using hm.put_swap [OF inv(1), of ?k k0 n 0] occ that m(1-3) inv(2) by auto
    ultimately show ?thesis using m(4,5) inv(2) True by auto
  next
    case False
    obtain m1 b1 where m: "hm_insert ?h ?m ?k n = Some (m1, b1)" "hm_ok ?h m1" "length (hm_map m1) = length (hm_map ?m)"
      using insert_keeps_ok [OF inv(1)] by blast
    have "add_core w c cr is_primary =
        Some (\<lparr>cc_cores = added_cores c cr is_primary, cc_core_count = Suc n, cc_id_map = m1\<rparr>, True)"
      using False assms(2) n m(1) by (simp add: simps)
    moreover have "hm_lookup ?h m1 = (core_lookup w c)(?k \<mapsto> n) \<and> occupied m1 \<le> Suc n"
      if "n \<le> CORE_MAP_SIZE w div 2" "core_lookup w c ?k = None"
      using hm.put_law [OF inv(1), of ?k n] occ that m(1) inv(2) by auto
    ultimately show ?thesis using m(2,3) inv(2) False by auto
  qed
qed

definition swap_in :: "'a list \<Rightarrow> 'a \<Rightarrow> bool \<Rightarrow> 'a list" where
  "swap_in xs x first = (let ys = xs @ [x] in if first then ys[0 := ys ! length xs, length xs := ys ! 0] else ys)"

lemma swap_in_props:
  "length (swap_in xs x first) = Suc (length xs)" "set (swap_in xs x first) = insert x (set xs)"
  "distinct (swap_in xs x first) \<longleftrightarrow> distinct (xs @ [x])" "map f (swap_in xs x first) = swap_in (map f xs) (f x) first"
  using set_swap [of 0 "xs @ [x]" "length xs"] distinct_swap [of 0 "xs @ [x]" "length xs"]
  by (auto simp: swap_in_def Let_def map_update nth_append)

lemma added_cores_take:
  assumes "cc_core_count c < length (cc_cores c)"
  shows "take (Suc (cc_core_count c)) (added_cores c cr p) = swap_in (take (cc_core_count c) (cc_cores c)) cr p"
    "length (added_cores c cr p) = length (cc_cores c)"
proof -
  let ?n = "cc_core_count c" and ?xs = "cc_cores c"
  have t: "take (Suc ?n) (?xs[?n := cr]) = take ?n ?xs @ [cr]"
    using assms by (simp add: take_Suc_conv_app_nth)
  then have "?xs[?n := cr] ! 0 = (take ?n ?xs @ [cr]) ! 0" by (metis nth_take zero_less_Suc)
  with t assms show "take (Suc ?n) (added_cores c cr p) = swap_in (take ?n ?xs) cr p"
    by (simp add: added_cores_def swap_in_def Let_def take_update_swap nth_append)
qed (simp add: added_cores_def Let_def)

lemma swap_in_nth:
  assumes "i \<le> length xs"
  shows "swap_in xs x first ! i =
    (if first then if i = 0 then x else if i = length xs then xs ! 0 else xs ! i
     else if i = length xs then x else xs ! i)"
  using assms by (cases "xs = []") (auto simp: swap_in_def Let_def nth_append nth_list_update)

lemma map_agrees_added:
  fixes first :: bool
  assumes "length ids = n" "distinct (ids @ [k])" "dom lk = set ids" "\<forall>i<n. lk (ids ! i) = Some i"
    and "k0 = (ids @ [k]) ! 0"
  defines "lk' \<equiv> (if first then lk(k0 \<mapsto> n, k \<mapsto> 0) else lk(k \<mapsto> n))"
  shows "dom lk' = set (swap_in ids k first)" "i \<le> n \<Longrightarrow> lk' (swap_in ids k first ! i) = Some i"
proof -
  have ne: "ids ! i \<noteq> k" if "i < n" for i using that assms(1,2) by auto
  have ne0: "ids ! i \<noteq> ids ! 0" if "0 < i" "i < n" for i
    using that assms(1,2) by (simp add: nth_eq_iff_index_eq)
  show "dom lk' = set (swap_in ids k first)"
    using assms(1,3,5) by (cases "ids = []") (auto simp: lk'_def swap_in_props(2) nth_append)
  show "lk' (swap_in ids k first ! i) = Some i" if le: "i \<le> n"
  proof (cases "ids = []")
    case True
    then show ?thesis using assms(1) that by (simp add: lk'_def swap_in_def)
  next
    case False
    then have k0: "k0 = ids ! 0" using assms(5) by (simp add: nth_append)
    consider "i = 0" | "0 < i" "i < n" | "i = n" "0 < n" using le by linarith
    then show ?thesis
      by cases (use assms(1,4) k0 ne ne0 False in \<open>auto simp: lk'_def swap_in_nth\<close>)
  qed
qed

lemma add_core_inv:
  assumes "cc_inv w c" "cc_core_count c < MAX_CORES w" "core_id cr \<notin> set (core_ids c)"
  shows "\<exists>c'. add_core w c cr p = Some (c', True) \<and> cc_inv w c' \<and> cc_core_count c' = Suc (cc_core_count c)
    \<and> take (cc_core_count c') (cc_cores c') = swap_in (take (cc_core_count c) (cc_cores c)) cr p"
proof -
  let ?n = "cc_core_count c" and ?ids = "core_ids c" and ?k = "core_id cr"
  have len: "?n < length (cc_cores c)" using assms(1,2) by (simp add: cc_inv_def)
  have ids: "length ?ids = ?n" "distinct (?ids @ [?k])"
    using assms(1,3) core_ids_length [OF assms(1)] by (auto simp: cc_inv_def)
  define k0 where "k0 = core_id ((cc_cores c)[?n := cr] ! 0)"
  have k0: "k0 = (?ids @ [?k]) ! 0"
    using len by (cases "?n = 0") (simp_all add: k0_def core_ids_def nth_append)
  obtain im where im: "add_core w c cr p = Some (\<lparr>cc_cores = added_cores c cr p, cc_core_count = Suc ?n, cc_id_map = im\<rparr>, True)"
      "hm_ok (fnv1a_hash_usize w) im" "length (hm_map im) = CORE_MAP_SIZE w"
      and upd: "?n \<le> CORE_MAP_SIZE w div 2 \<Longrightarrow> core_lookup w c ?k = None \<Longrightarrow> core_lookup w c k0 \<noteq> None \<or> k0 = ?k \<Longrightarrow>
        hm_lookup (fnv1a_hash_usize w) im =
          (if p then (core_lookup w c)(k0 \<mapsto> ?n, ?k \<mapsto> 0) else (core_lookup w c)(?k \<mapsto> ?n)) \<and> occupied im \<le> Suc ?n"
    using add_core_eq [OF assms(1,2), of cr p] unfolding k0_def by blast
  let ?c = "\<lparr>cc_cores = added_cores c cr p, cc_core_count = Suc ?n, cc_id_map = im\<rparr>"
  have ids': "core_ids ?c = swap_in ?ids ?k p"
    by (simp add: core_ids_def added_cores_take(1) [OF len] swap_in_props(4))
  have "map_agrees w ?c" if "Suc ?n \<le> Suc (CORE_MAP_SIZE w div 2)"
  proof -
    have ag: "dom (core_lookup w c) = set ?ids" "\<forall>i<?n. core_lookup w c (?ids ! i) = Some i"
      using assms(1) that by (auto simp: cc_inv_def map_agrees_def)
    have "core_lookup w c ?k = None" using ag(1) assms(3) by blast
    moreover have "core_lookup w c k0 \<noteq> None \<or> k0 = ?k"
      using ag(2) ids(1) k0 by (cases "?n = 0") (auto simp: nth_append)
    ultimately show ?thesis
      using upd that map_agrees_added [OF ids ag k0, where first = p] ids' by (simp add: map_agrees_def less_Suc_eq_le)
  qed
  moreover have "length (added_cores c cr p) = MAX_CORES w"
    using added_cores_take(2) [OF len] assms(1) by (simp add: cc_inv_def)
  ultimately have "cc_inv w ?c"
    using im assms(2) ids' ids(2) by (simp add: cc_inv_def swap_in_props(3))
  with im(1) added_cores_take(1) [OF len] show ?thesis by auto
qed

lemma get_core_index_eq:
  assumes "cc_inv w c" "cc_core_count c \<le> 32 \<or> cc_core_count c \<le> Suc (CORE_MAP_SIZE w div 2)"
  shows "\<exists>r. get_core_index w c i = Some r \<and> (\<forall>k. r = Some k \<longleftrightarrow> k < cc_core_count c \<and> core_ids c ! k = i)"
proof -
  let ?n = "cc_core_count c"
  have inv: "length (cc_cores c) = MAX_CORES w" "?n \<le> MAX_CORES w" "distinct (core_ids c)"
      "length (core_ids c) = ?n"
    using assms(1) core_ids_length [OF assms(1)] by (auto simp: cc_inv_def)
  have uniq: "k = k'" if "k < ?n" "k' < ?n" "core_ids c ! k = core_ids c ! k'" for k k'
    using that inv(3,4) by (simp add: nth_eq_iff_index_eq)
  have nth: "core_ids c ! k = core_id (cc_cores c ! k)" if "k < ?n" for k
    using that inv by (simp add: core_ids_def)
  show ?thesis
  proof (cases "?n \<le> 32")
    case True
    have "get_core_index w c i = Some (find (\<lambda>k. core_id (cc_cores c ! k) = i) [0..<?n])"
      using True inv by (simp add: get_core_index_def search_core_eq)
    moreover have "find (\<lambda>k. core_id (cc_cores c ! k) = i) [0..<?n] = Some k \<longleftrightarrow> k < ?n \<and> core_ids c ! k = i" for k
      using nth uniq unfolding find_upt_Some by (metis less_trans nat_neq_iff)
    ultimately show ?thesis by blast
  next
    case False
    then have ag: "dom (core_lookup w c) = set (core_ids c)" "\<forall>k<?n. core_lookup w c (core_ids c ! k) = Some k"
      using assms by (auto simp: cc_inv_def map_agrees_def)
    have "get_core_index w c i = Some (core_lookup w c i)"
      using False assms(1) by (simp add: get_core_index_def hm.get_law cc_inv_def)
    moreover have "core_lookup w c i = Some k \<longleftrightarrow> k < ?n \<and> core_ids c ! k = i" for k
      using ag inv(4) by (metis domI in_set_conv_nth option.inject)
    ultimately show ?thesis by blast
  qed
qed

section \<open>Properties\<close>

text \<open>
  \<^bold>\<open>C23\<close> \<open>CoreConfig::add_core\<close>: on a configuration with room and for a new hardware identifier it
  returns true and keeps the invariant; the table then holds the old cores in their order followed
  by the new one, except that a primary core takes index 0 and the core that was there takes the last
  index. On a full configuration it returns false and changes nothing.
\<close>

theorem add_core_correct:
  assumes "cc_inv w c" "core_id cr \<notin> set (core_ids c)"
  shows "if cc_core_count c < MAX_CORES w
    then \<exists>c'. add_core w c cr is_primary = Some (c', True) \<and> cc_inv w c' \<and> cc_core_count c' = Suc (cc_core_count c)
      \<and> set (core_ids c') = insert (core_id cr) (set (core_ids c))
      \<and> (is_primary \<longrightarrow> cc_cores c' ! 0 = cr)
      \<and> (\<not> is_primary \<longrightarrow> take (cc_core_count c') (cc_cores c') = take (cc_core_count c) (cc_cores c) @ [cr])
    else add_core w c cr is_primary = Some (c, False)"
proof (cases "cc_core_count c < MAX_CORES w")
  case True
  obtain c' where c': "add_core w c cr is_primary = Some (c', True)" "cc_inv w c'" "cc_core_count c' = Suc (cc_core_count c)"
      "take (cc_core_count c') (cc_cores c') = swap_in (take (cc_core_count c) (cc_cores c)) cr is_primary"
    using add_core_inv [OF assms(1) True assms(2)] by blast
  have "set (core_ids c') = insert (core_id cr) (set (core_ids c))"
    by (simp add: core_ids_def c'(4) swap_in_props)
  moreover have "cc_cores c' ! 0 = cr" if is_primary
    using arg_cong [OF c'(4), of "\<lambda>xs. xs ! 0"] that c'(3) by (simp add: swap_in_nth)
  moreover have "take (cc_core_count c') (cc_cores c') = take (cc_core_count c) (cc_cores c) @ [cr]" if "\<not> is_primary"
    using that c'(4) by (simp add: swap_in_def)
  ultimately show ?thesis using True c'(1-3) by auto
qed (simp add: add_core_def)

theorem add_core_correct_witness:
  "\<exists>c'. add_core W64 (core_config_new W64) (core_new\<lparr>core_id := 3\<rparr>) True = Some (c', True) \<and> core_id (cc_cores c' ! 0) = 3"
  using add_core_correct [OF cc_inv_new [of W64], of "core_new\<lparr>core_id := 3\<rparr>" True]
  by (auto simp: core_ids_def core_config_new_def)

text \<open>
  \<^bold>\<open>C24\<close> \<open>CoreConfig::get_core_index\<close> is the inverse of the table: it returns the index whose core has
  the identifier, and \<open>None\<close> when no core has it. On 32-bit builds this holds for every configuration, on
  64-bit builds for up to 195 cores; above that an insertion into the hash map may have failed
  unnoticed.
\<close>

theorem get_core_index_correct:
  assumes "cc_inv w c" "w = W64 \<longrightarrow> cc_core_count c \<le> 195"
  shows "\<exists>r. get_core_index w c i = Some r \<and> (\<forall>k. r = Some k \<longleftrightarrow> k < cc_core_count c \<and> core_ids c ! k = i)"
proof (rule get_core_index_eq [OF assms(1)])
  show "cc_core_count c \<le> 32 \<or> cc_core_count c \<le> Suc (CORE_MAP_SIZE w div 2)"
    using assms by (cases w) (auto simp: cc_inv_def)
qed

theorem get_core_index_correct_witness:
  "\<exists>c r. add_core W64 (core_config_new W64) (core_new\<lparr>core_id := 3\<rparr>) True = Some (c, True)
    \<and> get_core_index W64 c 3 = Some r \<and> r = Some 0"
proof -
  obtain c where c: "add_core W64 (core_config_new W64) (core_new\<lparr>core_id := 3\<rparr>) True = Some (c, True)" "cc_inv W64 c"
      "cc_core_count c = 1" "take (cc_core_count c) (cc_cores c) = [core_new\<lparr>core_id := 3\<rparr>]"
    using add_core_inv [OF cc_inv_new [of W64], of "core_new\<lparr>core_id := 3\<rparr>" True]
    by (auto simp: core_ids_def core_config_new_def swap_in_def)
  have "core_ids c ! 0 = 3" by (simp add: core_ids_def c(4))
  moreover obtain r where "get_core_index W64 c 3 = Some r" "r = Some 0 \<longleftrightarrow> 0 < cc_core_count c \<and> core_ids c ! 0 = 3"
    using get_core_index_correct [OF c(2), of 3] c(3) by auto
  ultimately have "get_core_index W64 c 3 = Some (Some 0)" using c(3) by simp
  with c(1) show ?thesis by blast
qed

end
