(* ===== verification/Slab_Caches.thy ===== *)
theory Slab_Caches
  imports Slab_Runs Cores
begin

text \<open>
  The bundle layer and the core cache layer of \<open>src/mm/slab_allocator.rs\<close>: \<open>BundleManager\<close>,
  \<open>CoreCache\<close> and \<open>SlabAllocator\<close>. The heap of the slab layer is extended by the bundles and the
  \<open>next\<close> fields of their wrappers. Locks are taken and released inside one operation and interrupts are
  masked for its duration, so an operation is one step of its core; \<open>core_idx\<close> stands for
  \<open>arch::get_current_core_index()\<close>. Initialization and deinitialization of the objects are the client's.
\<close>

section \<open>Bundles\<close>

definition BUNDLE_SIZE :: usize where
  "BUNDLE_SIZE = 16"

record bundle_heap = slab_heap +
  bh_bundle :: "usize \<Rightarrow> usize list"
  bh_next :: "usize \<Rightarrow> usize"

text \<open>The size of \<open>ObjectWrapper<BundleWrapper>\<close>: sixteen addresses and two links.\<close>

definition bundle_wrapper_size :: "width \<Rightarrow> usize" where
  "bundle_wrapper_size w = (BUNDLE_SIZE + 2) * (word_bits w div 8)"

record bundle_manager =
  bm_alloc :: slab_manager
  bm_empty :: usize
  bm_full :: usize

definition bundle_manager_new :: "width \<Rightarrow> usize \<Rightarrow> bundle_manager option" where
  "bundle_manager_new w max_block_pages = do {
     sm \<leftarrow> slab_manager_new w max_block_pages (bundle_wrapper_size w);
     Some \<lparr>bm_alloc = sm, bm_empty = 0, bm_full = 0\<rparr> }"

definition get_bundle_wrapper_mut :: "bundle_heap \<Rightarrow> usize \<Rightarrow> usize option" where
  "get_bundle_wrapper_mut h bundle_addr = do {
     assert_that (bundle_addr \<noteq> 0);
     Some (bh_next h bundle_addr) }"

definition set_bundle_next :: "bundle_heap \<Rightarrow> usize \<Rightarrow> usize \<Rightarrow> bundle_heap" where
  "set_bundle_next h a v = h\<lparr>bh_next := (bh_next h)(a := v)\<rparr>"

definition return_bundle :: "width \<Rightarrow> bundle_heap \<Rightarrow> usize \<Rightarrow> usize \<Rightarrow> (bundle_heap \<times> usize) option" where
  "return_bundle w h bundle_addr list =
     (if bundle_addr = 0 then Some (h, list)
      else do {
        nxt \<leftarrow> get_bundle_wrapper_mut h bundle_addr;
        assert_that (nxt = POISON w);
        Some (set_bundle_next h bundle_addr list, bundle_addr) })"

type_synonym 'a bundle_state = "'a \<times> bundle_manager \<times> bundle_heap"

definition alloc_empty_bundle :: "width \<Rightarrow> usize \<Rightarrow> 'a page_alloc \<Rightarrow> 'a bundle_state \<Rightarrow> ('a bundle_state \<times> usize option) option" where
  "alloc_empty_bundle w virt_base pg_alloc st = (case st of (a, bm, h) \<Rightarrow> do {
     (a, bm, h) \<leftarrow>
       (if bm_empty bm = 0 then do {
          ((a, sm, h), r) \<leftarrow> sm_alloc w virt_base pg_alloc a (bm_alloc bm) h;
          let bm = bm\<lparr>bm_alloc := sm\<rparr>;
          case r of
            None \<Rightarrow> Some (a, bm, h)
          | Some tmp_addr \<Rightarrow> do {
              wrapper \<leftarrow> get_bundle_wrapper_mut h tmp_addr;
              Some (a, bm\<lparr>bm_empty := tmp_addr\<rparr>, set_bundle_next h tmp_addr 0) } }
        else Some (a, bm, h));
     if bm_empty bm = 0 then Some ((a, bm, h), None)
     else do {
       let bundle_addr = bm_empty bm;
       nxt \<leftarrow> get_bundle_wrapper_mut h bundle_addr;
       Some ((a, bm\<lparr>bm_empty := nxt\<rparr>, set_bundle_next h bundle_addr (POISON w)), Some bundle_addr) } })"

definition exchange_empty_bundle :: "width \<Rightarrow> bundle_manager \<Rightarrow> bundle_heap \<Rightarrow> usize \<Rightarrow> ((bundle_manager \<times> bundle_heap) \<times> usize option) option" where
  "exchange_empty_bundle w bm h bundle_addr =
     (if bm_full bm = 0 then Some ((bm, h), None)
      else do {
        (h, empty) \<leftarrow> (if bundle_addr \<noteq> 0 then return_bundle w h bundle_addr (bm_empty bm) else Some (h, bm_empty bm));
        let ret_addr = bm_full bm;
        nxt \<leftarrow> get_bundle_wrapper_mut h (bm_full bm);
        Some ((bm\<lparr>bm_empty := empty, bm_full := nxt\<rparr>, set_bundle_next h ret_addr (POISON w)), Some ret_addr) })"

definition exchange_full_bundle :: "width \<Rightarrow> usize \<Rightarrow> 'a page_alloc \<Rightarrow> 'a bundle_state \<Rightarrow> usize \<Rightarrow> ('a bundle_state \<times> usize option) option" where
  "exchange_full_bundle w virt_base pg_alloc st bundle_addr = (case st of (a, bm, h) \<Rightarrow> do {
     (h, full) \<leftarrow> (if bundle_addr \<noteq> 0 then return_bundle w h bundle_addr (bm_full bm) else Some (h, bm_full bm));
     alloc_empty_bundle w virt_base pg_alloc (a, bm\<lparr>bm_full := full\<rparr>, h) })"

section \<open>Core caches\<close>

record core_cache =
  ch_current :: usize
  ch_curr_count :: usize
  ch_standby :: usize
  ch_stby_count :: usize

definition core_cache_new :: core_cache where
  "core_cache_new = \<lparr>ch_current = 0, ch_curr_count = 0, ch_standby = 0, ch_stby_count = 0\<rparr>"

definition get_bundle_mut :: "bundle_heap \<Rightarrow> usize \<Rightarrow> usize list option" where
  "get_bundle_mut h bundle_addr = do {
     assert_that (bundle_addr \<noteq> 0);
     Some (bh_bundle h bundle_addr) }"

definition alloc_from_cache :: "bundle_heap \<Rightarrow> core_cache \<Rightarrow> (core_cache \<times> usize) option" where
  "alloc_from_cache h cache = do {
     bundle \<leftarrow> get_bundle_mut h (ch_current cache);
     i \<leftarrow> usub (ch_curr_count cache) 1;
     addr \<leftarrow> idx bundle i;
     Some (cache\<lparr>ch_curr_count := i\<rparr>, addr) }"

definition release_to_cache :: "width \<Rightarrow> bundle_heap \<Rightarrow> core_cache \<Rightarrow> usize \<Rightarrow> (bundle_heap \<times> core_cache) option" where
  "release_to_cache w h cache obj_addr = do {
     bundle \<leftarrow> get_bundle_mut h (ch_current cache);
     bundle \<leftarrow> upd bundle (ch_curr_count cache) obj_addr;
     n \<leftarrow> uadd w (ch_curr_count cache) 1;
     Some (h\<lparr>bh_bundle := (bh_bundle h)(ch_current cache := bundle)\<rparr>, cache\<lparr>ch_curr_count := n\<rparr>) }"

definition swap_cache_bundles :: "core_cache \<Rightarrow> core_cache" where
  "swap_cache_bundles cache =
     \<lparr>ch_current = ch_standby cache, ch_curr_count = ch_stby_count cache,
      ch_standby = ch_current cache, ch_stby_count = ch_curr_count cache\<rparr>"

section \<open>The allocator\<close>

record slab_allocator =
  sa_cache :: "core_cache list"
  sa_obj_alloc :: slab_manager
  sa_bundle_mgr :: bundle_manager

type_synonym 'a sa_state = "'a \<times> slab_allocator \<times> bundle_heap"

definition slab_allocator_new :: "width \<Rightarrow> usize \<Rightarrow> usize \<Rightarrow> slab_allocator option" where
  "slab_allocator_new w max_block_pages obj_size = do {
     sm \<leftarrow> slab_manager_new w max_block_pages obj_size;
     bm \<leftarrow> bundle_manager_new w max_block_pages;
     Some \<lparr>sa_cache = replicate (MAX_CORES w) core_cache_new, sa_obj_alloc = sm, sa_bundle_mgr = bm\<rparr> }"

text \<open>The lazy allocation of a bundle for a cache slot, twice in \<open>alloc_internal\<close>.\<close>

definition lazy_bundle :: "width \<Rightarrow> usize \<Rightarrow> 'a page_alloc \<Rightarrow> 'a bundle_state \<Rightarrow> usize \<Rightarrow> ('a bundle_state \<times> usize) option" where
  "lazy_bundle w virt_base pg_alloc st bundle =
     (if bundle = 0 then do {
        (st, r) \<leftarrow> alloc_empty_bundle w virt_base pg_alloc st;
        Some (st, case r of None \<Rightarrow> 0 | Some x \<Rightarrow> x) }
      else Some (st, bundle))"

definition put_cache :: "slab_allocator \<Rightarrow> usize \<Rightarrow> core_cache \<Rightarrow> bundle_manager \<Rightarrow> slab_allocator option" where
  "put_cache sa core_idx cache bm = do {
     cs \<leftarrow> upd (sa_cache sa) core_idx cache;
     Some (sa\<lparr>sa_cache := cs, sa_bundle_mgr := bm\<rparr>) }"

definition alloc_internal :: "width \<Rightarrow> usize \<Rightarrow> 'a page_alloc \<Rightarrow> usize \<Rightarrow> 'a sa_state \<Rightarrow> ('a sa_state \<times> usize option) option" where
  "alloc_internal w virt_base pg_alloc core_idx st = (case st of (a, sa, h) \<Rightarrow> do {
     cache \<leftarrow> idx (sa_cache sa) core_idx;
     ((a, bm, h), current) \<leftarrow> lazy_bundle w virt_base pg_alloc (a, sa_bundle_mgr sa, h) (ch_current cache);
     let cache = cache\<lparr>ch_current := current\<rparr>;
     ((a, bm, h), standby) \<leftarrow> lazy_bundle w virt_base pg_alloc (a, bm, h) (ch_standby cache);
     let cache = cache\<lparr>ch_standby := standby\<rparr>;
     if ch_curr_count cache > 0 then do {
       (cache, addr) \<leftarrow> alloc_from_cache h cache;
       sa \<leftarrow> put_cache sa core_idx cache bm;
       Some ((a, sa, h), Some addr) }
     else if ch_stby_count cache > 0 then do {
       (cache, addr) \<leftarrow> alloc_from_cache h (swap_cache_bundles cache);
       sa \<leftarrow> put_cache sa core_idx cache bm;
       Some ((a, sa, h), Some addr) }
     else do {
       ((bm, h), r) \<leftarrow> exchange_empty_bundle w bm h (ch_current cache);
       case r of
         Some bundle_addr \<Rightarrow> do {
           let cache = cache\<lparr>ch_standby := bundle_addr, ch_stby_count := BUNDLE_SIZE\<rparr>;
           (cache, addr) \<leftarrow> alloc_from_cache h (swap_cache_bundles cache);
           sa \<leftarrow> put_cache sa core_idx cache bm;
           Some ((a, sa, h), Some addr) }
       | None \<Rightarrow> do {
           sa \<leftarrow> put_cache sa core_idx cache bm;
           ((a, sm, h), r) \<leftarrow> sm_alloc w virt_base pg_alloc a (sa_obj_alloc sa) h;
           Some ((a, sa\<lparr>sa_obj_alloc := sm\<rparr>, h), r) } } })"

definition free_internal :: "width \<Rightarrow> usize \<Rightarrow> 'a page_alloc \<Rightarrow> usize \<Rightarrow> 'a sa_state \<Rightarrow> usize \<Rightarrow> 'a sa_state option" where
  "free_internal w virt_base pg_alloc core_idx st obj_addr = (case st of (a, sa, h) \<Rightarrow> do {
     assert_that (obj_addr \<noteq> 0);
     cache \<leftarrow> idx (sa_cache sa) core_idx;
     if ch_curr_count cache < BUNDLE_SIZE \<and> ch_current cache \<noteq> 0 then do {
       (h, cache) \<leftarrow> release_to_cache w h cache obj_addr;
       sa \<leftarrow> put_cache sa core_idx cache (sa_bundle_mgr sa);
       Some (a, sa, h) }
     else if ch_stby_count cache < BUNDLE_SIZE \<and> ch_standby cache \<noteq> 0 then do {
       (h, cache) \<leftarrow> release_to_cache w h (swap_cache_bundles cache) obj_addr;
       sa \<leftarrow> put_cache sa core_idx cache (sa_bundle_mgr sa);
       Some (a, sa, h) }
     else do {
       ((a, bm, h), r) \<leftarrow> exchange_full_bundle w virt_base pg_alloc (a, sa_bundle_mgr sa, h) (ch_standby cache);
       let cache = (case r of
           Some bundle_addr \<Rightarrow> swap_cache_bundles (cache\<lparr>ch_standby := bundle_addr, ch_stby_count := 0\<rparr>)
         | None \<Rightarrow> cache);
       if ch_current cache \<noteq> 0 \<and> ch_curr_count cache < BUNDLE_SIZE then do {
         (h, cache) \<leftarrow> release_to_cache w h cache obj_addr;
         sa \<leftarrow> put_cache sa core_idx cache bm;
         Some (a, sa, h) }
       else do {
         sa \<leftarrow> put_cache sa core_idx cache bm;
         (sm, h) \<leftarrow> sm_free w (sa_obj_alloc sa) h obj_addr;
         Some (a, sa\<lparr>sa_obj_alloc := sm\<rparr>, h) } } })"

text \<open>
  The public operations: \<open>alloc\<close> passes a null address on as \<open>None\<close>; dropping a kernel object calls
  \<open>free\<close> with the object's address.
\<close>

definition slab_alloc :: "width \<Rightarrow> usize \<Rightarrow> 'a page_alloc \<Rightarrow> usize \<Rightarrow> 'a sa_state \<Rightarrow> ('a sa_state \<times> usize option) option" where
  "slab_alloc w virt_base pg_alloc core_idx st = do {
     (st, ret) \<leftarrow> alloc_internal w virt_base pg_alloc core_idx st;
     Some (st, case ret of None \<Rightarrow> None | Some addr \<Rightarrow> if addr = 0 then None else Some addr) }"

definition slab_free :: "width \<Rightarrow> usize \<Rightarrow> 'a page_alloc \<Rightarrow> usize \<Rightarrow> 'a sa_state \<Rightarrow> usize \<Rightarrow> 'a sa_state option" where
  "slab_free w virt_base pg_alloc core_idx st obj = free_internal w virt_base pg_alloc core_idx st obj"


section \<open>Lemmas\<close>

lemma lazy_bundle_nonzero [simp]: "b \<noteq> 0 \<Longrightarrow> lazy_bundle w vb pg st b = Some (st, b)"
  by (simp add: lazy_bundle_def)

lemma put_cache_ok: "c < length (sa_cache sa) \<Longrightarrow> put_cache sa c cache bm = Some (sa\<lparr>sa_cache := (sa_cache sa)[c := cache], sa_bundle_mgr := bm\<rparr>)"
  by (simp add: put_cache_def)

lemma put_cache_other:
  assumes "put_cache sa c cache bm = Some sa'"
  shows "length (sa_cache sa') = length (sa_cache sa)" "d \<noteq> c \<Longrightarrow> sa_cache sa' ! d = sa_cache sa ! d"
  using assms by (auto simp: put_cache_def panic_simps bind_eq_Some_conv)

lemma release_to_cache_ok:
  assumes "ch_current cache \<noteq> 0" "ch_curr_count cache < BUNDLE_SIZE" "length (bh_bundle h (ch_current cache)) = BUNDLE_SIZE"
  shows "release_to_cache w h cache x = Some (h\<lparr>bh_bundle := (bh_bundle h)(ch_current cache := (bh_bundle h (ch_current cache))[ch_curr_count cache := x])\<rparr>,
    cache\<lparr>ch_curr_count := ch_curr_count cache + 1\<rparr>)"
proof -
  have "ch_curr_count cache + 1 < usize_lim w" using assms(2) by (cases w) (simp_all add: BUNDLE_SIZE_def)
  then show ?thesis using assms by (simp add: release_to_cache_def get_bundle_mut_def)
qed

lemma alloc_from_cache_ok:
  assumes "ch_current cache \<noteq> 0" "ch_curr_count cache = Suc n" "n < length (bh_bundle h (ch_current cache))"
  shows "alloc_from_cache h cache = Some (cache\<lparr>ch_curr_count := n\<rparr>, bh_bundle h (ch_current cache) ! n)"
  using assms by (simp add: alloc_from_cache_def get_bundle_mut_def)

text \<open>An allocation that the current bundle serves.\<close>

lemma alloc_internal_current:
  assumes "c < length (sa_cache sa)" "sa_cache sa ! c = cache" "ch_current cache \<noteq> 0" "ch_standby cache \<noteq> 0"
    "ch_curr_count cache = Suc n" "n < length (bh_bundle h (ch_current cache))"
  shows "alloc_internal w vb pg c (a, sa, h) =
    Some ((a, sa\<lparr>sa_cache := (sa_cache sa)[c := cache\<lparr>ch_curr_count := n\<rparr>]\<rparr>, h), Some (bh_bundle h (ch_current cache) ! n))"
  using assms alloc_from_cache_ok [of cache n h] by (simp add: alloc_internal_def put_cache_ok)

lemma alloc_internal_full:
  assumes "c < length (sa_cache sa)" "sa_cache sa ! c = cache" "ch_current cache \<noteq> 0" "ch_standby cache \<noteq> 0"
    "ch_curr_count cache = 0" "ch_stby_count cache = 0" "bm_full (sa_bundle_mgr sa) = f" "f \<noteq> 0" "f \<noteq> ch_current cache"
    "bh_next h (ch_current cache) = POISON w" "length (bh_bundle h f) = BUNDLE_SIZE"
  shows "\<exists>sa' h'. alloc_internal w vb pg c (a, sa, h) = Some ((a, sa', h'), Some (bh_bundle h f ! 15))
    \<and> sa_cache sa' ! c = \<lparr>ch_current = f, ch_curr_count = 15, ch_standby = ch_current cache, ch_stby_count = 0\<rparr>
    \<and> bm_empty (sa_bundle_mgr sa') = ch_current cache \<and> bm_full (sa_bundle_mgr sa') = bh_next h f"
proof -
  let ?cur = "ch_current cache" and ?bm = "sa_bundle_mgr sa"
  let ?h = "set_bundle_next (set_bundle_next h ?cur (bm_empty ?bm)) f (POISON w)"
  let ?bm' = "?bm\<lparr>bm_empty := ?cur, bm_full := bh_next h f\<rparr>"
  have ex: "exchange_empty_bundle w ?bm h ?cur = Some ((?bm', ?h), Some f)"
    using assms(3,7-10) by (simp add: exchange_empty_bundle_def return_bundle_def get_bundle_wrapper_mut_def set_bundle_next_def)
  have hb: "bh_bundle ?h = bh_bundle h" by (simp add: set_bundle_next_def)
  let ?cache = "swap_cache_bundles (cache\<lparr>ch_standby := f, ch_stby_count := BUNDLE_SIZE\<rparr>)"
  have al: "alloc_from_cache ?h ?cache = Some (?cache\<lparr>ch_curr_count := 15\<rparr>, bh_bundle h f ! 15)"
    using assms(8,11) hb by (simp add: alloc_from_cache_def get_bundle_mut_def swap_cache_bundles_def BUNDLE_SIZE_def)
  have "alloc_internal w vb pg c (a, sa, h) =
      Some ((a, sa\<lparr>sa_cache := (sa_cache sa)[c := ?cache\<lparr>ch_curr_count := 15\<rparr>], sa_bundle_mgr := ?bm'\<rparr>, ?h), Some (bh_bundle h f ! 15))"
    using assms(1-6) ex al by (simp add: alloc_internal_def put_cache_ok)
  then show ?thesis using assms(1,5) by (simp add: swap_cache_bundles_def)
qed

section \<open>Properties\<close>

text \<open>
  \<^bold>\<open>C26\<close> Round trip through the core cache: when one of the core's two bundles has room, a released object is
  the one that the next allocation on this core returns, and neither touches the slab layer or the bundle manager.
\<close>
theorem cache_roundtrip:
  assumes "c < length (sa_cache sa)" "sa_cache sa ! c = cache" "ch_current cache \<noteq> 0" "ch_standby cache \<noteq> 0" "obj \<noteq> 0"
    "ch_curr_count cache < BUNDLE_SIZE \<or> ch_stby_count cache < BUNDLE_SIZE"
    "length (bh_bundle h (ch_current cache)) = BUNDLE_SIZE" "length (bh_bundle h (ch_standby cache)) = BUNDLE_SIZE"
  shows "\<exists>sa' h' sa''. slab_free w vb pg c (a, sa, h) obj = Some (a, sa', h')
    \<and> slab_alloc w vb pg c (a, sa', h') = Some ((a, sa'', h'), Some obj)
    \<and> sa_obj_alloc sa'' = sa_obj_alloc sa \<and> sa_bundle_mgr sa'' = sa_bundle_mgr sa
    \<and> (sa_cache sa'' ! c = cache \<or> sa_cache sa'' ! c = swap_cache_bundles cache)"
proof -
  define k where "k = (if ch_curr_count cache < BUNDLE_SIZE then cache else swap_cache_bundles cache)"
  have k: "ch_current k \<noteq> 0" "ch_standby k \<noteq> 0" "ch_curr_count k < BUNDLE_SIZE" "length (bh_bundle h (ch_current k)) = BUNDLE_SIZE"
    using assms(3-8) by (auto simp: swap_cache_bundles_def k_def)
  let ?h = "h\<lparr>bh_bundle := (bh_bundle h)(ch_current k := (bh_bundle h (ch_current k))[ch_curr_count k := obj])\<rparr>"
  let ?k' = "k\<lparr>ch_curr_count := ch_curr_count k + 1\<rparr>"
  let ?sa = "sa\<lparr>sa_cache := (sa_cache sa)[c := ?k']\<rparr>"
  have rel: "release_to_cache w h k obj = Some (?h, ?k')" by (rule release_to_cache_ok [OF k(1,3,4)])
  have "slab_free w vb pg c (a, sa, h) obj = Some (a, ?sa, ?h)"
  proof (cases "ch_curr_count cache < BUNDLE_SIZE")
    case True
    then have "k = cache" by (simp add: k_def)
    with True assms(1-5) rel show ?thesis by (simp add: slab_free_def free_internal_def put_cache_ok)
  next
    case False
    then have "swap_cache_bundles cache = k" by (simp add: k_def)
    with False assms(1-6) rel show ?thesis by (simp add: slab_free_def free_internal_def put_cache_ok)
  qed
  moreover have "alloc_internal w vb pg c (a, ?sa, ?h) =
      Some ((a, ?sa\<lparr>sa_cache := (sa_cache ?sa)[c := ?k'\<lparr>ch_curr_count := ch_curr_count k\<rparr>]\<rparr>, ?h), Some (bh_bundle ?h (ch_current ?k') ! ch_curr_count k))"
    by (rule alloc_internal_current) (use assms(1) k in simp_all)
  moreover have "bh_bundle ?h (ch_current ?k') ! ch_curr_count k = obj" using k(3,4) by simp
  moreover have "k = cache \<or> k = swap_cache_bundles cache" by (simp add: k_def)
  ultimately show ?thesis using assms(1,5) by (auto simp: slab_alloc_def)
qed

definition example_cache :: core_cache where
  "example_cache = \<lparr>ch_current = 0x1000, ch_curr_count = 0, ch_standby = 0x2000, ch_stby_count = 0\<rparr>"

definition example_allocator :: "usize \<Rightarrow> slab_allocator" where
  "example_allocator full = (let sm = \<lparr>sm_slab_pages = 1, sm_objs_per_slab = 63, sm_unused = 0, sm_in_use = 0, sm_empty = 0,
       sm_slabs_allocated = 0, sm_objects_allocated = 0, sm_objects_available = 0, sm_obj_size = 64\<rparr>
     in \<lparr>sa_cache = [example_cache], sa_obj_alloc = sm, sa_bundle_mgr = \<lparr>bm_alloc = sm, bm_empty = 0, bm_full = full\<rparr>\<rparr>)"

definition example_heap :: bundle_heap where
  "example_heap = \<lparr>sh_node = (\<lambda>_. slab_node_new W64 0 0 0 0), sh_next = (\<lambda>_. 0), bh_bundle = (\<lambda>_. replicate 16 0), bh_next = (\<lambda>_. POISON W64)\<rparr>"

lemmas example_defs = example_cache_def example_allocator_def example_heap_def BUNDLE_SIZE_def Let_def

theorem cache_roundtrip_witness:
  "\<exists>sa' h' sa''. slab_free W64 0 (\<lambda>a p. Some (a, None)) 0 ((), example_allocator 0, example_heap) 0x5000 = Some ((), sa', h')
    \<and> slab_alloc W64 0 (\<lambda>a p. Some (a, None)) 0 ((), sa', h') = Some (((), sa'', h'), Some 0x5000)"
  using cache_roundtrip [of 0 "example_allocator 0" example_cache "0x5000" example_heap W64 0 "\<lambda>a p. Some (a, None)" "()"]
  by (auto simp: example_defs)

text \<open>
  Isolation of the cores: an allocation or a release on one core leaves the caches of all other cores as
  they are, and the number of caches too.
\<close>
theorem cache_isolation:
  assumes "slab_alloc w vb pg c (a, sa, h) = Some ((a', sa', h'), r) \<or> slab_free w vb pg c (a, sa, h) obj = Some (a', sa', h')"
  shows "length (sa_cache sa') = length (sa_cache sa) \<and> (\<forall>d. d \<noteq> c \<longrightarrow> sa_cache sa' ! d = sa_cache sa ! d)"
proof -
  from assms obtain cache bm sa1 where "put_cache sa c cache bm = Some sa1" "sa_cache sa' = sa_cache sa1"
    by (auto simp: slab_alloc_def slab_free_def alloc_internal_def free_internal_def bind_eq_Some_conv Let_def
        split: if_splits option.splits)
  then show ?thesis using put_cache_other by metis
qed

theorem cache_isolation_witness:
  "\<exists>sa' h'. slab_free W64 0 (\<lambda>a p. Some (a, None)) 0 ((), example_allocator 0, example_heap) 0x5000 = Some ((), sa', h') \<and> length (sa_cache sa') = 1"
proof -
  have "\<exists>sa' h'. slab_free W64 0 (\<lambda>a p. Some (a, None)) 0 ((), example_allocator 0, example_heap) 0x5000 = Some ((), sa', h')"
    using release_to_cache_ok [of example_cache example_heap W64 "0x5000"]
    by (simp add: slab_free_def free_internal_def put_cache_ok example_defs)
  then obtain sa' h' where f: "slab_free W64 0 (\<lambda>a p. Some (a, None)) 0 ((), example_allocator 0, example_heap) 0x5000 = Some ((), sa', h')" by blast
  with cache_isolation [of W64 0 "\<lambda>a p. Some (a, None)" 0 "()" "example_allocator 0" example_heap "()" sa' h' None "0x5000"]
  have "length (sa_cache sa') = 1" by (simp add: example_defs)
  with f show ?thesis by blast
qed

text \<open>
  \<^bold>\<open>C37\<close> Case 3 of \<open>alloc_internal\<close>: with both bundles empty and a full one at the bundle manager, the core's
  current bundle is handed to the manager and stays the core's standby bundle, while the previous standby
  bundle is dropped. One bundle has two owners from then on.
\<close>
theorem full_exchange_aliases:
  assumes "c < length (sa_cache sa)" "sa_cache sa ! c = cache" "ch_current cache \<noteq> 0" "ch_standby cache \<noteq> 0"
    "ch_curr_count cache = 0" "ch_stby_count cache = 0" "bm_full (sa_bundle_mgr sa) = f" "f \<noteq> 0" "f \<noteq> ch_current cache"
    "bh_next h (ch_current cache) = POISON w" "length (bh_bundle h f) = BUNDLE_SIZE"
  shows "\<exists>sa' h'. alloc_internal w vb pg c (a, sa, h) = Some ((a, sa', h'), Some (bh_bundle h f ! 15))
    \<and> ch_current (sa_cache sa' ! c) = f \<and> ch_curr_count (sa_cache sa' ! c) = 15
    \<and> ch_standby (sa_cache sa' ! c) = ch_current cache \<and> bm_empty (sa_bundle_mgr sa') = ch_current cache"
  using alloc_internal_full [OF assms, of vb pg a] by (auto dest: sym)

theorem full_exchange_aliases_witness:
  "\<exists>sa' h'. alloc_internal W64 0 (\<lambda>a p. Some (a, None)) 0 ((), example_allocator 0x3000, example_heap) = Some (((), sa', h'), Some 0)
    \<and> ch_standby (sa_cache sa' ! 0) = 0x1000 \<and> bm_empty (sa_bundle_mgr sa') = 0x1000"
  using full_exchange_aliases [of 0 "example_allocator 0x3000" example_cache "0x3000" example_heap W64 0 "\<lambda>a p. Some (a, None)" "()"]
  by (auto simp: example_defs)

end
