(* ===== verification/Spin_Lock.thy ===== *)
theory Spin_Lock
  imports Kernel_Prelude
begin

text \<open>
  \<open>src/sync/spin_lock.rs\<close> over the primitives of \<open>src/arch/arm_common/sync.rs\<close>, whose bodies are the
  assembly of \<open>src/arch/aarch64/start/spin_lock.s\<close> and \<open>src/arch/arm/start/spin_lock.s\<close>. The model runs them one
  instruction at a time with the cores interleaved in any order; the width selects the architecture. The exclusive
  monitor is the architecture's: a load-exclusive sets
  the core's reservation, any store to the lock variable clears all reservations, and a store-exclusive
  without a reservation fails; it may also fail with one. A core that finds the lock taken sleeps in \<open>wfe\<close> until
  its event register is set. On AArch64 losing a reservation sets it, and \<open>sevl\<close> lets the first \<open>wfe\<close>
  pass; on ARM the release sends the event to all cores with \<open>sev\<close>. A sleeping core may also wake up without an event.
  Memory accesses are sequentially consistent: what the acquire and release instructions and the barriers order is not modelled.
\<close>

section \<open>The machine\<close>

text \<open>
  The places of a core in \<open>lock\<close>, \<open>try_lock\<close> and \<open>drop\<close>; \<open>Held\<close> is the lifetime of the guard, \<open>Wait\<close> the \<open>wfe\<close> and \<open>Signal\<close> the \<open>sev\<close>.
\<close>

datatype place = Out | Wait | Load | Test_Loaded | Store | Test_Stored | Held | Signal | Try_Load | Try_Test | Try_Store | Try_Return

record core_st =
  cs_place :: place
  cs_reg :: "32 word"
  cs_reserved :: bool
  cs_event :: bool

record spin_lock =
  sl_lock_var :: "32 word"
  sl_cores :: "nat \<Rightarrow> core_st"

definition spin_lock_new :: spin_lock where
  "spin_lock_new = \<lparr>sl_lock_var = 0, sl_cores = (\<lambda>_. \<lparr>cs_place = Out, cs_reg = 0, cs_reserved = False, cs_event = False\<rparr>)\<rparr>"

definition upd_core :: "spin_lock \<Rightarrow> nat \<Rightarrow> (core_st \<Rightarrow> core_st) \<Rightarrow> spin_lock" where
  "upd_core s c f = s\<lparr>sl_cores := (sl_cores s)(c := f (sl_cores s c))\<rparr>"

definition goto :: "spin_lock \<Rightarrow> nat \<Rightarrow> place \<Rightarrow> spin_lock" where
  "goto s c p = upd_core s c (\<lambda>k. k\<lparr>cs_place := p\<rparr>)"

definition load_exclusive :: "spin_lock \<Rightarrow> nat \<Rightarrow> place \<Rightarrow> spin_lock" where
  "load_exclusive s c p = upd_core s c (\<lambda>k. k\<lparr>cs_place := p, cs_reg := sl_lock_var s, cs_reserved := True\<rparr>)"

text \<open>A core that loses its reservation: an event on AArch64 only.\<close>

definition lose :: "width \<Rightarrow> core_st \<Rightarrow> core_st" where
  "lose w k = k\<lparr>cs_reserved := False, cs_event := cs_event k \<or> w = W64 \<and> cs_reserved k\<rparr>"

definition store_lock :: "width \<Rightarrow> spin_lock \<Rightarrow> 32 word \<Rightarrow> spin_lock" where
  "store_lock w s v = s\<lparr>sl_lock_var := v, sl_cores := (\<lambda>c. lose w (sl_cores s c))\<rparr>"

definition store_success :: "width \<Rightarrow> spin_lock \<Rightarrow> nat \<Rightarrow> place \<Rightarrow> spin_lock" where
  "store_success w s c p = upd_core (store_lock w s 1) c (\<lambda>k. k\<lparr>cs_place := p, cs_reg := 0\<rparr>)"

definition store_failure :: "width \<Rightarrow> spin_lock \<Rightarrow> nat \<Rightarrow> place \<Rightarrow> spin_lock" where
  "store_failure w s c p = upd_core s c (\<lambda>k. (lose w k)\<lparr>cs_place := p, cs_reg := 1\<rparr>)"

definition send_event_local :: "spin_lock \<Rightarrow> nat \<Rightarrow> spin_lock" where
  "send_event_local s c = upd_core s c (\<lambda>k. k\<lparr>cs_event := True\<rparr>)"

definition send_event :: "spin_lock \<Rightarrow> spin_lock" where
  "send_event s = s\<lparr>sl_cores := (\<lambda>c. (sl_cores s c)\<lparr>cs_event := True\<rparr>)\<rparr>"

definition clear_event :: "spin_lock \<Rightarrow> nat \<Rightarrow> spin_lock" where
  "clear_event s c = upd_core s c (\<lambda>k. k\<lparr>cs_event := False\<rparr>)"

section \<open>Steps\<close>

abbreviation at :: "spin_lock \<Rightarrow> nat \<Rightarrow> place \<Rightarrow> bool" where
  "at s c p \<equiv> cs_place (sl_cores s c) = p"

text \<open>
  \<open>SpinLock::lock\<close>: \<open>sync_spin_lock\<close>, then the guard is constructed. The loop of AArch64 starts at its \<open>wfe\<close>; that of ARM starts at the
  load, and only a core that loaded a lock value other than 0 executes the \<open>wfene\<close>.
\<close>

inductive lock_step :: "width \<Rightarrow> spin_lock \<Rightarrow> nat \<Rightarrow> spin_lock \<Rightarrow> bool" for w where
  call: "at s c Out \<Longrightarrow> lock_step w s c (if w = W64 then goto (send_event_local s c) c Wait else goto s c Load)"
| wait: "at s c Wait \<Longrightarrow> cs_event (sl_cores s c) \<Longrightarrow> lock_step w s c (goto (clear_event s c) c Load)"
| load: "at s c Load \<Longrightarrow> lock_step w s c (load_exclusive s c Test_Loaded)"
| busy: "at s c Test_Loaded \<Longrightarrow> cs_reg (sl_cores s c) \<noteq> 0 \<Longrightarrow> lock_step w s c (goto s c Wait)"
| idle: "at s c Test_Loaded \<Longrightarrow> cs_reg (sl_cores s c) = 0 \<Longrightarrow> lock_step w s c (goto s c Store)"
| store: "at s c Store \<Longrightarrow> cs_reserved (sl_cores s c) \<Longrightarrow> lock_step w s c (store_success w s c Test_Stored)"
| store_fail: "at s c Store \<Longrightarrow> lock_step w s c (store_failure w s c Test_Stored)"
| retry: "at s c Test_Stored \<Longrightarrow> cs_reg (sl_cores s c) \<noteq> 0 \<Longrightarrow> lock_step w s c (goto s c (if w = W64 then Wait else Load))"
| acquired: "at s c Test_Stored \<Longrightarrow> cs_reg (sl_cores s c) = 0 \<Longrightarrow> lock_step w s c (goto s c Held)"

text \<open>\<open>SpinLock::try_lock\<close>: a guard when \<open>sync_spin_try_lock\<close> returned 0.\<close>

inductive try_lock_step :: "width \<Rightarrow> spin_lock \<Rightarrow> nat \<Rightarrow> spin_lock \<Rightarrow> bool" for w where
  try_call: "at s c Out \<Longrightarrow> try_lock_step w s c (goto s c Try_Load)"
| try_load: "at s c Try_Load \<Longrightarrow> try_lock_step w s c (load_exclusive s c Try_Test)"
| try_busy: "at s c Try_Test \<Longrightarrow> cs_reg (sl_cores s c) \<noteq> 0 \<Longrightarrow> try_lock_step w s c (goto s c Try_Return)"
| try_idle: "at s c Try_Test \<Longrightarrow> cs_reg (sl_cores s c) = 0 \<Longrightarrow> try_lock_step w s c (goto s c Try_Store)"
| try_store: "at s c Try_Store \<Longrightarrow> cs_reserved (sl_cores s c) \<Longrightarrow> try_lock_step w s c (store_success w s c Try_Return)"
| try_store_fail: "at s c Try_Store \<Longrightarrow> try_lock_step w s c (store_failure w s c Try_Return)"
| try_none: "at s c Try_Return \<Longrightarrow> cs_reg (sl_cores s c) \<noteq> 0 \<Longrightarrow> try_lock_step w s c (goto s c Out)"
| try_some: "at s c Try_Return \<Longrightarrow> cs_reg (sl_cores s c) = 0 \<Longrightarrow> try_lock_step w s c (goto s c Held)"

text \<open>Dropping the guard: \<open>sync_spin_unlock\<close>.\<close>

inductive unlock_step :: "width \<Rightarrow> spin_lock \<Rightarrow> nat \<Rightarrow> spin_lock \<Rightarrow> bool" for w where
  drop_guard: "at s c Held \<Longrightarrow> unlock_step w s c (goto (store_lock w s 0) c (if w = W64 then Out else Signal))"
| signal: "at s c Signal \<Longrightarrow> unlock_step w s c (goto (send_event s) c Out)"

text \<open>A core leaves the \<open>wfe\<close> without an event, as the architecture permits.\<close>

inductive wake_step :: "spin_lock \<Rightarrow> nat \<Rightarrow> spin_lock \<Rightarrow> bool" where
  spurious: "at s c Wait \<Longrightarrow> wake_step s c (goto s c Load)"

definition code_step :: "width \<Rightarrow> spin_lock \<Rightarrow> nat \<Rightarrow> spin_lock \<Rightarrow> bool" where
  "code_step w s c s' \<longleftrightarrow> lock_step w s c s' \<or> try_lock_step w s c s' \<or> unlock_step w s c s'"

inductive lock_reach :: "width \<Rightarrow> spin_lock \<Rightarrow> bool" for w where
  lock_start: "lock_reach w spin_lock_new"
| lock_next: "lock_reach w s \<Longrightarrow> code_step w s c s' \<or> wake_step s c s' \<Longrightarrow> lock_reach w s'"

inductive_cases lock_stepE: "lock_step w s c s'"
inductive_cases try_lock_stepE: "try_lock_step w s c s'"
inductive_cases unlock_stepE: "unlock_step w s c s'"
inductive_cases wake_stepE: "wake_step s c s'"

lemmas stepE = lock_stepE try_lock_stepE unlock_stepE wake_stepE

section \<open>Ownership\<close>

text \<open>A core owns the lock from its successful store to the release.\<close>

definition owns :: "spin_lock \<Rightarrow> nat \<Rightarrow> bool" where
  "owns s c \<longleftrightarrow> at s c Held \<or> (at s c Test_Stored \<or> at s c Try_Return) \<and> cs_reg (sl_cores s c) = 0"

text \<open>
  The invariant: the lock variable is set exactly while some core owns the lock, there is one owner at most,
  and a reservation of a core about to store implies that nobody has stored since it loaded 0.
\<close>

definition owner_inv :: "spin_lock \<Rightarrow> bool" where
  "owner_inv s \<longleftrightarrow> (if sl_lock_var s = 0 then \<forall>c. \<not> owns s c else \<exists>d. \<forall>c. owns s c \<longleftrightarrow> c = d)"

definition reserve_inv :: "spin_lock \<Rightarrow> nat \<Rightarrow> bool" where
  "reserve_inv s c \<longleftrightarrow> cs_reserved (sl_cores s c) \<longrightarrow>
     at s c Store \<or> at s c Try_Store \<or> (at s c Test_Loaded \<or> at s c Try_Test) \<and> cs_reg (sl_cores s c) = 0 \<longrightarrow> sl_lock_var s = 0"

definition lock_inv :: "spin_lock \<Rightarrow> bool" where
  "lock_inv s \<longleftrightarrow> owner_inv s \<and> (\<forall>c. reserve_inv s c)"

lemmas lock_defs = upd_core_def goto_def load_exclusive_def lose_def store_lock_def store_success_def store_failure_def
  send_event_local_def send_event_def clear_event_def owns_def

lemma lock_inv_new: "lock_inv spin_lock_new"
  by (simp add: lock_inv_def owner_inv_def reserve_inv_def spin_lock_new_def owns_def)

text \<open>A move of one core that does not change whether it owns the lock.\<close>

lemma move_inv:
  assumes "lock_inv s" "sl_lock_var s' = sl_lock_var s" "\<And>d. d \<noteq> c \<Longrightarrow> sl_cores s' d = sl_cores s d"
    "owns s' c \<longleftrightarrow> owns s c" "reserve_inv s' c"
  shows "lock_inv s'"
proof -
  have "owns s' d \<longleftrightarrow> owns s d" for d using assms(3) [of d] assms(4) by (cases "d = c") (simp_all add: owns_def)
  moreover have "reserve_inv s' d" for d
    using assms(1-3,5) by (cases "d = c") (simp_all add: reserve_inv_def lock_inv_def)
  ultimately show ?thesis using assms(1,2) by (simp add: lock_inv_def owner_inv_def)
qed

lemma store_inv:
  assumes "lock_inv s" "at s c Store \<or> at s c Try_Store" "cs_reserved (sl_cores s c)" "p = Test_Stored \<or> p = Try_Return"
  shows "lock_inv (store_success w s c p)"
proof -
  have "sl_lock_var s = 0" using assms(1-3) by (auto simp: lock_inv_def reserve_inv_def)
  then have "\<not> owns s d" for d using assms(1) by (simp add: lock_inv_def owner_inv_def)
  then have "owns (store_success w s c p) d \<longleftrightarrow> d = c" for d
    using assms(4) by (cases "d = c") (auto simp: lock_defs)
  moreover have "sl_lock_var (store_success w s c p) = 1" "\<not> cs_reserved (sl_cores (store_success w s c p) d)" for d
    by (simp_all add: lock_defs)
  ultimately show ?thesis by (auto simp: lock_inv_def owner_inv_def reserve_inv_def)
qed

lemma release_inv:
  assumes "lock_inv s" "at s c Held" "p = Out \<or> p = Signal"
  shows "lock_inv (goto (store_lock w s 0) c p)"
proof -
  let ?s = "goto (store_lock w s 0) c p"
  have "owns s c" using assms(2) by (simp add: owns_def)
  then have "\<not> owns s d" if "d \<noteq> c" for d using assms(1) that by (auto simp: lock_inv_def owner_inv_def split: if_splits)
  then have "\<not> owns ?s d" for d using assms(3) by (cases "d = c") (auto simp: lock_defs)
  moreover have "sl_lock_var ?s = 0" by (simp add: lock_defs)
  ultimately show ?thesis by (simp add: lock_inv_def owner_inv_def reserve_inv_def)
qed

text \<open>The event registers play no part.\<close>

lemma event_inv:
  assumes "lock_inv s"
  shows "lock_inv (send_event_local s c)" "lock_inv (clear_event s c)" "lock_inv (send_event s)"
proof -
  have "lock_inv s'" if s': "sl_lock_var s' = sl_lock_var s" "\<And>d. cs_place (sl_cores s' d) = cs_place (sl_cores s d) \<and> cs_reg (sl_cores s' d) = cs_reg (sl_cores s d)
      \<and> cs_reserved (sl_cores s' d) = cs_reserved (sl_cores s d)" for s'
  proof -
    have "owns s' d = owns s d" "reserve_inv s' d = reserve_inv s d" for d using s' by (simp_all add: owns_def reserve_inv_def)
    then show ?thesis using assms s'(1) by (simp add: lock_inv_def owner_inv_def)
  qed
  then show "lock_inv (send_event_local s c)" "lock_inv (clear_event s c)" "lock_inv (send_event s)" by (simp_all add: lock_defs)
qed

lemma goto_inv:
  assumes "lock_inv s" "owns (goto s c p) c \<longleftrightarrow> owns s c"
    "p = Store \<or> p = Try_Store \<Longrightarrow> (at s c Test_Loaded \<or> at s c Try_Test) \<and> cs_reg (sl_cores s c) = 0" "p \<noteq> Test_Loaded" "p \<noteq> Try_Test"
  shows "lock_inv (goto s c p)"
proof (rule move_inv [OF assms(1) _ _ assms(2)])
  have "reserve_inv s c" using assms(1) by (simp add: lock_inv_def)
  then show "reserve_inv (goto s c p) c" using assms(3-5) by (auto simp: reserve_inv_def lock_defs)
qed (simp_all add: lock_defs)

lemma load_inv:
  assumes "lock_inv s" "at s c Load \<or> at s c Try_Load" "p = Test_Loaded \<or> p = Try_Test"
  shows "lock_inv (load_exclusive s c p)"
  by (rule move_inv [OF assms(1), where c = c]) (use assms(2,3) in \<open>auto simp: lock_defs reserve_inv_def\<close>)

lemma fail_inv:
  assumes "lock_inv s" "at s c Store \<or> at s c Try_Store" "p = Test_Stored \<or> p = Try_Return"
  shows "lock_inv (store_failure w s c p)"
  by (rule move_inv [OF assms(1), where c = c]) (use assms(2,3) in \<open>auto simp: lock_defs reserve_inv_def\<close>)

lemma owns_goto: "owns (goto s c p) c \<longleftrightarrow> p = Held \<or> (p = Test_Stored \<or> p = Try_Return) \<and> cs_reg (sl_cores s c) = 0"
  by (auto simp: lock_defs)

lemma lock_step_inv: "lock_step w s c s' \<Longrightarrow> lock_inv s \<Longrightarrow> lock_inv s'"
  by (induction rule: lock_step.induct) (auto intro!: goto_inv load_inv store_inv fail_inv event_inv simp: owns_goto, auto simp: lock_defs)

lemma try_lock_step_inv: "try_lock_step w s c s' \<Longrightarrow> lock_inv s \<Longrightarrow> lock_inv s'"
  by (induction rule: try_lock_step.induct) (auto intro!: goto_inv load_inv store_inv fail_inv simp: owns_goto, auto simp: owns_def)

lemma unlock_step_inv: "unlock_step w s c s' \<Longrightarrow> lock_inv s \<Longrightarrow> lock_inv s'"
  by (induction rule: unlock_step.induct) (auto intro!: release_inv goto_inv event_inv simp: owns_goto, auto simp: lock_defs)

lemma wake_step_inv: "wake_step s c s' \<Longrightarrow> lock_inv s \<Longrightarrow> lock_inv s'"
  by (induction rule: wake_step.induct) (auto intro!: goto_inv simp: owns_goto, auto simp: owns_def)

lemma lock_reach_inv: "lock_reach w s \<Longrightarrow> lock_inv s"
  by (induction rule: lock_reach.induct)
    (auto simp: lock_inv_new code_step_def intro: lock_step_inv try_lock_step_inv unlock_step_inv wake_step_inv)

section \<open>The other cores\<close>

text \<open>What a core's step leaves of another core's state.\<close>

definition kept :: "core_st \<Rightarrow> core_st \<Rightarrow> bool" where
  "kept k k' \<longleftrightarrow> cs_place k' = cs_place k \<and> cs_reg k' = cs_reg k \<and> (cs_event k \<longrightarrow> cs_event k')"

lemma other_kept: "code_step w s c s' \<or> wake_step s c s' \<Longrightarrow> d \<noteq> c \<Longrightarrow> kept (sl_cores s d) (sl_cores s' d)"
  unfolding code_step_def by (elim disjE stepE; cases w) (simp_all add: kept_def lock_defs)

lemma other_reserved:
  "code_step w s c s' \<or> wake_step s c s' \<Longrightarrow> \<not> owns s c \<Longrightarrow> \<not> owns s' c \<Longrightarrow> d \<noteq> c \<Longrightarrow> cs_reserved (sl_cores s' d) = cs_reserved (sl_cores s d)"
  unfolding code_step_def by (elim disjE stepE; cases w) (simp_all add: lock_defs)

section \<open>Waking up\<close>

text \<open>
  No wake-up is lost. On AArch64 a core that sleeps, or is about to, has an event or still holds the reservation that the release will clear, and a
  core on the way to its store or back from a failed one has what lets its next \<open>wfe\<close> pass. On ARM it has an event, or the lock is taken, or
  the core that released it has yet to send the event.
\<close>

definition signalled :: "spin_lock \<Rightarrow> bool" where
  "signalled s \<longleftrightarrow> (\<exists>d. at s d Signal)"

definition wake_inv :: "width \<Rightarrow> spin_lock \<Rightarrow> nat \<Rightarrow> bool" where
  "wake_inv w s c \<longleftrightarrow> (let k = sl_cores s c in
     (cs_place k = Wait \<or> cs_place k = Test_Loaded \<and> cs_reg k \<noteq> 0 \<longrightarrow>
        cs_event k \<or> (if w = W64 then cs_reserved k \<and> sl_lock_var s \<noteq> 0 else sl_lock_var s \<noteq> 0 \<or> signalled s))
     \<and> (w = W64 \<and> (cs_place k = Store \<or> cs_place k = Test_Loaded \<and> cs_reg k = 0) \<longrightarrow> cs_reserved k \<or> cs_event k)
     \<and> (w = W64 \<and> cs_place k = Test_Stored \<and> cs_reg k \<noteq> 0 \<longrightarrow> cs_event k))"

lemma wake_next:
  assumes step: "code_step w s c s' \<or> wake_step s c s'" and inv: "wake_inv w s e"
  shows "wake_inv w s' e"
proof -
  have keep: "signalled s \<Longrightarrow> \<not> at s c Signal \<Longrightarrow> signalled s'"
    unfolding signalled_def using other_kept [OF step] by (metis kept_def)
  have fresh: "signalled (goto (store_lock W32 s 0) c Signal)" unfolding signalled_def by (rule exI [of _ c]) (simp add: lock_defs)
  from step show ?thesis unfolding code_step_def
  proof (elim disjE)
    assume "lock_step w s c s'"
    then show ?thesis using keep inv
      by - (elim lock_stepE; cases "e = c"; cases w; auto simp: wake_inv_def lock_defs Let_def)
  next
    assume "try_lock_step w s c s'"
    then show ?thesis using keep inv
      by - (elim try_lock_stepE; cases "e = c"; cases w; auto simp: wake_inv_def lock_defs Let_def)
  next
    assume "unlock_step w s c s'"
    then show ?thesis
    proof (cases rule: unlock_step.cases)
      case drop_guard
      then show ?thesis using inv fresh by - (cases "e = c"; cases w; auto simp: wake_inv_def lock_defs Let_def)
    next
      case signal
      then show ?thesis using inv by - (cases "e = c"; cases w; auto simp: wake_inv_def lock_defs Let_def)
    qed
  next
    assume "wake_step s c s'"
    then show ?thesis using keep inv
      by - (elim wake_stepE; cases "e = c"; cases w; auto simp: wake_inv_def lock_defs Let_def)
  qed
qed

lemma lock_reach_wake: "lock_reach w s \<Longrightarrow> wake_inv w s c"
proof (induction rule: lock_reach.induct)
  case lock_start
  show ?case by (simp add: wake_inv_def spin_lock_new_def)
qed (rule wake_next)

section \<open>Executions\<close>

text \<open>
  An execution interleaves the steps of the cores; \<open>who t\<close> is the core that takes step \<open>t\<close>, if any. A core outside of the lock's code need
  not enter it. In the code it is able to go on unless it sleeps without an event.
\<close>

definition execution :: "width \<Rightarrow> (nat \<Rightarrow> spin_lock) \<Rightarrow> (nat \<Rightarrow> nat option) \<Rightarrow> bool" where
  "execution w run who \<longleftrightarrow> run 0 = spin_lock_new \<and> (\<forall>t. case who t of None \<Rightarrow> run (Suc t) = run t
     | Some c \<Rightarrow> code_step w (run t) c (run (Suc t)) \<or> wake_step (run t) c (run (Suc t)))"

definition able :: "width \<Rightarrow> spin_lock \<Rightarrow> nat \<Rightarrow> bool" where
  "able w s c \<longleftrightarrow> \<not> at s c Out \<and> (\<exists>s'. code_step w s c s')"

text \<open>Weak fairness: no core stays able for ever without taking a step. For a core that holds a guard this says that it drops it.\<close>

definition fair :: "width \<Rightarrow> (nat \<Rightarrow> spin_lock) \<Rightarrow> (nat \<Rightarrow> nat option) \<Rightarrow> bool" where
  "fair w run who \<longleftrightarrow> (\<forall>c t. \<exists>u\<ge>t. who u = Some c \<or> \<not> able w (run u) c)"

text \<open>A core whose exclusive stores find their reservation again and again succeeds again and again.\<close>

definition tries :: "(nat \<Rightarrow> spin_lock) \<Rightarrow> (nat \<Rightarrow> nat option) \<Rightarrow> nat \<Rightarrow> nat \<Rightarrow> bool" where
  "tries run who c u \<longleftrightarrow> who u = Some c \<and> (at (run u) c Store \<or> at (run u) c Try_Store) \<and> cs_reserved (sl_cores (run u) c)"

definition stores_fair :: "(nat \<Rightarrow> spin_lock) \<Rightarrow> (nat \<Rightarrow> nat option) \<Rightarrow> bool" where
  "stores_fair run who \<longleftrightarrow> (\<forall>c. (\<forall>t. \<exists>u\<ge>t. tries run who c u) \<longrightarrow> (\<forall>t. \<exists>u\<ge>t. tries run who c u \<and> cs_reg (sl_cores (run (Suc u)) c) = 0))"

definition contends :: "spin_lock \<Rightarrow> nat \<Rightarrow> bool" where
  "contends s c \<longleftrightarrow> at s c Wait \<or> at s c Load \<or> at s c Test_Loaded \<or> at s c Store \<or> at s c Test_Stored \<and> cs_reg (sl_cores s c) \<noteq> 0"

lemma able_iff: "able w s c \<longleftrightarrow> \<not> at s c Out \<and> (at s c Wait \<longrightarrow> cs_event (sl_cores s c))"
proof -
  have "\<exists>s'. code_step w s c s'" if "at s c Wait \<longrightarrow> cs_event (sl_cores s c)"
    using that by (cases "cs_place (sl_cores s c)"; cases "cs_reg (sl_cores s c) = 0")
      (auto simp: code_step_def intro: lock_step.intros try_lock_step.intros unlock_step.intros)
  moreover have "cs_event (sl_cores s c)" if "code_step w s c s'" "at s c Wait" for s'
    using that by (auto simp: code_step_def elim!: stepE)
  ultimately show ?thesis unfolding able_def by blast
qed

lemma contends_next:
  assumes "code_step w s d s' \<or> wake_step s d s'" "contends s c"
  shows "contends s' c \<or> owns s' c"
proof (cases "d = c")
  case True
  with assms(1) consider "lock_step w s c s'" | "try_lock_step w s c s'" | "unlock_step w s c s'" | "wake_step s c s'"
    by (auto simp: code_step_def)
  then show ?thesis
  proof cases
    case 1
    then show ?thesis using assms(2) by - (elim lock_stepE; cases w; simp add: contends_def lock_defs)
  next
    case 2
    then show ?thesis using assms(2) by (cases rule: try_lock_step.cases) (simp_all add: contends_def)
  next
    case 3
    then show ?thesis using assms(2) by (cases rule: unlock_step.cases) (simp_all add: contends_def)
  next
    case 4
    then show ?thesis by (cases rule: wake_step.cases) (simp add: contends_def lock_defs)
  qed
next
  case False
  then have "kept (sl_cores s c) (sl_cores s' c)" by (intro other_kept [OF assms(1)]) simp
  with assms(2) show ?thesis by (simp add: contends_def kept_def)
qed

lemma exec_step: "execution w run who \<Longrightarrow> who t = Some c \<Longrightarrow> code_step w (run t) c (run (Suc t)) \<or> wake_step (run t) c (run (Suc t))"
  unfolding execution_def by (elim conjE allE [of _ t]) simp

lemma exec_stutter: "execution w run who \<Longrightarrow> who t = None \<Longrightarrow> run (Suc t) = run t"
  unfolding execution_def by (elim conjE allE [of _ t]) simp

lemma exec_reach: "execution w run who \<Longrightarrow> lock_reach w (run t)"
proof (induction t)
  case (Suc t)
  then show ?case
  proof (cases "who t")
    case None
    then have "run (Suc t) = run t" using Suc.prems by (auto intro: exec_stutter)
    with Suc show ?thesis by simp
  qed (use Suc exec_step lock_reach.lock_next in blast)
qed (simp add: execution_def lock_reach.lock_start)

lemma exec_kept:
  assumes "execution w run who" "who t \<noteq> Some c"
  shows "kept (sl_cores (run t) c) (sl_cores (run (Suc t)) c)"
proof (cases "who t")
  case None
  then show ?thesis using exec_stutter [OF assms(1) None] by (simp add: kept_def)
next
  case (Some d)
  then show ?thesis using exec_step [OF assms(1) Some] assms(2) by (intro other_kept) auto
qed

lemma kept_until:
  assumes "execution w run who" "t \<le> u" "\<And>v. t \<le> v \<Longrightarrow> v < u \<Longrightarrow> who v \<noteq> Some c"
  shows "kept (sl_cores (run t) c) (sl_cores (run u) c)"
  using assms(2,3)
proof (induction rule: dec_induct)
  case (step n)
  then show ?case using exec_kept [OF assms(1), of n c] by (auto simp: kept_def)
qed (simp add: kept_def)

lemma exec_reserved:
  assumes "execution w run who" "\<And>d. \<not> owns (run t) d \<and> \<not> owns (run (Suc t)) d" "who t \<noteq> Some c"
  shows "cs_reserved (sl_cores (run (Suc t)) c) = cs_reserved (sl_cores (run t) c)"
proof (cases "who t")
  case None
  then show ?thesis using exec_stutter [OF assms(1) None] by simp
next
  case (Some d)
  then show ?thesis using exec_step [OF assms(1) Some] other_reserved assms(2,3) by metis
qed

lemma reserved_until:
  assumes "execution w run who" "\<And>u d. t \<le> u \<Longrightarrow> \<not> owns (run u) d" "t \<le> u" "\<And>v. t \<le> v \<Longrightarrow> v < u \<Longrightarrow> who v \<noteq> Some c"
  shows "cs_reserved (sl_cores (run u) c) = cs_reserved (sl_cores (run t) c)"
  using assms(3,4)
proof (induction rule: dec_induct)
  case (step n)
  then show ?case using exec_reserved [OF assms(1), of n c] assms(2) by auto
qed simp

text \<open>A core that is able takes its next step.\<close>

lemma next_step:
  assumes "execution w run who" "fair w run who" "able w (run t) c"
  obtains u where "t \<le> u" "who u = Some c" "kept (sl_cores (run t) c) (sl_cores (run u) c)" "\<And>v. t \<le> v \<Longrightarrow> v < u \<Longrightarrow> who v \<noteq> Some c"
proof -
  let ?P = "\<lambda>u. t \<le> u \<and> (who u = Some c \<or> \<not> able w (run u) c)"
  define u where "u = (LEAST u. ?P u)"
  have "\<exists>u. ?P u" using assms(2) unfolding fair_def by blast
  then have u: "?P u" unfolding u_def by (rule LeastI_ex)
  have before: "who v \<noteq> Some c" if "t \<le> v" "v < u" for v using not_less_Least [of v ?P] that unfolding u_def by blast
  have "kept (sl_cores (run t) c) (sl_cores (run u) c)" using kept_until [OF assms(1) _ before] u by blast
  moreover from this have "able w (run u) c" using assms(3) by (auto simp: able_iff kept_def)
  ultimately show thesis using that u before by blast
qed

lemma own_step:
  assumes "code_step w s c s' \<or> wake_step s c s'"
  shows "at s c Wait \<Longrightarrow> at s' c Load"
    "at s c Load \<Longrightarrow> at s' c Test_Loaded \<and> cs_reg (sl_cores s' c) = sl_lock_var s \<and> cs_reserved (sl_cores s' c)"
    "at s c Test_Loaded \<Longrightarrow> at s' c (if cs_reg (sl_cores s c) = 0 then Store else Wait) \<and> cs_reserved (sl_cores s' c) = cs_reserved (sl_cores s c)"
    "at s c Store \<Longrightarrow> at s' c Test_Stored"
    "at s c Test_Stored \<Longrightarrow> if cs_reg (sl_cores s c) = 0 then at s' c Held else at s' c Wait \<or> at s' c Load"
    "at s c Try_Return \<Longrightarrow> cs_reg (sl_cores s c) = 0 \<Longrightarrow> at s' c Held"
    "at s c Held \<Longrightarrow> \<not> owns s' c" "at s c Signal \<Longrightarrow> cs_event (sl_cores s' d)"
    "at s c Store \<or> at s c Try_Store \<Longrightarrow> cs_reg (sl_cores s' c) = 0 \<Longrightarrow> owns s' c"
  using assms unfolding code_step_def by - (elim disjE stepE; cases w; simp add: lock_defs)+

text \<open>A part of an execution in which nobody owns the lock: no store to the lock variable takes place.\<close>

definition unowned :: "(nat \<Rightarrow> spin_lock) \<Rightarrow> nat \<Rightarrow> bool" where
  "unowned run t \<longleftrightarrow> (\<forall>u\<ge>t. \<forall>d. \<not> owns (run u) d)"

lemma unowned_free: "execution w run who \<Longrightarrow> unowned run t \<Longrightarrow> t \<le> u \<Longrightarrow> sl_lock_var (run u) = 0"
  using lock_reach_inv [OF exec_reach, of w run who u] by (auto simp: lock_inv_def owner_inv_def unowned_def split: if_splits)

lemma unowned_mono: "unowned run t \<Longrightarrow> t \<le> u \<Longrightarrow> unowned run u"
  by (simp add: unowned_def)

lemma unowned_next:
  assumes "execution w run who" "fair w run who" "unowned run t" "able w (run t) c"
  obtains u where "t \<le> u" "who u = Some c" "kept (sl_cores (run t) c) (sl_cores (run u) c)"
    "cs_reserved (sl_cores (run u) c) = cs_reserved (sl_cores (run t) c)"
    "code_step w (run u) c (run (Suc u)) \<or> wake_step (run u) c (run (Suc u))"
proof -
  obtain u where u: "t \<le> u" "who u = Some c" "kept (sl_cores (run t) c) (sl_cores (run u) c)" "\<And>v. t \<le> v \<Longrightarrow> v < u \<Longrightarrow> who v \<noteq> Some c"
    using next_step [OF assms(1,2,4)] by blast
  have "cs_reserved (sl_cores (run u) c) = cs_reserved (sl_cores (run t) c)"
    using reserved_until [OF assms(1) _ u(1,4)] assms(3) by (simp add: unowned_def)
  with u exec_step [OF assms(1) u(2)] that show thesis by blast
qed

lemma wait_leads:
  assumes "execution w run who" "fair w run who" "unowned run t" "at (run t) c Wait"
  shows "\<exists>u\<ge>t. at (run u) c Load"
proof -
  have ev: "\<exists>v\<ge>u. at (run v) c Load" if "t \<le> u" "at (run u) c Wait" "cs_event (sl_cores (run u) c)" for u
  proof -
    have "able w (run u) c" using that by (simp add: able_iff)
    from unowned_next [OF assms(1,2) unowned_mono [OF assms(3) that(1)] this]
    obtain v where "u \<le> v" "kept (sl_cores (run u) c) (sl_cores (run v) c)" "code_step w (run v) c (run (Suc v)) \<or> wake_step (run v) c (run (Suc v))" by blast
    with that(2) own_step(1) [of w "run v" c "run (Suc v)"] show ?thesis by (intro exI [of _ "Suc v"]) (simp add: kept_def)
  qed
  show ?thesis
  proof (cases "cs_event (sl_cores (run t) c)")
    case True
    with ev assms(4) show ?thesis by blast
  next
    case False
    have "sl_lock_var (run t) = 0" using unowned_free [OF assms(1,3)] by simp
    with lock_reach_wake [OF exec_reach [OF assms(1)], of t c] assms(4) False obtain d where d: "at (run t) d Signal"
      by (auto simp: wake_inv_def signalled_def Let_def split: if_splits)
    then have "able w (run t) d" by (simp add: able_iff)
    from unowned_next [OF assms(1-3) this] obtain u where u: "t \<le> u" "kept (sl_cores (run t) d) (sl_cores (run u) d)"
        "code_step w (run u) d (run (Suc u)) \<or> wake_step (run u) d (run (Suc u))" by blast
    then have event: "cs_event (sl_cores (run (Suc u)) c)" using own_step(8) [OF u(3), of c] d by (simp add: kept_def)
    show ?thesis
    proof (cases "\<exists>v. t \<le> v \<and> v < Suc u \<and> who v = Some c")
      case True
      define v where "v = (LEAST v. t \<le> v \<and> v < Suc u \<and> who v = Some c)"
      have v: "t \<le> v" "v < Suc u" "who v = Some c" using LeastI_ex [OF True] by (simp_all add: v_def)
      have "who v' \<noteq> Some c" if "t \<le> v'" "v' < v" for v' using not_less_Least [OF that(2) [unfolded v_def]] that v(2) by simp
      with kept_until [OF assms(1) v(1)] assms(4) have "at (run v) c Wait" by (simp add: kept_def)
      with own_step(1) [OF exec_step [OF assms(1) v(3)]] v(1) show ?thesis by (intro exI [of _ "Suc v"]) simp
    next
      case False
      then have "kept (sl_cores (run t) c) (sl_cores (run (Suc u)) c)" using u(1) by (intro kept_until [OF assms(1)]) auto
      then have "at (run (Suc u)) c Wait" using assms(4) by (simp add: kept_def)
      with ev [of "Suc u"] event u(1) show ?thesis by (meson le_SucI le_trans)
    qed
  qed
qed

text \<open>Every core in \<open>lock\<close> comes back to its load, and from there to an exclusive store with a reservation.\<close>

lemma load_leads:
  assumes "execution w run who" "fair w run who" "unowned run t" "contends (run t) c"
  shows "\<exists>u\<ge>t. at (run u) c Load"
proof -
  have move: "\<exists>u\<ge>v. kept (sl_cores (run v) c) (sl_cores (run u) c) \<and> (code_step w (run u) c (run (Suc u)) \<or> wake_step (run u) c (run (Suc u)))"
    if "t \<le> v" "\<not> at (run v) c Out" "\<not> at (run v) c Wait" for v
    using unowned_next [OF assms(1,2) unowned_mono [OF assms(3) that(1)], of c] that(2,3) by (metis able_iff)
  have wait: "\<exists>u\<ge>v. at (run u) c Load" if "t \<le> v" "at (run v) c Wait" for v
    using wait_leads [OF assms(1,2) unowned_mono [OF assms(3)]] that by blast
  have stored: "\<exists>u\<ge>v. at (run u) c Load" if v: "t \<le> v" "at (run v) c Test_Stored" for v
  proof -
    obtain u where u: "v \<le> u" "kept (sl_cores (run v) c) (sl_cores (run u) c)" "code_step w (run u) c (run (Suc u)) \<or> wake_step (run u) c (run (Suc u))"
      using move [OF v(1)] v(2) by auto
    have "cs_reg (sl_cores (run u) c) \<noteq> 0" using assms(3) v u(1,2) by (auto simp: unowned_def owns_def kept_def dest: spec [of _ u])
    then have "at (run (Suc u)) c Wait \<or> at (run (Suc u)) c Load" using own_step(5) [OF u(3)] u(2) v(2) by (simp add: kept_def)
    with wait [of "Suc u"] v(1) u(1) show ?thesis by (meson le_SucI le_trans)
  qed
  have stor: "\<exists>u\<ge>v. at (run u) c Load" if v: "t \<le> v" "at (run v) c Store" for v
  proof -
    obtain u where u: "v \<le> u" "kept (sl_cores (run v) c) (sl_cores (run u) c)" "code_step w (run u) c (run (Suc u)) \<or> wake_step (run u) c (run (Suc u))"
      using move [OF v(1)] v(2) by auto
    have "at (run (Suc u)) c Test_Stored" using own_step(4) [OF u(3)] u(2) v(2) by (simp add: kept_def)
    with stored [of "Suc u"] v(1) u(1) show ?thesis by (meson le_SucI le_trans)
  qed
  have test: "\<exists>u\<ge>t. at (run u) c Load" if tl: "at (run t) c Test_Loaded"
  proof -
    obtain u where u: "t \<le> u" "kept (sl_cores (run t) c) (sl_cores (run u) c)" "code_step w (run u) c (run (Suc u)) \<or> wake_step (run u) c (run (Suc u))"
      using move [of t] tl by auto
    have "at (run (Suc u)) c Store \<or> at (run (Suc u)) c Wait" using own_step(3) [OF u(3)] u(2) tl by (auto simp: kept_def split: if_splits)
    with wait [of "Suc u"] stor [of "Suc u"] u(1) show ?thesis by (meson le_SucI le_trans)
  qed
  show ?thesis using assms(4) wait [of t] test stor [of t] stored [of t] unfolding contends_def by blast
qed

lemma store_leads:
  assumes "execution w run who" "fair w run who" "unowned run t" "at (run t) c Load"
  shows "\<exists>u\<ge>t. tries run who c u"
proof -
  have "able w (run t) c" using assms(4) by (simp add: able_iff)
  from unowned_next [OF assms(1-3) this] obtain u where u: "t \<le> u" "kept (sl_cores (run t) c) (sl_cores (run u) c)"
      "code_step w (run u) c (run (Suc u)) \<or> wake_step (run u) c (run (Suc u))" by blast
  have l: "at (run (Suc u)) c Test_Loaded" "cs_reg (sl_cores (run (Suc u)) c) = 0" "cs_reserved (sl_cores (run (Suc u)) c)"
    using own_step(2) [OF u(3)] u(1,2) assms(4) unowned_free [OF assms(1,3) u(1)] by (simp_all add: kept_def)
  have "able w (run (Suc u)) c" using l(1) by (simp add: able_iff)
  from unowned_next [OF assms(1,2) unowned_mono [OF assms(3)] this] u(1) obtain v where v: "u \<le> v" "kept (sl_cores (run (Suc u)) c) (sl_cores (run v) c)"
      "cs_reserved (sl_cores (run v) c)" "code_step w (run v) c (run (Suc v)) \<or> wake_step (run v) c (run (Suc v))" using l(3) by (metis Suc_leD le_SucI)
  have s: "at (run (Suc v)) c Store" "cs_reserved (sl_cores (run (Suc v)) c)"
    using own_step(3) [OF v(4)] v(2,3) l by (simp_all add: kept_def)
  have "able w (run (Suc v)) c" using s(1) by (simp add: able_iff)
  from unowned_next [OF assms(1,2) unowned_mono [OF assms(3)] this] u(1) v(1) obtain x where "v \<le> x" "who x = Some c" "kept (sl_cores (run (Suc v)) c) (sl_cores (run x) c)"
      "cs_reserved (sl_cores (run x) c)" using s(2) by (metis Suc_leD le_SucI le_trans)
  with s(1) u(1) v(1) show ?thesis by (intro exI [of _ x]) (simp add: tries_def kept_def)
qed

text \<open>The owner releases the lock.\<close>

lemma owner_leads:
  assumes "execution w run who" "fair w run who" "owns (run t) d"
  shows "\<exists>u\<ge>t. \<not> owns (run u) d"
proof -
  have step: "\<exists>u\<ge>v. kept (sl_cores (run v) d) (sl_cores (run u) d) \<and> (code_step w (run u) d (run (Suc u)) \<or> wake_step (run u) d (run (Suc u)))"
    if "owns (run v) d" for v
  proof -
    have "able w (run v) d" using that by (auto simp: able_iff owns_def)
    from next_step [OF assms(1,2) this] exec_step [OF assms(1)] show ?thesis by metis
  qed
  have held: "\<exists>u\<ge>v. \<not> owns (run u) d" if v: "at (run v) d Held" for v
  proof -
    from step [of v] v obtain u where u: "v \<le> u" "kept (sl_cores (run v) d) (sl_cores (run u) d)"
        "code_step w (run u) d (run (Suc u)) \<or> wake_step (run u) d (run (Suc u))" by (auto simp: owns_def)
    with own_step(7) [OF u(3)] v show ?thesis by (intro exI [of _ "Suc u"]) (simp add: kept_def)
  qed
  obtain u where u: "t \<le> u" "kept (sl_cores (run t) d) (sl_cores (run u) d)" "code_step w (run u) d (run (Suc u)) \<or> wake_step (run u) d (run (Suc u))"
    using step [OF assms(3)] by blast
  have "at (run t) d Held \<or> at (run (Suc u)) d Held"
    using assms(3) own_step(5,6) [OF u(3)] u(2) by (auto simp: owns_def kept_def)
  with held [of t] held [of "Suc u"] u(1) show ?thesis by (meson le_SucI le_trans order_refl)
qed

section \<open>Running a schedule\<close>

text \<open>The next step of a core whose exclusive stores fail only without a reservation, and the execution that a schedule of cores gives.\<close>

definition code_next :: "width \<Rightarrow> spin_lock \<Rightarrow> nat \<Rightarrow> spin_lock" where
  "code_next w s c = (let k = sl_cores s c in case cs_place k of
     Out \<Rightarrow> if w = W64 then goto (send_event_local s c) c Wait else goto s c Load
   | Wait \<Rightarrow> goto (clear_event s c) c Load
   | Load \<Rightarrow> load_exclusive s c Test_Loaded
   | Test_Loaded \<Rightarrow> goto s c (if cs_reg k = 0 then Store else Wait)
   | Store \<Rightarrow> if cs_reserved k then store_success w s c Test_Stored else store_failure w s c Test_Stored
   | Test_Stored \<Rightarrow> goto s c (if cs_reg k = 0 then Held else if w = W64 then Wait else Load)
   | Held \<Rightarrow> goto (store_lock w s 0) c (if w = W64 then Out else Signal)
   | Signal \<Rightarrow> goto (send_event s) c Out
   | Try_Load \<Rightarrow> load_exclusive s c Try_Test
   | Try_Test \<Rightarrow> goto s c (if cs_reg k = 0 then Try_Store else Try_Return)
   | Try_Store \<Rightarrow> if cs_reserved k then store_success w s c Try_Return else store_failure w s c Try_Return
   | Try_Return \<Rightarrow> goto s c (if cs_reg k = 0 then Held else Out))"

lemma code_next_step: "at s c Wait \<longrightarrow> cs_event (sl_cores s c) \<Longrightarrow> code_step w s c (code_next w s c)"
  using lock_step.intros [of s c w] try_lock_step.intros [of s c w] unlock_step.intros [of s c w]
  by (cases "cs_place (sl_cores s c)") (simp_all add: code_next_def code_step_def Let_def)

fun enabled_all :: "width \<Rightarrow> spin_lock \<Rightarrow> nat list \<Rightarrow> bool" where
  "enabled_all w s [] = True"
| "enabled_all w s (c # cs) \<longleftrightarrow> (at s c Wait \<longrightarrow> cs_event (sl_cores s c)) \<and> enabled_all w (code_next w s c) cs"

definition sched_run :: "width \<Rightarrow> nat list \<Rightarrow> nat \<Rightarrow> spin_lock" where
  "sched_run w cs t = foldl (code_next w) spin_lock_new (take t cs)"

definition sched_who :: "nat list \<Rightarrow> nat \<Rightarrow> nat option" where
  "sched_who cs t = (if t < length cs then Some (cs ! t) else None)"

lemma enabled_nth: "enabled_all w s cs \<Longrightarrow> t < length cs \<Longrightarrow> code_step w (foldl (code_next w) s (take t cs)) (cs ! t) (foldl (code_next w) s (take (Suc t) cs))"
proof (induction cs arbitrary: s t)
  case (Cons c cs)
  then show ?case using code_next_step [of s c w] by (cases t) simp_all
qed simp

lemma sched_execution:
  assumes "enabled_all w spin_lock_new cs"
  shows "execution w (sched_run w cs) (sched_who cs)"
  using enabled_nth [OF assms] by (simp add: execution_def sched_run_def sched_who_def)

lemma sched_fair:
  assumes "\<forall>c. at (foldl (code_next w) spin_lock_new cs) c Out"
  shows "fair w (sched_run w cs) (sched_who cs)" "stores_fair (sched_run w cs) (sched_who cs)"
proof -
  have "\<not> able w (sched_run w cs u) c" if "length cs \<le> u" for u c using that assms by (simp add: sched_run_def able_def)
  then show "fair w (sched_run w cs) (sched_who cs)" unfolding fair_def by (meson linorder_le_cases)
  have "\<not> tries (sched_run w cs) (sched_who cs) c u" if "length cs \<le> u" for u c using that by (simp add: tries_def sched_who_def)
  then show "stores_fair (sched_run w cs) (sched_who cs)" unfolding stores_fair_def by blast
qed

text \<open>
  Two cores of ARM: core 0 takes the lock, core 1 finds it taken and goes to sleep, core 0 releases it and sends the event, and core 1 wakes up and takes
  and releases it.
\<close>

definition two_cores :: "nat list" where
  "two_cores = replicate 5 0 @ replicate 3 1 @ [0, 0] @ replicate 7 1"

lemmas sched_simps = two_cores_def code_next_def spin_lock_new_def lock_defs Let_def

lemma two_cores_enabled: "enabled_all W32 spin_lock_new two_cores"
  by (simp add: sched_simps eval_nat_numeral)

lemma two_cores_end: "at (foldl (code_next W32) spin_lock_new two_cores) c Out"
  by (cases "c = 0"; cases "c = 1") (simp_all add: sched_simps eval_nat_numeral)

section \<open>Properties\<close>

text \<open>
  \<^bold>\<open>C11\<close> Mutual exclusion: in every state that any interleaving of \<open>lock\<close>, \<open>try_lock\<close> and dropped guards
  reaches, with any number of cores, at most one core holds a guard, and the lock variable is 0 exactly when
  no core owns the lock.
\<close>
theorem spin_lock_mutex:
  assumes "lock_reach w s"
  shows "(\<forall>c d. at s c Held \<and> at s d Held \<longrightarrow> c = d) \<and> (sl_lock_var s = 0 \<longleftrightarrow> (\<forall>c. \<not> owns s c))"
proof -
  have "owner_inv s" using lock_reach_inv [OF assms] by (simp add: lock_inv_def)
  moreover have "at s c Held \<Longrightarrow> owns s c" for c by (simp add: owns_def)
  ultimately show ?thesis unfolding owner_inv_def by (metis (full_types))
qed

theorem spin_lock_mutex_witness: "\<forall>d. at (sched_run W32 two_cores 8) d Held \<longleftrightarrow> d = 0"
proof -
  have "at (sched_run W32 two_cores 8) 0 Held" by (simp add: sched_run_def sched_simps eval_nat_numeral)
  then show ?thesis using spin_lock_mutex [OF exec_reach [OF sched_execution [OF two_cores_enabled], of 8]] by blast
qed

text \<open>
  \<^bold>\<open>C31\<close> Progress: no wake-up is lost and the lock does not deadlock. In every execution of any number of cores, on either architecture, that is fair (a core in the code of
  the lock takes its next step unless it sleeps without an event, a core that holds a guard drops it, and a core whose exclusive stores keep finding their reservation
  does not fail for ever), whenever a core is inside of \<open>lock\<close> and does not own the lock, some core acquires it then or later.
\<close>
theorem spin_lock_progress:
  assumes "execution w run who" "fair w run who" "stores_fair run who" "contends (run t) c"
  shows "\<exists>u\<ge>t. \<exists>d. \<not> owns (run u) d \<and> owns (run (Suc u)) d"
proof (rule ccontr)
  assume "\<not> ?thesis"
  then have earlier: "owns (run (Suc u)) d \<Longrightarrow> owns (run u) d" if "t \<le> u" for u d using that by blast
  have none: "owns (run v) d \<Longrightarrow> owns (run u) d" if uv: "t \<le> u" "u \<le> v" for u v d
    using uv(2)
  proof (induction v rule: dec_induct)
    case (step n)
    then show ?case using earlier [of n d] uv(1) by linarith
  qed
  obtain T where T: "t \<le> T" "unowned run T"
  proof (cases "\<exists>d. owns (run t) d")
    case True
    then obtain d where d: "owns (run t) d" by blast
    obtain T where "t \<le> T" "\<not> owns (run T) d" using owner_leads [OF assms(1,2) d] by blast
    moreover have "e = d" if "owns (run t) e" for e
      using lock_reach_inv [OF exec_reach [OF assms(1)], of t] d that by (auto simp: lock_inv_def owner_inv_def split: if_splits)
    ultimately show thesis using that [of T] none unfolding unowned_def by (metis order_refl le_trans)
  next
    case False
    then show thesis using that [of t] none unfolding unowned_def by blast
  qed
  have "\<not> owns (run t) c" using assms(4) by (auto simp: contends_def owns_def)
  then have out: "\<not> owns (run u) c" if "t \<le> u" for u using none [OF order_refl that] by blast
  have inside: "contends (run u) c" if "t \<le> u" for u
    using that
  proof (induction rule: dec_induct)
    case (step n)
    have "contends (run (Suc n)) c \<or> owns (run (Suc n)) c"
      using contends_next [OF exec_step [OF assms(1)] step.IH] exec_stutter [OF assms(1), of n] step.IH by (cases "who n") auto
    then show ?case using out [of "Suc n"] step.hyps(1) by simp
  qed (rule assms(4))
  have "\<exists>u\<ge>v. tries run who c u" for v
  proof -
    let ?v = "max v T"
    obtain x where x: "?v \<le> x" "at (run x) c Load"
      using load_leads [OF assms(1,2) unowned_mono [OF T(2)] inside, of ?v] max.coboundedI2 [OF T(1)] by (metis max.cobounded2)
    then show ?thesis using store_leads [OF assms(1,2) unowned_mono [OF T(2)] x(2)] by (meson le_trans max.boundedE)
  qed
  then obtain u where u: "T \<le> u" "tries run who c u" "cs_reg (sl_cores (run (Suc u)) c) = 0"
    using assms(3) unfolding stores_fair_def by blast
  then have "owns (run (Suc u)) c" using own_step(9) [OF exec_step [OF assms(1), of u c]] by (auto simp: tries_def)
  then show False using T u(1) by (auto simp: unowned_def dest: spec [of _ "Suc u"])
qed

theorem spin_lock_progress_witness:
  "at (sched_run W32 two_cores 8) 0 Held \<and> at (sched_run W32 two_cores 8) 1 Wait
    \<and> (\<exists>u\<ge>8. \<exists>d. \<not> owns (sched_run W32 two_cores u) d \<and> owns (sched_run W32 two_cores (Suc u)) d)"
proof -
  have p: "at (sched_run W32 two_cores 8) 0 Held" "at (sched_run W32 two_cores 8) 1 Wait"
    by (simp_all add: sched_run_def sched_simps eval_nat_numeral)
  then have "contends (sched_run W32 two_cores 8) 1" by (simp add: contends_def)
  with spin_lock_progress [OF sched_execution [OF two_cores_enabled] sched_fair, of 8 1] two_cores_end p show ?thesis by blast
qed

end
