(* ===== verification/Memory_Config.thy ===== *)
theory Memory_Config
  imports Range_Sets
begin

text \<open>
  The memory configuration of \<open>src/arch/common/memory.rs\<close>: ranges tagged with their zone, and the handlers
  (\<open>RangeZoneTagger\<close> of both architectures) that enter a range of the device tree into it.
\<close>

section \<open>Zones and configurations\<close>

datatype memory_zone = InvalidZone | LinearMemoryZone | HighMemoryZone

definition MAX_MEM_RANGES :: usize where "MAX_MEM_RANGES = 64"

type_synonym memory_range = "memory_zone range"
type_synonym memory_config = "memory_zone range_set"

definition memory_config_new :: memory_config where
  "memory_config_new = range_set_new MAX_MEM_RANGES InvalidZone"

section \<open>Range handlers\<close>

text \<open>The result of \<open>insert_range\<close> is ignored by the handlers.\<close>

definition a64_handle_range :: "memory_config \<Rightarrow> usize \<Rightarrow> usize \<Rightarrow> memory_config option" where
  "a64_handle_range config base sz = do {
     (config, _) \<leftarrow> insert_range W64 config \<lparr>r_tag = LinearMemoryZone, r_base = base, r_size = sz\<rparr>;
     Some config }"

definition arm_handle_range :: "usize \<Rightarrow> memory_config \<Rightarrow> usize \<Rightarrow> usize \<Rightarrow> memory_config option" where
  "arm_handle_range high_mem_base config base sz = do {
     parts \<leftarrow> range_split W32 \<lparr>r_tag = InvalidZone, r_base = base, r_size = sz\<rparr> high_mem_base;
     case parts of
       Inl _ \<Rightarrow> None
     | Inr (rl, rh) \<Rightarrow> do {
         config \<leftarrow> (case rl of
             None \<Rightarrow> Some config
           | Some r \<Rightarrow> do {
               (config, _) \<leftarrow> insert_range W32 config \<lparr>r_tag = LinearMemoryZone, r_base = r_base r, r_size = r_size r\<rparr>;
               Some config });
         (case rh of
             None \<Rightarrow> Some config
           | Some r \<Rightarrow> do {
               (config, _) \<leftarrow> insert_range W32 config \<lparr>r_tag = HighMemoryZone, r_base = r_base r, r_size = r_size r\<rparr>;
               Some config }) } }"

section \<open>What a handler promises\<close>

text \<open>Every range of the configuration is tagged with the zone that contains it; high memory begins at \<open>hb\<close>.\<close>

definition zone_ok :: "usize \<Rightarrow> memory_range \<Rightarrow> bool" where
  "zone_ok hb r \<longleftrightarrow> r_tag r = LinearMemoryZone \<and> r_base r + r_size r \<le> hb \<or> r_tag r = HighMemoryZone \<and> hb \<le> r_base r"

definition config_ok :: "width \<Rightarrow> usize \<Rightarrow> memory_config \<Rightarrow> bool" where
  "config_ok w hb c \<longleftrightarrow> rs_valid w c \<and> rs_sorted c \<and> (\<forall>r\<in>set (live c). zone_ok hb r)"

fun handle_each :: "('c \<Rightarrow> usize \<Rightarrow> usize \<Rightarrow> 'c option) \<Rightarrow> 'c \<Rightarrow> (usize \<times> usize) list \<Rightarrow> 'c option" where
  "handle_each f c [] = Some c"
| "handle_each f c ((base, sz) # rs) = do { c \<leftarrow> f c base sz; handle_each f c rs }"

lemma handle_each_append: "handle_each f c (xs @ ys) = do { c \<leftarrow> handle_each f c xs; handle_each f c ys }"
  by (induction f c xs rule: handle_each.induct) (simp_all add: bind_eq_Some_conv split: bind_splits)

definition pair_ok :: "width \<Rightarrow> usize \<times> usize \<Rightarrow> bool" where
  "pair_ok w p \<longleftrightarrow> 0 < snd p \<and> snd p < usize_lim w \<and> fst p + snd p \<le> usize_lim w"

definition pair_addrs :: "usize \<times> usize \<Rightarrow> nat set" where
  "pair_addrs p = {fst p ..< fst p + snd p}"

locale range_handler =
  fixes w :: width
    and ok :: "memory_config \<Rightarrow> bool"
    and cost :: nat
    and handle :: "memory_config \<Rightarrow> usize \<Rightarrow> usize \<Rightarrow> memory_config option"
  assumes ok_law: "ok c \<Longrightarrow> rs_valid w c \<and> rs_sorted c"
    and handle_law: "ok c \<Longrightarrow> pair_ok w (base, sz) \<Longrightarrow> \<exists>c'. handle c base sz = Some c' \<and> ok c'
      \<and> (cost \<le> rs_room c \<longrightarrow> rs_addrs c' = rs_addrs c \<union> {base ..< base + sz} \<and> rs_room c \<le> rs_room c' + cost
           \<and> (rs_disjoint c \<and> rs_addrs c \<inter> {base ..< base + sz} = {} \<longrightarrow> rs_disjoint c'))"
begin

lemma handle_each_ok:
  assumes "ok c" "\<forall>p\<in>set ps. pair_ok w p"
  shows "\<exists>c'. handle_each handle c ps = Some c' \<and> ok c'
    \<and> (cost * length ps \<le> rs_room c \<longrightarrow> rs_addrs c' = rs_addrs c \<union> (\<Union>p\<in>set ps. pair_addrs p) \<and> rs_room c \<le> rs_room c' + cost * length ps
         \<and> (rs_disjoint c \<and> (\<forall>p\<in>set ps. rs_addrs c \<inter> pair_addrs p = {}) \<and> sorted_wrt (\<lambda>p q. pair_addrs p \<inter> pair_addrs q = {}) ps \<longrightarrow> rs_disjoint c'))"
  using assms
proof (induction ps arbitrary: c)
  case (Cons p ps)
  obtain base sz where p: "p = (base, sz)" by (cases p)
  obtain c1 where c1: "handle c base sz = Some c1" "ok c1"
      "cost \<le> rs_room c \<longrightarrow> rs_addrs c1 = rs_addrs c \<union> {base ..< base + sz} \<and> rs_room c \<le> rs_room c1 + cost
        \<and> (rs_disjoint c \<and> rs_addrs c \<inter> {base ..< base + sz} = {} \<longrightarrow> rs_disjoint c1)"
    using handle_law [of c base sz] Cons.prems p by auto
  obtain c2 where c2: "handle_each handle c1 ps = Some c2" "ok c2"
      "cost * length ps \<le> rs_room c1 \<longrightarrow> rs_addrs c2 = rs_addrs c1 \<union> (\<Union>p\<in>set ps. pair_addrs p) \<and> rs_room c1 \<le> rs_room c2 + cost * length ps
         \<and> (rs_disjoint c1 \<and> (\<forall>p\<in>set ps. rs_addrs c1 \<inter> pair_addrs p = {}) \<and> sorted_wrt (\<lambda>p q. pair_addrs p \<inter> pair_addrs q = {}) ps \<longrightarrow> rs_disjoint c2)"
    using Cons.IH [OF c1(2)] Cons.prems by auto
  have "rs_addrs c2 = rs_addrs c \<union> (\<Union>p\<in>set (p # ps). pair_addrs p) \<and> rs_room c \<le> rs_room c2 + cost * length (p # ps)
      \<and> (rs_disjoint c \<and> (\<forall>q\<in>set (p # ps). rs_addrs c \<inter> pair_addrs q = {}) \<and> sorted_wrt (\<lambda>p q. pair_addrs p \<inter> pair_addrs q = {}) (p # ps) \<longrightarrow> rs_disjoint c2)"
    if "cost * length (p # ps) \<le> rs_room c"
  proof -
    have a: "cost \<le> rs_room c" "cost * length ps + cost \<le> rs_room c" using that by simp_all
    have a1: "rs_addrs c1 = rs_addrs c \<union> pair_addrs p" "rs_room c \<le> rs_room c1 + cost" "rs_disjoint c \<and> rs_addrs c \<inter> pair_addrs p = {} \<longrightarrow> rs_disjoint c1"
      using c1(3) a(1) by (simp_all add: p pair_addrs_def)
    then have "cost * length ps \<le> rs_room c1" using a by linarith
    then have a2: "rs_addrs c2 = rs_addrs c1 \<union> (\<Union>p\<in>set ps. pair_addrs p)" "rs_room c1 \<le> rs_room c2 + cost * length ps"
        "rs_disjoint c1 \<and> (\<forall>p\<in>set ps. rs_addrs c1 \<inter> pair_addrs p = {}) \<and> sorted_wrt (\<lambda>p q. pair_addrs p \<inter> pair_addrs q = {}) ps \<longrightarrow> rs_disjoint c2"
      using c2(3) by blast+
    have "rs_room c \<le> rs_room c2 + cost * length (p # ps)" using a1(2) a2(2) by simp
    moreover have "rs_disjoint c2" if "rs_disjoint c" "\<forall>q\<in>set (p # ps). rs_addrs c \<inter> pair_addrs q = {}" "sorted_wrt (\<lambda>p q. pair_addrs p \<inter> pair_addrs q = {}) (p # ps)"
      using a2(3) a1(1,3) that by auto
    ultimately show ?thesis using a1(1) a2(1) by auto
  qed
  with c1(1) c2(1,2) p show ?case by auto
qed simp

end

lemma insert_disjoint:
  assumes "sorted_wrt ends_before xs" "\<forall>x\<in>set xs. 0 < r_size x \<and> addrs x \<inter> addrs r = {}" "0 < r_size r"
  shows "sorted_wrt ends_before (insert_live r xs)"
  using assms
proof (induction xs)
  case (Cons x xs)
  have x: "addrs x \<inter> addrs r = {}" "0 < r_size x" using Cons.prems(2) by auto
  show ?case
  proof (cases "r_base x \<le> r_base r")
    case True
    have "r_base r \<notin> addrs x" using x(1) assms(3) by (auto simp: addrs_def)
    then have "ends_before x r" using True by (auto simp: addrs_def ends_before_def)
    moreover have "insert_live r (x # xs) = x # insert_live r xs" using True by (simp add: insert_live_def)
    ultimately show ?thesis using Cons by auto
  next
    case False
    have "r_base x \<notin> addrs r" using x by (auto simp: addrs_def)
    then have e: "ends_before r x" using False by (auto simp: addrs_def ends_before_def)
    have "ends_before r y" if "y \<in> set xs" for y
      using e Cons.prems(1) that by (fastforce simp: ends_before_def)
    with e False Cons.prems(1) show ?thesis by (simp add: insert_live_def)
  qed
qed (simp add: insert_live_def)

lemma insert_keeps:
  assumes "config_ok w hb c" "range_ok w r" "r_size r < usize_lim w" "zone_ok hb r"
  shows "\<exists>c' b. insert_range w c r = Some (c', b) \<and> config_ok w hb c'
    \<and> (1 \<le> rs_room c \<longrightarrow> rs_addrs c' = rs_addrs c \<union> addrs r \<and> rs_room c \<le> rs_room c' + 1 \<and> (rs_disjoint c \<and> rs_addrs c \<inter> addrs r = {} \<longrightarrow> rs_disjoint c'))"
proof -
  have c: "rs_inv c" "\<forall>r\<in>set (live c). range_ok w r" "rs_sorted c" "\<forall>r\<in>set (live c). zone_ok hb r"
    using assms(1) by (auto simp: config_ok_def rs_valid_def)
  have b: "r_base r < usize_lim w" using assms(2) by (auto simp: range_ok_def)
  show ?thesis
  proof (cases "rs_count c < length (rs_ranges c)")
    case True
    obtain c' where i: "insert_range w c r = Some (c', True)" "live c' = insert_live r (live c)" "rs_inv c'" "length (rs_ranges c') = length (rs_ranges c)"
      using insert_range_eq(1) [OF c(1) b assms(3)] True assms(2) by blast
    have "config_ok w hb c'"
      using c i(2,3) assms(2,4) by (auto simp: config_ok_def rs_valid_def rs_sorted_def intro: insert_live_sorted)
    moreover have "rs_addrs c' = rs_addrs c \<union> addrs r" by (auto simp: rs_addrs_def i(2))
    moreover have "length (live c') = Suc (length (live c))" unfolding i(2) insert_live_def by (metis add_Suc_right length_Cons length_append takeWhile_dropWhile_id)
    then have "rs_room c \<le> rs_room c' + 1" using c(1) i(3,4) by (simp add: rs_room_def)
    moreover have "rs_disjoint c'" if "rs_disjoint c" "rs_addrs c \<inter> addrs r = {}"
      using insert_disjoint [of "live c" r] that c(2) assms(2) by (auto simp: rs_disjoint_def i(2) rs_addrs_def range_ok_def)
    ultimately show ?thesis using i(1) by blast
  next
    case False
    with insert_range_eq(2) [OF c(1) b assms(3)] assms(1) show ?thesis by (auto simp: rs_room_def)
  qed
qed

interpretation rx: range_handler W64 "config_ok W64 (2 ^ 64)" 1 a64_handle_range
proof (unfold_locales, simp add: config_ok_def)
  fix c base sz
  assume a: "config_ok W64 (2 ^ 64) c" "pair_ok W64 (base, sz)"
  let ?r = "\<lparr>r_tag = LinearMemoryZone, r_base = base, r_size = sz\<rparr>"
  have "range_ok W64 ?r" "r_size ?r < usize_lim W64" "zone_ok (2 ^ 64) ?r" using a(2) by (simp_all add: pair_ok_def range_ok_def zone_ok_def)
  from insert_keeps [OF a(1) this] show "\<exists>c'. a64_handle_range c base sz = Some c' \<and> config_ok W64 (2 ^ 64) c'
      \<and> (1 \<le> rs_room c \<longrightarrow> rs_addrs c' = rs_addrs c \<union> {base ..< base + sz} \<and> rs_room c \<le> rs_room c' + 1
           \<and> (rs_disjoint c \<and> rs_addrs c \<inter> {base ..< base + sz} = {} \<longrightarrow> rs_disjoint c'))"
    by (auto simp: a64_handle_range_def addrs_def)
qed

lemma arm_handle_ok:
  assumes "config_ok W32 hb c" "pair_ok W32 (base, sz)"
  shows "\<exists>c'. arm_handle_range hb c base sz = Some c' \<and> config_ok W32 hb c'
    \<and> (2 \<le> rs_room c \<longrightarrow> rs_addrs c' = rs_addrs c \<union> {base ..< base + sz} \<and> rs_room c \<le> rs_room c' + 2
           \<and> (rs_disjoint c \<and> rs_addrs c \<inter> {base ..< base + sz} = {} \<longrightarrow> rs_disjoint c'))"
proof -
  let ?r = "\<lparr>r_tag = InvalidZone, r_base = base, r_size = sz\<rparr>"
  let ?lo = "\<lambda>n. \<lparr>r_tag = LinearMemoryZone, r_base = base, r_size = n\<rparr>"
  let ?hi = "\<lambda>b n. \<lparr>r_tag = HighMemoryZone, r_base = b, r_size = n\<rparr>"
  have p: "0 < sz" "sz < usize_lim W32" "base + sz \<le> usize_lim W32" using assms(2) by (simp_all add: pair_ok_def)
  consider "hb \<le> base" | "base + sz \<le> hb" | "base < hb" "hb < base + sz" by linarith
  then show ?thesis
  proof cases
    case 1
    then have "range_split W32 ?r hb = Some (Inr (None, Some ?r))" using p by (simp add: range_split_def)
    moreover have "range_ok W32 (?hi base sz)" "zone_ok hb (?hi base sz)" using 1 p by (simp_all add: range_ok_def zone_ok_def)
    from insert_keeps [OF assms(1) this(1) _ this(2)] p(2) obtain c' b where "insert_range W32 c (?hi base sz) = Some (c', b)" "config_ok W32 hb c'"
        "1 \<le> rs_room c \<longrightarrow> rs_addrs c' = rs_addrs c \<union> {base ..< base + sz} \<and> rs_room c \<le> rs_room c' + 1
           \<and> (rs_disjoint c \<and> rs_addrs c \<inter> {base ..< base + sz} = {} \<longrightarrow> rs_disjoint c')" by (auto simp: addrs_def)
    ultimately show ?thesis by (auto simp: arm_handle_range_def)
  next
    case 2
    then have "range_split W32 ?r hb = Some (Inr (Some ?r, None))" using p by (auto simp: range_split_def)
    moreover have "range_ok W32 (?lo sz)" "zone_ok hb (?lo sz)" using 2 p by (simp_all add: range_ok_def zone_ok_def)
    from insert_keeps [OF assms(1) this(1) _ this(2)] p(2) obtain c' b where "insert_range W32 c (?lo sz) = Some (c', b)" "config_ok W32 hb c'"
        "1 \<le> rs_room c \<longrightarrow> rs_addrs c' = rs_addrs c \<union> {base ..< base + sz} \<and> rs_room c \<le> rs_room c' + 1
           \<and> (rs_disjoint c \<and> rs_addrs c \<inter> {base ..< base + sz} = {} \<longrightarrow> rs_disjoint c')" by (auto simp: addrs_def)
    ultimately show ?thesis by (auto simp: arm_handle_range_def)
  next
    case 3
    have u: "uadd W32 (base + (sz - 1) - hb) 1 = Some (base + sz - hb)" using 3 p by (auto simp: uadd_def)
    then have "range_split W32 ?r hb = Some (Inr (Some (?r\<lparr>r_size := hb - base\<rparr>), Some (?r\<lparr>r_base := hb, r_size := base + sz - hb\<rparr>)))"
      using 3 p by (simp add: range_split_def)
    moreover have l: "range_ok W32 (?lo (hb - base))" "zone_ok hb (?lo (hb - base))" and h: "range_ok W32 (?hi hb (base + sz - hb))" "zone_ok hb (?hi hb (base + sz - hb))"
      using 3 p by (simp_all add: range_ok_def zone_ok_def)
    have z: "r_size (?lo (hb - base)) < usize_lim W32" "r_size (?hi hb (base + sz - hb)) < usize_lim W32" using 3 p by auto
    have "addrs (?lo (hb - base)) = {base ..< hb}" "addrs (?hi hb (base + sz - hb)) = {hb ..< base + sz}" using 3 by (auto simp: addrs_def)
    note ad = this
    from insert_keeps [OF assms(1) l(1) z(1) l(2)] obtain c1 b where c1: "insert_range W32 c (?lo (hb - base)) = Some (c1, b)" "config_ok W32 hb c1"
        "1 \<le> rs_room c \<longrightarrow> rs_addrs c1 = rs_addrs c \<union> {base ..< hb} \<and> rs_room c \<le> rs_room c1 + 1 \<and> (rs_disjoint c \<and> rs_addrs c \<inter> {base ..< hb} = {} \<longrightarrow> rs_disjoint c1)" unfolding ad by blast
    moreover from insert_keeps [OF c1(2) h(1) z(2) h(2)] obtain c2 b where c2: "insert_range W32 c1 (?hi hb (base + sz - hb)) = Some (c2, b)" "config_ok W32 hb c2"
        "1 \<le> rs_room c1 \<longrightarrow> rs_addrs c2 = rs_addrs c1 \<union> {hb ..< base + sz} \<and> rs_room c1 \<le> rs_room c2 + 1 \<and> (rs_disjoint c1 \<and> rs_addrs c1 \<inter> {hb ..< base + sz} = {} \<longrightarrow> rs_disjoint c2)" unfolding ad by blast
    moreover have "rs_addrs c2 = rs_addrs c \<union> {base ..< base + sz} \<and> rs_room c \<le> rs_room c2 + 2
        \<and> (rs_disjoint c \<and> rs_addrs c \<inter> {base ..< base + sz} = {} \<longrightarrow> rs_disjoint c2)" if "2 \<le> rs_room c"
    proof -
      have a: "rs_addrs c1 = rs_addrs c \<union> {base ..< hb}" "rs_room c \<le> rs_room c1 + 1" "rs_disjoint c \<and> rs_addrs c \<inter> {base ..< hb} = {} \<longrightarrow> rs_disjoint c1"
        using c1(3) that by linarith+
      then have b: "1 \<le> rs_room c1" using that by linarith
      then have b: "rs_addrs c2 = rs_addrs c1 \<union> {hb ..< base + sz}" "rs_room c1 \<le> rs_room c2 + 1"
          "rs_disjoint c1 \<and> rs_addrs c1 \<inter> {hb ..< base + sz} = {} \<longrightarrow> rs_disjoint c2"
        using c2(3) by blast+
      have u: "{base ..< base + sz} = {base ..< hb} \<union> {hb ..< base + sz}" "{base ..< hb} \<inter> {hb ..< base + sz} = {}" using 3 by auto
      have "rs_disjoint c2" if "rs_disjoint c" "rs_addrs c \<inter> {base ..< base + sz} = {}"
        using a(1,3) b(3) that u by blast
      with a(1,2) b(1,2) u(1) show ?thesis by (simp add: Un_assoc)
    qed
    ultimately show ?thesis by (auto simp: arm_handle_range_def)
  qed
qed

interpretation ra: range_handler W32 "config_ok W32 hb" 2 "arm_handle_range hb" for hb
  by unfold_locales (simp_all only: arm_handle_ok, simp add: config_ok_def)

section \<open>Exclusions\<close>

text \<open>An exclusion keeps the zones: the pieces of a range have its tag and lie inside it.\<close>

lemma zone_piece:
  assumes "zone_ok hb r" "range_ok w r" "0 < r_size e" "p \<in> set (pieces e r)" "0 < r_size p"
  shows "zone_ok hb p"
  using pieces_range_ok(2-4) [OF assms(2-5)] assms(1) by (auto simp: zone_ok_def)

lemma disjoint_sorted: "rs_disjoint c \<Longrightarrow> rs_sorted c"
  unfolding rs_disjoint_def rs_sorted_def by (erule sorted_wrt_mono_rel [rotated]) (simp add: ends_before_def)

interpretation rc: address_pool "\<lambda>c. config_ok w hb c \<and> rs_disjoint c" rs_addrs rs_room "range_ok w" addrs "usize_max w" "exclude_range w"
  for w hb
proof (unfold_locales, goal_cases)
  case (1 c e)
  then have ok: "rs_ok w c" and z: "\<forall>r\<in>set (live c). zone_ok hb r \<and> range_ok w r" by (auto simp: config_ok_def rs_ok_def rs_valid_def)
  have e: "0 < r_size e" using 1(2) by (simp add: range_ok_def)
  obtain c' where c': "exclude_range w c e = Some c'" "live c' = nonempty (concat (map (pieces e) (live c)))"
    using exclude_range_live [OF ok 1(2,3)] 1(4) by blast
  have "\<forall>p\<in>set (live c'). zone_ok hb p" using z e by (auto simp: c'(2) nonempty_def intro: zone_piece)
  with c'(1) exclude_range_ok [OF ok 1(2,3)] 1(4) show ?case by (auto simp: config_ok_def rs_ok_def disjoint_sorted)
qed

end
