(* ===== verification/Dtb.thy ===== *)
theory Dtb
  imports Bits
begin

text \<open>
  \<open>src/support/dtb.rs\<close>: the reader of flattened device trees. The blob is a list of bytes; a cursor is a
  position in it. A method that moves the cursor returns the new position with its result, on failure too. The
  outer \<open>option\<close> is the panic (slices out of bounds, checked arithmetic), the inner one the
  method's \<open>Option\<close>, and \<open>dtb_error + 'a\<close> its \<open>Result\<close>.
\<close>

section \<open>Data\<close>

definition FDT_BEGIN_NODE :: usize where "FDT_BEGIN_NODE = 0x1"
definition FDT_END_NODE :: usize where "FDT_END_NODE = 0x2"
definition FDT_PROP :: usize where "FDT_PROP = 0x3"
definition FDT_NOOP :: usize where "FDT_NOOP = 0x4"
definition FDT_END :: usize where "FDT_END = 0x9"
definition FDT_MAGIC :: usize where "FDT_MAGIC = 0xd00dfeed"
definition FDT_MAX_SIZE :: usize where "FDT_MAX_SIZE = 64 * 1024 * 1024"
definition FDT_WORD_BITS :: usize where "FDT_WORD_BITS = 32"
definition FDT_WORD_BYTES :: usize where "FDT_WORD_BYTES = 4"
definition FDT_HEADER_SIZE :: usize where "FDT_HEADER_SIZE = FDT_WORD_BYTES * 8"

lemmas fdt_defs = FDT_BEGIN_NODE_def FDT_END_NODE_def FDT_PROP_def FDT_NOOP_def FDT_END_def FDT_MAGIC_def
  FDT_MAX_SIZE_def FDT_WORD_BITS_def FDT_WORD_BYTES_def FDT_HEADER_SIZE_def

datatype dtb_error = NotADtb | InvalidDtb | UnknownProperty | UnknownValue | UnsupportedValue

type_synonym byte = "8 word"
type_synonym cursor = usize

record dtb_property_header =
  ph_size :: usize
  ph_name_offset :: usize
  ph_name :: "byte list"

record dtb_reader =
  dr_dtb :: "byte list"
  dr_struct_offset :: usize
  dr_strings_offset :: usize
  dr_mem_rsv_map_offset :: usize
  dr_version :: usize
  dr_last_comp_version :: usize
  dr_boot_cpuid_phys :: usize
  dr_strings_size :: usize
  dr_struct_size :: usize

section \<open>Reading values\<close>

definition slice :: "'a list \<Rightarrow> nat \<Rightarrow> nat \<Rightarrow> 'a list option" where
  "slice xs a b = (if a \<le> b \<and> b \<le> length xs then Some (take (b - a) (drop a xs)) else None)"

definition from_be_bytes :: "byte list \<Rightarrow> usize" where
  "from_be_bytes bs = foldl (\<lambda>v b. v * 256 + unat b) 0 bs"

definition get_u32_unchecked :: "width \<Rightarrow> dtb_reader \<Rightarrow> cursor \<Rightarrow> (usize \<times> cursor) option" where
  "get_u32_unchecked w r loc = do {
     end_loc \<leftarrow> uadd w loc FDT_WORD_BYTES;
     bytes \<leftarrow> slice (dr_dtb r) loc end_loc;
     Some (from_be_bytes bytes, end_loc) }"

definition get_u32 :: "width \<Rightarrow> dtb_reader \<Rightarrow> cursor \<Rightarrow> (usize option \<times> cursor) option" where
  "get_u32 w r loc = do {
     t \<leftarrow> usub (length (dr_dtb r)) FDT_WORD_BYTES;
     if loc > t then Some (None, loc)
     else do {
       (v, loc) \<leftarrow> get_u32_unchecked w r loc;
       Some (Some v, loc) } }"

definition get_u64 :: "width \<Rightarrow> dtb_reader \<Rightarrow> cursor \<Rightarrow> (nat option \<times> cursor) option" where
  "get_u64 w r loc = do {
     t \<leftarrow> usub (length (dr_dtb r)) (FDT_WORD_BYTES * 2);
     if loc > t then Some (None, loc)
     else do {
       (upper, loc) \<leftarrow> get_u32_unchecked w r loc;
       (lower, loc) \<leftarrow> get_u32_unchecked w r loc;
       Some (Some (push_bit FDT_WORD_BITS upper OR lower), loc) } }"

text \<open>\<open>v <<= s\<close> on a 64-bit value, then the next word is put in.\<close>

definition push_cell :: "nat \<Rightarrow> nat \<Rightarrow> nat \<Rightarrow> nat" where
  "push_cell s acc v = take_bit 64 (push_bit s acc) OR v"

fun read_cells :: "nat \<Rightarrow> nat \<Rightarrow> width \<Rightarrow> dtb_reader \<Rightarrow> cursor \<Rightarrow> nat \<Rightarrow> (nat \<times> cursor) option" where
  "read_cells 0 s w r loc acc = Some (acc, loc)"
| "read_cells (Suc n) s w r loc acc = do {
     (v, loc) \<leftarrow> get_u32_unchecked w r loc;
     read_cells n s w r loc (push_cell s acc v) }"

definition get_reg_pair_size :: "width \<Rightarrow> usize \<Rightarrow> usize \<Rightarrow> usize option" where
  "get_reg_pair_size w addr_cells size_cells = do {
     n \<leftarrow> uadd w addr_cells size_cells;
     umul w FDT_WORD_BYTES n }"

definition get_reg_pair :: "width \<Rightarrow> dtb_reader \<Rightarrow> usize \<Rightarrow> usize \<Rightarrow> cursor \<Rightarrow> ((nat \<times> nat) option \<times> cursor) option" where
  "get_reg_pair w r addr_cells size_cells loc =
     (if addr_cells = 0 then Some (None, loc)
      else do {
        pair_size \<leftarrow> get_reg_pair_size w addr_cells size_cells;
        t \<leftarrow> usub (length (dr_dtb r)) pair_size;
        if loc > t then Some (None, loc)
        else do {
          (addr, loc) \<leftarrow> read_cells addr_cells FDT_WORD_BITS w r loc 0;
          (sz, loc) \<leftarrow> read_cells size_cells FDT_WORD_BITS w r loc 0;
          Some (Some (addr, sz), loc) } })"

definition get_range_size :: "width \<Rightarrow> usize \<Rightarrow> usize \<Rightarrow> usize \<Rightarrow> usize option" where
  "get_range_size w child_addr_cells parent_addr_cells size_cells = do {
     n \<leftarrow> uadd w child_addr_cells parent_addr_cells;
     n \<leftarrow> uadd w n size_cells;
     umul w FDT_WORD_BYTES n }"

definition get_range ::
  "width \<Rightarrow> dtb_reader \<Rightarrow> usize \<Rightarrow> usize \<Rightarrow> usize \<Rightarrow> cursor \<Rightarrow> ((nat \<times> nat \<times> nat) option \<times> cursor) option" where
  "get_range w r child_addr_cells parent_addr_cells size_cells loc =
     (if child_addr_cells = 0 \<or> parent_addr_cells = 0 \<or> size_cells = 0 then Some (None, loc)
      else do {
        count \<leftarrow> get_range_size w child_addr_cells parent_addr_cells size_cells;
        t \<leftarrow> usub (length (dr_dtb r)) count;
        if loc > t then Some (None, loc)
        else do {
          (child_addr, loc) \<leftarrow> read_cells child_addr_cells FDT_WORD_BYTES w r loc 0;
          (parent_addr, loc) \<leftarrow> read_cells parent_addr_cells FDT_WORD_BYTES w r loc 0;
          (sz, loc) \<leftarrow> read_cells size_cells FDT_WORD_BYTES w r loc 0;
          Some (Some (child_addr, parent_addr, sz), loc) } })"

function null_end :: "byte list \<Rightarrow> usize \<Rightarrow> usize" where
  "null_end dtb e = (if e < length dtb then (if dtb ! e = 0 then e else null_end dtb (e + 1)) else e)"
  by pat_completeness auto
termination
  by (relation "measure (\<lambda>(dtb, e). length dtb - e)") auto

declare null_end.simps [simp del]

definition get_null_terminated_u8_slice :: "dtb_reader \<Rightarrow> cursor \<Rightarrow> (byte list option \<times> cursor) option" where
  "get_null_terminated_u8_slice r loc =
     (let e = null_end (dr_dtb r) loc
      in if e = length (dr_dtb r) then Some (None, loc)
         else do {
           s \<leftarrow> slice (dr_dtb r) loc e;
           Some (Some s, e) })"

definition get_slice_from_string_table :: "width \<Rightarrow> dtb_reader \<Rightarrow> usize \<Rightarrow> byte list option option" where
  "get_slice_from_string_table w r str_offset = do {
     loc \<leftarrow> uadd w (dr_strings_offset r) str_offset;
     (s, loc) \<leftarrow> get_null_terminated_u8_slice r loc;
     Some s }"

definition skip_and_align :: "width \<Rightarrow> dtb_reader \<Rightarrow> usize \<Rightarrow> cursor \<Rightarrow> cursor option" where
  "skip_and_align w r skip_bytes loc = do {
     let len = length (dr_dtb r);
     d \<leftarrow> usub len loc;
     let offset = min d skip_bytes;
     p \<leftarrow> uadd w loc offset;
     t \<leftarrow> usub len FDT_WORD_BYTES;
     if p > t then Some len else align_up w p FDT_WORD_BYTES }"

section \<open>Construction\<close>

definition read_be :: "(usize \<Rightarrow> byte) \<Rightarrow> usize \<Rightarrow> usize" where
  "read_be mem a = from_be_bytes (map (\<lambda>i. mem (a + i)) [0..<4])"

definition check_dtb :: "(usize \<Rightarrow> byte) \<Rightarrow> usize \<Rightarrow> dtb_error + usize" where
  "check_dtb mem blob =
     (if blob = 0 then Inl NotADtb
      else if read_be mem blob \<noteq> FDT_MAGIC then Inl NotADtb
      else let total_size = read_be mem (blob + FDT_WORD_BYTES)
           in if total_size < FDT_HEADER_SIZE \<or> total_size > FDT_MAX_SIZE then Inl InvalidDtb
              else Inr total_size)"

fun read_words :: "nat \<Rightarrow> width \<Rightarrow> dtb_reader \<Rightarrow> cursor \<Rightarrow> (dtb_error + usize list) option" where
  "read_words 0 w r loc = Some (Inr [])"
| "read_words (Suc n) w r loc = do {
     (v, loc) \<leftarrow> get_u32 w r loc;
     case v of
       None \<Rightarrow> Some (Inl InvalidDtb)
     | Some x \<Rightarrow> do {
         rest \<leftarrow> read_words n w r loc;
         Some (case rest of Inl e \<Rightarrow> Inl e | Inr xs \<Rightarrow> Inr (x # xs)) } }"

definition dtb_new :: "width \<Rightarrow> (usize \<Rightarrow> byte) \<Rightarrow> usize \<Rightarrow> (dtb_error + dtb_reader) option" where
  "dtb_new w mem blob =
     (case check_dtb mem blob of
        Inl e \<Rightarrow> Some (Inl e)
      | Inr total_size \<Rightarrow> do {
          let bytes = map (\<lambda>i. mem (blob + i)) [0..<total_size];
          let r = \<lparr>dr_dtb = bytes, dr_struct_offset = 0, dr_strings_offset = 0, dr_mem_rsv_map_offset = 0, dr_version = 0,
            dr_last_comp_version = 0, dr_boot_cpuid_phys = 0, dr_strings_size = 0, dr_struct_size = 0\<rparr>;
          ws \<leftarrow> read_words 8 w r (FDT_WORD_BYTES * 2);
          Some (case ws of
              Inl e \<Rightarrow> Inl e
            | Inr xs \<Rightarrow> Inr \<lparr>dr_dtb = bytes, dr_struct_offset = xs ! 0, dr_strings_offset = xs ! 1, dr_mem_rsv_map_offset = xs ! 2,
                dr_version = xs ! 3, dr_last_comp_version = xs ! 4, dr_boot_cpuid_phys = xs ! 5, dr_strings_size = xs ! 6,
                dr_struct_size = xs ! 7\<rparr>) })"

section \<open>Movement\<close>

lemma get_u32_moves:
  "get_u32 w r loc = Some (Some v, loc') \<Longrightarrow> loc' = loc + 4 \<and> loc + 4 \<le> length (dr_dtb r)"
  by (auto simp: get_u32_def get_u32_unchecked_def slice_def FDT_WORD_BYTES_def panic_simps split: if_splits)

lemma align_up_4: "align_up w a FDT_WORD_BYTES = Some b \<Longrightarrow> a \<le> b \<and> b \<le> a + 3"
proof -
  assume "align_up w a FDT_WORD_BYTES = Some b"
  moreover have "2 < word_bits w" by (cases w) simp_all
  moreover have "mask 2 = (3::nat)" by (simp add: mask_eq_exp_minus_1)
  ultimately have "b = (a + 3) div 4 * 4" using align_up_eq [of 2 w a] by (simp add: FDT_WORD_BYTES_def split: if_splits)
  then show ?thesis by presburger
qed

lemma skip_and_align_moves: "skip_and_align w r n loc = Some loc' \<Longrightarrow> loc \<le> loc' \<and> loc' \<le> length (dr_dtb r)"
  using align_up_4 [of w _ loc'] by (fastforce simp: skip_and_align_def Let_def panic_simps FDT_WORD_BYTES_def split: if_splits)

function skip_node_properties :: "width \<Rightarrow> dtb_reader \<Rightarrow> cursor \<Rightarrow> (dtb_error + cursor) option" where
  "skip_node_properties w r loc =
     (case get_u32 w r loc of
        None \<Rightarrow> None
      | Some (None, loc) \<Rightarrow> Some (Inl InvalidDtb)
      | Some (Some marker, loc) \<Rightarrow>
          if marker = FDT_PROP then
            (case get_u32 w r loc of
               None \<Rightarrow> None
             | Some (None, loc) \<Rightarrow> Some (Inl InvalidDtb)
             | Some (Some prop_size, loc) \<Rightarrow> do {
                 n \<leftarrow> uadd w prop_size FDT_WORD_BYTES;
                 loc \<leftarrow> skip_and_align w r n loc;
                 skip_node_properties w r loc })
          else if marker = FDT_BEGIN_NODE \<or> marker = FDT_END_NODE then do {
            loc \<leftarrow> usub loc FDT_WORD_BYTES;
            Some (Inr loc) }
          else if marker = FDT_NOOP then skip_node_properties w r loc
          else Some (Inl InvalidDtb))"
  by pat_completeness auto
termination
  by (relation "measure (\<lambda>(w, r, loc). length (dr_dtb r) - loc)") (auto dest!: get_u32_moves skip_and_align_moves)

declare skip_node_properties.simps [simp del]

function get_next_property :: "width \<Rightarrow> dtb_reader \<Rightarrow> cursor \<Rightarrow> (dtb_property_header option \<times> cursor) option" where
  "get_next_property w r loc =
     (case get_u32 w r loc of
        None \<Rightarrow> None
      | Some (None, loc) \<Rightarrow> Some (None, loc)
      | Some (Some marker, loc) \<Rightarrow>
          if marker = FDT_PROP then do {
            (sz, loc) \<leftarrow> get_u32 w r loc;
            case sz of None \<Rightarrow> Some (None, loc) | Some sz \<Rightarrow> do {
              (off, loc) \<leftarrow> get_u32 w r loc;
              case off of None \<Rightarrow> Some (None, loc) | Some off \<Rightarrow> do {
                name \<leftarrow> get_slice_from_string_table w r off;
                case name of None \<Rightarrow> Some (None, loc)
                | Some name \<Rightarrow> Some (Some \<lparr>ph_size = sz, ph_name_offset = off, ph_name = name\<rparr>, loc) } } }
          else if marker = FDT_NOOP then get_next_property w r loc
          else do {
            loc \<leftarrow> usub loc FDT_WORD_BYTES;
            Some (None, loc) })"
  by pat_completeness auto
termination
  by (relation "measure (\<lambda>(w, r, loc). length (dr_dtb r) - loc)") (auto dest!: get_u32_moves)

declare get_next_property.simps [simp del]

definition get_root_node :: "width \<Rightarrow> dtb_reader \<Rightarrow> cursor option option" where
  "get_root_node w r = do {
     (marker, loc) \<leftarrow> get_u32 w r (dr_struct_offset r);
     case marker of
       None \<Rightarrow> Some None
     | Some marker \<Rightarrow>
         if marker \<noteq> FDT_BEGIN_NODE then Some None
         else do {
           (name, loc) \<leftarrow> get_null_terminated_u8_slice r loc;
           case name of
             None \<Rightarrow> Some None
           | Some name \<Rightarrow> do {
               loc \<leftarrow> skip_and_align w r 1 loc;
               Some (Some loc) } } }"

text \<open>The inner loop of \<open>find_child_node\<close>: on to the next node, with its depth.\<close>

function next_begin :: "width \<Rightarrow> dtb_reader \<Rightarrow> nat \<Rightarrow> cursor \<Rightarrow> (nat \<times> cursor) option option" where
  "next_begin w r depth loc =
     (case get_u32 w r loc of
        None \<Rightarrow> None
      | Some (None, loc) \<Rightarrow> Some None
      | Some (Some marker, loc) \<Rightarrow>
          if marker = FDT_BEGIN_NODE then Some (Some (depth + 1, loc))
          else if marker = FDT_END_NODE then (if depth = 0 then Some None else next_begin w r (depth - 1) loc)
          else if marker = FDT_NOOP then next_begin w r depth loc
          else Some None)"
  by pat_completeness auto
termination
  by (relation "measure (\<lambda>(w, r, depth, loc). length (dr_dtb r) - loc)") (auto dest!: get_u32_moves)

declare next_begin.simps [simp del]

lemma next_begin_moves:
  "next_begin w r depth loc = Some (Some (d, loc')) \<Longrightarrow> loc < loc' \<and> loc' \<le> length (dr_dtb r)"
proof (induction w r depth loc rule: next_begin.induct)
  case (1 w r depth loc)
  show ?case
  proof (cases "get_u32 w r loc")
    case (Some p)
    obtain v l where p: "p = (v, l)" by force
    show ?thesis
    proof (cases v)
      case None
      with 1(3) Some p show ?thesis by (subst (asm) next_begin.simps) simp
    next
      case (Some marker)
      note g = \<open>get_u32 w r loc = Some p\<close> [unfolded p Some]
      have "loc < l" "l \<le> length (dr_dtb r)" using get_u32_moves [OF g] by auto
      moreover have "l < loc' \<and> loc' \<le> length (dr_dtb r)" if "marker \<noteq> FDT_BEGIN_NODE"
        using 1(3) that g 1(1) [OF g refl refl] 1(2) [OF g refl refl] by (subst (asm) next_begin.simps) (auto split: if_splits)
      ultimately show ?thesis using 1(3) g by (cases "marker = FDT_BEGIN_NODE") (auto simp: next_begin.simps)
    qed
  qed (use 1(3) in \<open>simp add: next_begin.simps\<close>)
qed


lemma skip_node_moves:
  "skip_node_properties w r loc = Some (Inr loc') \<Longrightarrow> loc \<le> loc' \<and> loc' + 4 \<le> length (dr_dtb r)"
proof (induction w r loc rule: skip_node_properties.induct)
  case (1 w r loc)
  note ih = 1
  show ?case
  proof (cases "get_u32 w r loc")
    case (Some p)
    obtain v l where p: "p = (v, l)" by force
    show ?thesis
    proof (cases v)
      case None
      with ih(3) Some p show ?thesis by (subst (asm) skip_node_properties.simps) simp
    next
      case (Some marker)
      note g = \<open>get_u32 w r loc = Some p\<close> [unfolded p Some]
      have l: "l = loc + 4" "loc + 4 \<le> length (dr_dtb r)" using get_u32_moves [OF g] by auto
      consider "marker = FDT_PROP" | "marker \<noteq> FDT_PROP" "marker = FDT_BEGIN_NODE \<or> marker = FDT_END_NODE"
        | "marker \<noteq> FDT_PROP" "\<not> (marker = FDT_BEGIN_NODE \<or> marker = FDT_END_NODE)" by blast
      then show ?thesis
      proof cases
        case 1
        note pr = this
        with ih(3) g obtain sz l2 n l3 where step: "get_u32 w r l = Some (Some sz, l2)" "uadd w sz FDT_WORD_BYTES = Some n"
            "skip_and_align w r n l2 = Some l3" "skip_node_properties w r l3 = Some (Inr loc')"
          by (subst (asm) skip_node_properties.simps) (auto simp: panic_simps split: option.splits prod.splits)
        then show ?thesis
          using ih(1) [OF g refl refl pr step(1) refl refl step(2,3,4)] get_u32_moves [OF step(1)] skip_and_align_moves [OF step(3)] l
          by simp
      next
        case 2
        with ih(3) g l show ?thesis
          by (subst (asm) skip_node_properties.simps) (auto simp: panic_simps FDT_WORD_BYTES_def)
      next
        case 3
        with ih(3) g have "marker = FDT_NOOP" "skip_node_properties w r l = Some (Inr loc')"
          by (subst (asm) skip_node_properties.simps, simp split: if_splits)+
        with ih(2) [OF g refl refl 3] l show ?thesis by simp
      qed
    qed
  qed (use ih(3) in \<open>simp add: skip_node_properties.simps\<close>)
qed

lemma null_end_moves: "loc \<le> length dtb \<Longrightarrow> loc \<le> null_end dtb loc \<and> null_end dtb loc \<le> length dtb"
proof (induction dtb loc rule: null_end.induct)
  case (1 dtb e)
  then show ?case by (subst null_end.simps, subst null_end.simps) auto
qed

lemma null_end_beyond: "length dtb \<le> loc \<Longrightarrow> null_end dtb loc = loc"
  by (simp add: null_end.simps)

lemma get_null_moves:
  "get_null_terminated_u8_slice r loc = Some (Some s, e) \<Longrightarrow> loc \<le> e \<and> e < length (dr_dtb r)"
  using null_end_moves [of loc "dr_dtb r"]
  by (auto simp: get_null_terminated_u8_slice_def slice_def Let_def panic_simps split: if_splits)

function find_child_loop :: "width \<Rightarrow> dtb_reader \<Rightarrow> byte list \<Rightarrow> nat \<Rightarrow> cursor \<Rightarrow> cursor option option" where
  "find_child_loop w r child depth loc =
     (case skip_node_properties w r loc of
        None \<Rightarrow> None
      | Some (Inl e) \<Rightarrow> Some None
      | Some (Inr loc) \<Rightarrow>
          (case next_begin w r depth loc of
             None \<Rightarrow> None
           | Some None \<Rightarrow> Some None
           | Some (Some (depth, loc)) \<Rightarrow>
               (case get_null_terminated_u8_slice r loc of
                  None \<Rightarrow> None
                | Some (None, loc) \<Rightarrow> Some None
                | Some (Some name, loc) \<Rightarrow>
                    (case skip_and_align w r 1 loc of
                       None \<Rightarrow> None
                     | Some loc \<Rightarrow>
                         if depth = 1 \<and> child = name then Some (Some loc)
                         else find_child_loop w r child depth loc))))"
  by pat_completeness auto
termination
  by (relation "measure (\<lambda>(w, r, child, depth, loc). length (dr_dtb r) - loc)")
    (auto dest!: skip_node_moves next_begin_moves get_null_moves skip_and_align_moves)

declare find_child_loop.simps [simp del]

definition find_child_node :: "width \<Rightarrow> dtb_reader \<Rightarrow> cursor \<Rightarrow> byte list \<Rightarrow> cursor option option" where
  "find_child_node w r loc child = find_child_loop w r child 0 loc"

section \<open>Scanning\<close>

text \<open>\<open>DtbScanner::scan_node\<close>: the scanner's state, the reader, the node's name and the cursor after it.\<close>

type_synonym 's scanner = "'s \<Rightarrow> dtb_reader \<Rightarrow> byte list \<Rightarrow> cursor \<Rightarrow> ('s \<times> (dtb_error + bool)) option"

text \<open>The inner loop of \<open>scan\<close>: \<open>Inr (Some loc)\<close> after the next begin marker, \<open>Inr None\<close> at the end.\<close>

function scan_markers :: "width \<Rightarrow> dtb_reader \<Rightarrow> cursor \<Rightarrow> (dtb_error + cursor option) option" where
  "scan_markers w r loc =
     (case get_u32 w r loc of
        None \<Rightarrow> None
      | Some (None, loc) \<Rightarrow> Some (Inl InvalidDtb)
      | Some (Some marker, loc) \<Rightarrow>
          if marker = FDT_BEGIN_NODE then Some (Inr (Some loc))
          else if marker = FDT_END_NODE \<or> marker = FDT_NOOP then scan_markers w r loc
          else if marker = FDT_END then Some (Inr None)
          else Some (Inl InvalidDtb))"
  by pat_completeness auto
termination
  by (relation "measure (\<lambda>(w, r, loc). length (dr_dtb r) - loc)") (auto dest!: get_u32_moves)

declare scan_markers.simps [simp del]

lemma scan_markers_moves: "scan_markers w r loc = Some (Inr (Some loc')) \<Longrightarrow> loc < loc' \<and> loc' \<le> length (dr_dtb r)"
proof (induction w r loc rule: scan_markers.induct)
  case (1 w r loc)
  show ?case
  proof (cases "get_u32 w r loc")
    case (Some p)
    obtain v l where p: "p = (v, l)" by force
    show ?thesis
    proof (cases v)
      case None
      with 1(2) Some p show ?thesis by (subst (asm) scan_markers.simps) simp
    next
      case (Some marker)
      note g = \<open>get_u32 w r loc = Some p\<close> [unfolded p Some]
      have "loc < l" "l \<le> length (dr_dtb r)" using get_u32_moves [OF g] by auto
      then show ?thesis
        using 1(2) g 1(1) [OF g refl refl] by (subst (asm) scan_markers.simps) (auto split: if_splits)
    qed
  qed (use 1(2) in \<open>simp add: scan_markers.simps\<close>)
qed

function scan_loop :: "width \<Rightarrow> dtb_reader \<Rightarrow> 's scanner \<Rightarrow> 's \<Rightarrow> cursor \<Rightarrow> ('s \<times> (dtb_error + unit)) option" where
  "scan_loop w r scan_node s loc =
     (case get_null_terminated_u8_slice r loc of
        None \<Rightarrow> None
      | Some (None, loc) \<Rightarrow> Some (s, Inl InvalidDtb)
      | Some (Some name, loc) \<Rightarrow>
          (case skip_and_align w r 1 loc of
             None \<Rightarrow> None
           | Some loc \<Rightarrow>
               (case scan_node s r name loc of
                  None \<Rightarrow> None
                | Some (s, Inl e) \<Rightarrow> Some (s, Inl e)
                | Some (s, Inr False) \<Rightarrow> Some (s, Inr ())
                | Some (s, Inr True) \<Rightarrow>
                    (case skip_node_properties w r loc of
                       None \<Rightarrow> None
                     | Some (Inl e) \<Rightarrow> Some (s, Inl e)
                     | Some (Inr loc) \<Rightarrow>
                         (case scan_markers w r loc of
                            None \<Rightarrow> None
                          | Some (Inl e) \<Rightarrow> Some (s, Inl e)
                          | Some (Inr None) \<Rightarrow> Some (s, Inr ())
                          | Some (Inr (Some loc)) \<Rightarrow> scan_loop w r scan_node s loc)))))"
  by pat_completeness auto
termination
  by (relation "measure (\<lambda>(w, r, f, s, loc). length (dr_dtb r) - loc)")
    (auto dest!: skip_node_moves scan_markers_moves get_null_moves skip_and_align_moves)

declare scan_loop.simps [simp del]

definition dtb_scan :: "width \<Rightarrow> dtb_reader \<Rightarrow> 's scanner \<Rightarrow> 's \<Rightarrow> ('s \<times> (dtb_error + unit)) option" where
  "dtb_scan w r scan_node s = do {
     (marker, loc) \<leftarrow> get_u32 w r (dr_struct_offset r);
     case marker of
       None \<Rightarrow> Some (s, Inl InvalidDtb)
     | Some marker \<Rightarrow>
         if marker \<noteq> FDT_BEGIN_NODE then Some (s, Inl InvalidDtb)
         else scan_loop w r scan_node s loc }"

end
