(* ===== verification/Dtb_Scanners.thy ===== *)
theory Dtb_Scanners
  imports Memory_Config Dtb Cores
begin

text \<open>
  The two scanners of the device tree: \<open>src/arch/arm_common/dtb_memory.rs\<close> collects the memory ranges and
  \<open>src/arch/arm_common/dtb_cpu.rs\<close> the cores. A scanner's method returns its new state together with
  its \<open>Result\<close>; the outer \<open>option\<close> is the panic.
\<close>

section \<open>Strings\<close>

text \<open>A byte string literal, and \<open>Hash for [u8]\<close>: the length, then the bytes.\<close>

definition str_bytes :: "string \<Rightarrow> byte list" where
  "str_bytes s = map (\<lambda>c. word_of_nat (of_char c)) s"

definition fnv1a_hash_slice :: "width \<Rightarrow> byte list \<Rightarrow> nat" where
  "fnv1a_hash_slice w key = fnv1a_finish (fnv1a_write (fnv1a_write fnv1a_new (usize_bytes w (length key))) key)"

fun insert_strings :: "width \<Rightarrow> (byte list, 't) hash_map \<Rightarrow> (string \<times> 't) list \<Rightarrow> (byte list, 't) hash_map option" where
  "insert_strings w m [] = Some m"
| "insert_strings w m ((s, t) # rest) = do {
     (m, _) \<leftarrow> hm_insert (fnv1a_hash_slice w) m (str_bytes s) t;
     insert_strings w m rest }"

section \<open>Movement\<close>

lemma get_next_property_moves:
  "get_next_property w r loc = Some (Some h, loc') \<Longrightarrow> loc < loc' \<and> loc' \<le> length (dr_dtb r)"
proof (induction w r loc rule: get_next_property.induct)
  case (1 w r loc)
  obtain v l where g: "get_u32 w r loc = Some (v, l)" using "1.prems" by (cases "get_u32 w r loc") (auto simp: get_next_property.simps)
  show ?case
  proof (cases v)
    case None
    then show ?thesis using "1.prems" g by (simp add: get_next_property.simps)
  next
    case (Some marker)
    have m: "loc < l" "l \<le> length (dr_dtb r)" using get_u32_moves [of w r loc marker l] g Some by simp_all
    consider "marker = FDT_PROP" | "marker \<noteq> FDT_PROP" "marker = FDT_NOOP" | "marker \<noteq> FDT_PROP" "marker \<noteq> FDT_NOOP" by blast
    then show ?thesis
    proof cases
      case 1
      then obtain sz l1 off where "get_u32 w r l = Some (Some sz, l1)" "get_u32 w r l1 = Some (Some off, loc')"
        using "1.prems" g Some by (subst (asm) get_next_property.simps) (auto simp: bind_eq_Some_conv split: option.splits)
      then show ?thesis using get_u32_moves [of w r l sz l1] get_u32_moves [of w r l1 off loc'] m by simp
    next
      case 2
      then show ?thesis using "1.IH" [of "(Some marker, l)" "Some marker" l marker] "1.prems" g Some m
        by (subst (asm) get_next_property.simps) auto
    next
      case 3
      then show ?thesis using "1.prems" g Some by (subst (asm) get_next_property.simps) (auto simp: bind_eq_Some_conv)
    qed
  qed
qed

section \<open>The memory scanner\<close>

datatype string_tag = DtbPropAddressCells | DtbPropSizeCells | DtbPropDeviceType | DtbPropReg

record mem_scanner =
  ms_config :: memory_config
  ms_string_map :: "(byte list, string_tag) hash_map"
  ms_addr_cells :: usize
  ms_size_cells :: usize

definition mem_strings :: "(string \<times> string_tag) list" where
  "mem_strings = [(''#address-cells'', DtbPropAddressCells), (''#size-cells'', DtbPropSizeCells), (''device_type'', DtbPropDeviceType), (''reg'', DtbPropReg)]"

definition mem_build_string_map :: "width \<Rightarrow> (byte list, string_tag) hash_map option" where
  "mem_build_string_map w = insert_strings w (hm_new 31) mem_strings"

definition mem_scanner_new :: "width \<Rightarrow> memory_config \<Rightarrow> mem_scanner option" where
  "mem_scanner_new w config = do {
     sm \<leftarrow> mem_build_string_map w;
     Some \<lparr>ms_config = config, ms_string_map = sm, ms_addr_cells = 0, ms_size_cells = 0\<rparr> }"

function scan_root_node :: "width \<Rightarrow> dtb_reader \<Rightarrow> mem_scanner \<Rightarrow> cursor \<Rightarrow> (mem_scanner \<times> (dtb_error + unit)) option" where
  "scan_root_node w r s loc =
     (case get_next_property w r loc of
        None \<Rightarrow> None
      | Some (None, loc) \<Rightarrow> Some (s, Inr ())
      | Some (Some header, loc) \<Rightarrow>
          (case hm_find (fnv1a_hash_slice w) (ms_string_map s) (ph_name header) of
             None \<Rightarrow> None
           | Some tag \<Rightarrow>
               if tag = Some DtbPropAddressCells then
                 (case get_u32 w r loc of
                    None \<Rightarrow> None
                  | Some (None, loc) \<Rightarrow> Some (s, Inl InvalidDtb)
                  | Some (Some v, loc) \<Rightarrow> scan_root_node w r (s\<lparr>ms_addr_cells := v\<rparr>) loc)
               else if tag = Some DtbPropSizeCells then
                 (case get_u32 w r loc of
                    None \<Rightarrow> None
                  | Some (None, loc) \<Rightarrow> Some (s, Inl InvalidDtb)
                  | Some (Some v, loc) \<Rightarrow> scan_root_node w r (s\<lparr>ms_size_cells := v\<rparr>) loc)
               else
                 (case skip_and_align w r (ph_size header) loc of
                    None \<Rightarrow> None
                  | Some loc \<Rightarrow> scan_root_node w r s loc)))"
  by pat_completeness auto
termination
  by (relation "measure (\<lambda>(w, r, s, loc). length (dr_dtb r) - loc)")
    (auto dest!: get_next_property_moves get_u32_moves skip_and_align_moves)

declare scan_root_node.simps [simp del]

text \<open>What \<open>scan_device_node\<close> has read of the node: positions and sizes of two values, and the cell counts.\<close>

record device_props =
  dp_dev_type :: "(cursor \<times> usize) option"
  dp_reg :: "(cursor \<times> usize) option"
  dp_addr_cells :: usize
  dp_size_cells :: usize

function read_device_props ::
    "width \<Rightarrow> dtb_reader \<Rightarrow> (byte list, string_tag) hash_map \<Rightarrow> device_props \<Rightarrow> cursor \<Rightarrow> (dtb_error + device_props) option" where
  "read_device_props w r sm d loc =
     (case get_next_property w r loc of
        None \<Rightarrow> None
      | Some (None, loc) \<Rightarrow> Some (Inr d)
      | Some (Some header, loc) \<Rightarrow>
          (case hm_find (fnv1a_hash_slice w) sm (ph_name header) of
             None \<Rightarrow> None
           | Some tag \<Rightarrow>
               if tag = Some DtbPropAddressCells then
                 (case get_u32 w r loc of
                    None \<Rightarrow> None
                  | Some (None, loc) \<Rightarrow> Some (Inl InvalidDtb)
                  | Some (Some v, loc) \<Rightarrow> read_device_props w r sm (d\<lparr>dp_addr_cells := v\<rparr>) loc)
               else if tag = Some DtbPropSizeCells then
                 (case get_u32 w r loc of
                    None \<Rightarrow> None
                  | Some (None, loc) \<Rightarrow> Some (Inl InvalidDtb)
                  | Some (Some v, loc) \<Rightarrow> read_device_props w r sm (d\<lparr>dp_size_cells := v\<rparr>) loc)
               else
                 (case skip_and_align w r (ph_size header) loc of
                    None \<Rightarrow> None
                  | Some loc' \<Rightarrow>
                      read_device_props w r sm
                        (if tag = Some DtbPropDeviceType then d\<lparr>dp_dev_type := Some (loc, ph_size header)\<rparr>
                         else if tag = Some DtbPropReg then d\<lparr>dp_reg := Some (loc, ph_size header)\<rparr> else d) loc')))"
  by pat_completeness auto
termination
  by (relation "measure (\<lambda>(w, r, sm, d, loc). length (dr_dtb r) - loc)")
    (auto dest!: get_next_property_moves get_u32_moves skip_and_align_moves)

declare read_device_props.simps [simp del]

definition check_device_type :: "dtb_reader \<Rightarrow> cursor \<Rightarrow> bool option" where
  "check_device_type r loc = do {
     (name, loc) \<leftarrow> get_null_terminated_u8_slice r loc;
     Some (name = Some (str_bytes ''memory'')) }"

text \<open>The part of a range that the target can address; the sizes are 64-bit values.\<close>

definition clip_size :: "width \<Rightarrow> nat \<Rightarrow> nat \<Rightarrow> nat" where
  "clip_size w base sz = (if base = 0 then min sz (usize_max w) else min sz (usize_max w - base + 1))"

type_synonym range_handling = "memory_config \<Rightarrow> usize \<Rightarrow> usize \<Rightarrow> memory_config option"

fun add_blocks_loop ::
    "nat \<Rightarrow> width \<Rightarrow> range_handling \<Rightarrow> dtb_reader \<Rightarrow> usize \<Rightarrow> usize \<Rightarrow> memory_config \<Rightarrow> cursor \<Rightarrow> (memory_config \<times> (dtb_error + unit)) option" where
  "add_blocks_loop 0 w handle_range r addr_cells size_cells config loc = Some (config, Inr ())"
| "add_blocks_loop (Suc n) w handle_range r addr_cells size_cells config loc = do {
     (pair, loc) \<leftarrow> get_reg_pair w r addr_cells size_cells loc;
     case pair of
       None \<Rightarrow> Some (config, Inl InvalidDtb)
     | Some (base, sz) \<Rightarrow> do {
         config \<leftarrow> (if base > usize_max w \<or> sz = 0 then Some config else handle_range config base (clip_size w base sz));
         add_blocks_loop n w handle_range r addr_cells size_cells config loc } }"

definition add_memory_blocks ::
    "width \<Rightarrow> range_handling \<Rightarrow> dtb_reader \<Rightarrow> usize \<Rightarrow> usize \<Rightarrow> usize \<Rightarrow> memory_config \<Rightarrow> cursor \<Rightarrow> (memory_config \<times> (dtb_error + unit)) option" where
  "add_memory_blocks w handle_range r prop_size addr_cells size_cells config loc = do {
     pair_size \<leftarrow> get_reg_pair_size w addr_cells size_cells;
     if pair_size = 0 \<or> prop_size = 0 \<or> prop_size < pair_size \<or> prop_size mod pair_size \<noteq> 0 then Some (config, Inl InvalidDtb)
     else add_blocks_loop (prop_size div pair_size) w handle_range r addr_cells size_cells config loc }"

text \<open>The result of \<open>add_memory_blocks\<close> is dropped.\<close>

definition scan_device_node :: "width \<Rightarrow> range_handling \<Rightarrow> dtb_reader \<Rightarrow> mem_scanner \<Rightarrow> cursor \<Rightarrow> (mem_scanner \<times> (dtb_error + unit)) option" where
  "scan_device_node w handle_range r s loc = do {
     res \<leftarrow> read_device_props w r (ms_string_map s) \<lparr>dp_dev_type = None, dp_reg = None, dp_addr_cells = ms_addr_cells s, dp_size_cells = ms_size_cells s\<rparr> loc;
     case res of
       Inl e \<Rightarrow> Some (s, Inl e)
     | Inr d \<Rightarrow>
         (case dp_dev_type d of
            None \<Rightarrow> Some (s, Inr ())
          | Some (pos, sz) \<Rightarrow> do {
              is_memory \<leftarrow> check_device_type r pos;
              if \<not> is_memory then Some (s, Inr ())
              else (case dp_reg d of
                      None \<Rightarrow> Some (s, Inr ())
                    | Some (pos, sz) \<Rightarrow> do {
                        (config, _) \<leftarrow> add_memory_blocks w handle_range r sz (dp_addr_cells d) (dp_size_cells d) (ms_config s) pos;
                        Some (s\<lparr>ms_config := config\<rparr>, Inr ()) }) }) }"

definition mem_scan_node :: "width \<Rightarrow> range_handling \<Rightarrow> mem_scanner scanner" where
  "mem_scan_node w handle_range s r name loc = do {
     (s, res) \<leftarrow> (if length name = 0 then scan_root_node w r s loc else scan_device_node w handle_range r s loc);
     Some (s, case res of Inl e \<Rightarrow> Inl e | Inr _ \<Rightarrow> Inr True) }"

text \<open>\<open>get_memory_layout\<close>: the outer \<open>None\<close> is a run of \<open>trim_ranges\<close> that has not ended within the fuel.\<close>

definition get_memory_layout ::
    "nat \<Rightarrow> width \<Rightarrow> range_handling \<Rightarrow> (usize \<Rightarrow> byte) \<Rightarrow> memory_config \<Rightarrow> usize \<Rightarrow> (memory_config \<times> bool) option option" where
  "get_memory_layout fuel w handle_range mem config blob =
     (if \<not> rs_is_empty config then Some None
      else case mem_scanner_new w config of None \<Rightarrow> Some None | Some scanner \<Rightarrow>
        (case dtb_new w mem blob of
           None \<Rightarrow> Some None
         | Some (Inl e) \<Rightarrow> Some (Some (config, False))
         | Some (Inr reader) \<Rightarrow>
             (case dtb_scan w reader (mem_scan_node w handle_range) scanner of
                None \<Rightarrow> Some None
              | Some (s, Inl e) \<Rightarrow> Some (Some (ms_config s, False))
              | Some (s, Inr _) \<Rightarrow>
                  (case trim_ranges fuel w (ms_config s) of
                     None \<Rightarrow> None
                   | Some None \<Rightarrow> Some None
                   | Some (Some config) \<Rightarrow> Some (Some (config, \<not> rs_is_empty config))))))"

section \<open>The core scanner\<close>

datatype core_string_tag = CpuAddressCells | CpuSizeCells | CpuCompatible | CpuEnableMethod | CpuReleaseAddr | CpuReg
  | ValueSpinTable | ValueBcm2836

record core_scanner =
  cs_config :: core_config
  cs_primary_id :: usize
  cs_string_map :: "(byte list, core_string_tag) hash_map"
  cs_addr_cells :: usize
  cs_def_enable_method :: core_enable_method

definition core_strings :: "(string \<times> core_string_tag) list" where
  "core_strings = [(''#address-cells'', CpuAddressCells), (''#size-cells'', CpuSizeCells), (''compatible'', CpuCompatible),
     (''enable-method'', CpuEnableMethod), (''cpu-release-addr'', CpuReleaseAddr), (''reg'', CpuReg),
     (''spin-table'', ValueSpinTable), (''brcm,bcm2836-smp'', ValueBcm2836)]"

definition core_build_string_map :: "width \<Rightarrow> (byte list, core_string_tag) hash_map option" where
  "core_build_string_map w = insert_strings w (hm_new 31) core_strings"

definition core_scanner_new :: "width \<Rightarrow> core_config \<Rightarrow> usize \<Rightarrow> core_scanner option" where
  "core_scanner_new w config primary_id = do {
     sm \<leftarrow> core_build_string_map w;
     Some \<lparr>cs_config = config, cs_primary_id = primary_id, cs_string_map = sm, cs_addr_cells = 0, cs_def_enable_method = InvalidMethod\<rparr> }"

text \<open>The readers of values return the cursor too. \<open>read_thread_id\<close> moves a copy of the cursor only.\<close>

definition read_compatible :: "width \<Rightarrow> dtb_reader \<Rightarrow> byte list \<Rightarrow> cursor \<Rightarrow> ((dtb_error + byte list) \<times> cursor) option" where
  "read_compatible w r ct loc = do {
     (compatible, loc) \<leftarrow> get_null_terminated_u8_slice r loc;
     case compatible of
       None \<Rightarrow> Some (Inl InvalidDtb, loc)
     | Some c \<Rightarrow> do {
         loc \<leftarrow> skip_and_align w r 1 loc;
         let len = min (length c) (length ct);
         Some (Inr (take len c @ drop len ct), loc) } }"

definition read_enable_method ::
    "width \<Rightarrow> dtb_reader \<Rightarrow> (byte list, core_string_tag) hash_map \<Rightarrow> cursor \<Rightarrow> ((dtb_error + core_enable_method) \<times> cursor) option" where
  "read_enable_method w r sm loc = do {
     (enable_method, loc) \<leftarrow> get_null_terminated_u8_slice r loc;
     case enable_method of
       None \<Rightarrow> Some (Inl InvalidDtb, loc)
     | Some m \<Rightarrow> do {
         loc \<leftarrow> skip_and_align w r 1 loc;
         tag \<leftarrow> hm_find (fnv1a_hash_slice w) sm m;
         Some (case tag of
             None \<Rightarrow> Inl UnknownValue
           | Some t \<Rightarrow> if t = ValueSpinTable then Inr SpinTable else if t = ValueBcm2836 then Inr Bcm2836 else Inl UnsupportedValue, loc) } }"

definition read_cpu_release_addr :: "width \<Rightarrow> dtb_reader \<Rightarrow> usize \<Rightarrow> cursor \<Rightarrow> ((dtb_error + usize) \<times> cursor) option" where
  "read_cpu_release_addr w r sz loc =
     (if sz = 4 then do {
        (v, loc) \<leftarrow> get_u32 w r loc;
        Some (case v of None \<Rightarrow> Inl InvalidDtb | Some a \<Rightarrow> Inr a, loc) }
      else if sz = 8 then do {
        (v, loc) \<leftarrow> get_u64 w r loc;
        Some (case v of None \<Rightarrow> Inl InvalidDtb | Some a \<Rightarrow> if a \<le> usize_max w then Inr a else Inl InvalidDtb, loc) }
      else Some (Inl UnsupportedValue, loc))"

definition read_thread_id :: "width \<Rightarrow> dtb_reader \<Rightarrow> usize \<Rightarrow> usize \<Rightarrow> cursor \<Rightarrow> ((dtb_error + nat) \<times> cursor) option" where
  "read_thread_id w r sz addr_cells loc = do {
     pair_size \<leftarrow> get_reg_pair_size w addr_cells 0;
     assert_that (pair_size \<noteq> 0);
     (pair, _) \<leftarrow> get_reg_pair w r addr_cells 0 loc;
     Some (case pair of None \<Rightarrow> Inl InvalidDtb | Some (a, _) \<Rightarrow> Inr a, loc) }"

lemma read_value_moves:
  "get_null_terminated_u8_slice r loc = Some (Some n, loc') \<Longrightarrow> skip_and_align w r k loc' = Some l \<Longrightarrow> loc \<le> l"
  using get_null_moves skip_and_align_moves by fastforce

lemma read_enable_method_moves: "read_enable_method w r sm loc = Some (Inr m, loc') \<Longrightarrow> loc \<le> loc'"
  by (auto simp: read_enable_method_def bind_eq_Some_conv dest: read_value_moves split: option.splits)

lemma read_compatible_moves: "read_compatible w r ct loc = Some (Inr m, loc') \<Longrightarrow> loc \<le> loc'"
  by (auto simp: read_compatible_def bind_eq_Some_conv Let_def dest: read_value_moves split: option.splits)

lemma get_u64_moves: "get_u64 w r loc = Some (Some v, loc') \<Longrightarrow> loc \<le> loc'"
  by (auto simp: get_u64_def get_u32_unchecked_def bind_eq_Some_conv uadd_Some_iff split: if_splits)

lemma read_release_addr_moves:
  assumes "read_cpu_release_addr w r sz loc = Some (Inr a, loc')"
  shows "loc \<le> loc'"
proof -
  have "(\<exists>v. get_u32 w r loc = Some (Some v, loc')) \<or> (\<exists>v. get_u64 w r loc = Some (Some v, loc'))"
    using assms by (auto simp: read_cpu_release_addr_def bind_eq_Some_conv split: if_splits option.splits)
  then show ?thesis using get_u32_moves [of w r loc _ loc'] get_u64_moves [of w r loc _ loc'] by fastforce
qed

lemma read_thread_id_stays: "read_thread_id w r sz ac loc = Some (x, loc') \<Longrightarrow> loc' = loc"
  by (auto simp: read_thread_id_def bind_eq_Some_conv)

function cpus_props :: "width \<Rightarrow> dtb_reader \<Rightarrow> core_scanner \<Rightarrow> cursor \<Rightarrow> (core_scanner \<times> (dtb_error + unit)) option" where
  "cpus_props w r s loc =
     (case get_next_property w r loc of
        None \<Rightarrow> None
      | Some (None, loc) \<Rightarrow> Some (s, Inr ())
      | Some (Some header, loc) \<Rightarrow>
          (case hm_find (fnv1a_hash_slice w) (cs_string_map s) (ph_name header) of
             None \<Rightarrow> None
           | Some tag \<Rightarrow>
               if tag = Some CpuAddressCells then
                 (case get_u32 w r loc of
                    None \<Rightarrow> None
                  | Some (None, loc) \<Rightarrow> Some (s, Inl InvalidDtb)
                  | Some (Some v, loc) \<Rightarrow> cpus_props w r (s\<lparr>cs_addr_cells := v\<rparr>) loc)
               else if tag = Some CpuSizeCells then
                 (case get_u32 w r loc of
                    None \<Rightarrow> None
                  | Some (None, loc) \<Rightarrow> Some (s, Inl InvalidDtb)
                  | Some (Some v, loc) \<Rightarrow> if v \<noteq> 0 then Some (s, Inl InvalidDtb) else cpus_props w r s loc)
               else if tag = Some CpuEnableMethod then
                 (case read_enable_method w r (cs_string_map s) loc of
                    None \<Rightarrow> None
                  | Some (Inl e, loc) \<Rightarrow> Some (s, Inl e)
                  | Some (Inr m, loc) \<Rightarrow> cpus_props w r (s\<lparr>cs_def_enable_method := m\<rparr>) loc)
               else
                 (case skip_and_align w r (ph_size header) loc of
                    None \<Rightarrow> None
                  | Some loc \<Rightarrow> cpus_props w r s loc)))"
  by pat_completeness auto
termination
  by (relation "measure (\<lambda>(w, r, s, loc). length (dr_dtb r) - loc)")
    (auto dest!: get_next_property_moves get_u32_moves skip_and_align_moves read_enable_method_moves)

declare cpus_props.simps [simp del]

definition scan_cpus_node :: "width \<Rightarrow> dtb_reader \<Rightarrow> core_scanner \<Rightarrow> cursor \<Rightarrow> (core_scanner \<times> (dtb_error + unit)) option" where
  "scan_cpus_node w r s loc = do {
     (s, res) \<leftarrow> cpus_props w r s loc;
     Some (s, case res of Inl e \<Rightarrow> Inl e | Inr _ \<Rightarrow> if cs_addr_cells s = 0 then Inl InvalidDtb else Inr ()) }"

function cpu_props :: "width \<Rightarrow> dtb_reader \<Rightarrow> core_scanner \<Rightarrow> core \<Rightarrow> cursor \<Rightarrow> (dtb_error + core) option" where
  "cpu_props w r s c loc =
     (case get_next_property w r loc of
        None \<Rightarrow> None
      | Some (None, loc) \<Rightarrow> Some (Inr c)
      | Some (Some header, loc) \<Rightarrow>
          (case hm_find (fnv1a_hash_slice w) (cs_string_map s) (ph_name header) of
             None \<Rightarrow> None
           | Some tag \<Rightarrow>
               if tag = Some CpuCompatible then
                 (case read_compatible w r (core_type c) loc of
                    None \<Rightarrow> None
                  | Some (Inl e, loc) \<Rightarrow> Some (Inl e)
                  | Some (Inr ct, loc) \<Rightarrow> cpu_props w r s (c\<lparr>core_type := ct\<rparr>) loc)
               else if tag = Some CpuEnableMethod then
                 (case read_enable_method w r (cs_string_map s) loc of
                    None \<Rightarrow> None
                  | Some (Inl e, loc) \<Rightarrow> Some (Inl e)
                  | Some (Inr m, loc) \<Rightarrow> cpu_props w r s (c\<lparr>enable_method := m\<rparr>) loc)
               else if tag = Some CpuReleaseAddr then
                 (case read_cpu_release_addr w r (ph_size header) loc of
                    None \<Rightarrow> None
                  | Some (Inl e, loc) \<Rightarrow> Some (Inl e)
                  | Some (Inr a, loc) \<Rightarrow> cpu_props w r s (c\<lparr>release_addr := a\<rparr>) loc)
               else if tag = Some CpuReg then
                 (case read_thread_id w r (ph_size header) (cs_addr_cells s) loc of
                    None \<Rightarrow> None
                  | Some (Inl e, loc) \<Rightarrow> Some (Inl e)
                  | Some (Inr i, loc) \<Rightarrow> cpu_props w r s (c\<lparr>core_id := i mod usize_lim w\<rparr>) loc)
               else
                 (case skip_and_align w r (ph_size header) loc of
                    None \<Rightarrow> None
                  | Some loc \<Rightarrow> cpu_props w r s c loc)))"
  by pat_completeness auto
termination
  by (relation "measure (\<lambda>(w, r, s, c, loc). length (dr_dtb r) - loc)")
    (auto dest!: get_next_property_moves skip_and_align_moves read_enable_method_moves read_compatible_moves read_release_addr_moves read_thread_id_stays)

declare cpu_props.simps [simp del]

definition scan_cpu_node :: "width \<Rightarrow> dtb_reader \<Rightarrow> core_scanner \<Rightarrow> cursor \<Rightarrow> (core_scanner \<times> (dtb_error + unit)) option" where
  "scan_cpu_node w r s loc = do {
     res \<leftarrow> cpu_props w r s core_new loc;
     case res of
       Inl e \<Rightarrow> Some (s, Inl e)
     | Inr c \<Rightarrow> do {
         let is_primary = (core_id c = cs_primary_id s);
         n \<leftarrow> usub (MAX_CORES w) 1;
         if \<not> is_primary \<and> get_core_count (cs_config s) > n then Some (s, Inr ())
         else do {
           let c = (if enable_method c = InvalidMethod then c\<lparr>enable_method := cs_def_enable_method s\<rparr> else c);
           (config, _) \<leftarrow> add_core w (cs_config s) c is_primary;
           Some (s\<lparr>cs_config := config\<rparr>, Inr ()) } } }"

definition core_scan_node :: "width \<Rightarrow> core_scanner scanner" where
  "core_scan_node w s r name loc = do {
     (s, res) \<leftarrow>
       (if name = str_bytes ''cpus'' then scan_cpus_node w r s loc
        else if length name \<ge> 5 \<and> take 4 name = str_bytes ''cpu@'' then scan_cpu_node w r s loc
        else Some (s, Inr ()));
     Some (s, case res of Inl e \<Rightarrow> Inl e | Inr _ \<Rightarrow> Inr True) }"

definition get_core_config :: "width \<Rightarrow> (usize \<Rightarrow> byte) \<Rightarrow> usize \<Rightarrow> core_config \<Rightarrow> usize \<Rightarrow> (core_config \<times> bool) option" where
  "get_core_config w mem cpu_id config blob = do {
     let config = cores_reset config;
     scanner \<leftarrow> core_scanner_new w config cpu_id;
     reader \<leftarrow> dtb_new w mem blob;
     case reader of
       Inl e \<Rightarrow> Some (config, False)
     | Inr reader \<Rightarrow> do {
         (s, res) \<leftarrow> dtb_scan w reader (core_scan_node w) scanner;
         case res of
           Inl e \<Rightarrow> Some (cs_config s, False)
         | Inr _ \<Rightarrow>
             if get_core_count (cs_config s) = 0 then Some (cs_config s, False)
             else do {
               cores \<leftarrow> get_cores (cs_config s);
               Some (cs_config s, \<forall>c\<in>set cores. enable_method c \<noteq> InvalidMethod) } } }"

end
