(* ===== verification/Dtb_Runs.thy ===== *)
theory Dtb_Runs
  imports Dtb
begin

text \<open>
  What the device tree reader guarantees: on every blob its scan panics only if a call of the scanner does, where its reads panic, and on the encoding of
  a tree it visits exactly the nodes of the tree.
\<close>

section \<open>Any blob\<close>

definition reader_ok :: "width \<Rightarrow> dtb_reader \<Rightarrow> bool" where
  "reader_ok w r \<longleftrightarrow> FDT_WORD_BYTES \<le> length (dr_dtb r) \<and> length (dr_dtb r) \<le> FDT_MAX_SIZE"

lemma max_size_less: "FDT_MAX_SIZE + 8 < usize_lim w"
  by (cases w) (simp_all add: FDT_MAX_SIZE_def)

lemma reader_len:
  assumes "reader_ok w r"
  shows "4 \<le> length (dr_dtb r)" "length (dr_dtb r) + 8 < usize_lim w"
  using assms max_size_less [of w] by (simp_all add: reader_ok_def FDT_WORD_BYTES_def)

lemma be_fold: "foldl (\<lambda>v b. v * 256 + unat b) n (bs :: byte list) < (n + 1) * 256 ^ length bs"
proof (induction bs arbitrary: n)
  case (Cons b bs)
  have "unat b < 256" using unsigned_less [of b] by simp
  then have "(n * 256 + unat b + 1) * 256 ^ length bs \<le> (n + 1) * 256 * 256 ^ length bs" by (intro mult_le_mono1) simp
  with Cons [of "n * 256 + unat b"] show ?case unfolding foldl.simps list.size power_Suc by (simp only: add.right_neutral mult.assoc power_Suc add_Suc_right)
qed simp

lemma from_be_less: "length bs = 4 \<Longrightarrow> from_be_bytes bs < 2 ^ 32"
  using be_fold [of 0 bs] by (simp add: from_be_bytes_def)

lemma get_u32_unchecked_ok:
  assumes "reader_ok w r" "loc + 4 \<le> length (dr_dtb r)"
  shows "get_u32_unchecked w r loc = Some (from_be_bytes (take 4 (drop loc (dr_dtb r))), loc + 4)"
  using assms reader_len [OF assms(1)] by (simp add: get_u32_unchecked_def slice_def FDT_WORD_BYTES_def)

lemma get_u32_eq:
  assumes "reader_ok w r"
  shows "get_u32 w r loc = Some (if loc + 4 \<le> length (dr_dtb r) then (Some (from_be_bytes (take 4 (drop loc (dr_dtb r)))), loc + 4) else (None, loc))"
  using reader_len [OF assms] get_u32_unchecked_ok [OF assms, of loc] by (auto simp: get_u32_def FDT_WORD_BYTES_def)

lemma get_u32_less: "reader_ok w r \<Longrightarrow> get_u32 w r loc = Some (Some v, loc') \<Longrightarrow> v < 2 ^ 32"
  using from_be_less [of "take 4 (drop loc (dr_dtb r))"] by (auto simp: get_u32_eq split: if_splits)

lemma get_u32_total: "reader_ok w r \<Longrightarrow> \<exists>v l. get_u32 w r loc = Some (v, l)"
  by (simp add: get_u32_eq)

lemma get_null_total:
  assumes "loc \<le> length (dr_dtb r)"
  shows "\<exists>x e. get_null_terminated_u8_slice r loc = Some (x, e)"
  using null_end_moves [OF assms] by (auto simp: get_null_terminated_u8_slice_def Let_def slice_def)

lemma align_up_4_total: "a + 3 < usize_lim w \<Longrightarrow> align_up w a FDT_WORD_BYTES = Some ((a + 3) div 4 * 4)"
proof -
  assume "a + 3 < usize_lim w"
  moreover have "2 < word_bits w" by (cases w) simp_all
  moreover have "mask 2 = (3::nat)" by (simp add: mask_eq_exp_minus_1)
  ultimately show ?thesis using align_up_eq [of 2 w a] by (simp add: FDT_WORD_BYTES_def)
qed

lemma skip_and_align_eq:
  assumes "reader_ok w r" "loc \<le> length (dr_dtb r)"
  shows "skip_and_align w r n loc = Some (let len = length (dr_dtb r); p = loc + min (len - loc) n in if p > len - 4 then len else (p + 3) div 4 * 4)"
proof -
  let ?len = "length (dr_dtb r)"
  define p where "p = loc + min (?len - loc) n"
  have p: "p \<le> ?len" using assms(2) by (simp add: p_def)
  then have "p + 3 < usize_lim w" "p < usize_lim w" using reader_len [OF assms(1)] by linarith+
  then have steps: "uadd w loc (min (?len - loc) n) = Some p" "usub ?len loc = Some (?len - loc)" "usub ?len FDT_WORD_BYTES = Some (?len - 4)"
      "align_up w p FDT_WORD_BYTES = Some ((p + 3) div 4 * 4)"
    using assms(2) reader_len [OF assms(1)] align_up_4_total [of p w] unfolding p_def by (simp_all only: uadd_def usub_def FDT_WORD_BYTES_def if_True)
  show ?thesis unfolding skip_and_align_def Let_def steps bind.simps p_def [symmetric] by simp
qed

lemma skip_and_align_total:
  assumes "reader_ok w r" "loc \<le> length (dr_dtb r)"
  shows "\<exists>l. skip_and_align w r n loc = Some l \<and> l \<le> length (dr_dtb r)"
  using skip_and_align_eq [OF assms, of n] skip_and_align_moves [of w r n loc] by blast

text \<open>The size of a property is a 32-bit value: with 64-bit addresses adding a word to it cannot overflow.\<close>

lemma skip_node_total:
  assumes "reader_ok W64 r"
  shows "\<exists>x. skip_node_properties W64 r loc = Some x"
proof -
  have "w = W64 \<Longrightarrow> reader_ok w r \<Longrightarrow> \<exists>x. skip_node_properties w r loc = Some x" for w
  proof (induction w r loc rule: skip_node_properties.induct)
    case (1 w r loc)
    note ok = 1(4) and ih = 1(1,2)
    obtain v l where g: "get_u32 w r loc = Some (v, l)" using get_u32_total [OF ok] by blast
    show ?case
    proof (cases v)
      case None
      with g show ?thesis by (simp add: skip_node_properties.simps)
    next
      case (Some marker)
      note g = g [unfolded Some]
      show ?thesis
      proof (cases "marker = FDT_PROP")
        case True
        obtain v2 l2 where g2: "get_u32 w r l = Some (v2, l2)" using get_u32_total [OF ok] by blast
        show ?thesis
        proof (cases v2)
          case None
          with g g2 True show ?thesis by (subst skip_node_properties.simps) simp
        next
          case (Some sz)
          note g2 = g2 [unfolded Some]
          have "sz + 4 < usize_lim w" using get_u32_less [OF ok g2] 1(3) by simp
          then have u: "uadd w sz FDT_WORD_BYTES = Some (sz + FDT_WORD_BYTES)" by (simp add: FDT_WORD_BYTES_def)
          have "l2 \<le> length (dr_dtb r)" using get_u32_moves [OF g2] by simp
          then obtain l3 where sk: "skip_and_align w r (sz + FDT_WORD_BYTES) l2 = Some l3" using skip_and_align_total [OF ok] by blast
          have "\<exists>x. skip_node_properties w r l3 = Some x"
            by (rule ih(1) [OF g refl refl True g2 refl refl u sk 1(3) ok])
          with g g2 True u sk show ?thesis by (subst skip_node_properties.simps) simp
        qed
      next
        case False
        note np = this
        show ?thesis
        proof (cases "marker = FDT_BEGIN_NODE \<or> marker = FDT_END_NODE")
          case True
          with g np get_u32_moves [OF g] show ?thesis by (subst skip_node_properties.simps) (auto simp: FDT_WORD_BYTES_def)
        next
          case False
          with g np ih(2) [OF g refl refl np False _ 1(3) ok] show ?thesis by (subst skip_node_properties.simps) simp
        qed
      qed
    qed
  qed
  with assms show ?thesis by simp
qed

lemma scan_markers_total: "reader_ok w r \<Longrightarrow> \<exists>x. scan_markers w r loc = Some x"
proof (induction w r loc rule: scan_markers.induct)
  case (1 w r loc)
  obtain v l where g: "get_u32 w r loc = Some (v, l)" using get_u32_total [OF 1(2)] by blast
  show ?case
  proof (cases v)
    case None
    with g show ?thesis by (simp add: scan_markers.simps)
  next
    case (Some marker)
    note g = g [unfolded Some]
    with 1(1) [OF g refl refl _ _ 1(2)] show ?thesis by (subst scan_markers.simps) auto
  qed
qed

lemma next_begin_total: "reader_ok w r \<Longrightarrow> \<exists>x. next_begin w r depth loc = Some x"
proof (induction w r depth loc rule: next_begin.induct)
  case (1 w r depth loc)
  obtain v l where g: "get_u32 w r loc = Some (v, l)" using get_u32_total [OF 1(3)] by blast
  show ?case
  proof (cases v)
    case None
    with g show ?thesis by (simp add: next_begin.simps)
  next
    case (Some marker)
    note g = g [unfolded Some]
    with 1(1) [OF g refl refl _ _ _ 1(3)] 1(2) [OF g refl refl _ _ _ 1(3)] show ?thesis by (subst next_begin.simps) auto
  qed
qed


definition scanner_total :: "'s scanner \<Rightarrow> dtb_reader \<Rightarrow> bool" where
  "scanner_total f r \<longleftrightarrow> (\<forall>s name loc. loc \<le> length (dr_dtb r) \<longrightarrow> (\<exists>x. f s r name loc = Some x))"

lemma scan_loop_total:
  assumes "reader_ok W64 r" "scanner_total f r" "loc \<le> length (dr_dtb r)"
  shows "\<exists>x. scan_loop W64 r f s loc = Some x"
proof -
  have "w = W64 \<Longrightarrow> reader_ok w r \<Longrightarrow> scanner_total f r \<Longrightarrow> loc \<le> length (dr_dtb r) \<Longrightarrow> \<exists>x. scan_loop w r f s loc = Some x" for w
  proof (induction w r f s loc rule: scan_loop.induct)
    case (1 w r f s loc)
    note ih = 1(1) and w = 1(2) and ok = 1(3) and tot = 1(4)
    obtain v e where n: "get_null_terminated_u8_slice r loc = Some (v, e)" using get_null_total [OF 1(5)] by blast
    show ?case
    proof (cases v)
      case None
      with n show ?thesis by (simp add: scan_loop.simps)
    next
      case (Some name)
      note n = n [unfolded Some]
      have "e \<le> length (dr_dtb r)" using get_null_moves [OF n] by simp
      from skip_and_align_total [OF ok this, of 1]
      obtain l where a: "skip_and_align w r 1 e = Some l" "l \<le> length (dr_dtb r)" by blast
      obtain s' x where f: "f s r name l = Some (s', x)" using tot a(2) by (fastforce simp: scanner_total_def)
      obtain y where k: "skip_node_properties w r l = Some y" using skip_node_total ok w by blast
      show ?thesis
      proof (cases "x = Inr True \<and> (\<exists>l2. y = Inr l2)")
        case True
        then obtain l2 where xy: "x = Inr True" "y = Inr l2" by blast
        obtain z where m: "scan_markers w r l2 = Some z" using scan_markers_total [OF ok] by blast
        show ?thesis
        proof (cases "\<exists>l3. z = Inr (Some l3)")
          case True
          then obtain l3 where z: "z = Inr (Some l3)" by blast
          have "l3 \<le> length (dr_dtb r)" using scan_markers_moves m z by blast
          then have "\<exists>x. scan_loop w r f s' l3 = Some x"
            using ih [OF n refl refl a(1) f [unfolded xy(1)] refl refl _ k [unfolded xy(2)] refl m [unfolded z] refl refl w ok tot] by simp
          with n a f k m xy z show ?thesis by (subst scan_loop.simps) simp
        next
          case False
          with n a f k m xy show ?thesis by (subst scan_loop.simps) (auto split: sum.splits option.splits)
        qed
      next
        case False
        with n a f k show ?thesis by (subst scan_loop.simps) (auto split: sum.splits bool.splits)
      qed
    qed
  qed
  with assms show ?thesis by blast
qed

lemma dtb_scan_total:
  assumes "reader_ok W64 r" "scanner_total f r"
  shows "\<exists>x. dtb_scan W64 r f s = Some x"
proof -
  obtain v l where g: "get_u32 W64 r (dr_struct_offset r) = Some (v, l)" using get_u32_total [OF assms(1)] by blast
  show ?thesis
  proof (cases v)
    case (Some marker)
    then have "l \<le> length (dr_dtb r)" using get_u32_moves g by blast
    from scan_loop_total [OF assms this] Some g show ?thesis by (auto simp: dtb_scan_def)
  qed (use g in \<open>simp add: dtb_scan_def\<close>)
qed

lemma read_words_total:
  "reader_ok w r \<Longrightarrow> \<exists>x. read_words n w r loc = Some x \<and> (\<forall>xs. x = Inr xs \<longrightarrow> length xs = n \<and> (\<forall>v\<in>set xs. v < 2 ^ 32))"
proof (induction n arbitrary: loc)
  case (Suc n)
  obtain v l where g: "get_u32 w r loc = Some (v, l)" using get_u32_total [OF Suc.prems] by blast
  from Suc.IH [OF Suc.prems, of l] obtain x where x: "read_words n w r l = Some x" "\<forall>xs. x = Inr xs \<longrightarrow> length xs = n \<and> (\<forall>v\<in>set xs. v < 2 ^ 32)" by blast
  with g get_u32_less [OF Suc.prems, of loc _ l] show ?case by (cases v) (auto split: sum.splits)
qed simp

lemma dtb_new_total:
  "\<exists>x. dtb_new w mem blob = Some x
    \<and> (\<forall>r. x = Inr r \<longrightarrow> reader_ok w r \<and> FDT_HEADER_SIZE \<le> length (dr_dtb r) \<and> dr_strings_offset r < 2 ^ 32)"
proof (cases "check_dtb mem blob")
  case (Inr n)
  then have n: "FDT_HEADER_SIZE \<le> n" "n \<le> FDT_MAX_SIZE"
    by (auto simp: check_dtb_def Let_def split: if_splits)
  let ?r = "\<lparr>dr_dtb = map (\<lambda>i. mem (blob + i)) [0..<n], dr_struct_offset = 0, dr_strings_offset = 0, dr_mem_rsv_map_offset = 0, dr_version = 0,
    dr_last_comp_version = 0, dr_boot_cpuid_phys = 0, dr_strings_size = 0, dr_struct_size = 0\<rparr>"
  have "reader_ok w ?r" using n by (simp add: reader_ok_def FDT_HEADER_SIZE_def FDT_WORD_BYTES_def)
  from read_words_total [OF this, of 8 "FDT_WORD_BYTES * 2"] obtain x where
    x: "read_words 8 w ?r (FDT_WORD_BYTES * 2) = Some x" "\<forall>xs. x = Inr xs \<longrightarrow> length xs = 8 \<and> (\<forall>v\<in>set xs. v < 2 ^ 32)" by blast
  have "xs ! 1 < 2 ^ 32" if "x = Inr xs" for xs using x(2) that nth_mem [of 1 xs] by simp
  with x(1) Inr n show ?thesis
    by (auto simp: dtb_new_def Let_def reader_ok_def FDT_HEADER_SIZE_def FDT_WORD_BYTES_def split: sum.splits)
qed (simp add: dtb_new_def)

text \<open>A scanner that notes a panic of \<open>f\<close> and stops the scan there.\<close>

definition guarded :: "'s scanner \<Rightarrow> ('s \<times> bool) scanner" where
  "guarded f sp r name loc =
     (case f (fst sp) r name loc of None \<Rightarrow> Some ((fst sp, True), Inr False) | Some (s, x) \<Rightarrow> Some ((s, False), x))"

lemma guarded_total: "scanner_total (guarded f) r"
  by (auto simp: scanner_total_def guarded_def split: option.splits)

lemma scan_loop_guarded:
  "scan_loop w r (guarded f) (s, False) loc = Some ((s', p), y) \<Longrightarrow> scan_loop w r f s loc = (if p then None else Some (s', y))"
proof (induction w r f s loc rule: scan_loop.induct)
  case (1 w r f s loc)
  note ih = 1(1) and g = 1(2)
  show ?case
  proof (cases "get_null_terminated_u8_slice r loc")
    case None
    with g show ?thesis by (simp add: scan_loop.simps)
  next
    case (Some a)
    obtain v e where n: "get_null_terminated_u8_slice r loc = Some (v, e)" using Some by (cases a) auto
    show ?thesis
    proof (cases "v = None \<or> skip_and_align w r 1 e = None \<or> f s r (the v) (the (skip_and_align w r 1 e)) = None")
      case True
      with g n show ?thesis by (subst (asm) scan_loop.simps, subst scan_loop.simps) (auto simp: guarded_def split: option.splits)
    next
      case False
      then obtain name l s1 x where a: "v = Some name" "skip_and_align w r 1 e = Some l" "f s r name l = Some (s1, x)" by auto
      have gd: "guarded f (s, False) r name l = Some ((s1, False), x)" using a(3) by (simp add: guarded_def)
      show ?thesis
      proof (cases "x = Inr True \<and> (\<exists>l2 l3. skip_node_properties w r l = Some (Inr l2) \<and> scan_markers w r l2 = Some (Inr (Some l3)))")
        case True
        then obtain l2 l3 where t: "x = Inr True" "skip_node_properties w r l = Some (Inr l2)" "scan_markers w r l2 = Some (Inr (Some l3))" by blast
        have "scan_loop w r (guarded f) (s1, False) l3 = Some ((s', p), y)" using g n a gd t by (subst (asm) scan_loop.simps) simp
        from ih [OF n [unfolded a(1)] refl refl a(2) a(3) [unfolded t(1)] refl refl _ t(2) refl t(3) refl refl this]
        have "scan_loop w r f s1 l3 = (if p then None else Some (s', y))" by simp
        with n a t show ?thesis by (subst scan_loop.simps) simp
      next
        case False
        with g n a gd show ?thesis
          by (subst (asm) scan_loop.simps, subst scan_loop.simps) (auto split: option.splits sum.splits bool.splits)
      qed
    qed
  qed
qed

lemma dtb_scan_guarded:
  assumes "reader_ok W64 r"
  shows "\<exists>s' p y. dtb_scan W64 r (guarded f) (s, False) = Some ((s', p), y) \<and> dtb_scan W64 r f s = (if p then None else Some (s', y))"
proof -
  obtain s' p y where d: "dtb_scan W64 r (guarded f) (s, False) = Some ((s', p), y)"
    using dtb_scan_total [OF assms guarded_total, of f "(s, False)"] by (metis prod.collapse)
  obtain v l where g: "get_u32 W64 r (dr_struct_offset r) = Some (v, l)" using get_u32_total [OF assms] by blast
  have "dtb_scan W64 r f s = (if p then None else Some (s', y))"
    using d g scan_loop_guarded [of W64 r f s l s' p y] by (auto simp: dtb_scan_def split: option.splits if_splits)
  with d show ?thesis by blast
qed

text \<open>
  The word at a position, and where reading the next property goes wrong: behind words that are \<open>FDT_NOOP\<close> there is a property header whose name offset
  leads beyond the end of the blob.
\<close>

definition word_at :: "dtb_reader \<Rightarrow> cursor \<Rightarrow> usize option" where
  "word_at r loc = (if loc + 4 \<le> length (dr_dtb r) then Some (from_be_bytes (take 4 (drop loc (dr_dtb r)))) else None)"

definition bad_property :: "dtb_reader \<Rightarrow> cursor \<Rightarrow> bool" where
  "bad_property r loc \<longleftrightarrow> (\<exists>k off. (\<forall>j<k. word_at r (loc + 4 * j) = Some FDT_NOOP) \<and> word_at r (loc + 4 * k) = Some FDT_PROP
     \<and> word_at r (loc + 4 * k + 8) = Some off \<and> length (dr_dtb r) < dr_strings_offset r + off)"

lemma get_u32_word: "reader_ok w r \<Longrightarrow> get_u32 w r loc = Some (word_at r loc, if word_at r loc = None then loc else loc + 4)"
  by (simp add: get_u32_eq word_at_def)

lemma word_at_less: "word_at r loc = Some v \<Longrightarrow> v < 2 ^ 32"
  using from_be_less [of "take 4 (drop loc (dr_dtb r))"] by (auto simp: word_at_def split: if_splits)

lemma string_table_panics:
  assumes "dr_strings_offset r < 2 ^ 32" "off < 2 ^ 32"
  shows "get_slice_from_string_table W64 r off = None \<longleftrightarrow> length (dr_dtb r) < dr_strings_offset r + off"
proof -
  let ?l = "dr_strings_offset r + off"
  have u: "uadd W64 (dr_strings_offset r) off = Some ?l" using assms by simp
  show ?thesis
  proof (cases "?l \<le> length (dr_dtb r)")
    case True
    with get_null_total [OF True] u show ?thesis by (auto simp: get_slice_from_string_table_def)
  next
    case False
    then have "null_end (dr_dtb r) ?l = ?l" by (subst null_end.simps) simp
    with False u show ?thesis by (simp add: get_slice_from_string_table_def get_null_terminated_u8_slice_def slice_def)
  qed
qed

lemma bad_property_noop:
  assumes "word_at r loc = Some FDT_NOOP"
  shows "bad_property r loc \<longleftrightarrow> bad_property r (loc + 4)"
proof -
  let ?P = "\<lambda>loc k off. (\<forall>j<k. word_at r (loc + 4 * j) = Some FDT_NOOP) \<and> word_at r (loc + 4 * k) = Some FDT_PROP
     \<and> word_at r (loc + 4 * k + 8) = Some off \<and> length (dr_dtb r) < dr_strings_offset r + off"
  have z: "\<not> ?P loc 0 off" for off using assms by (simp add: FDT_NOOP_def FDT_PROP_def)
  have s: "?P loc (Suc k) off \<longleftrightarrow> ?P (loc + 4) k off" for k off
    using assms by (simp add: All_less_Suc2 add.assoc)
  have shift: "(\<exists>k. Q k) \<longleftrightarrow> (\<exists>k. Q (Suc k))" if "\<not> Q 0" for Q :: "nat \<Rightarrow> bool"
    using that by (metis not0_implies_Suc)
  have "bad_property r loc \<longleftrightarrow> (\<exists>k off. ?P loc (Suc k) off)"
    unfolding bad_property_def by (rule shift) (use z in blast)
  then show ?thesis unfolding s bad_property_def .
qed

lemma bad_property_prop:
  assumes "word_at r loc = Some FDT_PROP"
  shows "bad_property r loc \<longleftrightarrow> (\<exists>off. word_at r (loc + 8) = Some off \<and> length (dr_dtb r) < dr_strings_offset r + off)"
proof
  assume "bad_property r loc"
  then obtain k off where k: "\<forall>j<k. word_at r (loc + 4 * j) = Some FDT_NOOP" "word_at r (loc + 4 * k + 8) = Some off" "length (dr_dtb r) < dr_strings_offset r + off"
    by (auto simp: bad_property_def)
  have "k = 0" using k(1) [rule_format, of 0] assms by (cases k) (simp_all add: FDT_NOOP_def FDT_PROP_def)
  with k show "\<exists>off. word_at r (loc + 8) = Some off \<and> length (dr_dtb r) < dr_strings_offset r + off" by auto
next
  assume "\<exists>off. word_at r (loc + 8) = Some off \<and> length (dr_dtb r) < dr_strings_offset r + off"
  then obtain off where "word_at r (loc + 8) = Some off" "length (dr_dtb r) < dr_strings_offset r + off" by blast
  then show "bad_property r loc" using assms unfolding bad_property_def by (intro exI [of _ 0] exI [of _ off]) simp
qed

lemma bad_property_start: "bad_property r loc \<Longrightarrow> word_at r loc = Some FDT_NOOP \<or> word_at r loc = Some FDT_PROP"
  unfolding bad_property_def by (metis add.right_neutral gr0I mult_0_right)

lemma next_property_panics:
  assumes "reader_ok W64 r" "dr_strings_offset r < 2 ^ 32"
  shows "get_next_property W64 r loc = None \<longleftrightarrow> bad_property r loc"
proof -
  have "w = W64 \<Longrightarrow> reader_ok w r \<Longrightarrow> dr_strings_offset r < 2 ^ 32 \<Longrightarrow> get_next_property w r loc = None \<longleftrightarrow> bad_property r loc" for w
  proof (induction w r loc rule: get_next_property.induct)
    case (1 w r loc)
    note ok = 1(3) and g = get_u32_word [OF 1(3)]
    consider "word_at r loc = Some FDT_PROP" | "word_at r loc = Some FDT_NOOP" | "word_at r loc = None"
      | m where "word_at r loc = Some m" "m \<noteq> FDT_PROP" "m \<noteq> FDT_NOOP" by (cases "word_at r loc") auto
    then show ?case
    proof cases
      case 1
      have add: "loc + 4 + 4 = loc + 8" by simp
      have "word_at r (loc + 4) \<noteq> None" if "word_at r (loc + 8) = Some off" for off using that by (auto simp: word_at_def split: if_splits)
      then show ?thesis
        unfolding bad_property_prop [OF 1] using 1 g [of loc] g [of "loc + 4"] g [of "loc + 8"] string_table_panics [OF \<open>dr_strings_offset r < 2 ^ 32\<close>] word_at_less [of r "loc + 8"] \<open>w = W64\<close>
        by (subst get_next_property.simps) (auto simp: add bind_eq_None_conv split: option.splits)
    next
      case 2
      have "FDT_NOOP \<noteq> FDT_PROP" by (simp add: FDT_NOOP_def FDT_PROP_def)
      moreover from this have "get_next_property w r (loc + 4) = None \<longleftrightarrow> bad_property r (loc + 4)"
        using 1(1) [of "(Some FDT_NOOP, loc + 4)" "Some FDT_NOOP" "loc + 4" FDT_NOOP] g [of loc] 2 1(2-4) by simp
      ultimately show ?thesis
        unfolding bad_property_noop [OF 2] using 2 g [of loc] by (subst get_next_property.simps) simp
    next
      case 3
      then show ?thesis using g [of loc] bad_property_start [of r loc] by (subst get_next_property.simps) auto
    next
      case 4
      then show ?thesis using g [of loc] bad_property_start [of r loc] by (subst get_next_property.simps) (auto simp: FDT_WORD_BYTES_def)
    qed
  qed
  with assms show ?thesis by simp
qed

lemma read_cells_total:
  assumes "reader_ok w r"
  shows "loc + 4 * n \<le> length (dr_dtb r) \<Longrightarrow> \<exists>v. read_cells n s w r loc acc = Some (v, loc + 4 * n)"
proof (induction n arbitrary: loc acc)
  case (Suc n)
  then show ?case using get_u32_unchecked_ok [OF assms, of loc] Suc.IH [of "loc + 4"] by (simp add: add.assoc)
qed simp

lemma reg_pair_panics:
  assumes "reader_ok W64 r" "ac < 2 ^ 32" "sc < 2 ^ 32"
  shows "get_reg_pair W64 r ac sc loc = None \<longleftrightarrow> ac \<noteq> 0 \<and> length (dr_dtb r) < 4 * (ac + sc)"
proof (cases "ac \<noteq> 0 \<and> 4 * (ac + sc) \<le> length (dr_dtb r)")
  case True
  have p: "get_reg_pair_size W64 ac sc = Some (4 * (ac + sc))" using assms(2,3) by (simp add: get_reg_pair_size_def FDT_WORD_BYTES_def)
  show ?thesis
  proof (cases "loc + 4 * (ac + sc) \<le> length (dr_dtb r)")
    case fit: True
    obtain a where a: "read_cells ac FDT_WORD_BITS W64 r loc 0 = Some (a, loc + 4 * ac)" using read_cells_total [OF assms(1), of loc ac] fit by fastforce
    obtain z where z: "read_cells sc FDT_WORD_BITS W64 r (loc + 4 * ac) 0 = Some (z, loc + 4 * ac + 4 * sc)"
      using read_cells_total [OF assms(1), of "loc + 4 * ac" sc] fit by fastforce
    from True fit p a z show ?thesis by (simp add: get_reg_pair_def)
  qed (use True p in \<open>auto simp: get_reg_pair_def\<close>)
next
  case False
  have p: "get_reg_pair_size W64 ac sc = Some (4 * (ac + sc))" using assms(2,3) by (simp add: get_reg_pair_size_def FDT_WORD_BYTES_def)
  with False show ?thesis by (auto simp: get_reg_pair_def usub_def)
qed


section \<open>Encoded trees\<close>

text \<open>
  A device tree and its encoding, after the format that the reader's constants describe: markers and lengths are
  big-endian words, names end with a null byte, names and property values are padded to a word.
\<close>

definition be32 :: "nat \<Rightarrow> byte list" where
  "be32 n = [word_of_nat (n div 2 ^ 24), word_of_nat (n div 2 ^ 16), word_of_nat (n div 2 ^ 8), word_of_nat n]"

definition pad4 :: "byte list \<Rightarrow> byte list" where
  "pad4 xs = xs @ replicate ((4 - length xs mod 4) mod 4) 0"

datatype dtree = DNode (dt_name: "byte list") (dt_props: "(nat \<times> byte list) list") (dt_kids: "dtree list")

definition enc_prop :: "nat \<times> byte list \<Rightarrow> byte list" where
  "enc_prop p = be32 FDT_PROP @ be32 (length (snd p)) @ be32 (fst p) @ pad4 (snd p)"

definition enc_props :: "(nat \<times> byte list) list \<Rightarrow> byte list" where
  "enc_props ps = concat (map enc_prop ps)"

fun enc_body :: "dtree \<Rightarrow> byte list" and enc_kids :: "dtree list \<Rightarrow> byte list" where
  "enc_body (DNode name props kids) = pad4 (name @ [0]) @ enc_props props @ enc_kids kids @ be32 FDT_END_NODE"
| "enc_kids [] = []"
| "enc_kids (k # ks) = be32 FDT_BEGIN_NODE @ enc_body k @ enc_kids ks"

definition enc_struct :: "dtree \<Rightarrow> byte list" where
  "enc_struct t = be32 FDT_BEGIN_NODE @ enc_body t @ be32 FDT_END"

fun wf_tree :: "dtree \<Rightarrow> bool" where
  "wf_tree (DNode name props kids) \<longleftrightarrow> 0 \<notin> set name \<and> (\<forall>p\<in>set props. fst p < 2 ^ 32 \<and> length (snd p) + 4 < 2 ^ 32) \<and> (\<forall>k\<in>set kids. wf_tree k)"

text \<open>The nodes in document order, each with the position after its name.\<close>

fun visits :: "dtree \<Rightarrow> nat \<Rightarrow> (byte list \<times> cursor) list" and kids_visits :: "dtree list \<Rightarrow> nat \<Rightarrow> (byte list \<times> cursor) list" where
  "visits (DNode name props kids) loc =
     (let l = loc + length (pad4 (name @ [0])) in (name, l) # kids_visits kids (l + length (enc_props props)))"
| "kids_visits [] loc = []"
| "kids_visits (k # ks) loc = visits k (loc + 4) @ kids_visits ks (loc + 4 + length (enc_body k))"

lemma be32_length [simp]: "length (be32 n) = 4"
  by (simp add: be32_def)

lemma from_be32: "n < 2 ^ 32 \<Longrightarrow> from_be_bytes (be32 n) = n"
proof -
  assume n: "n < 2 ^ 32"
  have u: "unat (word_of_nat m :: byte) = m mod 256" for m by (simp add: unat_of_nat)
  define a b c where "a = n div 256" and "b = a div 256" and "c = b div 256"
  have d: "n div 2 ^ 8 = a" "n div 2 ^ 16 = b" "n div 2 ^ 24 = c" unfolding a_def b_def c_def by (simp_all flip: div_mult2_eq)
  have "c < 256" using n unfolding d(3) [symmetric] by (intro less_mult_imp_div_less) simp
  moreover have "x div 256 * 256 + x mod 256 = x" for x :: nat by (rule div_mult_mod_eq)
  ultimately have "((c mod 256 * 256 + b mod 256) * 256 + a mod 256) * 256 + n mod 256 = n"
    unfolding a_def b_def c_def by (metis mod_less)
  then show ?thesis unfolding from_be_bytes_def be32_def by (simp only: foldl.simps u d) simp
qed

lemma pad4_length: "length (pad4 xs) = (length xs + 3) div 4 * 4"
proof -
  have "x + (4 - x mod 4) mod 4 = (x + 3) div 4 * 4" for x :: nat
  proof -
    obtain q k where x: "x = 4 * q + k" "k < 4" by (metis mod_less_divisor mult_div_mod_eq zero_less_numeral)
    then have "k = 0 \<or> k = 1 \<or> k = 2 \<or> k = 3" by auto
    with x(1) show ?thesis by auto
  qed
  then show ?thesis by (simp add: pad4_def)
qed

lemma pad4_dvd [simp]: "4 dvd length (pad4 xs)"
  by (simp add: pad4_length)

lemma enc_props_dvd: "4 dvd length (enc_props ps)"
  by (induction ps) (auto simp: enc_props_def enc_prop_def)

lemma enc_dvd: "4 dvd length (enc_body t)" "4 dvd length (enc_kids ks)"
  by (induction t and ks rule: enc_body_enc_kids.induct) (auto simp: enc_props_dvd)

text \<open>The bytes at a position of the blob.\<close>

definition bytes_at :: "dtb_reader \<Rightarrow> nat \<Rightarrow> byte list \<Rightarrow> bool" where
  "bytes_at r loc bs \<longleftrightarrow> loc + length bs \<le> length (dr_dtb r) \<and> take (length bs) (drop loc (dr_dtb r)) = bs"

lemma bytes_at_append: "bytes_at r loc (xs @ ys) \<longleftrightarrow> bytes_at r loc xs \<and> bytes_at r (loc + length xs) ys"
  by (auto simp: bytes_at_def take_add append_eq_append_conv add.commute [of loc])

lemma bytes_at_nth: "bytes_at r loc bs \<Longrightarrow> i < length bs \<Longrightarrow> dr_dtb r ! (loc + i) = bs ! i"
  by (metis add_leD1 bytes_at_def nth_drop nth_take)

lemma get_u32_at:
  assumes "reader_ok w r" "bytes_at r loc (be32 n)" "n < 2 ^ 32"
  shows "get_u32 w r loc = Some (Some n, loc + 4)"
  using assms by (simp add: get_u32_eq bytes_at_def from_be32)


lemma null_end_at:
  assumes "\<forall>i<n. dtb ! (loc + i) \<noteq> 0" "dtb ! (loc + n) = 0" "loc + n < length dtb"
  shows "null_end dtb loc = loc + n"
  using assms
proof (induction n arbitrary: loc)
  case 0
  then show ?case by (simp add: null_end.simps)
next
  case (Suc n)
  have "dtb ! loc \<noteq> 0" using Suc.prems(1) by (metis add.right_neutral zero_less_Suc)
  moreover have "null_end dtb (loc + 1) = loc + 1 + n"
    using Suc.prems by (intro Suc.IH) (auto dest: spec [of _ "Suc _"])
  ultimately show ?case using Suc.prems(3) by (subst null_end.simps) simp
qed

lemma skip_within:
  assumes "reader_ok w r" "loc + n \<le> length (dr_dtb r) - 4"
  shows "skip_and_align w r n loc = Some ((loc + n + 3) div 4 * 4)"
proof -
  have le: "loc \<le> length (dr_dtb r)" "n \<le> length (dr_dtb r) - loc" using assms(2) by linarith+
  show ?thesis
    using skip_and_align_eq [OF assms(1) le(1), of n] assms(2) unfolding Let_def min.absorb2 [OF le(2)]
    by (simp only: not_less [symmetric] if_False)
qed

lemma div4_shift: "(4 * q + x) div 4 * 4 = 4 * q + x div 4 * (4::nat)"
  by (simp add: div_mult_self1 add.commute [of "4 * q"] algebra_simps)

lemma name_at:
  assumes "reader_ok w r" "bytes_at r loc (pad4 (name @ [0]))" "0 \<notin> set name" "4 dvd loc"
    "loc + length (pad4 (name @ [0])) + 4 \<le> length (dr_dtb r)"
  shows "get_null_terminated_u8_slice r loc = Some (Some name, loc + length name)"
    "skip_and_align w r 1 (loc + length name) = Some (loc + length (pad4 (name @ [0])))"
proof -
  let ?n = "length name" and ?len = "length (dr_dtb r)"
  have b: "bytes_at r loc (name @ [0])" using assms(2) unfolding pad4_def bytes_at_append by blast
  then have lt: "loc + ?n < ?len" by (simp add: bytes_at_def)
  have nth: "dr_dtb r ! (loc + i) = (name @ [0]) ! i" if "i \<le> ?n" for i using bytes_at_nth [OF b] that by simp
  have "null_end (dr_dtb r) loc = loc + ?n"
    using nth assms(3) lt by (intro null_end_at) (auto simp: nth_append in_set_conv_nth)
  moreover have "take ?n (drop loc (dr_dtb r)) = name" using b unfolding bytes_at_append by (simp add: bytes_at_def)
  ultimately show "get_null_terminated_u8_slice r loc = Some (Some name, loc + ?n)"
    using lt by (simp add: get_null_terminated_u8_slice_def slice_def)
  obtain q where q: "loc = 4 * q" using assms(4) by blast
  have "(loc + ?n + 1 + 3) div 4 * 4 = loc + length (pad4 (name @ [0]))" unfolding q pad4_length
    by (simp only: length_append list.size add_0 One_nat_def add.assoc div4_shift)
  moreover have "loc + ?n + 1 \<le> ?len - 4" using assms(5) by (simp add: pad4_length)
  ultimately show "skip_and_align w r 1 (loc + ?n) = Some (loc + length (pad4 (name @ [0])))"
    using skip_within [OF assms(1)] by metis
qed

lemma skip_prop_at:
  assumes "reader_ok w r" "bytes_at r loc (enc_prop p)" "fst p < 2 ^ 32" "length (snd p) + 4 < 2 ^ 32" "4 dvd loc"
    "loc + length (enc_prop p) + 4 \<le> length (dr_dtb r)"
  shows "skip_node_properties w r loc = skip_node_properties w r (loc + length (enc_prop p))"
proof -
  let ?n = "length (snd p)" and ?len = "length (dr_dtb r)"
  have b: "bytes_at r loc (be32 FDT_PROP)" "bytes_at r (loc + 4) (be32 ?n)"
    using assms(2) by (simp_all add: enc_prop_def bytes_at_append)
  have g: "get_u32 w r loc = Some (Some FDT_PROP, loc + 4)" "get_u32 w r (loc + 4) = Some (Some ?n, loc + 8)"
    using get_u32_at [OF assms(1) b(1)] get_u32_at [OF assms(1) b(2)] assms(4) by (simp_all add: FDT_PROP_def)
  have "?n + 4 < usize_lim w" using assms(4) usize_lim_ge [of w] by linarith
  then have u: "uadd w ?n FDT_WORD_BYTES = Some (?n + 4)" by (simp add: FDT_WORD_BYTES_def)
  obtain q where q: "loc = 4 * q" using assms(5) by blast
  have l: "loc + length (enc_prop p) = loc + 12 + (?n + 3) div 4 * 4" by (simp add: enc_prop_def pad4_length)
  have "?n \<le> (?n + 3) div 4 * 4" by linarith
  then have le: "loc + 8 + (?n + 4) \<le> ?len - 4" using assms(6) unfolding l by linarith
  have "loc + 8 + (?n + 4) + 3 = 4 * (q + 3) + (?n + 3)" unfolding q by simp
  then have "(loc + 8 + (?n + 4) + 3) div 4 * 4 = 4 * (q + 3) + (?n + 3) div 4 * 4" by (simp only: div4_shift)
  also have "\<dots> = loc + length (enc_prop p)" unfolding l unfolding q by simp
  finally have "(loc + 8 + (?n + 4) + 3) div 4 * 4 = loc + length (enc_prop p)" .
  then have "skip_and_align w r (?n + 4) (loc + 8) = Some (loc + length (enc_prop p))"
    using skip_within [OF assms(1) le(1)] by metis
  with g u show ?thesis by (subst skip_node_properties.simps) simp
qed

lemma skip_props_at:
  assumes "reader_ok w r" "bytes_at r loc (enc_props ps @ be32 m)" "\<forall>p\<in>set ps. fst p < 2 ^ 32 \<and> length (snd p) + 4 < 2 ^ 32" "4 dvd loc"
    "m = FDT_BEGIN_NODE \<or> m = FDT_END_NODE"
  shows "skip_node_properties w r loc = Some (Inr (loc + length (enc_props ps)))"
  using assms(2-4)
proof (induction ps arbitrary: loc)
  case Nil
  have "get_u32 w r loc = Some (Some m, loc + 4)"
    using get_u32_at [OF assms(1), of loc m] Nil assms(5) by (auto simp: enc_props_def fdt_defs)
  with assms(5) show ?case
    by (subst skip_node_properties.simps) (auto simp: enc_props_def fdt_defs)
next
  case (Cons p ps)
  have b: "bytes_at r loc (enc_prop p)" "bytes_at r (loc + length (enc_prop p)) (enc_props ps @ be32 m)"
    using Cons.prems(1) by (simp_all add: enc_props_def bytes_at_append)
  have d: "4 dvd loc + length (enc_prop p)" using Cons.prems(3) by (simp add: enc_prop_def)
  have "loc + length (enc_prop p) + 4 \<le> length (dr_dtb r)" using b(2) by (simp add: bytes_at_def)
  then have "skip_node_properties w r loc = skip_node_properties w r (loc + length (enc_prop p))"
    using Cons.prems(2,3) by (intro skip_prop_at [OF assms(1) b(1)]) simp_all
  also have "\<dots> = Some (Inr (loc + length (enc_prop p) + length (enc_props ps)))"
    using Cons.IH [OF b(2) _ d] Cons.prems(2) by simp
  finally show ?case by (simp add: enc_props_def add.assoc)
qed

text \<open>What \<open>scan\<close> does between two nodes: on to the next begin marker, then around the loop.\<close>

definition scan_rest :: "width \<Rightarrow> dtb_reader \<Rightarrow> 's scanner \<Rightarrow> 's \<Rightarrow> cursor \<Rightarrow> ('s \<times> (dtb_error + unit)) option" where
  "scan_rest w r f s loc = do {
     m \<leftarrow> scan_markers w r loc;
     case m of
       Inl e \<Rightarrow> Some (s, Inl e)
     | Inr None \<Rightarrow> Some (s, Inr ())
     | Inr (Some loc) \<Rightarrow> scan_loop w r f s loc }"

lemma scan_rest_bind:
  "scan_rest w r f s loc =
    (case scan_markers w r loc of
       None \<Rightarrow> None
     | Some (Inl e) \<Rightarrow> Some (s, Inl e)
     | Some (Inr None) \<Rightarrow> Some (s, Inr ())
     | Some (Inr (Some loc)) \<Rightarrow> scan_loop w r f s loc)"
  by (simp add: scan_rest_def split: option.splits)

lemma scan_rest_marker:
  assumes "reader_ok w r"
  shows "bytes_at r loc (be32 FDT_BEGIN_NODE) \<Longrightarrow> scan_rest w r f s loc = scan_loop w r f s (loc + 4)"
    "bytes_at r loc (be32 FDT_END_NODE) \<Longrightarrow> scan_rest w r f s loc = scan_rest w r f s (loc + 4)"
    "bytes_at r loc (be32 FDT_END) \<Longrightarrow> scan_rest w r f s loc = Some (s, Inr ())"
  using get_u32_at [OF assms, of loc FDT_BEGIN_NODE] get_u32_at [OF assms, of loc FDT_END_NODE] get_u32_at [OF assms, of loc FDT_END]
  by (simp_all add: scan_rest_def scan_markers.simps [of w r loc] fdt_defs)

lemma kids_marker: "\<exists>m bs. enc_kids ks @ be32 FDT_END_NODE = be32 m @ bs \<and> (m = FDT_BEGIN_NODE \<or> m = FDT_END_NODE)"
  by (cases ks) auto

text \<open>The reference: call the scanner on each visit in order, until it stops or fails.\<close>

fun visit_then :: "'s scanner \<Rightarrow> dtb_reader \<Rightarrow> 's \<Rightarrow> (byte list \<times> cursor) list \<Rightarrow> ('s \<Rightarrow> ('s \<times> (dtb_error + unit)) option) \<Rightarrow>
    ('s \<times> (dtb_error + unit)) option" where
  "visit_then f r s [] k = k s"
| "visit_then f r s (v # vs) k =
     (case f s r (fst v) (snd v) of
        None \<Rightarrow> None
      | Some (s, Inl e) \<Rightarrow> Some (s, Inl e)
      | Some (s, Inr False) \<Rightarrow> Some (s, Inr ())
      | Some (s, Inr True) \<Rightarrow> visit_then f r s vs k)"

definition visit_all :: "'s scanner \<Rightarrow> dtb_reader \<Rightarrow> 's \<Rightarrow> (byte list \<times> cursor) list \<Rightarrow> ('s \<times> (dtb_error + unit)) option" where
  "visit_all f r s vs = visit_then f r s vs (\<lambda>s. Some (s, Inr ()))"

lemma visit_then_append: "visit_then f r s (xs @ ys) k = visit_then f r s xs (\<lambda>s. visit_then f r s ys k)"
  by (induction xs arbitrary: s) (auto split: option.splits sum.splits bool.splits)

lemma scan_result_cases:
  obtains "x = None" | s e where "x = Some (s, Inl e)" | s where "x = Some (s, Inr False)" | s where "x = Some (s, Inr True)"
proof (cases x)
  case (Some p)
  then show ?thesis using that by (cases p; cases "snd p") (auto split: bool.splits)
qed

lemma scan_node_at:
  assumes ok: "reader_ok w r"
  shows "bytes_at r loc (enc_body t) \<Longrightarrow> 4 dvd loc \<Longrightarrow> wf_tree t \<Longrightarrow>
      scan_loop w r f s loc = visit_then f r s (visits t loc) (\<lambda>s. scan_rest w r f s (loc + length (enc_body t)))"
    and "bytes_at r loc (enc_kids ks) \<Longrightarrow> 4 dvd loc \<Longrightarrow> (\<forall>k\<in>set ks. wf_tree k) \<Longrightarrow>
      scan_rest w r f s loc = visit_then f r s (kids_visits ks loc) (\<lambda>s. scan_rest w r f s (loc + length (enc_kids ks)))"
proof (induction t and ks arbitrary: s loc and s loc rule: enc_body_enc_kids.induct)
  case (1 name props kids)
  let ?l = "loc + length (pad4 (name @ [0]))"
  let ?l2 = "?l + length (enc_props props)"
  obtain m bs where m: "enc_kids kids @ be32 FDT_END_NODE = be32 m @ bs" "m = FDT_BEGIN_NODE \<or> m = FDT_END_NODE"
    using kids_marker by blast
  have b: "bytes_at r loc (pad4 (name @ [0]))" "bytes_at r ?l (enc_props props)" "bytes_at r ?l2 (enc_kids kids)"
      "bytes_at r (?l2 + length (enc_kids kids)) (be32 FDT_END_NODE)"
    using "1.prems"(1) by (simp_all add: bytes_at_append)
  have "bytes_at r ?l2 (be32 m @ bs)" using b(3,4) m(1) bytes_at_append by metis
  then have b2: "bytes_at r ?l (enc_props props @ be32 m)" using b(2) by (simp add: bytes_at_append)
  have d: "4 dvd ?l" "4 dvd ?l2" using "1.prems"(2) enc_props_dvd [of props] by (simp_all add: dvd_add)
  have wf: "0 \<notin> set name" "\<forall>p\<in>set props. fst p < 2 ^ 32 \<and> length (snd p) + 4 < 2 ^ 32" "\<forall>k\<in>set kids. wf_tree k"
    using "1.prems"(3) by simp_all
  have len: "?l + 4 \<le> length (dr_dtb r)" using b2 by (simp add: bytes_at_def)
  note nm = name_at [OF ok b(1) wf(1) "1.prems"(2) len]
  note pr = skip_props_at [OF ok b2 wf(2) d(1) m(2)]
  have step: "scan_rest w r f s' ?l2 = visit_then f r s' (kids_visits kids ?l2) (\<lambda>s. scan_rest w r f s (?l2 + length (enc_kids kids) + 4))" for s'
    using "1.IH" [OF b(3) d(2) wf(3), of s'] unfolding scan_rest_marker(2) [OF ok b(4)] .
  show ?case
    by (rule scan_result_cases [of "f s r name ?l"])
      (simp_all add: scan_loop.simps [of w r f s loc] nm [unfolded One_nat_def] pr Let_def scan_rest_bind [symmetric] step add.assoc [symmetric])
next
  case (3 k ks)
  have b: "bytes_at r loc (be32 FDT_BEGIN_NODE)" "bytes_at r (loc + 4) (enc_body k)" "bytes_at r (loc + 4 + length (enc_body k)) (enc_kids ks)"
    using "3.prems"(1) by (simp_all add: bytes_at_append add.assoc)
  have d: "4 dvd loc + 4" "4 dvd loc + 4 + length (enc_body k)" using "3.prems"(2) enc_dvd(1) [of k] by (simp_all add: dvd_add)
  have "scan_rest w r f s loc = visit_then f r s (visits k (loc + 4)) (\<lambda>s. scan_rest w r f s (loc + 4 + length (enc_body k)))"
    unfolding scan_rest_marker(1) [OF ok b(1)] using "3.IH"(1) [OF b(2) d(1), of s] "3.prems"(3) by auto
  then show ?case
    using "3.IH"(2) [OF b(3) d(2)] "3.prems"(3) by (simp add: visit_then_append add.assoc)
qed simp

lemma scan_struct_at:
  assumes "reader_ok w r" "bytes_at r (dr_struct_offset r) (enc_struct t)" "4 dvd dr_struct_offset r" "wf_tree t"
  shows "dtb_scan w r f s = visit_all f r s (visits t (dr_struct_offset r + 4))"
proof -
  let ?o = "dr_struct_offset r"
  have b: "bytes_at r ?o (be32 FDT_BEGIN_NODE)" "bytes_at r (?o + 4) (enc_body t)" "bytes_at r (?o + 4 + length (enc_body t)) (be32 FDT_END)"
    using assms(2) by (simp_all add: enc_struct_def bytes_at_append)
  have "dtb_scan w r f s = scan_loop w r f s (?o + 4)"
    using get_u32_at [OF assms(1) b(1)] by (simp add: dtb_scan_def FDT_BEGIN_NODE_def)
  also have "\<dots> = visit_then f r s (visits t (?o + 4)) (\<lambda>s. scan_rest w r f s (?o + 4 + length (enc_body t)))"
    using assms(3) by (intro scan_node_at(1) [OF assms(1) b(2) _ assms(4)]) simp
  finally show ?thesis by (simp add: scan_rest_marker(3) [OF assms(1) b(3)] visit_all_def)
qed

section \<open>Cells\<close>

text \<open>The value of a sequence of 32-bit cells, the most significant one first.\<close>

definition cells_value :: "nat list \<Rightarrow> nat" where
  "cells_value xs = foldl (\<lambda>a x. a * 2 ^ 32 + x) 0 xs"

definition enc_cells :: "nat list \<Rightarrow> byte list" where
  "enc_cells xs = concat (map be32 xs)"

lemma enc_cells_length [simp]: "length (enc_cells xs) = 4 * length xs"
  by (induction xs) (simp_all add: enc_cells_def)

lemma read_cells_at:
  assumes "reader_ok w r" "bytes_at r loc (enc_cells xs)" "\<forall>x\<in>set xs. x < 2 ^ 32"
  shows "read_cells (length xs) s w r loc acc = Some (foldl (push_cell s) acc xs, loc + 4 * length xs)"
  using assms(2,3)
proof (induction xs arbitrary: loc acc)
  case (Cons x xs)
  then have b: "bytes_at r loc (be32 x)" "bytes_at r (loc + 4) (enc_cells xs)" by (simp_all add: enc_cells_def bytes_at_append)
  then have "get_u32_unchecked w r loc = Some (x, loc + 4)"
    using get_u32_unchecked_ok [OF assms(1), of loc] Cons.prems(2) by (simp add: bytes_at_def from_be32)
  with Cons.IH [OF b(2)] Cons.prems(2) show ?case by simp
qed simp

lemma push_cell_word: "a < 2 ^ 32 \<Longrightarrow> x < 2 ^ 32 \<Longrightarrow> push_cell 32 a x = a * 2 ^ 32 + x"
proof -
  assume a: "a < 2 ^ 32" and x: "x < 2 ^ 32"
  have "push_bit 32 a = a * 2 ^ 32" by (simp add: push_bit_eq_mult)
  moreover have "a * 2 ^ 32 < 2 ^ 64" using a by simp
  moreover have "a * 2 ^ 32 OR x = a * 2 ^ 32 + x"
  proof (rule disjunctive_add_eq_or [symmetric])
    have "take_bit 32 x = x" using x by (simp add: take_bit_nat_eq_self_iff)
    then have "\<not> bit x i" if "32 \<le> i" for i using that by (metis bit_take_bit_iff not_le)
    then show "a * 2 ^ 32 AND x = 0"
      unfolding push_bit_eq_mult [symmetric] by (intro bit_eqI) (auto simp: bit_and_iff bit_push_bit_iff)
  qed
  ultimately show ?thesis by (simp add: push_cell_def take_bit_nat_eq_self)
qed

lemma cells_two:
  assumes "length xs \<le> 2" "\<forall>x\<in>set xs. x < 2 ^ 32"
  shows "foldl (push_cell 32) 0 xs = cells_value xs"
proof -
  have z: "push_cell 32 0 x = x" if "x < 2 ^ 32" for x using push_cell_word [of 0 x] that by simp
  consider "xs = []" | x where "xs = [x]" | x y where "xs = [x, y]"
    using assms(1) by (cases xs; cases "tl xs") (auto simp: neq_Nil_conv)
  then show ?thesis using assms(2) z by cases (simp_all add: cells_value_def push_cell_word)
qed

lemma enc_cells_append: "enc_cells (xs @ ys) = enc_cells xs @ enc_cells ys"
  by (simp add: enc_cells_def)

lemma cells_fit:
  assumes "reader_ok w r" "bytes_at r loc (enc_cells xs)"
  shows "loc + 4 * length xs \<le> length (dr_dtb r)" "4 * length xs < usize_lim w"
  using assms reader_len [OF assms(1)] by (simp_all add: bytes_at_def)

lemma range_at:
  assumes "reader_ok w r" "bytes_at r loc (enc_cells (cs @ ps @ ss))" "\<forall>x\<in>set (cs @ ps @ ss). x < 2 ^ 32"
    "cs \<noteq> []" "ps \<noteq> []" "ss \<noteq> []"
  shows "get_range w r (length cs) (length ps) (length ss) loc =
    Some (Some (foldl (push_cell 4) 0 cs, foldl (push_cell 4) 0 ps, foldl (push_cell 4) 0 ss), loc + 4 * (length cs + length ps + length ss))"
proof -
  have b: "bytes_at r loc (enc_cells cs)" "bytes_at r (loc + 4 * length cs) (enc_cells ps)"
      "bytes_at r (loc + 4 * length cs + 4 * length ps) (enc_cells ss)"
    using assms(2) by (simp_all add: enc_cells_append bytes_at_append)
  have "get_range_size w (length cs) (length ps) (length ss) = Some (4 * (length cs + length ps + length ss))"
    using cells_fit [OF assms(1,2)] by (simp add: get_range_size_def FDT_WORD_BYTES_def add.assoc)
  then show ?thesis
    using cells_fit [OF assms(1,2)] assms(3-6) read_cells_at [OF assms(1) b(1)] read_cells_at [OF assms(1) b(2)] read_cells_at [OF assms(1) b(3)]
    by (simp add: get_range_def FDT_WORD_BYTES_def ball_Un)
qed

text \<open>A reader of given bytes, for the examples.\<close>

definition raw_reader :: "byte list \<Rightarrow> dtb_reader" where
  "raw_reader bs = \<lparr>dr_dtb = bs, dr_struct_offset = 0, dr_strings_offset = 0, dr_mem_rsv_map_offset = 0, dr_version = 0,
     dr_last_comp_version = 0, dr_boot_cpuid_phys = 0, dr_strings_size = 0, dr_struct_size = 0\<rparr>"

lemma raw_reader_ok: "reader_ok w (raw_reader bs) \<longleftrightarrow> FDT_WORD_BYTES \<le> length bs \<and> length bs \<le> FDT_MAX_SIZE"
  by (simp add: raw_reader_def reader_ok_def)

lemma raw_reader_at: "bytes_at (raw_reader bs) 0 bs"
  by (simp add: raw_reader_def bytes_at_def)

section \<open>Properties\<close>

text \<open>
  \<^bold>\<open>C16\<close> On the encoding of a tree, \<open>DtbReader::scan\<close> is the pre-order traversal: it calls the scanner once for each node,
  in document order, with the node's name and the position after it, until the scanner stops or fails. The padding
  of names and properties and the property values are stepped over exactly.
\<close>

theorem dtb_scan_traverses:
  assumes "reader_ok w r" "bytes_at r (dr_struct_offset r) (enc_struct t)" "4 dvd dr_struct_offset r" "wf_tree t"
  shows "dtb_scan w r f s = visit_all f r s (visits t (dr_struct_offset r + 4))"
  by (rule scan_struct_at [OF assms])

theorem dtb_scan_traverses_witness:
  "dtb_scan W64 (raw_reader (enc_struct (DNode [] [(0, [1])] [DNode [99, 112, 117] [] [], DNode [98] [(4, [1, 2, 3, 4, 5])] []])))
      (\<lambda>ns r name loc. Some (ns @ [(name, loc)], Inr True)) [] =
    Some ([([], 8), ([99, 112, 117], 32), ([98], 44)], Inr ())"
proof -
  let ?t = "DNode [] [(0, [1])] [DNode [99, 112, 117] [] [], DNode [98] [(4, [1, 2, 3, 4, 5])] []] :: dtree"
  let ?r = "raw_reader (enc_struct ?t)" and ?f = "\<lambda>ns r name loc. Some (ns @ [(name, loc)], Inr True)"
  have len: "length (enc_struct ?t) = 76"
    by (simp add: enc_struct_def enc_props_def enc_prop_def pad4_length)
  have vis: "visits ?t 4 = [([], 8), ([99, 112, 117], 32), ([98], 44)]"
    by (simp add: Let_def enc_props_def enc_prop_def pad4_length)
  have off: "dr_struct_offset ?r = 0" by (simp add: raw_reader_def)
  have "dtb_scan W64 ?r ?f [] = visit_all ?f ?r [] (visits ?t (dr_struct_offset ?r + 4))"
    by (rule dtb_scan_traverses) (simp_all only: raw_reader_ok off raw_reader_at len FDT_WORD_BYTES_def FDT_MAX_SIZE_def, simp_all)
  then show ?thesis by (simp add: vis off visit_all_def del: visits.simps)
qed

text \<open>
  \<open>get_reg_pair\<close> reads a \<open>reg\<close> property of up to two cells each correctly: the address and the size are the values
  of the cells, the most significant cell first, and the cursor ends after them.
\<close>

lemma dtb_reg_pair_value:
  assumes "reader_ok w r" "bytes_at r loc (enc_cells (as @ ss))" "\<forall>x\<in>set (as @ ss). x < 2 ^ 32" "as \<noteq> []" "length as \<le> 2" "length ss \<le> 2"
  shows "get_reg_pair w r (length as) (length ss) loc =
    Some (Some (cells_value as, cells_value ss), loc + 4 * (length as + length ss))"
proof -
  have b: "bytes_at r loc (enc_cells as)" "bytes_at r (loc + 4 * length as) (enc_cells ss)"
    using assms(2) by (simp_all add: enc_cells_append bytes_at_append)
  have "get_reg_pair_size w (length as) (length ss) = Some (4 * (length as + length ss))"
    using cells_fit [OF assms(1,2)] by (simp add: get_reg_pair_size_def FDT_WORD_BYTES_def)
  moreover have "read_cells (length as) 32 w r loc 0 = Some (cells_value as, loc + 4 * length as)"
      "read_cells (length ss) 32 w r (loc + 4 * length as) 0 = Some (cells_value ss, loc + 4 * length as + 4 * length ss)"
    using read_cells_at [OF assms(1) b(1)] read_cells_at [OF assms(1) b(2)] cells_two [OF assms(5)] cells_two [OF assms(6)] assms(3) by auto
  ultimately show ?thesis
    using cells_fit [OF assms(1,2)] assms(4) by (simp add: get_reg_pair_def FDT_WORD_BITS_def)
qed

text \<open>
  \<open>get_range\<close> does not: it shifts by the number of bytes of a cell instead of its bits, so that the
  value of two cells is \<open>hi << 4 | lo\<close>. A bus address at or above 4 GiB is misread.
\<close>

lemma dtb_range_misread:
  assumes "reader_ok w r" "bytes_at r loc (enc_cells [ch, cl, p, z])" "\<forall>x\<in>set [ch, cl, p, z]. x < 2 ^ 32"
  shows "get_range w r 2 1 1 loc = Some (Some (push_bit 4 ch OR cl, p, z), loc + 16)"
proof -
  have "push_cell 4 0 x = x" for x by (simp add: push_cell_def)
  moreover have "push_cell 4 ch cl = push_bit 4 ch OR cl"
  proof -
    have "push_bit 4 ch < 2 ^ 64" using assms(3) by (simp add: push_bit_eq_mult)
    then show ?thesis by (simp add: push_cell_def take_bit_nat_eq_self)
  qed
  ultimately show ?thesis
    using range_at [OF assms(1), of loc "[ch, cl]" "[p]" "[z]"] assms(2,3) by (simp add: numeral_2_eq_2)
qed

end
