(* ===== verification/Scanner_Runs.thy ===== *)
theory Scanner_Runs
  imports Dtb_Scanners Dtb_Runs
begin

text \<open>
  What the scanners read from the encoding of a tree: every memory range of the nodes whose device type is memory, and the cores
  of the nodes below \<open>cpus\<close>.
\<close>

section \<open>The string maps\<close>

lemma slice_probe_safe: "probe_safe (fnv1a_hash_slice w k) 31"
  using unsigned_less [where ?'a = nat, of "fnv_state (fnv1a_write (fnv1a_write fnv1a_new (usize_bytes w (length k))) k)"]
  by (simp add: probe_safe_def fnv1a_hash_slice_def fnv1a_finish_def)

lemma prime_31: "prime_size 31"
proof -
  have "\<forall>d\<in>{2..<6}. \<not> d dvd (31::nat)" unfolding atLeastLessThan_upt by (simp add: upt_rec)
  then show ?thesis by (intro prime_size_bound [of 31 6]) simp_all
qed

lemma insert_strings_ok:
  assumes "hm_ok (fnv1a_hash_slice w) m" "occupied m + length ss \<le> Suc (length (hm_map m) div 2)"
  shows "\<exists>m'. insert_strings w m ss = Some m' \<and> hm_ok (fnv1a_hash_slice w) m'
    \<and> hm_lookup (fnv1a_hash_slice w) m' = foldl (\<lambda>f (s, t). f(str_bytes s \<mapsto> t)) (hm_lookup (fnv1a_hash_slice w) m) ss"
  using assms
proof (induction w m ss rule: insert_strings.induct)
  case (2 w m s t rest)
  have "occupied m \<le> length (hm_map m) div 2" using 2(3) by simp
  then obtain m1 where m1: "hm_insert (fnv1a_hash_slice w) m (str_bytes s) t = Some (m1, True)" "hm_ok (fnv1a_hash_slice w) m1"
      "hm_lookup (fnv1a_hash_slice w) m1 = (hm_lookup (fnv1a_hash_slice w) m)(str_bytes s \<mapsto> t)" "length (hm_map m1) = length (hm_map m)"
      "occupied m1 \<le> Suc (occupied m)"
    using hm_put_law [OF 2(2), of "str_bytes s" t] by (fastforce split: if_splits)
  with 2(1) [OF m1(1) refl m1(2)] 2(3) show ?case by auto
qed simp

lemma string_map_new:
  fixes ss :: "(string \<times> 'a) list"
  assumes "length ss \<le> 16"
  shows "\<exists>m. insert_strings w (hm_new 31) ss = Some m \<and> (\<forall>k. hm_find (fnv1a_hash_slice w) m k = Some (foldl (\<lambda>f (s, t). f(str_bytes s \<mapsto> t)) Map.empty ss k))"
proof -
  let ?m = "hm_new 31 :: (byte list, 'a) hash_map"
  have "hm_ok (fnv1a_hash_slice w) ?m"
    using hm_inv_new(1) [of "fnv1a_hash_slice w" 31] slice_probe_safe prime_31 by (simp add: hm_ok_def hm_new_def)
  moreover have "occupied ?m = 0" "length (hm_map ?m) = 31" by (simp_all add: occupied_def hm_new_def)
  ultimately obtain m where "insert_strings w (hm_new 31) ss = Some m" "hm_ok (fnv1a_hash_slice w) m"
      "hm_lookup (fnv1a_hash_slice w) m = foldl (\<lambda>f (s, t). f(str_bytes s \<mapsto> t)) Map.empty ss"
    using insert_strings_ok [of w "hm_new 31" ss] assms by (auto simp: hm_inv_new(2))
  then show ?thesis by (auto simp: hm.get_law)
qed

definition mem_tag :: "byte list \<Rightarrow> string_tag option" where
  "mem_tag = [str_bytes ''#address-cells'' \<mapsto> DtbPropAddressCells, str_bytes ''#size-cells'' \<mapsto> DtbPropSizeCells,
     str_bytes ''device_type'' \<mapsto> DtbPropDeviceType, str_bytes ''reg'' \<mapsto> DtbPropReg]"

definition core_tag :: "byte list \<Rightarrow> core_string_tag option" where
  "core_tag = [str_bytes ''#address-cells'' \<mapsto> CpuAddressCells, str_bytes ''#size-cells'' \<mapsto> CpuSizeCells, str_bytes ''compatible'' \<mapsto> CpuCompatible,
     str_bytes ''enable-method'' \<mapsto> CpuEnableMethod, str_bytes ''cpu-release-addr'' \<mapsto> CpuReleaseAddr, str_bytes ''reg'' \<mapsto> CpuReg,
     str_bytes ''spin-table'' \<mapsto> ValueSpinTable, str_bytes ''brcm,bcm2836-smp'' \<mapsto> ValueBcm2836]"

definition mem_map_ok :: "width \<Rightarrow> (byte list, string_tag) hash_map \<Rightarrow> bool" where
  "mem_map_ok w sm \<longleftrightarrow> (\<forall>k. hm_find (fnv1a_hash_slice w) sm k = Some (mem_tag k))"

definition core_map_ok :: "width \<Rightarrow> (byte list, core_string_tag) hash_map \<Rightarrow> bool" where
  "core_map_ok w sm \<longleftrightarrow> (\<forall>k. hm_find (fnv1a_hash_slice w) sm k = Some (core_tag k))"

lemma mem_string_map: "\<exists>m. mem_build_string_map w = Some m \<and> mem_map_ok w m"
  using string_map_new [of mem_strings w] by (simp add: mem_strings_def mem_build_string_map_def mem_map_ok_def mem_tag_def)

lemma core_string_map: "\<exists>m. core_build_string_map w = Some m \<and> core_map_ok w m"
  using string_map_new [of core_strings w] by (simp add: core_strings_def core_build_string_map_def core_map_ok_def core_tag_def)

section \<open>Encoded properties\<close>

text \<open>The string table gives the property at each name offset its name.\<close>

definition named :: "width \<Rightarrow> dtb_reader \<Rightarrow> (nat \<Rightarrow> byte list) \<Rightarrow> (nat \<times> byte list) list \<Rightarrow> bool" where
  "named w r nm ps \<longleftrightarrow> (\<forall>p\<in>set ps. get_slice_from_string_table w r (fst p) = Some (Some (nm (fst p))) \<and> fst p < 2 ^ 32 \<and> length (snd p) + 4 < 2 ^ 32)"

lemma next_prop_at:
  assumes "reader_ok w r" "bytes_at r loc (enc_prop p)" "named w r nm [p]"
  shows "get_next_property w r loc = Some (Some \<lparr>ph_size = length (snd p), ph_name_offset = fst p, ph_name = nm (fst p)\<rparr>, loc + 12)"
proof -
  have b: "bytes_at r loc (be32 FDT_PROP)" "bytes_at r (loc + 4) (be32 (length (snd p)))" "bytes_at r (loc + 8) (be32 (fst p))"
    using assms(2) by (simp_all add: enc_prop_def bytes_at_append add.commute)
  have "get_u32 w r loc = Some (Some FDT_PROP, loc + 4)" "get_u32 w r (loc + 4) = Some (Some (length (snd p)), loc + 8)"
      "get_u32 w r (loc + 8) = Some (Some (fst p), loc + 12)"
    using get_u32_at [OF assms(1) b(1)] get_u32_at [OF assms(1) b(2)] get_u32_at [OF assms(1) b(3)] assms(3) by (simp_all add: FDT_PROP_def named_def)
  with assms(3) show ?thesis by (subst get_next_property.simps) (simp add: named_def)
qed

lemma next_prop_end:
  assumes "reader_ok w r" "bytes_at r loc (be32 m)" "m < 2 ^ 32" "m \<noteq> FDT_PROP" "m \<noteq> FDT_NOOP"
  shows "get_next_property w r loc = Some (None, loc)"
  using get_u32_at [OF assms(1-3)] assms(4,5) by (subst get_next_property.simps) (simp add: FDT_WORD_BYTES_def)

lemma skip_value_at:
  assumes "reader_ok w r" "4 dvd loc" "loc + length (enc_prop p) + 4 \<le> length (dr_dtb r)"
  shows "skip_and_align w r (length (snd p)) (loc + 12) = Some (loc + length (enc_prop p))"
proof -
  let ?n = "length (snd p)"
  obtain q where q: "loc = 4 * q" using assms(2) by blast
  have l: "loc + length (enc_prop p) = loc + 12 + (?n + 3) div 4 * 4" by (simp add: enc_prop_def pad4_length)
  have "?n \<le> (?n + 3) div 4 * 4" by linarith
  then have le: "loc + 12 + ?n \<le> length (dr_dtb r) - 4" using assms(3) unfolding l by linarith
  have "loc + 12 + ?n + 3 = 4 * (q + 3) + (?n + 3)" unfolding q by simp
  then have "(loc + 12 + ?n + 3) div 4 * 4 = 4 * (q + 3) + (?n + 3) div 4 * 4" by (simp only: div4_shift)
  also have "\<dots> = loc + length (enc_prop p)" unfolding l unfolding q by simp
  finally have "(loc + 12 + ?n + 3) div 4 * 4 = loc + length (enc_prop p)" .
  with skip_within [OF assms(1) le] show ?thesis by metis
qed

lemma cell_value_at:
  assumes "reader_ok w r" "bytes_at r loc (enc_prop p)" "length (snd p) = 4"
  shows "get_u32 w r (loc + 12) = Some (Some (from_be_bytes (snd p)), loc + length (enc_prop p))"
proof -
  have p: "pad4 (snd p) = snd p" using assms(3) by (simp add: pad4_def)
  have "bytes_at r (loc + 12) (snd p)" using assms(2) by (simp add: enc_prop_def bytes_at_append p add.commute)
  then have "take 4 (drop (loc + 12) (dr_dtb r)) = snd p" "loc + 16 \<le> length (dr_dtb r)" using assms(3) by (simp_all add: bytes_at_def)
  then show ?thesis using assms(3) by (simp add: get_u32_eq [OF assms(1)] enc_prop_def p)
qed

section \<open>The properties of a node\<close>

record node_view =
  nv_dev :: "byte list option"
  nv_reg :: "byte list option"
  nv_ac :: nat
  nv_sc :: nat

definition view_prop :: "(nat \<Rightarrow> byte list) \<Rightarrow> node_view \<Rightarrow> nat \<times> byte list \<Rightarrow> node_view" where
  "view_prop nm v p = (case mem_tag (nm (fst p)) of
     Some DtbPropAddressCells \<Rightarrow> v\<lparr>nv_ac := from_be_bytes (snd p)\<rparr>
   | Some DtbPropSizeCells \<Rightarrow> v\<lparr>nv_sc := from_be_bytes (snd p)\<rparr>
   | Some DtbPropDeviceType \<Rightarrow> v\<lparr>nv_dev := Some (snd p)\<rparr>
   | Some DtbPropReg \<Rightarrow> v\<lparr>nv_reg := Some (snd p)\<rparr>
   | None \<Rightarrow> v)"

lemma view_prop_tag:
  "mem_tag (nm (fst p)) = Some DtbPropAddressCells \<Longrightarrow> view_prop nm v p = v\<lparr>nv_ac := from_be_bytes (snd p)\<rparr>"
  "mem_tag (nm (fst p)) = Some DtbPropSizeCells \<Longrightarrow> view_prop nm v p = v\<lparr>nv_sc := from_be_bytes (snd p)\<rparr>"
  "mem_tag (nm (fst p)) = Some DtbPropDeviceType \<Longrightarrow> view_prop nm v p = v\<lparr>nv_dev := Some (snd p)\<rparr>"
  "mem_tag (nm (fst p)) = Some DtbPropReg \<Longrightarrow> view_prop nm v p = v\<lparr>nv_reg := Some (snd p)\<rparr>"
  "mem_tag (nm (fst p)) = None \<Longrightarrow> view_prop nm v p = v"
  by (simp_all add: view_prop_def)

definition cells_wf :: "(nat \<Rightarrow> byte list) \<Rightarrow> (nat \<times> byte list) list \<Rightarrow> bool" where
  "cells_wf nm ps \<longleftrightarrow> (\<forall>p\<in>set ps. mem_tag (nm (fst p)) = Some DtbPropAddressCells \<or> mem_tag (nm (fst p)) = Some DtbPropSizeCells \<longrightarrow> length (snd p) = 4)"

text \<open>The properties \<open>ps\<close> stand at \<open>loc\<close>, followed by a marker that is not a property.\<close>

definition props_at :: "width \<Rightarrow> dtb_reader \<Rightarrow> (nat \<Rightarrow> byte list) \<Rightarrow> cursor \<Rightarrow> (nat \<times> byte list) list \<Rightarrow> bool" where
  "props_at w r nm loc ps \<longleftrightarrow> reader_ok w r \<and> 4 dvd loc \<and> named w r nm ps
     \<and> (\<exists>m. bytes_at r loc (enc_props ps @ be32 m) \<and> (m = FDT_BEGIN_NODE \<or> m = FDT_END_NODE))"

lemma props_at_Nil: "props_at w r nm loc [] \<Longrightarrow> get_next_property w r loc = Some (None, loc)"
  using next_prop_end [of w r loc] by (auto simp: props_at_def enc_props_def fdt_defs)

lemma props_at_Cons:
  assumes "props_at w r nm loc (p # ps)"
  shows "get_next_property w r loc = Some (Some \<lparr>ph_size = length (snd p), ph_name_offset = fst p, ph_name = nm (fst p)\<rparr>, loc + 12)"
    "skip_and_align w r (length (snd p)) (loc + 12) = Some (loc + length (enc_prop p))"
    "length (snd p) = 4 \<Longrightarrow> get_u32 w r (loc + 12) = Some (Some (from_be_bytes (snd p)), loc + length (enc_prop p))"
    "props_at w r nm (loc + length (enc_prop p)) ps" "bytes_at r (loc + 12) (snd p)" "reader_ok w r"
proof -
  obtain m where m: "bytes_at r loc (enc_prop p @ enc_props ps @ be32 m)" "m = FDT_BEGIN_NODE \<or> m = FDT_END_NODE"
    using assms by (auto simp: props_at_def enc_props_def)
  have a: "reader_ok w r" "4 dvd loc" "named w r nm [p]" "named w r nm ps" using assms by (auto simp: props_at_def named_def)
  have b: "bytes_at r loc (enc_prop p)" "bytes_at r (loc + length (enc_prop p)) (enc_props ps @ be32 m)"
    using m(1) unfolding bytes_at_append [of r loc "enc_prop p"] by blast+
  have e: "loc + length (enc_prop p) + 4 \<le> length (dr_dtb r)" using b(2) by (simp add: bytes_at_def)
  show "get_next_property w r loc = Some (Some \<lparr>ph_size = length (snd p), ph_name_offset = fst p, ph_name = nm (fst p)\<rparr>, loc + 12)"
    by (rule next_prop_at [OF a(1) b(1) a(3)])
  show "skip_and_align w r (length (snd p)) (loc + 12) = Some (loc + length (enc_prop p))"
    by (rule skip_value_at [OF a(1,2) e])
  show "get_u32 w r (loc + 12) = Some (Some (from_be_bytes (snd p)), loc + length (enc_prop p))" if "length (snd p) = 4"
    by (rule cell_value_at [OF a(1) b(1) that])
  show "props_at w r nm (loc + length (enc_prop p)) ps"
    using a b(2) m(2) by (auto simp: props_at_def enc_prop_def)
  show "bytes_at r (loc + 12) (snd p)" using b(1) by (auto simp: enc_prop_def pad4_def bytes_at_append add.commute)
  show "reader_ok w r" by (rule a(1))
qed

lemma scan_root_at:
  assumes "props_at w r nm loc ps" "cells_wf nm ps" "mem_map_ok w (ms_string_map s)" "nv_ac v = ms_addr_cells s" "nv_sc v = ms_size_cells s"
  shows "scan_root_node w r s loc =
    Some (s\<lparr>ms_addr_cells := nv_ac (foldl (view_prop nm) v ps), ms_size_cells := nv_sc (foldl (view_prop nm) v ps)\<rparr>, Inr ())"
  using assms
proof (induction ps arbitrary: loc s v)
  case Nil
  then show ?case using props_at_Nil [OF Nil.prems(1)] by (subst scan_root_node.simps) simp
next
  case (Cons p ps)
  note at = props_at_Cons [OF Cons.prems(1)]
  have f: "hm_find (fnv1a_hash_slice w) (ms_string_map s) (nm (fst p)) = Some (mem_tag (nm (fst p)))" using Cons.prems(3) by (simp add: mem_map_ok_def)
  have wf: "cells_wf nm ps" using Cons.prems(2) by (simp add: cells_wf_def)
  show ?case
  proof (cases "mem_tag (nm (fst p)) = Some DtbPropAddressCells \<or> mem_tag (nm (fst p)) = Some DtbPropSizeCells")
    case True
    then have l: "length (snd p) = 4" using Cons.prems(2) by (auto simp: cells_wf_def)
    from True show ?thesis
      using Cons.IH [OF at(4) wf, of "s\<lparr>ms_addr_cells := from_be_bytes (snd p)\<rparr>" "view_prop nm v p"]
        Cons.IH [OF at(4) wf, of "s\<lparr>ms_size_cells := from_be_bytes (snd p)\<rparr>" "view_prop nm v p"] at(1) at(3) [OF l] f Cons.prems(3-5)
      by (subst scan_root_node.simps) (auto simp: view_prop_tag)
  next
    case False
    then show ?thesis
      using Cons.IH [OF at(4) wf, of s "view_prop nm v p"] at(1,2) f Cons.prems(3-5)
      by (cases "mem_tag (nm (fst p))"; cases "the (mem_tag (nm (fst p)))"; subst scan_root_node.simps) (auto simp: view_prop_tag)
  qed
qed

definition value_at :: "dtb_reader \<Rightarrow> (cursor \<times> usize) option \<Rightarrow> byte list option \<Rightarrow> bool" where
  "value_at r x y \<longleftrightarrow> (case y of None \<Rightarrow> x = None | Some v \<Rightarrow> \<exists>pos. x = Some (pos, length v) \<and> bytes_at r pos v)"

definition view_ok :: "dtb_reader \<Rightarrow> device_props \<Rightarrow> node_view \<Rightarrow> bool" where
  "view_ok r d v \<longleftrightarrow> value_at r (dp_dev_type d) (nv_dev v) \<and> value_at r (dp_reg d) (nv_reg v) \<and> dp_addr_cells d = nv_ac v \<and> dp_size_cells d = nv_sc v"

lemma read_device_at:
  assumes "props_at w r nm loc ps" "cells_wf nm ps" "mem_map_ok w sm" "view_ok r d v"
  shows "\<exists>d'. read_device_props w r sm d loc = Some (Inr d') \<and> view_ok r d' (foldl (view_prop nm) v ps)"
  using assms
proof (induction ps arbitrary: loc d v)
  case Nil
  then show ?case using props_at_Nil [OF Nil.prems(1)] by (subst read_device_props.simps) simp
next
  case (Cons p ps)
  note at = props_at_Cons [OF Cons.prems(1)]
  have f: "hm_find (fnv1a_hash_slice w) sm (nm (fst p)) = Some (mem_tag (nm (fst p)))" using Cons.prems(3) by (simp add: mem_map_ok_def)
  have wf: "cells_wf nm ps" using Cons.prems(2) by (simp add: cells_wf_def)
  note ih = Cons.IH [OF at(4) wf Cons.prems(3)]
  show ?case
  proof (cases "mem_tag (nm (fst p)) = Some DtbPropAddressCells \<or> mem_tag (nm (fst p)) = Some DtbPropSizeCells")
    case True
    then have l: "length (snd p) = 4" using Cons.prems(2) by (auto simp: cells_wf_def)
    have k: "view_ok r (d\<lparr>dp_addr_cells := from_be_bytes (snd p)\<rparr>) (v\<lparr>nv_ac := from_be_bytes (snd p)\<rparr>)"
        "view_ok r (d\<lparr>dp_size_cells := from_be_bytes (snd p)\<rparr>) (v\<lparr>nv_sc := from_be_bytes (snd p)\<rparr>)"
      using Cons.prems(4) by (simp_all add: view_ok_def)
    from True show ?thesis
      using ih [OF k(1)] ih [OF k(2)] at(1) at(3) [OF l] f by (subst read_device_props.simps) (auto simp: view_prop_tag)
  next
    case False
    let ?d = "if mem_tag (nm (fst p)) = Some DtbPropDeviceType then d\<lparr>dp_dev_type := Some (loc + 12, length (snd p))\<rparr>
      else if mem_tag (nm (fst p)) = Some DtbPropReg then d\<lparr>dp_reg := Some (loc + 12, length (snd p))\<rparr> else d"
    have "view_ok r ?d (view_prop nm v p)"
      using False Cons.prems(4) at(5) by (auto simp: view_ok_def view_prop_def value_at_def split: option.splits string_tag.splits)
    moreover have "read_device_props w r sm d loc = read_device_props w r sm ?d (loc + length (enc_prop p))"
      using False at(1,2) f by (subst read_device_props.simps) simp
    ultimately show ?thesis using ih by simp
  qed
qed

section \<open>The ranges of a memory node\<close>

lemma from_be_append: "from_be_bytes (a @ b) = from_be_bytes a * 256 ^ length b + from_be_bytes b"
proof (induction b rule: rev_induct)
  case (snoc x b)
  have "from_be_bytes (xs @ [x]) = from_be_bytes xs * 256 + unat x" for xs by (simp add: from_be_bytes_def)
  note s = this [of "a @ b"] this [of b]
  show ?case using snoc s by (simp add: algebra_simps)
qed (simp add: from_be_bytes_def)

lemma read_cells_bytes:
  assumes "reader_ok w r" "bytes_at r loc c" "length c = 4 * n" "n \<le> 2"
  shows "read_cells n 32 w r loc 0 = Some (from_be_bytes c, loc + 4 * n)"
proof -
  have z: "push_cell 32 0 x = x" for x by (simp add: push_cell_def)
  consider "n = 0" | "n = 1" | "n = 2" using assms(4) by linarith
  then show ?thesis
  proof cases
    case 1
    then show ?thesis using assms(3) by (simp add: from_be_bytes_def)
  next
    case 2
    then show ?thesis
      using assms(2,3) get_u32_unchecked_ok [OF assms(1), of loc] z by (simp add: bytes_at_def)
  next
    case 3
    define a b where "a = take 4 c" and "b = drop 4 c"
    have ab: "c = a @ b" "length a = 4" "length b = 4" using assms(3) 3 by (simp_all add: a_def b_def)
    have at: "bytes_at r loc a" "bytes_at r (loc + 4) b" using assms(2) ab by (simp_all add: bytes_at_append)
    have "get_u32_unchecked w r loc = Some (from_be_bytes a, loc + 4)" "get_u32_unchecked w r (loc + 4) = Some (from_be_bytes b, loc + 8)"
      using get_u32_unchecked_ok [OF assms(1), of loc] get_u32_unchecked_ok [OF assms(1), of "loc + 4"] at ab(2,3) by (simp_all add: bytes_at_def)
    moreover have "push_cell 32 (from_be_bytes a) (from_be_bytes b) = from_be_bytes c"
      using push_cell_word [OF from_be_less [OF ab(2)] from_be_less [OF ab(3)]] ab by (simp add: from_be_append)
    ultimately show ?thesis using 3 z by (simp add: numeral_2_eq_2)
  qed
qed

fun reg_pairs :: "nat \<Rightarrow> nat \<Rightarrow> nat \<Rightarrow> byte list \<Rightarrow> (nat \<times> nat) list" where
  "reg_pairs 0 ac sc v = []"
| "reg_pairs (Suc n) ac sc v =
     (from_be_bytes (take (4 * ac) v), from_be_bytes (take (4 * sc) (drop (4 * ac) v))) # reg_pairs n ac sc (drop (4 * (ac + sc)) v)"

definition cells_ok :: "nat \<Rightarrow> nat \<Rightarrow> bool" where
  "cells_ok ac sc \<longleftrightarrow> 1 \<le> ac \<and> ac \<le> 2 \<and> sc \<le> 2"

lemma reg_pair_at:
  assumes "reader_ok w r" "bytes_at r loc c" "length c = 4 * (ac + sc)" "cells_ok ac sc"
  shows "get_reg_pair w r ac sc loc = Some (Some (from_be_bytes (take (4 * ac) c), from_be_bytes (drop (4 * ac) c)), loc + 4 * (ac + sc))"
proof -
  have c: "1 \<le> ac" "ac \<le> 2" "sc \<le> 2" using assms(4) by (simp_all add: cells_ok_def)
  have at: "bytes_at r loc (take (4 * ac) c)" "bytes_at r (loc + 4 * ac) (drop (4 * ac) c)"
    using assms(2,3) bytes_at_append [of r loc "take (4 * ac) c" "drop (4 * ac) c"] by simp_all
  have "loc + 4 * (ac + sc) \<le> length (dr_dtb r)" using assms(2,3) by (simp add: bytes_at_def)
  moreover have "get_reg_pair_size w ac sc = Some (4 * (ac + sc))"
    using c usize_lim_ge [of w] by (simp add: get_reg_pair_size_def FDT_WORD_BYTES_def)
  ultimately show ?thesis
    using c(1) read_cells_bytes [OF assms(1) at(1) _ c(2)] read_cells_bytes [OF assms(1) at(2) _ c(3)] assms(3)
    by (simp add: get_reg_pair_def FDT_WORD_BITS_def)
qed

text \<open>The ranges that the target can address, clipped to its address space.\<close>

definition usable :: "width \<Rightarrow> (nat \<times> nat) list \<Rightarrow> (usize \<times> usize) list" where
  "usable w ps = map (\<lambda>p. (fst p, clip_size w (fst p) (snd p))) (filter (\<lambda>p. fst p \<le> usize_max w \<and> snd p \<noteq> 0) ps)"

lemma usable_Cons: "usable w ((b, z) # ps) = (if b > usize_max w \<or> z = 0 then usable w ps else (b, clip_size w b z) # usable w ps)"
  by (auto simp: usable_def not_le simp del: le_usize_max_iff)

lemma usable_ok: "\<forall>p\<in>set (usable w ps). pair_ok w p"
  by (auto simp: usable_def pair_ok_def clip_size_def usize_max_def min_def split: if_splits)

definition with_config :: "mem_scanner \<Rightarrow> memory_config option \<Rightarrow> (mem_scanner \<times> (dtb_error + unit)) option" where
  "with_config s c = (case c of None \<Rightarrow> None | Some c \<Rightarrow> Some (s\<lparr>ms_config := c\<rparr>, Inr ()))"

lemma add_blocks_at:
  assumes "reader_ok w r" "bytes_at r loc v" "length v = n * (4 * (ac + sc))" "cells_ok ac sc"
  shows "add_blocks_loop n w h r ac sc c loc = (case handle_each h c (usable w (reg_pairs n ac sc v)) of None \<Rightarrow> None | Some c \<Rightarrow> Some (c, Inr ()))"
  using assms(2,3)
proof (induction n arbitrary: loc v c)
  case (Suc n)
  let ?k = "4 * (ac + sc)"
  define a b where "a = take ?k v" and "b = drop ?k v"
  have l: "length a = ?k" "length b = n * ?k" using Suc.prems(2) by (simp_all add: a_def b_def)
  have at: "bytes_at r loc a" "bytes_at r (loc + ?k) b"
    using Suc.prems(1) l bytes_at_append [of r loc a b] by (simp_all add: a_def b_def)
  have t: "take (4 * ac) a = take (4 * ac) v" "drop (4 * ac) a = take (4 * sc) (drop (4 * ac) v)" by (simp_all add: a_def drop_take)
  show ?case
    using reg_pair_at [OF assms(1) at(1) l(1) assms(4)] Suc.IH [OF at(2) l(2)] unfolding t
    by (simp add: usable_Cons b_def split: bind_splits)
qed (simp add: usable_def)

definition is_memory :: "node_view \<Rightarrow> bool" where
  "is_memory v \<longleftrightarrow> (\<exists>d. nv_dev v = Some d \<and> takeWhile (\<lambda>b. b \<noteq> 0) d = str_bytes ''memory'')"

definition view_ranges :: "width \<Rightarrow> node_view \<Rightarrow> (usize \<times> usize) list" where
  "view_ranges w v =
     (if is_memory v then
        (case nv_reg v of
           None \<Rightarrow> []
         | Some g \<Rightarrow>
             (let k = 4 * (nv_ac v + nv_sc v)
              in if g = [] \<or> length g mod k \<noteq> 0 then [] else usable w (reg_pairs (length g div k) (nv_ac v) (nv_sc v) g)))
      else [])"

definition view_wf :: "node_view \<Rightarrow> bool" where
  "view_wf v \<longleftrightarrow> (\<forall>d. nv_dev v = Some d \<longrightarrow> 0 \<in> set d) \<and> (is_memory v \<longrightarrow> cells_ok (nv_ac v) (nv_sc v))"

lemma null_terminated_at:
  assumes "bytes_at r loc d" "0 \<in> set d"
  shows "\<exists>e. get_null_terminated_u8_slice r loc = Some (Some (takeWhile (\<lambda>b. b \<noteq> 0) d), e)"
proof -
  let ?n = "length (takeWhile (\<lambda>b. b \<noteq> 0) d)"
  have n: "?n < length d" using assms(2) by (induction d) auto
  have z: "d ! ?n = 0" using nth_length_takeWhile [OF n] by simp
  have nz: "d ! i \<noteq> 0" if "i < ?n" for i
    using set_takeWhileD [OF nth_mem [OF that]] takeWhile_nth [OF that] by simp
  have nth: "dr_dtb r ! (loc + i) = d ! i" if "i < length d" for i using bytes_at_nth [OF assms(1) that] .
  have len: "loc + ?n < length (dr_dtb r)" using assms(1) n by (simp add: bytes_at_def)
  have "null_end (dr_dtb r) loc = loc + ?n"
    using nth z nz n len by (intro null_end_at) auto
  moreover have "take ?n (drop loc (dr_dtb r)) = takeWhile (\<lambda>b. b \<noteq> 0) d"
  proof -
    have "take ?n (drop loc (dr_dtb r)) = take ?n (take (length d) (drop loc (dr_dtb r)))" by (simp only: take_take min.absorb1 [OF less_imp_le [OF n]])
    also have "\<dots> = take ?n d" using assms(1) by (simp add: bytes_at_def)
    finally show ?thesis by (simp only: takeWhile_eq_take [symmetric])
  qed
  ultimately show ?thesis using len by (simp add: get_null_terminated_u8_slice_def slice_def)
qed

lemma add_memory_at:
  assumes "reader_ok w r" "bytes_at r loc g" "cells_ok ac sc"
  shows "\<exists>x. add_memory_blocks w h r (length g) ac sc c loc =
    (case handle_each h c (let k = 4 * (ac + sc) in if g = [] \<or> length g mod k \<noteq> 0 then [] else usable w (reg_pairs (length g div k) ac sc g)) of
       None \<Rightarrow> None | Some c \<Rightarrow> Some (c, x))"
proof -
  let ?k = "4 * (ac + sc)"
  have s: "get_reg_pair_size w ac sc = Some ?k" "?k \<noteq> 0"
    using assms(3) usize_lim_ge [of w] by (auto simp: get_reg_pair_size_def FDT_WORD_BYTES_def cells_ok_def)
  show ?thesis
  proof (cases "g = [] \<or> length g mod ?k \<noteq> 0")
    case True
    then have "?k = 0 \<or> length g = 0 \<or> length g < ?k \<or> length g mod ?k \<noteq> 0" by auto
    with True s(1) show ?thesis unfolding add_memory_blocks_def Let_def by (simp add: exI [of _ "Inl InvalidDtb"])
  next
    case False
    then have f: "\<not> (?k = 0 \<or> length g = 0 \<or> length g < ?k \<or> length g mod ?k \<noteq> 0)"
      using s(2) by (auto dest: mod_less)
    have "length g = length g div ?k * ?k" using False by (metis dvd_div_mult_self mod_eq_0_iff_dvd)
    from add_blocks_at [OF assms(1,2) this assms(3), of h c] False f s(1) show ?thesis
      unfolding add_memory_blocks_def Let_def s(1) bind.simps if_not_P [OF f] if_not_P [OF False] by blast
  qed
qed

definition bare_view :: "nat \<Rightarrow> nat \<Rightarrow> node_view" where
  "bare_view ac sc = \<lparr>nv_dev = None, nv_reg = None, nv_ac = ac, nv_sc = sc\<rparr>"

lemma scan_device_at:
  assumes "props_at w r nm loc ps" "cells_wf nm ps" "mem_map_ok w (ms_string_map s)"
    "view_wf (foldl (view_prop nm) (bare_view (ms_addr_cells s) (ms_size_cells s)) ps)"
  shows "scan_device_node w h r s loc =
    with_config s (handle_each h (ms_config s) (view_ranges w (foldl (view_prop nm) (bare_view (ms_addr_cells s) (ms_size_cells s)) ps)))"
proof -
  let ?v = "foldl (view_prop nm) (bare_view (ms_addr_cells s) (ms_size_cells s)) ps"
  have ok: "reader_ok w r" using assms(1) by (simp add: props_at_def)
  have "view_ok r \<lparr>dp_dev_type = None, dp_reg = None, dp_addr_cells = ms_addr_cells s, dp_size_cells = ms_size_cells s\<rparr> (bare_view (ms_addr_cells s) (ms_size_cells s))"
    by (simp add: view_ok_def value_at_def bare_view_def)
  then obtain d where d: "read_device_props w r (ms_string_map s) \<lparr>dp_dev_type = None, dp_reg = None, dp_addr_cells = ms_addr_cells s, dp_size_cells = ms_size_cells s\<rparr> loc = Some (Inr d)"
      "view_ok r d ?v"
    using read_device_at [OF assms(1-3)] by blast
  have same: "with_config s (Some (ms_config s)) = Some (s, Inr ())" by (simp add: with_config_def)
  show ?thesis
  proof (cases "nv_dev ?v")
    case None
    then show ?thesis using d same by (simp add: scan_device_node_def view_ok_def value_at_def view_ranges_def is_memory_def)
  next
    case (Some dv)
    then obtain pos where pos: "dp_dev_type d = Some (pos, length dv)" "bytes_at r pos dv" using d(2) by (auto simp: view_ok_def value_at_def)
    have "0 \<in> set dv" using assms(4) Some by (simp add: view_wf_def)
    then have chk: "check_device_type r pos = Some (is_memory ?v)"
      using null_terminated_at [OF pos(2)] Some by (auto simp: check_device_type_def is_memory_def)
    show ?thesis
    proof (cases "is_memory ?v")
      case False
      then show ?thesis using d(1) pos(1) chk same by (simp add: scan_device_node_def view_ranges_def)
    next
      case True
      show ?thesis
      proof (cases "nv_reg ?v")
        case None
        then have "dp_reg d = None" using d(2) by (simp add: view_ok_def value_at_def)
        with None True show ?thesis using d(1) pos(1) chk same by (simp add: scan_device_node_def view_ranges_def)
      next
        case (Some g)
        then obtain q where q: "dp_reg d = Some (q, length g)" "bytes_at r q g" "dp_addr_cells d = nv_ac ?v" "dp_size_cells d = nv_sc ?v"
          using d(2) by (auto simp: view_ok_def value_at_def)
        have "cells_ok (nv_ac ?v) (nv_sc ?v)" using assms(4) True by (simp add: view_wf_def)
        from add_memory_at [OF ok q(2) this, of h "ms_config s"] obtain x where
          x: "add_memory_blocks w h r (length g) (nv_ac ?v) (nv_sc ?v) (ms_config s) q =
             (case handle_each h (ms_config s) (view_ranges w ?v) of None \<Rightarrow> None | Some c \<Rightarrow> Some (c, x))"
          using True Some by (auto simp: view_ranges_def)
        show ?thesis
          using d(1) pos(1) chk True q x by (simp add: scan_device_node_def with_config_def split: option.splits)
      qed
    qed
  qed
qed

section \<open>Trees\<close>

fun nodes :: "dtree \<Rightarrow> (byte list \<times> (nat \<times> byte list) list) list" and kids_nodes :: "dtree list \<Rightarrow> (byte list \<times> (nat \<times> byte list) list) list" where
  "nodes (DNode name props kids) = (name, props) # kids_nodes kids"
| "kids_nodes [] = []"
| "kids_nodes (k # ks) = nodes k @ kids_nodes ks"

definition node_at :: "dtb_reader \<Rightarrow> byte list \<times> cursor \<Rightarrow> byte list \<times> (nat \<times> byte list) list \<Rightarrow> bool" where
  "node_at r v n \<longleftrightarrow> fst v = fst n \<and> 4 dvd snd v \<and> (\<exists>m. bytes_at r (snd v) (enc_props (snd n) @ be32 m) \<and> (m = FDT_BEGIN_NODE \<or> m = FDT_END_NODE))"

lemma visits_at:
  "bytes_at r loc (enc_body t) \<Longrightarrow> 4 dvd loc \<Longrightarrow> list_all2 (node_at r) (visits t loc) (nodes t)"
  "bytes_at r loc (enc_kids ks) \<Longrightarrow> 4 dvd loc \<Longrightarrow> list_all2 (node_at r) (kids_visits ks loc) (kids_nodes ks)"
proof (induction t loc and ks loc rule: visits_kids_visits.induct)
  case (1 name props kids loc)
  let ?l = "loc + length (pad4 (name @ [0]))"
  have b: "bytes_at r ?l (enc_props props @ enc_kids kids @ be32 FDT_END_NODE)" using 1(2) by (simp add: bytes_at_append)
  obtain m bs where m: "enc_kids kids @ be32 FDT_END_NODE = be32 m @ bs" "m = FDT_BEGIN_NODE \<or> m = FDT_END_NODE" using kids_marker by blast
  have "bytes_at r ?l (enc_props props @ be32 m)" using b unfolding m(1) by (simp add: bytes_at_append)
  moreover have d: "4 dvd ?l" using 1(3) by simp
  ultimately have "node_at r (name, ?l) (name, props)" using m(2) by (auto simp: node_at_def)
  moreover have "bytes_at r (?l + length (enc_props props)) (enc_kids kids)" "4 dvd ?l + length (enc_props props)"
    using b d enc_props_dvd [of props] by (simp_all add: bytes_at_append)
  ultimately show ?case using 1(1) [OF refl] by (simp add: Let_def)
next
  case (3 k ks loc)
  have "bytes_at r (loc + 4) (enc_body k)" "bytes_at r (loc + 4 + length (enc_body k)) (enc_kids ks)" "4 dvd loc + 4" "4 dvd loc + 4 + length (enc_body k)"
    using 3(3,4) enc_dvd(1) [of k] by (simp_all add: bytes_at_append)
  then show ?case using 3(1,2) by (simp add: list_all2_appendI)
qed simp

text \<open>The ranges of all memory nodes below the root, in document order; the root's cell counts are the defaults.\<close>

definition root_view :: "(nat \<Rightarrow> byte list) \<Rightarrow> dtree \<Rightarrow> node_view" where
  "root_view nm t = foldl (view_prop nm) (bare_view 0 0) (dt_props t)"

definition node_view :: "(nat \<Rightarrow> byte list) \<Rightarrow> dtree \<Rightarrow> (nat \<times> byte list) list \<Rightarrow> node_view" where
  "node_view nm t ps = foldl (view_prop nm) (bare_view (nv_ac (root_view nm t)) (nv_sc (root_view nm t))) ps"

definition tree_ranges :: "width \<Rightarrow> (nat \<Rightarrow> byte list) \<Rightarrow> dtree \<Rightarrow> (usize \<times> usize) list" where
  "tree_ranges w nm t = concat (map (\<lambda>n. view_ranges w (node_view nm t (snd n))) (kids_nodes (dt_kids t)))"

lemma tree_ranges_ok: "\<forall>p\<in>set (tree_ranges w nm t). pair_ok w p"
  using usable_ok by (auto simp: tree_ranges_def view_ranges_def Let_def split: if_splits option.splits)

definition mem_tree_ok :: "width \<Rightarrow> dtb_reader \<Rightarrow> (nat \<Rightarrow> byte list) \<Rightarrow> dtree \<Rightarrow> bool" where
  "mem_tree_ok w r nm t \<longleftrightarrow> reader_ok w r \<and> 4 dvd dr_struct_offset r \<and> bytes_at r (dr_struct_offset r) (enc_struct t) \<and> wf_tree t
     \<and> dt_name t = [] \<and> (\<forall>n\<in>set (nodes t). named w r nm (snd n) \<and> cells_wf nm (snd n))
     \<and> (\<forall>n\<in>set (kids_nodes (dt_kids t)). fst n \<noteq> [] \<and> view_wf (node_view nm t (snd n)))"

lemma visit_memory:
  assumes "list_all2 (node_at r) vs ns" "reader_ok w r" "mem_map_ok w (ms_string_map s)" "ms_addr_cells s = nv_ac (root_view nm t)" "ms_size_cells s = nv_sc (root_view nm t)"
    "\<forall>n\<in>set ns. named w r nm (snd n) \<and> cells_wf nm (snd n) \<and> fst n \<noteq> [] \<and> view_wf (node_view nm t (snd n))"
  shows "visit_all (mem_scan_node w h) r s vs = with_config s (handle_each h (ms_config s) (concat (map (\<lambda>n. view_ranges w (node_view nm t (snd n))) ns)))"
  using assms
proof (induction vs ns arbitrary: s rule: list_all2_induct)
  case Nil
  then show ?case by (simp add: visit_all_def with_config_def)
next
  case (Cons v vs n ns)
  have at: "props_at w r nm (snd v) (snd n)" "fst v \<noteq> []" using Cons.hyps(1) Cons.prems(1,5) by (auto simp: node_at_def props_at_def)
  have e: "scan_device_node w h r s (snd v) = with_config s (handle_each h (ms_config s) (view_ranges w (node_view nm t (snd n))))"
    using scan_device_at [OF at(1), of s h] Cons.prems by (simp add: node_view_def)
  show ?case
  proof (cases "handle_each h (ms_config s) (view_ranges w (node_view nm t (snd n)))")
    case None
    then show ?thesis using e at(2) by (simp add: visit_all_def mem_scan_node_def with_config_def handle_each_append)
  next
    case (Some c)
    then show ?thesis
      using e at(2) Cons.IH [of "s\<lparr>ms_config := c\<rparr>"] Cons.prems
      by (simp add: visit_all_def mem_scan_node_def with_config_def handle_each_append split: option.splits)
  qed
qed

lemma memory_scan_at:
  assumes "mem_tree_ok w r nm t" "mem_map_ok w (ms_string_map s)" "ms_addr_cells s = 0" "ms_size_cells s = 0"
  shows "dtb_scan w r (mem_scan_node w h) s = with_config (s\<lparr>ms_addr_cells := nv_ac (root_view nm t), ms_size_cells := nv_sc (root_view nm t)\<rparr>)
      (handle_each h (ms_config s) (tree_ranges w nm t))"
proof -
  have scan: "dtb_scan w r (mem_scan_node w h) s = visit_all (mem_scan_node w h) r s (visits t (dr_struct_offset r + 4))"
    using assms(1) by (intro scan_struct_at) (simp_all add: mem_tree_ok_def)
  obtain props kids where t: "t = DNode [] props kids" using assms(1) by (cases t) (auto simp: mem_tree_ok_def)
  have ok: "reader_ok w r" and b: "bytes_at r (dr_struct_offset r + 4) (enc_body t)" "4 dvd dr_struct_offset r + 4"
    using assms(1) by (auto simp: mem_tree_ok_def enc_struct_def bytes_at_append)
  let ?l = "dr_struct_offset r + 4 + length (pad4 ([] @ [0 :: byte]))"
  let ?s = "s\<lparr>ms_addr_cells := nv_ac (root_view nm t), ms_size_cells := nv_sc (root_view nm t)\<rparr>"
  have all: "node_at r ([], ?l) ([], props)" "list_all2 (node_at r) (kids_visits kids (?l + length (enc_props props))) (kids_nodes kids)"
    using visits_at(1) [OF b] by (simp_all add: t Let_def)
  have root: "props_at w r nm ?l props" "cells_wf nm props" using all(1) assms(1) by (auto simp: node_at_def props_at_def mem_tree_ok_def t)
  have "scan_root_node w r s ?l = Some (?s, Inr ())"
    using scan_root_at [OF root assms(2), of "bare_view 0 0"] assms(3,4) by (simp add: bare_view_def root_view_def t)
  moreover have "visit_all (mem_scan_node w h) r ?s (kids_visits kids (?l + length (enc_props props))) =
      with_config ?s (handle_each h (ms_config ?s) (concat (map (\<lambda>n. view_ranges w (node_view nm t (snd n))) (kids_nodes kids))))"
    using assms(1,2) by (intro visit_memory [OF all(2) ok]) (auto simp: mem_tree_ok_def t)
  ultimately show ?thesis
    unfolding scan by (simp add: t Let_def visit_all_def mem_scan_node_def tree_ranges_def)
qed

section \<open>The memory layout\<close>

lemma rs_addrs_empty: "rs_valid w c \<Longrightarrow> rs_is_empty c \<longleftrightarrow> rs_addrs c = {}"
proof -
  assume v: "rs_valid w c"
  have "rs_addrs c = {} \<longleftrightarrow> live c = []"
    using v by (cases "live c") (auto simp: rs_addrs_def rs_valid_def range_ok_def addrs_def)
  moreover have "live c = [] \<longleftrightarrow> rs_count c = 0" using v live_length [of c] by (metis length_0_conv rs_valid_inv)
  ultimately show ?thesis by (simp add: rs_is_empty_def)
qed

lemma config_ok_new: "config_ok w hb memory_config_new"
  using rs_ok_new(1) [of w MAX_MEM_RANGES InvalidZone] by (simp add: config_ok_def memory_config_new_def rs_ok_def rs_sorted_def)

context range_handler
begin

lemma layout_ok:
  assumes "ok memory_config_new" "dtb_new w mem blob = Some (Inr r)" "mem_tree_ok w r nm t" "cost * length (tree_ranges w nm t) \<le> MAX_MEM_RANGES"
    "sorted_wrt (\<lambda>p q. pair_addrs p \<inter> pair_addrs q = {}) (tree_ranges w nm t)"
  shows "\<exists>c. (\<forall>fuel>rs_count c. get_memory_layout fuel w handle mem memory_config_new blob = Some (Some (c, tree_ranges w nm t \<noteq> [])))
    \<and> ok c \<and> rs_disjoint c \<and> rs_addrs c = (\<Union>p\<in>set (tree_ranges w nm t). pair_addrs p)
    \<and> MAX_MEM_RANGES \<le> rs_room c + cost * length (tree_ranges w nm t) \<and> handle_each handle memory_config_new (tree_ranges w nm t) = Some c"
proof -
  let ?ps = "tree_ranges w nm t"
  have e: "rs_is_empty memory_config_new" "rs_room memory_config_new = 64" "rs_addrs memory_config_new = {}" "rs_disjoint memory_config_new"
    using rs_ok_new(1) [of w MAX_MEM_RANGES InvalidZone] rs_ok_new(2,3) [of MAX_MEM_RANGES InvalidZone]
    by (simp_all add: memory_config_new_def rs_is_empty_def range_set_new_def rs_ok_def MAX_MEM_RANGES_def)
  have p: "\<forall>p\<in>set ?ps. pair_ok w p" by (rule tree_ranges_ok)
  obtain c where c: "handle_each handle memory_config_new ?ps = Some c" "ok c" "rs_addrs c = (\<Union>p\<in>set ?ps. pair_addrs p)" "rs_disjoint c"
      "MAX_MEM_RANGES \<le> rs_room c + cost * length ?ps"
    using handle_each_ok [OF assms(1) p] assms(4,5) e by (auto simp: MAX_MEM_RANGES_def)
  obtain sm where sm: "mem_build_string_map w = Some sm" "mem_map_ok w sm" using mem_string_map by blast
  let ?s = "\<lparr>ms_config = memory_config_new, ms_string_map = sm, ms_addr_cells = 0, ms_size_cells = 0\<rparr>"
  have "dtb_scan w r (mem_scan_node w handle) ?s =
      Some (?s\<lparr>ms_addr_cells := nv_ac (root_view nm t), ms_size_cells := nv_sc (root_view nm t), ms_config := c\<rparr>, Inr ())"
    using memory_scan_at [OF assms(3), of ?s handle] sm(2) c(1) by (simp add: with_config_def)
  moreover have v: "rs_valid w c" "rs_sorted c" using ok_law [OF c(2)] by auto
  have "trim_ranges fuel w c = Some (Some c)" if "rs_count c < fuel" for fuel
    using that by (intro trim_disjoint [OF v c(4)])
  moreover have "rs_is_empty c \<longleftrightarrow> ?ps = []"
    unfolding rs_addrs_empty [OF v(1)] c(3) using p by (cases ?ps) (auto simp: pair_ok_def pair_addrs_def)
  ultimately show ?thesis
    using assms(2) sm(1) c e(1) by (intro exI [of _ c]) (simp add: get_memory_layout_def mem_scanner_new_def)
qed

end

section \<open>Blobs\<close>

text \<open>A flattened device tree: the header, the structure of the tree, and the strings that the names of properties point into.\<close>

definition dtb_bytes :: "dtree \<Rightarrow> byte list \<Rightarrow> byte list" where
  "dtb_bytes t strs =
     (let st = enc_struct t
      in be32 FDT_MAGIC @ be32 (40 + length st + length strs) @ be32 40 @ be32 (40 + length st) @ be32 40 @ be32 17 @ be32 16 @ be32 0
         @ be32 (length strs) @ be32 (length st) @ st @ strs)"

definition blob_at :: "(usize \<Rightarrow> byte) \<Rightarrow> usize \<Rightarrow> byte list \<Rightarrow> bool" where
  "blob_at mem blob bs \<longleftrightarrow> blob \<noteq> 0 \<and> (\<forall>i<length bs. mem (blob + i) = bs ! i)"

definition str_at :: "byte list \<Rightarrow> nat \<Rightarrow> byte list" where
  "str_at strs off = takeWhile (\<lambda>b. b \<noteq> 0) (drop off strs)"

definition blob_reader :: "dtree \<Rightarrow> byte list \<Rightarrow> dtb_reader" where
  "blob_reader t strs = \<lparr>dr_dtb = dtb_bytes t strs, dr_struct_offset = 40, dr_strings_offset = 40 + length (enc_struct t), dr_mem_rsv_map_offset = 40,
     dr_version = 17, dr_last_comp_version = 16, dr_boot_cpuid_phys = 0, dr_strings_size = length strs, dr_struct_size = length (enc_struct t)\<rparr>"

lemma dtb_bytes_length: "length (dtb_bytes t strs) = 40 + length (enc_struct t) + length strs"
  by (simp add: dtb_bytes_def Let_def)

lemma be32_at: "blob_at mem blob bs \<Longrightarrow> take 4 (drop k bs) = be32 n \<Longrightarrow> n < 2 ^ 32 \<Longrightarrow> k + 4 \<le> length bs \<Longrightarrow> read_be mem (blob + k) = n"
proof -
  assume a: "blob_at mem blob bs" "take 4 (drop k bs) = be32 n" "n < 2 ^ 32" "k + 4 \<le> length bs"
  have "map (\<lambda>i. mem (blob + k + i)) [0..<4] = take 4 (drop k bs)"
    using a(1,4) by (intro nth_equalityI) (auto simp: blob_at_def add.assoc)
  then show ?thesis using a(2,3) by (simp add: read_be_def from_be32)
qed

lemma header_at:
  assumes "bytes_at r 0 (dtb_bytes t strs)"
  shows "bytes_at r 8 (be32 40)" "bytes_at r 12 (be32 (40 + length (enc_struct t)))" "bytes_at r 16 (be32 40)" "bytes_at r 20 (be32 17)"
    "bytes_at r 24 (be32 16)" "bytes_at r 28 (be32 0)" "bytes_at r 32 (be32 (length strs))" "bytes_at r 36 (be32 (length (enc_struct t)))"
    "bytes_at r 40 (enc_struct t)" "bytes_at r (40 + length (enc_struct t)) strs"
  using assms by (simp_all add: dtb_bytes_def Let_def bytes_at_append)

lemma check_dtb_blob:
  assumes "blob_at mem blob (dtb_bytes t strs)" "length (dtb_bytes t strs) \<le> FDT_MAX_SIZE"
  shows "check_dtb mem blob = Inr (length (dtb_bytes t strs))"
proof -
  let ?bs = "dtb_bytes t strs" and ?st = "length (enc_struct t)"
  have l: "40 + ?st + length strs \<le> 67108864" using assms(2) by (simp add: dtb_bytes_length FDT_MAX_SIZE_def)
  have b: "take 4 (drop (0::nat) ?bs) = be32 FDT_MAGIC" "take 4 (drop 4 ?bs) = be32 (40 + ?st + length strs)"
    by (simp_all add: dtb_bytes_def Let_def)
  have m: "FDT_MAGIC < 2 ^ 32" by (simp add: FDT_MAGIC_def)
  have "read_be mem (blob + 0) = FDT_MAGIC" by (rule be32_at [OF assms(1) b(1) m]) (simp add: dtb_bytes_length)
  moreover have "read_be mem (blob + 4) = 40 + ?st + length strs" using l by (intro be32_at [OF assms(1) b(2)]) (simp_all add: dtb_bytes_length)
  ultimately show ?thesis
    using assms(1) l by (simp add: check_dtb_def blob_at_def FDT_WORD_BYTES_def FDT_HEADER_SIZE_def FDT_MAX_SIZE_def dtb_bytes_length)
qed

lemma dtb_new_blob:
  assumes "blob_at mem blob (dtb_bytes t strs)" "length (dtb_bytes t strs) \<le> FDT_MAX_SIZE"
  shows "dtb_new w mem blob = Some (Inr (blob_reader t strs))"
proof -
  let ?bs = "dtb_bytes t strs" and ?st = "length (enc_struct t)"
  have l: "40 + ?st + length strs \<le> 67108864" using assms(2) by (simp add: dtb_bytes_length FDT_MAX_SIZE_def)
  note chk = check_dtb_blob [OF assms]
  have map: "map (\<lambda>i. mem (blob + i)) [0..<length ?bs] = ?bs"
    using assms(1) by (intro nth_equalityI) (auto simp: blob_at_def)
  let ?r = "\<lparr>dr_dtb = ?bs, dr_struct_offset = 0, dr_strings_offset = 0, dr_mem_rsv_map_offset = 0, dr_version = 0,
            dr_last_comp_version = 0, dr_boot_cpuid_phys = 0, dr_strings_size = 0, dr_struct_size = 0\<rparr>"
  have ok: "reader_ok w ?r" using assms(2) by (simp add: reader_ok_def dtb_bytes_length FDT_WORD_BYTES_def)
  have at: "bytes_at ?r 0 ?bs" by (simp add: bytes_at_def)
  have lt: "length strs < 2 ^ 32" "?st < 2 ^ 32" "40 + ?st < 2 ^ 32" "(40::nat) < 2 ^ 32" "(17::nat) < 2 ^ 32" "(16::nat) < 2 ^ 32" "(0::nat) < 2 ^ 32" using l by simp_all
  note h = header_at [OF at]
  have "get_u32 w ?r 8 = Some (Some 40, 12)" "get_u32 w ?r 12 = Some (Some (40 + ?st), 16)" "get_u32 w ?r 16 = Some (Some 40, 20)"
      "get_u32 w ?r 20 = Some (Some 17, 24)" "get_u32 w ?r 24 = Some (Some 16, 28)" "get_u32 w ?r 28 = Some (Some 0, 32)"
      "get_u32 w ?r 32 = Some (Some (length strs), 36)" "get_u32 w ?r 36 = Some (Some ?st, 40)"
    using get_u32_at [OF ok h(1) lt(4)] get_u32_at [OF ok h(2) lt(3)] get_u32_at [OF ok h(3) lt(4)] get_u32_at [OF ok h(4) lt(5)]
      get_u32_at [OF ok h(5) lt(6)] get_u32_at [OF ok h(6) lt(7)] get_u32_at [OF ok h(7) lt(1)] get_u32_at [OF ok h(8) lt(2)] by simp_all
  then have "read_words (Suc (Suc (Suc (Suc (Suc (Suc (Suc (Suc 0)))))))) w ?r 8 = Some (Inr [40, 40 + ?st, 40, 17, 16, 0, length strs, ?st])"
    by simp
  moreover have "Suc (Suc (Suc (Suc (Suc (Suc (Suc (Suc 0))))))) = 8" by simp
  ultimately have "read_words 8 w ?r 8 = Some (Inr [40, 40 + ?st, 40, 17, 16, 0, length strs, ?st])" by (simp only:)
  then show ?thesis by (simp add: dtb_new_def chk map FDT_WORD_BYTES_def blob_reader_def)
qed

definition blob_ok :: "dtree \<Rightarrow> byte list \<Rightarrow> bool" where
  "blob_ok t strs \<longleftrightarrow> length (dtb_bytes t strs) \<le> FDT_MAX_SIZE \<and> wf_tree t \<and> dt_name t = []
     \<and> (\<forall>n\<in>set (nodes t). cells_wf (str_at strs) (snd n) \<and> (\<forall>p\<in>set (snd n). fst p < length strs \<and> 0 \<in> set (drop (fst p) strs)))
     \<and> (\<forall>n\<in>set (kids_nodes (dt_kids t)). fst n \<noteq> [] \<and> view_wf (node_view (str_at strs) t (snd n)))"

lemma wf_nodes:
  "wf_tree t \<Longrightarrow> \<forall>n\<in>set (nodes t). \<forall>p\<in>set (snd n). fst p < 2 ^ 32 \<and> length (snd p) + 4 < 2 ^ 32"
  "\<forall>k\<in>set ks. wf_tree k \<Longrightarrow> \<forall>n\<in>set (kids_nodes ks). \<forall>p\<in>set (snd n). fst p < 2 ^ 32 \<and> length (snd p) + 4 < 2 ^ 32"
  by (induction t and ks rule: nodes_kids_nodes.induct) auto

lemma blob_reader_ok: "blob_ok t strs \<Longrightarrow> reader_ok w (blob_reader t strs)"
  by (simp add: blob_ok_def reader_ok_def blob_reader_def dtb_bytes_length FDT_WORD_BYTES_def)

lemma string_at:
  assumes "blob_ok t strs" "off < length strs" "0 \<in> set (drop off strs)"
  shows "get_slice_from_string_table w (blob_reader t strs) off = Some (Some (str_at strs off))"
proof -
  let ?r = "blob_reader t strs" and ?o = "40 + length (enc_struct t)"
  have at: "bytes_at ?r 0 (dtb_bytes t strs)" by (simp add: bytes_at_def blob_reader_def)
  have "bytes_at ?r ?o (take off strs @ drop off strs)" using header_at(10) [OF at] by simp
  then have "bytes_at ?r (?o + off) (drop off strs)" using assms(2) unfolding bytes_at_append by simp
  from null_terminated_at [OF this assms(3)] obtain e where "get_null_terminated_u8_slice ?r (?o + off) = Some (Some (str_at strs off), e)"
    unfolding str_at_def by blast
  moreover have "?o + off < usize_lim w"
    using assms(1,2) usize_lim_ge [of w] by (simp add: blob_ok_def dtb_bytes_length FDT_MAX_SIZE_def)
  ultimately show ?thesis by (simp add: get_slice_from_string_table_def blob_reader_def)
qed

lemma blob_tree_ok: "blob_ok t strs \<Longrightarrow> mem_tree_ok w (blob_reader t strs) (str_at strs) t"
proof -
  assume b: "blob_ok t strs"
  let ?r = "blob_reader t strs"
  have "bytes_at ?r 0 (dtb_bytes t strs)" by (simp add: bytes_at_def blob_reader_def)
  then have "bytes_at ?r (dr_struct_offset ?r) (enc_struct t)" using header_at(9) by (simp add: blob_reader_def)
  moreover have "named w ?r (str_at strs) (snd n)" if "n \<in> set (nodes t)" for n
    using b that wf_nodes(1) [of t] string_at [OF b] by (auto simp: named_def blob_ok_def)
  moreover have "4 dvd dr_struct_offset ?r" by (simp add: blob_reader_def)
  ultimately show ?thesis using b blob_reader_ok [OF b] by (auto simp: mem_tree_ok_def blob_ok_def)
qed

section \<open>Properties\<close>

text \<open>
  \<^bold>\<open>C8\<close> From the bytes of the device tree to the memory map, on AArch64. Let memory hold a flattened device tree whose memory nodes give at most
  64 disjoint ranges in one or two address cells and at most two size cells. \<open>get_memory_layout\<close> returns, and the configuration is valid
  and disjoint and contains exactly the addresses of the ranges of the nodes whose \<open>device_type\<close> is memory, clipped to the address space; the result is true
  exactly if there is one. Any number of iterations of the trimming loop above the number of ranges is enough.
\<close>

theorem memory_layout_correct:
  assumes "blob_at mem blob (dtb_bytes t strs)" "blob_ok t strs" "length (tree_ranges W64 (str_at strs) t) \<le> MAX_MEM_RANGES"
    "sorted_wrt (\<lambda>p q. pair_addrs p \<inter> pair_addrs q = {}) (tree_ranges W64 (str_at strs) t)"
  shows "\<exists>c. (\<forall>fuel>rs_count c. get_memory_layout fuel W64 a64_handle_range mem memory_config_new blob = Some (Some (c, tree_ranges W64 (str_at strs) t \<noteq> [])))
    \<and> config_ok W64 (2 ^ 64) c \<and> rs_disjoint c \<and> rs_addrs c = (\<Union>p\<in>set (tree_ranges W64 (str_at strs) t). pair_addrs p)"
proof -
  have "dtb_new W64 mem blob = Some (Inr (blob_reader t strs))" using assms(2) by (intro dtb_new_blob [OF assms(1)]) (simp add: blob_ok_def)
  from rx.layout_ok [OF config_ok_new this blob_tree_ok [OF assms(2)] _ assms(4)] assms(3) show ?thesis by auto
qed

text \<open>The example: one memory node with two ranges, of one address cell and one size cell.\<close>

definition example_strings :: "byte list" where
  "example_strings = str_bytes ''#address-cells'' @ [0] @ str_bytes ''#size-cells'' @ [0] @ str_bytes ''device_type'' @ [0] @ str_bytes ''reg'' @ [0]"

definition example_tree :: dtree where
  "example_tree = DNode [] [(0, be32 1), (15, be32 1)]
     [DNode (str_bytes ''memory'') [(27, str_bytes ''memory'' @ [0]), (39, be32 0x400000 @ be32 0x4000000 @ be32 0x8000000 @ be32 0x100000)] []]"

lemma example_names:
  "str_at example_strings 0 = str_bytes ''#address-cells''" "str_at example_strings 15 = str_bytes ''#size-cells''"
  "str_at example_strings 27 = str_bytes ''device_type''" "str_at example_strings 39 = str_bytes ''reg''"
  by (simp_all add: str_at_def example_strings_def str_bytes_def)

lemma example_tags:
  "mem_tag (str_bytes ''#address-cells'') = Some DtbPropAddressCells" "mem_tag (str_bytes ''#size-cells'') = Some DtbPropSizeCells"
  "mem_tag (str_bytes ''device_type'') = Some DtbPropDeviceType" "mem_tag (str_bytes ''reg'') = Some DtbPropReg"
  by (simp_all add: mem_tag_def str_bytes_def)

lemma example_view:
  "nodes example_tree = [([], [(0, be32 1), (15, be32 1)]),
     (str_bytes ''memory'', [(27, str_bytes ''memory'' @ [0]), (39, be32 0x400000 @ be32 0x4000000 @ be32 0x8000000 @ be32 0x100000)])]"
  "root_view (str_at example_strings) example_tree = bare_view 1 1"
  "node_view (str_at example_strings) example_tree [(27, str_bytes ''memory'' @ [0]), (39, be32 0x400000 @ be32 0x4000000 @ be32 0x8000000 @ be32 0x100000)] =
     \<lparr>nv_dev = Some (str_bytes ''memory'' @ [0]), nv_reg = Some (be32 0x400000 @ be32 0x4000000 @ be32 0x8000000 @ be32 0x100000), nv_ac = 1, nv_sc = 1\<rparr>"
proof -
  show "nodes example_tree = [([], [(0, be32 1), (15, be32 1)]),
     (str_bytes ''memory'', [(27, str_bytes ''memory'' @ [0]), (39, be32 0x400000 @ be32 0x4000000 @ be32 0x8000000 @ be32 0x100000)])]"
    by (simp add: example_tree_def)
  have b: "from_be_bytes (be32 1) = 1" by (rule from_be32) simp
  show r: "root_view (str_at example_strings) example_tree = bare_view 1 1"
    using b by (simp add: root_view_def example_tree_def view_prop_def example_names example_tags bare_view_def)
  show "node_view (str_at example_strings) example_tree [(27, str_bytes ''memory'' @ [0]), (39, be32 0x400000 @ be32 0x4000000 @ be32 0x8000000 @ be32 0x100000)] =
     \<lparr>nv_dev = Some (str_bytes ''memory'' @ [0]), nv_reg = Some (be32 0x400000 @ be32 0x4000000 @ be32 0x8000000 @ be32 0x100000), nv_ac = 1, nv_sc = 1\<rparr>"
    by (simp add: node_view_def r view_prop_def example_names example_tags bare_view_def)
qed

lemma example_memory: "takeWhile (\<lambda>b. b \<noteq> 0) (str_bytes ''memory'' @ [0]) = str_bytes ''memory''"
  by (simp add: str_bytes_def)

lemma example_ranges: "tree_ranges w (str_at example_strings) example_tree = [(0x400000, 0x4000000), (0x8000000, 0x100000)]"
proof -
  have b: "from_be_bytes (be32 n) = n" if "n < 4294967296" for n using that by (intro from_be32) simp
  have u: "0x400000 < usize_lim w" "0x8000000 < usize_lim w" "0x8100000 < usize_lim w" "0x4400000 < usize_lim w" using usize_lim_ge [of w] by simp_all
  have k: "kids_nodes (dt_kids example_tree) = [(str_bytes ''memory'', [(27, str_bytes ''memory'' @ [0]), (39, be32 0x400000 @ be32 0x4000000 @ be32 0x8000000 @ be32 0x100000)])]"
    by (simp add: example_tree_def)
  have "reg_pairs 2 1 1 (be32 0x400000 @ be32 0x4000000 @ be32 0x8000000 @ be32 0x100000) = [(0x400000, 0x4000000), (0x8000000, 0x100000)]"
    using b by (simp add: numeral_2_eq_2)
  moreover have "usable w [(0x400000, 0x4000000), (0x8000000, 0x100000)] = [(0x400000, 0x4000000), (0x8000000, 0x100000)]"
    using usize_lim_ge [of w] by (simp add: usable_def clip_size_def usize_max_def)
  ultimately show ?thesis
    by (simp add: tree_ranges_def k example_view(3) view_ranges_def is_memory_def example_memory Let_def) (simp add: be32_def)
qed

lemma example_blob_ok: "blob_ok example_tree example_strings"
proof -
  have len: "length example_strings = 43" by (simp add: example_strings_def str_bytes_def)
  have z: "0 \<in> set (drop off example_strings)" if "off < 43" for off
  proof -
    have "example_strings ! 42 = 0" by (simp add: example_strings_def str_bytes_def)
    then have "last (drop off example_strings) = 0" using that len by (simp add: last_drop last_conv_nth)
    then show ?thesis using that len by (metis drop_eq_Nil2 last_in_set not_le)
  qed
  have "length (enc_struct example_tree) < 1000"
    by (simp add: enc_struct_def example_tree_def enc_props_def enc_prop_def pad4_length str_bytes_def)
  then have "length (dtb_bytes example_tree example_strings) \<le> FDT_MAX_SIZE" by (simp add: dtb_bytes_length len FDT_MAX_SIZE_def)
  moreover have "wf_tree example_tree" "dt_name example_tree = []" by (simp_all add: example_tree_def str_bytes_def)
  moreover have "view_wf (node_view (str_at example_strings) example_tree [(27, str_bytes ''memory'' @ [0]), (39, be32 0x400000 @ be32 0x4000000 @ be32 0x8000000 @ be32 0x100000)])"
    by (simp add: example_view(3) view_wf_def cells_ok_def)
  moreover have "str_bytes ''memory'' \<noteq> []" by (simp add: str_bytes_def)
  moreover have "kids_nodes (dt_kids example_tree) = tl (nodes example_tree)" by (simp add: example_tree_def)
  ultimately show ?thesis
    unfolding blob_ok_def by (simp add: example_view(1) cells_wf_def example_names example_tags len z z [of 0, simplified])
qed

theorem memory_layout_correct_witness:
  "\<exists>fuel c. get_memory_layout fuel W64 a64_handle_range (\<lambda>a. dtb_bytes example_tree example_strings ! (a - 0x2000)) memory_config_new 0x2000 = Some (Some (c, True))
    \<and> rs_addrs c = {0x400000 ..< 0x4400000} \<union> {0x8000000 ..< 0x8100000}"
proof -
  have "blob_at (\<lambda>a. dtb_bytes example_tree example_strings ! (a - 0x2000)) 0x2000 (dtb_bytes example_tree example_strings)" by (simp add: blob_at_def)
  from memory_layout_correct [OF this example_blob_ok] obtain c where
    c: "\<forall>fuel>rs_count c. get_memory_layout fuel W64 a64_handle_range (\<lambda>a. dtb_bytes example_tree example_strings ! (a - 0x2000)) memory_config_new 0x2000 = Some (Some (c, True))"
      "rs_addrs c = {0x400000 ..< 0x4400000} \<union> {0x8000000 ..< 0x8100000}"
    by (auto simp: example_ranges MAX_MEM_RANGES_def pair_addrs_def)
  from c(1) have "get_memory_layout (Suc (rs_count c)) W64 a64_handle_range (\<lambda>a. dtb_bytes example_tree example_strings ! (a - 0x2000)) memory_config_new 0x2000 = Some (Some (c, True))" by blast
  with c(2) show ?thesis by blast
qed

text \<open>
  The same on 32-bit ARM, where every range is split at the base of high memory: with at most 32 ranges the configuration contains exactly
  their addresses, the parts below the base tagged as linear memory and the parts above it as high memory.
\<close>

theorem arm_memory_layout_correct:
  assumes "blob_at mem blob (dtb_bytes t strs)" "blob_ok t strs" "2 * length (tree_ranges W32 (str_at strs) t) \<le> MAX_MEM_RANGES"
    "sorted_wrt (\<lambda>p q. pair_addrs p \<inter> pair_addrs q = {}) (tree_ranges W32 (str_at strs) t)"
  shows "\<exists>c. (\<forall>fuel>rs_count c. get_memory_layout fuel W32 (arm_handle_range hb) mem memory_config_new blob = Some (Some (c, tree_ranges W32 (str_at strs) t \<noteq> [])))
    \<and> config_ok W32 hb c \<and> rs_disjoint c \<and> rs_addrs c = (\<Union>p\<in>set (tree_ranges W32 (str_at strs) t). pair_addrs p)"
proof -
  have "dtb_new W32 mem blob = Some (Inr (blob_reader t strs))" using assms(2) by (intro dtb_new_blob [OF assms(1)]) (simp add: blob_ok_def)
  from ra.layout_ok [OF config_ok_new this blob_tree_ok [OF assms(2)] assms(3,4)] show ?thesis by blast
qed

theorem arm_memory_layout_correct_witness:
  "\<exists>fuel c. get_memory_layout fuel W32 (arm_handle_range 0x2000000) (\<lambda>a. dtb_bytes example_tree example_strings ! (a - 0x2000)) memory_config_new 0x2000 = Some (Some (c, True))
    \<and> config_ok W32 0x2000000 c \<and> rs_addrs c = {0x400000 ..< 0x4400000} \<union> {0x8000000 ..< 0x8100000}"
proof -
  have "blob_at (\<lambda>a. dtb_bytes example_tree example_strings ! (a - 0x2000)) 0x2000 (dtb_bytes example_tree example_strings)" by (simp add: blob_at_def)
  from arm_memory_layout_correct [OF this example_blob_ok, of "0x2000000"] obtain c where
    c: "\<forall>fuel>rs_count c. get_memory_layout fuel W32 (arm_handle_range 0x2000000) (\<lambda>a. dtb_bytes example_tree example_strings ! (a - 0x2000)) memory_config_new 0x2000 = Some (Some (c, True))"
      "config_ok W32 0x2000000 c" "rs_addrs c = {0x400000 ..< 0x4400000} \<union> {0x8000000 ..< 0x8100000}"
    by (auto simp: example_ranges MAX_MEM_RANGES_def pair_addrs_def)
  from c(1) have "get_memory_layout (Suc (rs_count c)) W32 (arm_handle_range 0x2000000) (\<lambda>a. dtb_bytes example_tree example_strings ! (a - 0x2000)) memory_config_new 0x2000 = Some (Some (c, True))" by blast
  with c(2,3) show ?thesis by blast
qed

text \<open>
  \<^bold>\<open>C17\<close> Where the device tree reader can panic, for any bytes in memory, on a 64-bit target. \<open>DtbReader::new\<close> never panics: it returns an error or a
  reader. With the reader, a scan with any scanner ends (both loops of \<open>scan\<close> and those of \<open>skip_node_properties\<close> terminate) and panics exactly if
  one of the scanner's calls panics: run with the scanner \<open>guarded f\<close>, which notes a panic of \<open>f\<close> and stops, the scan returns, and unless a
  panic was noted the scan with \<open>f\<close> has the same result. Of the reads that scanners use, \<open>get_next_property\<close> panics exactly if the
  next property's name offset leads beyond the blob, and \<open>get_reg_pair\<close> exactly if a pair is longer than the whole blob; their documentation says None there.
\<close>

theorem dtb_total:
  "\<exists>x. dtb_new W64 mem blob = Some x \<and> (case x of Inl e \<Rightarrow> True | Inr r \<Rightarrow>
     (\<exists>s' p y. dtb_scan W64 r (guarded f) (s, False) = Some ((s', p), y) \<and> dtb_scan W64 r f s = (if p then None else Some (s', y)))
   \<and> (\<forall>loc. get_next_property W64 r loc = None \<longleftrightarrow> bad_property r loc)
   \<and> (\<forall>loc ac sc. ac < 2 ^ 32 \<and> sc < 2 ^ 32 \<longrightarrow> (get_reg_pair W64 r ac sc loc = None \<longleftrightarrow> ac \<noteq> 0 \<and> length (dr_dtb r) < 4 * (ac + sc))))"
proof -
  obtain x where x: "dtb_new W64 mem blob = Some x" "\<forall>r. x = Inr r \<longrightarrow> reader_ok W64 r \<and> FDT_HEADER_SIZE \<le> length (dr_dtb r) \<and> dr_strings_offset r < 2 ^ 32"
    using dtb_new_total by blast
  show ?thesis
  proof (cases x)
    case (Inr r)
    with x(2) have r: "reader_ok W64 r" "dr_strings_offset r < 2 ^ 32" by simp_all
    show ?thesis
      using x(1) Inr dtb_scan_guarded [OF r(1), of f s] next_property_panics [OF r] reg_pair_panics [OF r(1)] by simp
  qed (use x(1) in simp)
qed

lemma example_scan:
  assumes "mem_scanner_new W64 memory_config_new = Some s"
  shows "\<exists>s'. dtb_scan W64 (blob_reader example_tree example_strings) (mem_scan_node W64 a64_handle_range) s = Some (s', Inr ())"
proof -
  let ?ps = "tree_ranges W64 (str_at example_strings) example_tree"
  obtain sm where sm: "mem_build_string_map W64 = Some sm" "mem_map_ok W64 sm" using mem_string_map by blast
  then have s: "s = \<lparr>ms_config = memory_config_new, ms_string_map = sm, ms_addr_cells = 0, ms_size_cells = 0\<rparr>"
    using assms by (simp add: mem_scanner_new_def)
  have "dtb_new W64 (\<lambda>a. dtb_bytes example_tree example_strings ! (a - 1)) 1 = Some (Inr (blob_reader example_tree example_strings))"
    using example_blob_ok by (intro dtb_new_blob) (simp_all add: blob_at_def blob_ok_def)
  from rx.layout_ok [OF config_ok_new this blob_tree_ok [OF example_blob_ok]] obtain c where "handle_each a64_handle_range memory_config_new ?ps = Some c"
    by (auto simp: example_ranges MAX_MEM_RANGES_def pair_addrs_def)
  then show ?thesis
    using memory_scan_at [OF blob_tree_ok [OF example_blob_ok], of W64 s a64_handle_range] sm(2) by (simp add: s with_config_def)
qed

theorem dtb_total_witness:
  "\<exists>r sc s'. dtb_new W64 (\<lambda>a. dtb_bytes example_tree example_strings ! (a - 0x2000)) 0x2000 = Some (Inr r)
    \<and> mem_scanner_new W64 memory_config_new = Some sc \<and> dtb_scan W64 r (guarded (mem_scan_node W64 a64_handle_range)) (sc, False) = Some ((s', False), Inr ())
    \<and> get_reg_pair W64 r 100 100 0 = None"
proof -
  let ?m = "\<lambda>a. dtb_bytes example_tree example_strings ! (a - 0x2000)" and ?r = "blob_reader example_tree example_strings"
  have new: "dtb_new W64 ?m 0x2000 = Some (Inr ?r)" using example_blob_ok by (intro dtb_new_blob) (simp_all add: blob_at_def blob_ok_def)
  obtain sc where sc: "mem_scanner_new W64 memory_config_new = Some sc" using mem_string_map [of W64] by (auto simp: mem_scanner_new_def)
  obtain s1 where s1: "dtb_scan W64 ?r (mem_scan_node W64 a64_handle_range) sc = Some (s1, Inr ())" using example_scan [OF sc] by blast
  from dtb_total [of ?m "0x2000" "mem_scan_node W64 a64_handle_range" sc] new obtain s' p y where
    t: "dtb_scan W64 ?r (guarded (mem_scan_node W64 a64_handle_range)) (sc, False) = Some ((s', p), y)" "Some (s1, Inr ()) = (if p then None else Some (s', y))"
      "get_reg_pair W64 ?r 100 100 0 = None \<longleftrightarrow> length (dr_dtb ?r) < 800"
    by (auto simp: s1)
  have "length (dr_dtb ?r) < 800"
    by (simp add: blob_reader_def dtb_bytes_length enc_struct_def example_tree_def example_strings_def enc_props_def enc_prop_def pad4_length str_bytes_def)
  then show ?thesis using new sc t by (auto split: if_splits)
qed

end
