(* ===== verification/Core_Scans.thy ===== *)
theory Core_Scans
  imports Scanner_Runs
begin

text \<open>
  What the core scanner reads of a \<open>cpu@N\<close> node: the properties in front of \<open>reg\<close>, and the identifier in \<open>reg\<close>.
\<close>

section \<open>The properties of a core\<close>

definition core_step :: "(nat \<Rightarrow> byte list) \<Rightarrow> core \<Rightarrow> nat \<times> byte list \<Rightarrow> core" where
  "core_step nm c p = (case core_tag (nm (fst p)) of
     Some CpuCompatible \<Rightarrow> (let s = butlast (snd p); n = min (length s) (length (core_type c)) in c\<lparr>core_type := take n s @ drop n (core_type c)\<rparr>)
   | Some CpuEnableMethod \<Rightarrow> c\<lparr>enable_method := (if snd p = str_bytes ''spin-table'' @ [0] then SpinTable else Bcm2836)\<rparr>
   | Some CpuReleaseAddr \<Rightarrow> c\<lparr>release_addr := from_be_bytes (snd p)\<rparr>
   | _ \<Rightarrow> c)"

definition core_prop_ok :: "width \<Rightarrow> (nat \<Rightarrow> byte list) \<Rightarrow> nat \<times> byte list \<Rightarrow> bool" where
  "core_prop_ok w nm p \<longleftrightarrow> (case core_tag (nm (fst p)) of
     Some CpuCompatible \<Rightarrow> snd p \<noteq> [] \<and> last (snd p) = 0 \<and> 0 \<notin> set (butlast (snd p))
   | Some CpuEnableMethod \<Rightarrow> snd p = str_bytes ''spin-table'' @ [0] \<or> snd p = str_bytes ''brcm,bcm2836-smp'' @ [0]
   | Some CpuReleaseAddr \<Rightarrow> length (snd p) = 4 \<or> length (snd p) = 8 \<and> from_be_bytes (snd p) \<le> usize_max w
   | Some CpuReg \<Rightarrow> False
   | _ \<Rightarrow> True)"

lemma string_value_at:
  assumes "props_at w r nm loc (p # ps)" "snd p = s @ [0]" "0 \<notin> set s"
  shows "get_null_terminated_u8_slice r (loc + 12) = Some (Some s, loc + 12 + length s)"
    "skip_and_align w r 1 (loc + 12 + length s) = Some (loc + length (enc_prop p))"
proof -
  obtain m where m: "bytes_at r loc (enc_prop p @ enc_props ps @ be32 m)" "reader_ok w r" "4 dvd loc"
    using assms(1) by (auto simp: props_at_def enc_props_def)
  have b: "bytes_at r (loc + 12) (pad4 (s @ [0]))" using m(1) assms(2) by (simp add: bytes_at_append enc_prop_def add.commute)
  have l: "loc + length (enc_prop p) = loc + 12 + length (pad4 (s @ [0]))" using assms(2) by (simp add: enc_prop_def)
  have "bytes_at r (loc + length (enc_prop p)) (enc_props ps @ be32 m)" using m(1) unfolding bytes_at_append [of r loc "enc_prop p"] by blast
  then have e: "loc + 12 + length (pad4 (s @ [0])) + 4 \<le> length (dr_dtb r)" unfolding l by (simp add: bytes_at_def)
  have d: "4 dvd loc + 12" using m(3) by simp
  from name_at [OF m(2) b assms(3) d e]
  show "get_null_terminated_u8_slice r (loc + 12) = Some (Some s, loc + 12 + length s)"
    "skip_and_align w r 1 (loc + 12 + length s) = Some (loc + length (enc_prop p))" unfolding l by blast+
qed

lemma u64_value_at:
  assumes "reader_ok w r" "bytes_at r loc v" "length v = 8"
  shows "get_u64 w r loc = Some (Some (from_be_bytes v), loc + 8)"
proof -
  define a b where "a = take 4 v" and "b = drop 4 v"
  have ab: "v = a @ b" "length a = 4" "length b = 4" using assms(3) by (simp_all add: a_def b_def)
  have at: "bytes_at r loc a" "bytes_at r (loc + 4) b" using assms(2) ab by (simp_all add: bytes_at_append)
  have "get_u32_unchecked w r loc = Some (from_be_bytes a, loc + 4)" "get_u32_unchecked w r (loc + 4) = Some (from_be_bytes b, loc + 8)"
    using get_u32_unchecked_ok [OF assms(1), of loc] get_u32_unchecked_ok [OF assms(1), of "loc + 4"] at ab(2,3) by (simp_all add: bytes_at_def)
  moreover have "push_bit 32 (from_be_bytes a) OR from_be_bytes b = from_be_bytes v"
  proof -
    have lt: "from_be_bytes a < 2 ^ 32" "from_be_bytes b < 2 ^ 32" using from_be_less ab by blast+
    then have "push_bit 32 (from_be_bytes a) < 2 ^ 64" by (simp add: push_bit_eq_mult)
    then have "push_bit 32 (from_be_bytes a) OR from_be_bytes b = push_cell 32 (from_be_bytes a) (from_be_bytes b)"
      by (simp add: push_cell_def take_bit_nat_eq_self)
    then show ?thesis using push_cell_word [OF lt] ab by (simp add: from_be_append)
  qed
  ultimately show ?thesis using assms(2,3) by (auto simp: get_u64_def FDT_WORD_BYTES_def FDT_WORD_BITS_def bytes_at_def)
qed

lemma release_value_at:
  assumes "props_at w r nm loc (p # ps)" "length (snd p) = 4 \<or> length (snd p) = 8 \<and> from_be_bytes (snd p) \<le> usize_max w"
  shows "read_cpu_release_addr w r (length (snd p)) (loc + 12) = Some (Inr (from_be_bytes (snd p)), loc + length (enc_prop p))"
proof -
  note at = props_at_Cons [OF assms(1)]
  from assms(2) show ?thesis
  proof
    assume "length (snd p) = 4"
    with at(3) show ?thesis by (simp add: read_cpu_release_addr_def)
  next
    assume l: "length (snd p) = 8 \<and> from_be_bytes (snd p) \<le> usize_max w"
    have "loc + length (enc_prop p) = loc + 12 + 8" using l by (simp add: enc_prop_def pad4_length)
    with l u64_value_at [OF at(6,5)] show ?thesis by (simp add: read_cpu_release_addr_def)
  qed
qed

lemma enable_value_at:
  assumes "props_at w r nm loc (p # ps)" "core_map_ok w sm" "snd p = str_bytes ''spin-table'' @ [0] \<or> snd p = str_bytes ''brcm,bcm2836-smp'' @ [0]"
  shows "read_enable_method w r sm (loc + 12) = Some (Inr (if snd p = str_bytes ''spin-table'' @ [0] then SpinTable else Bcm2836), loc + length (enc_prop p))"
proof -
  have z: "0 \<notin> set (str_bytes ''spin-table'')" "0 \<notin> set (str_bytes ''brcm,bcm2836-smp'')" by (simp_all add: str_bytes_def)
  have t: "core_tag (str_bytes ''spin-table'') = Some ValueSpinTable" "core_tag (str_bytes ''brcm,bcm2836-smp'') = Some ValueBcm2836"
      "str_bytes ''brcm,bcm2836-smp'' \<noteq> str_bytes ''spin-table''"
    by (simp_all add: core_tag_def str_bytes_def)
  from assms(3) show ?thesis
  proof
    assume p: "snd p = str_bytes ''spin-table'' @ [0]"
    from string_value_at [OF assms(1) p z(1)] assms(2) p t show ?thesis by (simp add: read_enable_method_def core_map_ok_def)
  next
    assume p: "snd p = str_bytes ''brcm,bcm2836-smp'' @ [0]"
    from string_value_at [OF assms(1) p z(2)] assms(2) p t show ?thesis by (simp add: read_enable_method_def core_map_ok_def)
  qed
qed

lemma compatible_value_at:
  assumes "props_at w r nm loc (p # ps)" "snd p \<noteq> []" "last (snd p) = 0" "0 \<notin> set (butlast (snd p))"
  shows "read_compatible w r ct (loc + 12) =
    Some (Inr (take (min (length (butlast (snd p))) (length ct)) (butlast (snd p)) @ drop (min (length (butlast (snd p))) (length ct)) ct), loc + length (enc_prop p))"
proof -
  have p: "snd p = butlast (snd p) @ [0]" using assms(2,3) by (metis append_butlast_last_id)
  from string_value_at [OF assms(1) p assms(4)] show ?thesis by (simp add: read_compatible_def Let_def)
qed

lemma core_prop_at:
  assumes "props_at w r nm loc (p # ps)" "core_map_ok w (cs_string_map s)" "core_prop_ok w nm p"
  shows "cpu_props w r s c loc = cpu_props w r s (core_step nm c p) (loc + length (enc_prop p))"
proof -
  note at = props_at_Cons [OF assms(1)]
  have f: "hm_find (fnv1a_hash_slice w) (cs_string_map s) (nm (fst p)) = Some (core_tag (nm (fst p)))" using assms(2) by (simp add: core_map_ok_def)
  show ?thesis
  proof (cases "core_tag (nm (fst p))")
    case None
    then show ?thesis using at(1,2) f by (subst cpu_props.simps) (simp add: core_step_def)
  next
    case (Some t)
    then show ?thesis
      using at(1,2) f assms(3) compatible_value_at [OF assms(1), of "core_type c"] enable_value_at [OF assms(1,2)] release_value_at [OF assms(1)]
      by (cases t; subst cpu_props.simps) (simp_all add: core_step_def core_prop_ok_def Let_def)
  qed
qed

lemma core_props_at:
  assumes "props_at w r nm loc (before @ ps)" "core_map_ok w (cs_string_map s)" "\<forall>p\<in>set before. core_prop_ok w nm p"
  shows "\<exists>loc'. cpu_props w r s c loc = cpu_props w r s (foldl (core_step nm) c before) loc' \<and> props_at w r nm loc' ps"
  using assms(1,3)
proof (induction before arbitrary: loc c)
  case (Cons p before)
  have at: "props_at w r nm loc (p # (before @ ps))" using Cons.prems(1) by simp
  from Cons.IH [OF props_at_Cons(4) [OF at], of "core_step nm c p"] core_prop_at [OF at assms(2), of c] Cons.prems(2) show ?case by auto
qed auto

lemma core_reg_at:
  assumes "props_at w r nm loc ((off, be32 m @ v) # after)" "core_map_ok w (cs_string_map s)" "nm off = str_bytes ''reg''"
    "length (be32 m @ v) = 4 * cs_addr_cells s" "cs_addr_cells s \<le> 2" "m < 2 ^ 32" "m \<noteq> FDT_PROP" "m \<noteq> FDT_NOOP"
  shows "cpu_props w r s c loc = Some (Inr (c\<lparr>core_id := from_be_bytes (be32 m @ v) mod usize_lim w\<rparr>))"
proof -
  note at = props_at_Cons [OF assms(1), simplified]
  have f: "hm_find (fnv1a_hash_slice w) (cs_string_map s) (nm off) = Some (Some CpuReg)"
    using assms(2,3) by (simp add: core_map_ok_def core_tag_def str_bytes_def)
  have ac: "cells_ok (cs_addr_cells s) 0" "4 * cs_addr_cells s \<noteq> 0" using assms(4,5) by (auto simp: cells_ok_def)
  have "get_reg_pair_size w (cs_addr_cells s) 0 = Some (4 * cs_addr_cells s)"
    using assms(5) usize_lim_ge [of w] by (simp add: get_reg_pair_size_def FDT_WORD_BYTES_def)
  then have t: "read_thread_id w r (length (be32 m @ v)) (cs_addr_cells s) (loc + 12) = Some (Inr (from_be_bytes (be32 m @ v)), loc + 12)"
    using reg_pair_at [OF at(6,5) _ ac(1)] assms(4) ac(2) by (simp add: read_thread_id_def)
  have "bytes_at r (loc + 12) (be32 m)" using at(5) by (simp add: bytes_at_append)
  from next_prop_end [OF at(6) this assms(6-8)]
  have n: "cpu_props w r s c (loc + 12) = Some (Inr c)" for c by (subst cpu_props.simps) simp
  show ?thesis using at(1) f t n by (subst cpu_props.simps) simp
qed

text \<open>
  A core whose identifier is the word of a property marker, 3, is misread. If an empty property follows its \<open>reg\<close> and the string table begins with \<open>reg\<close>, the value of \<open>reg\<close> and what follows
  it are taken for another \<open>reg\<close>, and the core gets the name offset of the empty property as its identifier.
\<close>

lemma core_three_misread:
  assumes "props_at w r nm loc ((off, be32 FDT_PROP) # (nx, []) # after)" "core_map_ok w (cs_string_map s)" "nm off = str_bytes ''reg''" "cs_addr_cells s = 1"
    "get_slice_from_string_table w r 0 = Some (Some (str_bytes ''reg''))" "nx \<noteq> FDT_PROP" "nx \<noteq> FDT_NOOP"
  shows "cpu_props w r s c loc = Some (Inr (c\<lparr>core_id := nx\<rparr>))"
proof -
  note at = props_at_Cons [OF assms(1), simplified]
  have nx: "nx < 2 ^ 32" using assms(1) by (simp add: props_at_def named_def)
  have tag: "hm_find (fnv1a_hash_slice w) (cs_string_map s) (str_bytes ''reg'') = Some (Some CpuReg)"
    using assms(2) by (simp add: core_map_ok_def core_tag_def str_bytes_def)
  obtain bs where "bytes_at r loc (enc_prop (off, be32 FDT_PROP) @ enc_prop (nx, []) @ bs)"
    using assms(1) by (auto simp: props_at_def enc_props_def)
  then have b: "bytes_at r (loc + 12) (be32 FDT_PROP)" "bytes_at r (loc + 16) (be32 FDT_PROP)" "bytes_at r (loc + 20) (be32 0)" "bytes_at r (loc + 24) (be32 nx)"
    by (simp_all add: enc_prop_def pad4_def bytes_at_append add.commute)
  have p: "FDT_PROP < 2 ^ 32" by (simp add: FDT_PROP_def)
  have u: "get_u32 w r (loc + 12) = Some (Some FDT_PROP, loc + 16)" "get_u32 w r (loc + 16) = Some (Some FDT_PROP, loc + 20)" "get_u32 w r (loc + 20) = Some (Some 0, loc + 24)"
    using get_u32_at [OF at(6) b(1) p] get_u32_at [OF at(6) b(2) p] get_u32_at [OF at(6) b(3)] by simp_all
  have id: "read_thread_id w r n (cs_addr_cells s) l = Some (Inr v, l)" if "bytes_at r l (be32 v)" "v < 2 ^ 32" for n l v
    using reg_pair_at [OF at(6) that(1), of 1 0] that(2) usize_lim_ge [of w] assms(4)
    by (simp add: read_thread_id_def get_reg_pair_size_def FDT_WORD_BYTES_def cells_ok_def from_be32)
  have "nx < usize_lim w" "FDT_PROP < usize_lim w" using nx p usize_lim_ge [of w] by simp_all
  moreover have n: "get_next_property w r (loc + 12) = Some (Some \<lparr>ph_size = FDT_PROP, ph_name_offset = 0, ph_name = str_bytes ''reg''\<rparr>, loc + 24)"
    using u assms(5) by (subst get_next_property.simps) simp
  moreover have "cpu_props w r s c (loc + 24) = Some (Inr c)" for c
    using next_prop_end [OF at(6) b(4) nx assms(6,7)] by (subst cpu_props.simps) simp
  then have "cpu_props w r s c (loc + 12) = Some (Inr (c\<lparr>core_id := nx\<rparr>))" for c
    using n tag id [OF b(4) nx] \<open>nx < usize_lim w\<close> by (subst cpu_props.simps) simp
  ultimately show ?thesis
    using at(1) assms(3) tag id [OF b(1) p] by (subst cpu_props.simps) simp
qed

section \<open>Properties\<close>

text \<open>
  \<^bold>\<open>C40\<close> How \<open>scan_cpu_node\<close> reads a \<open>cpu@N\<close> node. The properties in front of \<open>reg\<close> set the core's type, enable method and release
  address, and \<open>reg\<close> its identifier. Every property behind \<open>reg\<close> is ignored: \<open>read_thread_id\<close> moves a copy of
  the cursor, so that the next property is looked for in the value of \<open>reg\<close> and none is found there. A
  release address or enable method that the device tree gives behind \<open>reg\<close> is lost.
\<close>

theorem cpu_node_read_to_reg:
  assumes "props_at w r nm loc (before @ (off, be32 m @ v) # after)" "core_map_ok w (cs_string_map s)" "\<forall>p\<in>set before. core_prop_ok w nm p"
    "nm off = str_bytes ''reg''" "length (be32 m @ v) = 4 * cs_addr_cells s" "cs_addr_cells s \<le> 2" "m < 2 ^ 32" "m \<noteq> FDT_PROP" "m \<noteq> FDT_NOOP"
  shows "cpu_props w r s core_new loc = Some (Inr ((foldl (core_step nm) core_new before)\<lparr>core_id := from_be_bytes (be32 m @ v) mod usize_lim w\<rparr>))"
proof -
  obtain l where l: "cpu_props w r s core_new loc = cpu_props w r s (foldl (core_step nm) core_new before) l" "props_at w r nm l ((off, be32 m @ v) # after)"
    using core_props_at [OF assms(1-3)] by blast
  from core_reg_at [OF l(2) assms(2,4-9)] l(1) show ?thesis by simp
qed

text \<open>The example: a core with a \<open>reg\<close> of 1 that is followed by its enable method.\<close>

definition cpu_strings :: "byte list" where
  "cpu_strings = str_bytes ''reg'' @ [0] @ str_bytes ''enable-method'' @ [0]"

definition cpu_tree :: dtree where
  "cpu_tree = DNode [] [] [DNode (str_bytes ''cpu@1'') [(0, be32 1), (4, str_bytes ''spin-table'' @ [0])] []]"

lemma cpu_tree_props:
  "props_at w (blob_reader cpu_tree cpu_strings) (str_at cpu_strings) 60 [(0, be32 1), (4, str_bytes ''spin-table'' @ [0])]"
proof -
  have len: "length cpu_strings = 18" by (simp add: cpu_strings_def str_bytes_def)
  have z: "0 \<in> set (drop 0 cpu_strings)" "0 \<in> set (drop 4 cpu_strings)" by (simp_all add: cpu_strings_def str_bytes_def)
  have nodes: "nodes cpu_tree = [([], []), (str_bytes ''cpu@1'', [(0, be32 1), (4, str_bytes ''spin-table'' @ [0])])]" by (simp add: cpu_tree_def)
  have "length (enc_struct cpu_tree) < 1000"
    by (simp add: enc_struct_def cpu_tree_def enc_props_def enc_prop_def pad4_length str_bytes_def)
  then have b: "length (dtb_bytes cpu_tree cpu_strings) \<le> FDT_MAX_SIZE" by (simp add: dtb_bytes_length len FDT_MAX_SIZE_def)
  have names: "str_at cpu_strings 0 = str_bytes ''reg''" "str_at cpu_strings 4 = str_bytes ''enable-method''"
    by (simp_all add: str_at_def cpu_strings_def str_bytes_def)
  have tags: "mem_tag (str_bytes ''reg'') = Some DtbPropReg" "mem_tag (str_bytes ''enable-method'') = None" by (simp_all add: mem_tag_def str_bytes_def)
  have "nv_dev (node_view (str_at cpu_strings) cpu_tree [(0, be32 1), (4, str_bytes ''spin-table'' @ [0])]) = None"
    by (simp add: node_view_def view_prop_def names tags bare_view_def)
  then have "view_wf (node_view (str_at cpu_strings) cpu_tree [(0, be32 1), (4, str_bytes ''spin-table'' @ [0])])" by (simp add: view_wf_def is_memory_def)
  moreover have "wf_tree cpu_tree" "dt_name cpu_tree = []" "str_bytes ''cpu@1'' \<noteq> []" by (simp_all add: cpu_tree_def str_bytes_def)
  moreover have "kids_nodes (dt_kids cpu_tree) = tl (nodes cpu_tree)" by (simp add: cpu_tree_def)
  ultimately have ok: "blob_ok cpu_tree cpu_strings"
    unfolding blob_ok_def using b z by (simp add: nodes cells_wf_def names tags len)
  let ?r = "blob_reader cpu_tree cpu_strings"
  note mt = blob_tree_ok [OF ok, of w]
  have at: "bytes_at ?r 44 (enc_body cpu_tree)" using mt by (simp add: mem_tree_ok_def enc_struct_def bytes_at_append) (simp add: blob_reader_def)
  have vis: "visits cpu_tree 44 = [([], 48), (str_bytes ''cpu@1'', 60)]"
    by (simp add: cpu_tree_def Let_def pad4_length enc_props_def) (simp add: str_bytes_def)
  from visits_at(1) [OF at] have "node_at ?r (str_bytes ''cpu@1'', 60) (str_bytes ''cpu@1'', [(0, be32 1), (4, str_bytes ''spin-table'' @ [0])])"
    unfolding vis nodes by simp
  then show ?thesis using mt by (auto simp: props_at_def node_at_def mem_tree_ok_def nodes)
qed

theorem cpu_node_read_to_reg_witness:
  "\<exists>sm. core_build_string_map W64 = Some sm
    \<and> cpu_props W64 (blob_reader cpu_tree cpu_strings) \<lparr>cs_config = core_config_new W64, cs_primary_id = 0, cs_string_map = sm, cs_addr_cells = 1, cs_def_enable_method = InvalidMethod\<rparr>
        core_new 60 = Some (Inr (core_new\<lparr>core_id := 1\<rparr>))"
proof -
  obtain sm where sm: "core_build_string_map W64 = Some sm" "core_map_ok W64 sm" using core_string_map by blast
  have n: "str_at cpu_strings 0 = str_bytes ''reg''" by (simp add: str_at_def cpu_strings_def str_bytes_def)
  have f: "from_be_bytes (be32 1) = 1" by (rule from_be32) simp
  from cpu_node_read_to_reg [where before = "[]" and off = 0 and m = 1 and v = "[]" and after = "[(4, str_bytes ''spin-table'' @ [0])]"
      and s = "\<lparr>cs_config = core_config_new W64, cs_primary_id = 0, cs_string_map = sm, cs_addr_cells = 1, cs_def_enable_method = InvalidMethod\<rparr>"
      and w = W64 and r = "blob_reader cpu_tree cpu_strings" and nm = "str_at cpu_strings" and loc = 60]
  show ?thesis using sm cpu_tree_props [of W64] n f by (simp add: FDT_PROP_def FDT_NOOP_def)
qed

end
