(* ===== verification/Core_Runs.thy ===== *)
theory Core_Runs
  imports Core_Scans
begin

text \<open>
  The cores of a device tree, from its bytes to the core configuration: what \<open>get_core_config\<close> of \<open>src/arch/arm_common/dtb_cpu.rs\<close> makes
  of the nodes \<open>cpus\<close> and \<open>cpu@N\<close>.
\<close>

section \<open>The cpus node\<close>

definition enable_value :: "byte list \<Rightarrow> bool" where
  "enable_value v \<longleftrightarrow> v = str_bytes ''spin-table'' @ [0] \<or> v = str_bytes ''brcm,bcm2836-smp'' @ [0]"

definition cpus_step :: "(nat \<Rightarrow> byte list) \<Rightarrow> nat \<times> core_enable_method \<Rightarrow> nat \<times> byte list \<Rightarrow> nat \<times> core_enable_method" where
  "cpus_step nm d p = (case core_tag (nm (fst p)) of
     Some CpuAddressCells \<Rightarrow> (from_be_bytes (snd p), snd d)
   | Some CpuEnableMethod \<Rightarrow> (fst d, if snd p = str_bytes ''spin-table'' @ [0] then SpinTable else Bcm2836)
   | _ \<Rightarrow> d)"

definition cpus_prop_ok :: "(nat \<Rightarrow> byte list) \<Rightarrow> nat \<times> byte list \<Rightarrow> bool" where
  "cpus_prop_ok nm p \<longleftrightarrow> (case core_tag (nm (fst p)) of
     Some CpuAddressCells \<Rightarrow> length (snd p) = 4
   | Some CpuSizeCells \<Rightarrow> length (snd p) = 4 \<and> from_be_bytes (snd p) = 0
   | Some CpuEnableMethod \<Rightarrow> enable_value (snd p)
   | _ \<Rightarrow> True)"

definition with_defaults :: "core_scanner \<Rightarrow> nat \<times> core_enable_method \<Rightarrow> core_scanner" where
  "with_defaults s d = s\<lparr>cs_addr_cells := fst d, cs_def_enable_method := snd d\<rparr>"

lemma with_defaults_same [simp]: "with_defaults s (cs_addr_cells s, cs_def_enable_method s) = s"
  by (simp add: with_defaults_def)

lemma with_defaults_simps [simp]:
  "cs_config (with_defaults s d) = cs_config s" "cs_primary_id (with_defaults s d) = cs_primary_id s" "cs_string_map (with_defaults s d) = cs_string_map s"
  "cs_addr_cells (with_defaults s d) = fst d" "cs_def_enable_method (with_defaults s d) = snd d"
  "(with_defaults s d)\<lparr>cs_addr_cells := a\<rparr> = with_defaults s (a, snd d)" "(with_defaults s d)\<lparr>cs_def_enable_method := m\<rparr> = with_defaults s (fst d, m)"
  by (simp_all add: with_defaults_def)

lemma cpus_prop_at:
  assumes "props_at w r nm loc (p # ps)" "core_map_ok w (cs_string_map s)" "cpus_prop_ok nm p"
  shows "cpus_props w r (with_defaults s d) loc = cpus_props w r (with_defaults s (cpus_step nm d p)) (loc + length (enc_prop p))"
proof -
  note at = props_at_Cons [OF assms(1)]
  have f: "hm_find (fnv1a_hash_slice w) (cs_string_map s) (nm (fst p)) = Some (core_tag (nm (fst p)))" using assms(2) by (simp add: core_map_ok_def)
  show ?thesis
  proof (cases "core_tag (nm (fst p))")
    case None
    then show ?thesis using at(1,2) f by (subst cpus_props.simps) (simp add: cpus_step_def)
  next
    case (Some t)
    then show ?thesis
      using at(1-3) f assms(3) enable_value_at [OF assms(1,2)]
      by (cases t; subst cpus_props.simps) (simp_all add: cpus_step_def cpus_prop_ok_def enable_value_def)
  qed
qed

lemma cpus_node_at:
  assumes "props_at w r nm loc ps" "core_map_ok w (cs_string_map s)" "\<forall>p\<in>set ps. cpus_prop_ok nm p"
  shows "cpus_props w r (with_defaults s d) loc = Some (with_defaults s (foldl (cpus_step nm) d ps), Inr ())"
  using assms(1,3)
proof (induction ps arbitrary: loc d)
  case Nil
  then show ?case using props_at_Nil [OF Nil.prems(1)] by (subst cpus_props.simps) simp
next
  case (Cons p ps)
  then show ?case using cpus_prop_at [OF Cons.prems(1) assms(2), of d] Cons.IH [OF props_at_Cons(4) [OF Cons.prems(1)]] by simp
qed

section \<open>A core's node\<close>

definition is_reg :: "(nat \<Rightarrow> byte list) \<Rightarrow> nat \<times> byte list \<Rightarrow> bool" where
  "is_reg nm p \<longleftrightarrow> nm (fst p) = str_bytes ''reg''"

definition node_core :: "width \<Rightarrow> (nat \<Rightarrow> byte list) \<Rightarrow> core_enable_method \<Rightarrow> (nat \<times> byte list) list \<Rightarrow> core" where
  "node_core w nm m ps =
     (let c = (foldl (core_step nm) core_new (takeWhile (\<lambda>p. \<not> is_reg nm p) ps))
                \<lparr>core_id := from_be_bytes (snd (hd (dropWhile (\<lambda>p. \<not> is_reg nm p) ps))) mod usize_lim w\<rparr>
      in if enable_method c = InvalidMethod then c\<lparr>enable_method := m\<rparr> else c)"

definition cpu_node_ok :: "width \<Rightarrow> (nat \<Rightarrow> byte list) \<Rightarrow> nat \<Rightarrow> (nat \<times> byte list) list \<Rightarrow> bool" where
  "cpu_node_ok w nm ac ps \<longleftrightarrow> (\<forall>p\<in>set (takeWhile (\<lambda>p. \<not> is_reg nm p) ps). core_prop_ok w nm p)
     \<and> (case dropWhile (\<lambda>p. \<not> is_reg nm p) ps of
          [] \<Rightarrow> False
        | p # _ \<Rightarrow> 1 \<le> ac \<and> ac \<le> 2 \<and> length (snd p) = 4 * ac \<and> from_be_bytes (take 4 (snd p)) \<notin> {FDT_PROP, FDT_NOOP})"

lemma be32_from_be:
  assumes "length b = 4"
  shows "be32 (from_be_bytes b) = b"
proof -
  obtain w x y z where b: "b = [w, x, y, z]" using assms by (auto simp: length_Suc_conv eval_nat_numeral)
  let ?n = "from_be_bytes b"
  have n: "?n = ((unat w * 256 + unat x) * 256 + unat y) * 256 + unat z" by (simp add: b from_be_bytes_def)
  have u: "unat v < 256" for v :: byte using unsigned_less [where ?'a = nat, of v] by simp
  have d: "?n div 2 ^ 8 = (unat w * 256 + unat x) * 256 + unat y" "?n div 2 ^ 16 = unat w * 256 + unat x" "?n div 2 ^ 24 = unat w"
    using u [of x] u [of y] u [of z] unfolding n by simp_all
  have m: "word_of_nat (k * 256 + unat v) = v" for k and v :: byte
  proof -
    have "(word_of_nat 256 :: byte) = 0" by (simp add: word_eq_iff_unsigned)
    then show ?thesis by (simp only: of_nat_add of_nat_mult mult_zero_right add_0_left) simp
  qed
  have "be32 ?n = [word_of_nat (unat w), word_of_nat (unat w * 256 + unat x), word_of_nat ((unat w * 256 + unat x) * 256 + unat y), word_of_nat (((unat w * 256 + unat x) * 256 + unat y) * 256 + unat z)]"
    unfolding be32_def d by (simp only: n)
  then show ?thesis unfolding m b by simp
qed

lemma core_node_at:
  assumes "props_at w r nm loc ps" "core_map_ok w (cs_string_map s)" "cpu_node_ok w nm (cs_addr_cells s) ps"
  shows "\<exists>c. cpu_props w r s core_new loc = Some (Inr c)
    \<and> (if enable_method c = InvalidMethod then c\<lparr>enable_method := m\<rparr> else c) = node_core w nm m ps \<and> core_id c = core_id (node_core w nm m ps)"
proof -
  let ?before = "takeWhile (\<lambda>p. \<not> is_reg nm p) ps"
  obtain off v after where d: "dropWhile (\<lambda>p. \<not> is_reg nm p) ps = (off, v) # after"
    using assms(3) by (auto simp: cpu_node_ok_def split: list.splits)
  have reg: "nm off = str_bytes ''reg''" using d unfolding dropWhile_eq_Cons_conv by (simp add: is_reg_def)
  have ok: "\<forall>p\<in>set ?before. core_prop_ok w nm p" "1 \<le> cs_addr_cells s" "cs_addr_cells s \<le> 2" "length v = 4 * cs_addr_cells s"
      "from_be_bytes (take 4 v) \<noteq> FDT_PROP" "from_be_bytes (take 4 v) \<noteq> FDT_NOOP"
    using assms(3) d by (auto simp: cpu_node_ok_def)
  let ?m = "from_be_bytes (take 4 v)"
  have l: "length (take 4 v) = 4" using ok(2,4) by simp
  have v: "be32 ?m @ drop 4 v = v" using be32_from_be [OF l] by simp
  have ps: "props_at w r nm loc (?before @ (off, v) # after)" using assms(1) d by (metis takeWhile_dropWhile_id)
  obtain l where at: "cpu_props w r s core_new loc = cpu_props w r s (foldl (core_step nm) core_new ?before) l" "props_at w r nm l ((off, v) # after)"
    using core_props_at [OF ps assms(2) ok(1)] by blast
  have "cpu_props w r s core_new loc = Some (Inr ((foldl (core_step nm) core_new ?before)\<lparr>core_id := from_be_bytes v mod usize_lim w\<rparr>))"
    using core_reg_at [where m = ?m and v = "drop 4 v", unfolded v, OF at(2) assms(2) reg ok(4,3) from_be_less [OF l] ok(5,6)] at(1) by simp
  then show ?thesis by (simp add: node_core_def d Let_def)
qed

section \<open>The tree\<close>

definition core_name :: "byte list \<Rightarrow> bool" where
  "core_name name \<longleftrightarrow> length name \<ge> 5 \<and> take 4 name = str_bytes ''cpu@''"

text \<open>The cores of the nodes in document order, and what the nodes have to satisfy; \<open>d\<close> holds the defaults that the last \<open>cpus\<close> node set.\<close>

fun tree_cores :: "width \<Rightarrow> (nat \<Rightarrow> byte list) \<Rightarrow> nat \<times> core_enable_method \<Rightarrow> (byte list \<times> (nat \<times> byte list) list) list \<Rightarrow> core list" where
  "tree_cores w nm d [] = []"
| "tree_cores w nm d (n # ns) =
     (if fst n = str_bytes ''cpus'' then tree_cores w nm (foldl (cpus_step nm) d (snd n)) ns
      else if core_name (fst n) then node_core w nm (snd d) (snd n) # tree_cores w nm d ns
      else tree_cores w nm d ns)"

fun core_nodes_ok :: "width \<Rightarrow> (nat \<Rightarrow> byte list) \<Rightarrow> nat \<times> core_enable_method \<Rightarrow> (byte list \<times> (nat \<times> byte list) list) list \<Rightarrow> bool" where
  "core_nodes_ok w nm d [] \<longleftrightarrow> True"
| "core_nodes_ok w nm d (n # ns) \<longleftrightarrow>
     (if fst n = str_bytes ''cpus'' then
        (\<forall>p\<in>set (snd n). cpus_prop_ok nm p) \<and> fst (foldl (cpus_step nm) d (snd n)) \<noteq> 0 \<and> core_nodes_ok w nm (foldl (cpus_step nm) d (snd n)) ns
      else if core_name (fst n) then cpu_node_ok w nm (fst d) (snd n) \<and> core_nodes_ok w nm d ns
      else core_nodes_ok w nm d ns)"

abbreviation live_cores :: "core_config \<Rightarrow> core list" where
  "live_cores c \<equiv> take (cc_core_count c) (cc_cores c)"

definition place_core :: "usize \<Rightarrow> core list \<Rightarrow> core \<Rightarrow> core list" where
  "place_core pid cs c = swap_in cs c (core_id c = pid)"

lemma place_core_props:
  "length (place_core pid cs c) = Suc (length cs)" "set (place_core pid cs c) = insert c (set cs)" "core_id c = pid \<Longrightarrow> place_core pid cs c ! 0 = c"
  "core_id c \<noteq> pid \<Longrightarrow> cs \<noteq> [] \<Longrightarrow> place_core pid cs c ! 0 = cs ! 0"
  by (auto simp: place_core_def swap_in_props swap_in_nth)

lemma place_core_distinct: "distinct (map core_id (place_core pid cs c @ L)) \<longleftrightarrow> distinct (map core_id (cs @ c # L))"
  using swap_in_props(2,3) [of "map core_id cs" "core_id c" "core_id c = pid"] by (auto simp: place_core_def swap_in_props(2,4))

lemma place_cores:
  "length (foldl (place_core pid) cs L) = length cs + length L" "set (foldl (place_core pid) cs L) = set cs \<union> set L"
  by (induction L arbitrary: cs) (auto simp: place_core_props)

lemma place_primary:
  assumes "distinct (map core_id L)" "c \<in> set L" "core_id c = pid"
  shows "foldl (place_core pid) cs L ! 0 = c"
  using assms
proof (induction L rule: rev_induct)
  case (snoc x L)
  show ?case
  proof (cases "x = c")
    case True
    then show ?thesis using snoc.prems(3) by (simp add: place_core_props)
  next
    case False
    then have c: "c \<in> set L" "core_id x \<noteq> pid" using snoc.prems by auto
    then have "foldl (place_core pid) cs L \<noteq> []" using place_cores(1) [of pid cs L] by (cases L) auto
    with c snoc show ?thesis by (simp add: place_core_props)
  qed
qed simp

lemma scan_core_at:
  assumes "props_at w r nm loc ps" "core_map_ok w (cs_string_map s)" "cpu_node_ok w nm (cs_addr_cells s) ps" "cc_inv w (cs_config s)"
    "core_id (node_core w nm (cs_def_enable_method s) ps) \<notin> set (core_ids (cs_config s)) \<or> cc_core_count (cs_config s) = MAX_CORES w"
  shows "\<exists>c'. scan_cpu_node w r s loc = Some (s\<lparr>cs_config := c'\<rparr>, Inr ()) \<and> cc_inv w c'
    \<and> live_cores c' = (if cc_core_count (cs_config s) < MAX_CORES w
        then place_core (cs_primary_id s) (live_cores (cs_config s)) (node_core w nm (cs_def_enable_method s) ps) else live_cores (cs_config s))"
proof -
  let ?c = "node_core w nm (cs_def_enable_method s) ps" and ?cfg = "cs_config s"
  obtain c where c: "cpu_props w r s core_new loc = Some (Inr c)"
      "(if enable_method c = InvalidMethod then c\<lparr>enable_method := cs_def_enable_method s\<rparr> else c) = ?c" "core_id c = core_id ?c"
    using core_node_at [OF assms(1-3)] by blast
  have u: "usub (MAX_CORES w) 1 = Some (MAX_CORES w - 1)" by (cases w) (simp_all add: usub_def)
  have le: "cc_core_count ?cfg \<le> MAX_CORES w" using assms(4) by (simp add: cc_inv_def)
  show ?thesis
  proof (cases "cc_core_count ?cfg < MAX_CORES w")
    case True
    then obtain c' where c': "add_core w ?cfg ?c (core_id ?c = cs_primary_id s) = Some (c', True)" "cc_inv w c'"
        "live_cores c' = swap_in (live_cores ?cfg) ?c (core_id ?c = cs_primary_id s)"
      using add_core_inv [OF assms(4) True, of ?c] assms(5) by (metis nat_neq_iff)
    moreover have "\<not> cc_core_count ?cfg > MAX_CORES w - 1" using True by linarith
    ultimately show ?thesis using True c u by (auto simp: scan_cpu_node_def get_core_count_def place_core_def Let_def)
  next
    case False
    then have "add_core w ?cfg ?c p = Some (?cfg, False)" for p by (simp add: add_core_def)
    with False c u assms(4) show ?thesis by (intro exI [of _ ?cfg]) (auto simp: scan_cpu_node_def Let_def)
  qed
qed

text \<open>The same for the first of the cores that are still to come: those that fit are placed after it.\<close>

lemma scan_core_first:
  assumes "props_at w r nm loc ps" "core_map_ok w (cs_string_map s)" "cpu_node_ok w nm (cs_addr_cells s) ps" "cc_inv w (cs_config s)"
    "L = take (MAX_CORES w - cc_core_count (cs_config s)) (node_core w nm (cs_def_enable_method s) ps # Ls)"
    "distinct (map core_id (live_cores (cs_config s) @ L))"
  shows "\<exists>c'. scan_cpu_node w r s loc = Some (s\<lparr>cs_config := c'\<rparr>, Inr ()) \<and> cc_inv w c'
    \<and> distinct (map core_id (live_cores c' @ take (MAX_CORES w - cc_core_count c') Ls))
    \<and> foldl (place_core (cs_primary_id s)) (live_cores c') (take (MAX_CORES w - cc_core_count c') Ls) = foldl (place_core (cs_primary_id s)) (live_cores (cs_config s)) L"
proof -
  let ?c = "node_core w nm (cs_def_enable_method s) ps" and ?cfg = "cs_config s"
  have le: "cc_core_count ?cfg \<le> MAX_CORES w" using assms(4) by (simp add: cc_inv_def)
  have L: "L = (if cc_core_count ?cfg < MAX_CORES w then ?c # take (MAX_CORES w - Suc (cc_core_count ?cfg)) Ls else [])"
    using assms(5) by (simp add: take_Cons' Suc_diff_Suc)
  have "core_id ?c \<notin> set (core_ids ?cfg) \<or> cc_core_count ?cfg = MAX_CORES w"
    using assms(6) L le by (cases "cc_core_count ?cfg < MAX_CORES w") (auto simp: core_ids_def)
  then obtain c' where c': "scan_cpu_node w r s loc = Some (s\<lparr>cs_config := c'\<rparr>, Inr ())" "cc_inv w c'"
      "live_cores c' = (if cc_core_count ?cfg < MAX_CORES w then place_core (cs_primary_id s) (live_cores ?cfg) ?c else live_cores ?cfg)"
    using scan_core_at [OF assms(1-4)] by auto
  have count: "cc_core_count c' = (if cc_core_count ?cfg < MAX_CORES w then Suc (cc_core_count ?cfg) else cc_core_count ?cfg)"
    using arg_cong [OF c'(3), of length] c'(2) assms(4) by (auto simp: cc_inv_def place_core_props split: if_splits)
  have "distinct (map core_id (live_cores c' @ take (MAX_CORES w - cc_core_count c') Ls))"
    using assms(6) c'(3) count L by (cases "cc_core_count ?cfg < MAX_CORES w") (simp_all add: place_core_distinct del: map_append)
  then show ?thesis using c' count L le by (intro exI [of _ c']) simp
qed

lemma visit_cores:
  assumes "list_all2 (node_at r) vs ns" "reader_ok w r" "\<forall>n\<in>set ns. named w r nm (snd n)" "core_map_ok w (cs_string_map s)" "cc_inv w (cs_config s)"
    "core_nodes_ok w nm (cs_addr_cells s, cs_def_enable_method s) ns"
    "L = take (MAX_CORES w - cc_core_count (cs_config s)) (tree_cores w nm (cs_addr_cells s, cs_def_enable_method s) ns)"
    "distinct (map core_id (live_cores (cs_config s) @ L))"
  shows "\<exists>s'. visit_all (core_scan_node w) r s vs = Some (s', Inr ()) \<and> cc_inv w (cs_config s')
    \<and> live_cores (cs_config s') = foldl (place_core (cs_primary_id s)) (live_cores (cs_config s)) L"
  using assms
proof (induction vs ns arbitrary: s L rule: list_all2_induct)
  case Nil
  then show ?case by (simp add: visit_all_def)
next
  case (Cons v vs n ns)
  let ?d = "(cs_addr_cells s, cs_def_enable_method s)"
  have at: "props_at w r nm (snd v) (snd n)" "fst v = fst n" using Cons.hyps(1) Cons.prems(1,2) by (auto simp: node_at_def props_at_def)
  consider "fst n = str_bytes ''cpus''" | "fst n \<noteq> str_bytes ''cpus''" "core_name (fst n)" | "fst n \<noteq> str_bytes ''cpus''" "\<not> core_name (fst n)" by blast
  then show ?case
  proof cases
    case 1
    let ?d' = "foldl (cpus_step nm) ?d (snd n)"
    have "cpus_props w r s (snd v) = Some (with_defaults s ?d', Inr ())"
      using cpus_node_at [OF at(1) Cons.prems(3), of ?d] 1 Cons.prems(5) by simp
    then have "core_scan_node w s r (fst v) (snd v) = Some (with_defaults s ?d', Inr True)"
      using 1 at(2) Cons.prems(5) by (simp add: core_scan_node_def scan_cpus_node_def)
    then show ?thesis using Cons.IH [of "with_defaults s ?d'" L] 1 Cons.prems by (simp add: visit_all_def)
  next
    case 3
    then have "core_scan_node w s r (fst v) (snd v) = Some (s, Inr True)" using at(2) by (auto simp: core_scan_node_def core_name_def)
    then show ?thesis using Cons.IH [of s L] 3 Cons.prems by (simp add: visit_all_def)
  next
    case 2
    let ?L = "tree_cores w nm ?d ns"
    have ok: "cpu_node_ok w nm (cs_addr_cells s) (snd n)" using 2 Cons.prems(5) by simp
    have L: "L = take (MAX_CORES w - cc_core_count (cs_config s)) (node_core w nm (cs_def_enable_method s) (snd n) # ?L)" using 2 Cons.prems(6) by simp
    obtain c' where c': "scan_cpu_node w r s (snd v) = Some (s\<lparr>cs_config := c'\<rparr>, Inr ())" "cc_inv w c'"
        "distinct (map core_id (live_cores c' @ take (MAX_CORES w - cc_core_count c') ?L))"
        "foldl (place_core (cs_primary_id s)) (live_cores c') (take (MAX_CORES w - cc_core_count c') ?L) = foldl (place_core (cs_primary_id s)) (live_cores (cs_config s)) L"
      using scan_core_first [OF at(1) Cons.prems(3) ok Cons.prems(4) L Cons.prems(7)] by blast
    have "core_scan_node w s r (fst v) (snd v) = Some (s\<lparr>cs_config := c'\<rparr>, Inr True)"
      using 2 at(2) c'(1) by (simp add: core_scan_node_def core_name_def)
    moreover obtain s' where "visit_all (core_scan_node w) r (s\<lparr>cs_config := c'\<rparr>) vs = Some (s', Inr ())" "cc_inv w (cs_config s')"
        "live_cores (cs_config s') = foldl (place_core (cs_primary_id s)) (live_cores c') (take (MAX_CORES w - cc_core_count c') ?L)"
      using Cons.IH [of "s\<lparr>cs_config := c'\<rparr>" "take (MAX_CORES w - cc_core_count c') ?L"] 2 Cons.prems c'(2,3) by auto
    ultimately show ?thesis using c'(4) by (simp add: visit_all_def)
  qed
qed

section \<open>The core configuration\<close>

lemma cc_inv_reset: "cc_inv w c \<Longrightarrow> cc_inv w (cores_reset c)"
proof -
  assume c: "cc_inv w c"
  have "hm_clear (cc_id_map c) = hm_new (CORE_MAP_SIZE w)" using c by (simp add: cc_inv_def hm_clear_def hm_new_def map_replicate_const)
  then have "cc_id_map (cores_reset c) = cc_id_map (core_config_new w)" "cc_core_count (cores_reset c) = 0" "cc_cores (cores_reset c) = cc_cores c"
    by (simp_all add: cores_reset_def core_config_new_def)
  moreover have "length (cc_cores c) = MAX_CORES w" using c by (simp add: cc_inv_def)
  ultimately show ?thesis using cc_inv_new [of w] by (simp add: cc_inv_def map_agrees_def core_ids_def core_config_new_def)
qed

definition kept_cores :: "width \<Rightarrow> (nat \<Rightarrow> byte list) \<Rightarrow> dtree \<Rightarrow> core list" where
  "kept_cores w nm t = take (MAX_CORES w) (tree_cores w nm (0, InvalidMethod) (nodes t))"

lemma core_scan_blob:
  assumes "blob_ok t strs" "core_nodes_ok w (str_at strs) (0, InvalidMethod) (nodes t)" "distinct (map core_id (kept_cores w (str_at strs) t))"
    "cc_inv w c" "cc_core_count c = 0" "core_map_ok w sm"
  shows "\<exists>s'. dtb_scan w (blob_reader t strs) (core_scan_node w)
        \<lparr>cs_config = c, cs_primary_id = pid, cs_string_map = sm, cs_addr_cells = 0, cs_def_enable_method = InvalidMethod\<rparr> = Some (s', Inr ())
    \<and> cc_inv w (cs_config s') \<and> live_cores (cs_config s') = foldl (place_core pid) [] (kept_cores w (str_at strs) t)"
proof -
  let ?r = "blob_reader t strs"
  note mt = blob_tree_ok [OF assms(1), of w]
  have r: "reader_ok w ?r" "4 dvd dr_struct_offset ?r" "bytes_at ?r (dr_struct_offset ?r) (enc_struct t)" "wf_tree t" "\<forall>n\<in>set (nodes t). named w ?r (str_at strs) (snd n)"
    using mt by (auto simp: mem_tree_ok_def)
  have "bytes_at ?r (dr_struct_offset ?r + 4) (enc_body t)" "4 dvd dr_struct_offset ?r + 4" using r(2,3) by (simp_all add: enc_struct_def bytes_at_append)
  from visit_cores [OF visits_at(1) [OF this] r(1,5), of "\<lparr>cs_config = c, cs_primary_id = pid, cs_string_map = sm, cs_addr_cells = 0, cs_def_enable_method = InvalidMethod\<rparr>"]
  show ?thesis unfolding scan_struct_at [OF r(1,3,2,4)] using assms by (simp add: kept_cores_def)
qed

text \<open>
  \<open>get_core_config\<close> returns on every device tree with well-formed core nodes. The configuration holds the first \<open>MAX_CORES\<close> of them, the
  primary core at index 0 if it is among them, and the result is true if there is a core and all have an enable method.
\<close>

lemma core_config_ok:
  assumes "blob_at mem blob (dtb_bytes t strs)" "blob_ok t strs" "core_nodes_ok w (str_at strs) (0, InvalidMethod) (nodes t)"
    "distinct (map core_id (kept_cores w (str_at strs) t))" "cc_inv w config"
  shows "\<exists>c. get_core_config w mem pid config blob =
        Some (c, kept_cores w (str_at strs) t \<noteq> [] \<and> (\<forall>k\<in>set (kept_cores w (str_at strs) t). enable_method k \<noteq> InvalidMethod))
    \<and> cc_inv w c \<and> get_core_count c = length (kept_cores w (str_at strs) t) \<and> set (live_cores c) = set (kept_cores w (str_at strs) t)
    \<and> (\<forall>k\<in>set (kept_cores w (str_at strs) t). core_id k = pid \<longrightarrow> cc_cores c ! 0 = k)"
proof -
  let ?L = "kept_cores w (str_at strs) t"
  have new: "dtb_new w mem blob = Some (Inr (blob_reader t strs))" using assms(2) by (intro dtb_new_blob [OF assms(1)]) (simp add: blob_ok_def)
  obtain sm where sm: "core_build_string_map w = Some sm" "core_map_ok w sm" using core_string_map by blast
  have "cc_core_count (cores_reset config) = 0" by (simp add: cores_reset_def)
  from core_scan_blob [OF assms(2-4) cc_inv_reset [OF assms(5)] this sm(2), of pid] obtain s' where
    s': "dtb_scan w (blob_reader t strs) (core_scan_node w)
        \<lparr>cs_config = cores_reset config, cs_primary_id = pid, cs_string_map = sm, cs_addr_cells = 0, cs_def_enable_method = InvalidMethod\<rparr> = Some (s', Inr ())"
      "cc_inv w (cs_config s')" "live_cores (cs_config s') = foldl (place_core pid) [] ?L" by blast
  let ?c = "cs_config s'"
  have le: "cc_core_count ?c \<le> length (cc_cores ?c)" using s'(2) by (simp add: cc_inv_def)
  have count: "cc_core_count ?c = length ?L" using arg_cong [OF s'(3), of length] le by (simp add: place_cores)
  have set: "set (live_cores ?c) = set ?L" by (simp add: s'(3) place_cores)
  have "cc_cores ?c ! 0 = k" if "k \<in> set ?L" "core_id k = pid" for k
  proof -
    have "0 < cc_core_count ?c" using that(1) count by (cases ?L) auto
    then have "cc_cores ?c ! 0 = live_cores ?c ! 0" by simp
    with place_primary [OF assms(4) that, of "[]"] show ?thesis by (simp add: s'(3))
  qed
  then show ?thesis
    using new sm(1) s'(1,2) le count set by (intro exI [of _ ?c]) (simp add: get_core_config_def core_scanner_new_def get_core_count_def get_cores_def)
qed

end
