(* ===== verification/Page_Tables.thy ===== *)
theory Page_Tables
  imports Buddy Page_Source
begin

text \<open>
  \<open>src/arch/aarch64/mm.rs\<close>: the translation tables of AArch64 with 4 KiB pages. The memory that the kernel sees
  through its linear map is a function from virtual addresses of 64-bit words to their values; a table is the page
  of words at its virtual address. The allocator of new tables is a parameter. A result is \<open>Inl Panic\<close> when the
  kernel panics; the loop of \<open>fill_table_compact\<close> does not always end, so each run of it has fuel, and
  \<open>Inl Out_Of_Fuel\<close> is a loop that has not ended within it.
\<close>

section \<open>Data\<close>

definition TABLE_SHIFT :: usize where "TABLE_SHIFT = 9"
definition INDEX_MASK :: usize where "INDEX_MASK = push_bit TABLE_SHIFT 1 - 1"
definition LEVEL_4_SHIFT :: usize where "LEVEL_4_SHIFT = page_shift"
definition LEVEL_3_SHIFT :: usize where "LEVEL_3_SHIFT = LEVEL_4_SHIFT + TABLE_SHIFT"
definition LEVEL_2_SHIFT :: usize where "LEVEL_2_SHIFT = LEVEL_3_SHIFT + TABLE_SHIFT"
definition LEVEL_1_SHIFT :: usize where "LEVEL_1_SHIFT = LEVEL_2_SHIFT + TABLE_SHIFT"
definition TABLE_SIZE :: usize where "TABLE_SIZE = page_size"
definition TABLE_OR_PAGE_MASK :: usize where "TABLE_OR_PAGE_MASK = 0x0000fffffffff000"
definition LEVEL_2_BLOCK_MASK :: usize where "LEVEL_2_BLOCK_MASK = 0x0000ffffc0000000"
definition LEVEL_3_BLOCK_MASK :: usize where "LEVEL_3_BLOCK_MASK = 0x0000ffffffe00000"
definition MM_PAGE_TABLE_FLAG :: usize where "MM_PAGE_TABLE_FLAG = 3"
definition MM_PAGE_FLAG :: usize where "MM_PAGE_FLAG = 3"
definition MM_BLOCK_FLAG :: usize where "MM_BLOCK_FLAG = 1"
definition MM_ACCESS_FLAG :: usize where "MM_ACCESS_FLAG = push_bit 10 1"
definition MM_NORMAL_MAIR_IDX :: usize where "MM_NORMAL_MAIR_IDX = 0"
definition MM_DEVICE_MAIR_IDX :: usize where "MM_DEVICE_MAIR_IDX = 1"
definition TYPE_MASK :: usize where "TYPE_MASK = 3"

datatype table_level = Level1 | Level2 | Level3 | Level4

datatype mapping_strategy = Compact | Granular

type_synonym memory = "usize \<Rightarrow> usize"

datatype stop = Panic | Out_Of_Fuel

definition unwrap_then :: "'a option \<Rightarrow> ('a \<Rightarrow> stop + 'b) \<Rightarrow> stop + 'b" where
  "unwrap_then x f = (case x of None \<Rightarrow> Inl Panic | Some a \<Rightarrow> f a)"

definition run_then :: "stop + 'a \<Rightarrow> ('a \<Rightarrow> stop + 'b) \<Rightarrow> stop + 'b" where
  "run_then x f = (case x of Inl e \<Rightarrow> Inl e | Inr a \<Rightarrow> f a)"

lemma unwrap_then_simps [simp]: "unwrap_then None f = Inl Panic" "unwrap_then (Some a) f = f a"
  by (simp_all add: unwrap_then_def)

lemma run_then_simps [simp]: "run_then (Inl e) f = Inl e" "run_then (Inr a) f = f a"
  by (simp_all add: run_then_def)

lemma unwrap_then_cong [fundef_cong]:
  "x = y \<Longrightarrow> (\<And>a. y = Some a \<Longrightarrow> f a = g a) \<Longrightarrow> unwrap_then x f = unwrap_then y g"
  by (cases y) simp_all

lemma run_then_cong [fundef_cong]:
  "x = y \<Longrightarrow> (\<And>a. y = Inr a \<Longrightarrow> f a = g a) \<Longrightarrow> run_then x f = run_then y g"
  by (cases y) simp_all

section \<open>Descriptors\<close>

definition get_table_entry_size :: "table_level \<Rightarrow> usize" where
  "get_table_entry_size table_level =
     (case table_level of
        Level1 \<Rightarrow> push_bit LEVEL_1_SHIFT 1
      | Level2 \<Rightarrow> push_bit LEVEL_2_SHIFT 1
      | Level3 \<Rightarrow> push_bit LEVEL_3_SHIFT 1
      | Level4 \<Rightarrow> push_bit LEVEL_4_SHIFT 1)"

definition get_next_table :: "table_level \<Rightarrow> table_level option" where
  "get_next_table table_level =
     (case table_level of Level1 \<Rightarrow> Some Level2 | Level2 \<Rightarrow> Some Level3 | Level3 \<Rightarrow> Some Level4 | Level4 \<Rightarrow> None)"

definition get_phys_addr_from_descriptor :: "table_level \<Rightarrow> usize \<Rightarrow> usize option" where
  "get_phys_addr_from_descriptor table_level desc =
     (if desc AND TYPE_MASK = MM_PAGE_TABLE_FLAG then Some (desc AND TABLE_OR_PAGE_MASK)
      else if desc AND TYPE_MASK = MM_BLOCK_FLAG then
        (case table_level of
           Level2 \<Rightarrow> Some (desc AND LEVEL_2_BLOCK_MASK)
         | Level3 \<Rightarrow> Some (desc AND LEVEL_3_BLOCK_MASK)
         | _ \<Rightarrow> None)
      else None)"

definition make_block_descriptor :: "usize \<Rightarrow> usize \<Rightarrow> usize" where
  "make_block_descriptor phys_addr mair_idx = ((phys_addr OR push_bit 2 mair_idx) OR MM_ACCESS_FLAG) OR MM_BLOCK_FLAG"

definition make_page_descriptor :: "usize \<Rightarrow> usize \<Rightarrow> usize" where
  "make_page_descriptor phys_addr mair_idx = ((phys_addr OR push_bit 2 mair_idx) OR MM_ACCESS_FLAG) OR MM_PAGE_FLAG"

definition make_descriptor :: "table_level \<Rightarrow> usize \<Rightarrow> bool \<Rightarrow> usize option" where
  "make_descriptor table_level phys_addr device =
     (let mair_idx = (if device then MM_DEVICE_MAIR_IDX else MM_NORMAL_MAIR_IDX)
      in case table_level of
           Level2 \<Rightarrow> Some (make_block_descriptor (phys_addr AND LEVEL_2_BLOCK_MASK) mair_idx)
         | Level3 \<Rightarrow> Some (make_block_descriptor (phys_addr AND LEVEL_3_BLOCK_MASK) mair_idx)
         | Level4 \<Rightarrow> Some (make_page_descriptor (phys_addr AND TABLE_OR_PAGE_MASK) mair_idx)
         | Level1 \<Rightarrow> None)"

definition is_pointer_entry :: "table_level \<Rightarrow> usize \<Rightarrow> bool" where
  "is_pointer_entry table_level desc =
     (case table_level of Level4 \<Rightarrow> False | _ \<Rightarrow> desc AND TYPE_MASK = MM_PAGE_TABLE_FLAG)"

definition make_pointer_entry :: "table_level \<Rightarrow> usize \<Rightarrow> usize option option" where
  "make_pointer_entry table_level phys_addr =
     (case table_level of
        Level4 \<Rightarrow> Some None
      | _ \<Rightarrow> do {
          aligned \<leftarrow> is_aligned W64 phys_addr page_size;
          Some (if \<not> aligned then None else Some (phys_addr OR MM_PAGE_TABLE_FLAG)) })"

definition get_descriptor_index :: "usize \<Rightarrow> table_level \<Rightarrow> usize" where
  "get_descriptor_index virt_addr table_level =
     (case table_level of
        Level1 \<Rightarrow> drop_bit LEVEL_1_SHIFT virt_addr AND INDEX_MASK
      | Level2 \<Rightarrow> drop_bit LEVEL_2_SHIFT virt_addr AND INDEX_MASK
      | Level3 \<Rightarrow> drop_bit LEVEL_3_SHIFT virt_addr AND INDEX_MASK
      | Level4 \<Rightarrow> drop_bit LEVEL_4_SHIFT virt_addr AND INDEX_MASK)"

text \<open>\<open>get_table\<close>: the words of the page at a virtual address; an index below 512 is always in bounds.\<close>

definition table_get :: "memory \<Rightarrow> usize \<Rightarrow> usize \<Rightarrow> usize" where
  "table_get mem table_vaddr i = mem (table_vaddr + i * 8)"

definition table_set :: "memory \<Rightarrow> usize \<Rightarrow> usize \<Rightarrow> usize \<Rightarrow> memory" where
  "table_set mem table_vaddr i v = mem(table_vaddr + i * 8 := v)"

definition zero_table :: "memory \<Rightarrow> usize \<Rightarrow> memory" where
  "zero_table mem table_vaddr = (\<lambda>a. if table_vaddr \<le> a \<and> a < table_vaddr + TABLE_SIZE then 0 else mem a)"

section \<open>Filling the tables\<close>

text \<open>
  Constant arguments first: the allocator, the fuel of each compact loop, \<open>virtual_base\<close> and \<open>device\<close>. The state is
  the allocator's state and the memory.
\<close>

type_synonym 's page_alloc = "'s \<Rightarrow> usize \<Rightarrow> ('s \<times> block option) option"

definition level_rank :: "table_level \<Rightarrow> nat" where
  "level_rank l = (case l of Level1 \<Rightarrow> 3 | Level2 \<Rightarrow> 2 | Level3 \<Rightarrow> 1 | Level4 \<Rightarrow> 0)"

lemma next_table_rank: "get_next_table l = Some l' \<Longrightarrow> level_rank l' < level_rank l"
  by (cases l) (auto simp: get_next_table_def level_rank_def)

lemma entry_size_pos: "0 < get_table_entry_size l"
  by (cases l) (simp_all add: get_table_entry_size_def push_bit_eq_mult)

function fill_table ::
    "'s page_alloc \<Rightarrow> nat \<Rightarrow> usize \<Rightarrow> bool \<Rightarrow> 's \<times> memory \<Rightarrow> table_level \<Rightarrow> usize \<Rightarrow> usize \<Rightarrow> usize \<Rightarrow> usize \<Rightarrow> mapping_strategy \<Rightarrow>
     stop + 's \<times> memory"
  and fill_table_compact ::
    "'s page_alloc \<Rightarrow> nat \<Rightarrow> usize \<Rightarrow> bool \<Rightarrow> 's \<times> memory \<Rightarrow> table_level \<Rightarrow> usize \<Rightarrow> usize \<Rightarrow> usize \<Rightarrow> usize \<Rightarrow> stop + 's \<times> memory"
  and compact_loop ::
    "'s page_alloc \<Rightarrow> nat \<Rightarrow> usize \<Rightarrow> bool \<Rightarrow> 's \<times> memory \<Rightarrow> table_level \<Rightarrow> usize \<Rightarrow> nat \<Rightarrow> usize \<Rightarrow> usize \<Rightarrow> usize \<Rightarrow> stop + 's \<times> memory"
  and fill_table_granular ::
    "'s page_alloc \<Rightarrow> nat \<Rightarrow> usize \<Rightarrow> bool \<Rightarrow> 's \<times> memory \<Rightarrow> table_level \<Rightarrow> usize \<Rightarrow> usize \<Rightarrow> usize \<Rightarrow> usize \<Rightarrow> stop + 's \<times> memory"
  and granular_loop ::
    "'s page_alloc \<Rightarrow> nat \<Rightarrow> usize \<Rightarrow> bool \<Rightarrow> 's \<times> memory \<Rightarrow> table_level \<Rightarrow> usize \<Rightarrow> usize \<Rightarrow> usize \<Rightarrow> usize \<Rightarrow> stop + 's \<times> memory"
  and alloc_table_and_fill ::
    "'s page_alloc \<Rightarrow> nat \<Rightarrow> usize \<Rightarrow> bool \<Rightarrow> 's \<times> memory \<Rightarrow> table_level \<Rightarrow> usize \<Rightarrow> usize \<Rightarrow> usize \<Rightarrow> usize \<Rightarrow> mapping_strategy \<Rightarrow>
     stop + ('s \<times> memory) \<times> usize"
where
  "fill_table al n vb dev st table_level table_addr virt base sz strategy =
     (case strategy of
        Compact \<Rightarrow> fill_table_compact al n vb dev st table_level table_addr virt base sz
      | Granular \<Rightarrow> fill_table_granular al n vb dev st table_level table_addr virt base sz)"
| "fill_table_compact al n vb dev st table_level table_addr virt base sz =
     unwrap_then (is_aligned W64 base page_size) (\<lambda>ok. if \<not> ok then Inl Panic else
     unwrap_then (is_aligned W64 virt page_size) (\<lambda>ok. if \<not> ok then Inl Panic else
     unwrap_then (uadd W64 vb table_addr) (\<lambda>table.
       compact_loop al n vb dev st table_level table n virt base sz)))"
| "compact_loop al n vb dev st table_level table k virt base sz =
     (if sz < page_size then Inr st
      else case k of 0 \<Rightarrow> Inl Out_Of_Fuel | Suc k \<Rightarrow>
        (let entry_size = get_table_entry_size table_level;
             i = get_descriptor_index virt table_level
         in unwrap_then (is_aligned W64 virt entry_size) (\<lambda>aligned.
            run_then
              (if \<not> aligned \<or> sz < entry_size then
                 (let fill_size = (if \<not> aligned then sz AND (entry_size - 1) else sz)
                  in run_then (alloc_table_and_fill al n vb dev st table_level (table_get (snd st) table i) virt base fill_size Compact)
                       (\<lambda>(st, desc). Inr ((fst st, table_set (snd st) table i desc), fill_size)))
               else unwrap_then (make_descriptor table_level base dev)
                      (\<lambda>desc. Inr ((fst st, table_set (snd st) table i desc), entry_size)))
              (\<lambda>(st, fill_size).
                 unwrap_then (uadd W64 virt fill_size) (\<lambda>virt.
                 unwrap_then (uadd W64 base fill_size) (\<lambda>base.
                 unwrap_then (usub sz fill_size) (\<lambda>sz.
                   compact_loop al n vb dev st table_level table k virt base sz)))))))"
| "fill_table_granular al n vb dev st table_level table_addr virt base sz =
     unwrap_then (is_aligned W64 virt page_size) (\<lambda>ok. if \<not> ok then Inl Panic else
     unwrap_then (is_aligned W64 base page_size) (\<lambda>ok. if \<not> ok then Inl Panic else
     unwrap_then (uadd W64 vb table_addr) (\<lambda>table.
       granular_loop al n vb dev st table_level table virt base sz)))"
| "granular_loop al n vb dev st table_level table virt base sz =
     (let entry_size = get_table_entry_size table_level;
          i = get_descriptor_index virt table_level
      in run_then
           (if table_level \<noteq> Level4 then
              run_then (alloc_table_and_fill al n vb dev st table_level (table_get (snd st) table i) virt base sz Granular)
                (\<lambda>(st, desc). Inr (fst st, table_set (snd st) table i desc))
            else unwrap_then (make_descriptor table_level base dev)
                   (\<lambda>desc. Inr (fst st, table_set (snd st) table i desc)))
           (\<lambda>st. if sz \<le> entry_size then Inr st
             else unwrap_then (uadd W64 virt entry_size) (\<lambda>virt.
                  unwrap_then (uadd W64 base entry_size) (\<lambda>base.
                    granular_loop al n vb dev st table_level table virt base (sz - entry_size)))))"
| "alloc_table_and_fill al n vb dev st table_level desc virt base sz strategy =
     run_then
       (if \<not> is_pointer_entry table_level desc then
          unwrap_then (al (fst st) 1) (\<lambda>(a, r).
          unwrap_then r (\<lambda>(next_addr, _).
          unwrap_then (uadd W64 vb next_addr) (\<lambda>next_vaddr.
          unwrap_then (make_pointer_entry table_level next_addr) (\<lambda>d.
          unwrap_then d (\<lambda>desc. Inr ((a, zero_table (snd st) next_vaddr), desc))))))
        else Inr (st, desc))
       (\<lambda>(st, desc).
          unwrap_then (get_next_table table_level) (\<lambda>next.
          unwrap_then (get_phys_addr_from_descriptor table_level desc) (\<lambda>next_addr.
          run_then (fill_table al n vb dev st next next_addr virt base sz strategy) (\<lambda>st. Inr (st, desc)))))"
  by pat_completeness auto
termination
  by (relation "inv_image (less_than <*lex*> less_than <*lex*> less_than) (\<lambda>x. case x of
        Inl (Inl (al, n, vb, dev, st, l, t, virt, base, sz, s)) \<Rightarrow> (level_rank l, 3, 0)
      | Inl (Inr (Inl (al, n, vb, dev, st, l, t, virt, base, sz))) \<Rightarrow> (level_rank l, 2, 0)
      | Inl (Inr (Inr (al, n, vb, dev, st, l, t, k, virt, base, sz))) \<Rightarrow> (level_rank l, 1, k)
      | Inr (Inl (al, n, vb, dev, st, l, t, virt, base, sz)) \<Rightarrow> (level_rank l, 2, 0)
      | Inr (Inr (Inl (al, n, vb, dev, st, l, t, virt, base, sz))) \<Rightarrow> (level_rank l, 1, sz)
      | Inr (Inr (Inr (al, n, vb, dev, st, l, d, virt, base, sz, s))) \<Rightarrow> (level_rank l, 0, 0))")
    (auto simp: next_table_rank entry_size_pos)

declare fill_table.simps [simp del] fill_table_compact.simps [simp del] compact_loop.simps [simp del]
  fill_table_granular.simps [simp del] granular_loop.simps [simp del] alloc_table_and_fill.simps [simp del]

definition map_memory ::
    "'s page_alloc \<Rightarrow> nat \<Rightarrow> usize \<Rightarrow> usize \<Rightarrow> usize \<Rightarrow> usize \<Rightarrow> usize \<Rightarrow> bool \<Rightarrow> mapping_strategy \<Rightarrow> 's \<times> memory \<Rightarrow> stop + 's \<times> memory" where
  "map_memory al n vb pages_start virt base sz dev strategy st =
     fill_table al n vb dev st Level1 pages_start virt base sz strategy"

definition direct_map_memory ::
    "'s page_alloc \<Rightarrow> nat \<Rightarrow> usize \<Rightarrow> usize \<Rightarrow> usize \<Rightarrow> usize \<Rightarrow> bool \<Rightarrow> mapping_strategy \<Rightarrow> 's \<times> memory \<Rightarrow> stop + 's \<times> memory" where
  "direct_map_memory al n vb pages_start base sz dev strategy st =
     unwrap_then (uadd W64 vb base) (\<lambda>virt. fill_table al n vb dev st Level1 pages_start virt base sz strategy)"

end
