(* ===== verification/Page_Walks.thy ===== *)
theory Page_Walks
  imports Page_Tables Buddy_Runs
begin

text \<open>
  Translation by the tables: what the memory management unit finds on a walk from a table, which tables it can
  reach, and how the tables stand in memory without overlap. A depth counts the levels below a table: 0 is
  \<open>Level4\<close>, 3 is \<open>Level1\<close>.
\<close>

section \<open>Levels\<close>

definition lev :: "nat \<Rightarrow> table_level" where
  "lev d = (if d = 0 then Level4 else if d = 1 then Level3 else if d = 2 then Level2 else Level1)"

text \<open>The bytes that one entry covers, and a whole table of 512 entries.\<close>

definition esz :: "nat \<Rightarrow> nat" where
  "esz d = 2 ^ (12 + 9 * d)"

lemma esz_pos [simp]: "0 < esz d"
  by (simp add: esz_def)

lemma esz_Suc: "esz (Suc d) = 512 * esz d"
  by (simp add: esz_def power_add)

lemma esz_dvd: "d \<le> e \<Longrightarrow> esz d dvd esz e"
  by (simp add: esz_def le_imp_power_dvd)

lemma page_dvd_esz: "4096 dvd esz d"
  using esz_dvd [of 0 d] by (simp add: esz_def)

lemmas shift_defs = LEVEL_1_SHIFT_def LEVEL_2_SHIFT_def LEVEL_3_SHIFT_def LEVEL_4_SHIFT_def TABLE_SHIFT_def page_shift_def

lemma depth_cases: "d \<le> 3 \<Longrightarrow> (d = 0 \<Longrightarrow> P) \<Longrightarrow> (d = 1 \<Longrightarrow> P) \<Longrightarrow> (d = 2 \<Longrightarrow> P) \<Longrightarrow> (d = 3 \<Longrightarrow> P) \<Longrightarrow> P" for d :: nat
  by linarith

lemma entry_size_lev: "d \<le> 3 \<Longrightarrow> get_table_entry_size (lev d) = esz d"
  by (erule depth_cases) (simp_all add: get_table_entry_size_def lev_def esz_def shift_defs push_bit_eq_mult)

lemma next_lev: "d < 3 \<Longrightarrow> get_next_table (lev (Suc d)) = Some (lev d)"
  by (rule depth_cases [of d]) (simp_all add: get_next_table_def lev_def)

lemma index_lev: "d \<le> 3 \<Longrightarrow> get_descriptor_index v (lev d) = v mod esz (Suc d) div esz d"
proof -
  assume d: "d \<le> 3"
  have m: "INDEX_MASK = mask 9" by (simp add: INDEX_MASK_def TABLE_SHIFT_def mask_eq_exp_minus_1 push_bit_eq_mult)
  have "get_descriptor_index v (lev d) = v div esz d mod 512" using d
    by (rule depth_cases)
      (simp_all add: get_descriptor_index_def lev_def m esz_def shift_defs drop_bit_eq_div take_bit_eq_mask [symmetric] take_bit_eq_mod)
  then show ?thesis by (simp add: esz_Suc mult.commute [of 512] mod_mult2_eq)
qed

lemma index_less: "v mod esz (Suc d) div esz d < 512"
proof -
  have "v mod esz (Suc d) < 512 * esz d" unfolding esz_Suc by simp
  then show ?thesis by (simp add: less_mult_imp_div_less)
qed

section \<open>Descriptors\<close>

text \<open>The output address of a descriptor whose address field starts at bit \<open>k\<close>, its attribute index and its access flag.\<close>

definition out_addr :: "nat \<Rightarrow> usize \<Rightarrow> usize" where
  "out_addr k desc = desc div 2 ^ k mod 2 ^ (48 - k) * 2 ^ k"

definition attr_index :: "usize \<Rightarrow> usize" where
  "attr_index desc = desc div 4 mod 8"

definition accessible :: "usize \<Rightarrow> bool" where
  "accessible desc \<longleftrightarrow> desc div 1024 mod 2 = 1"

lemma and_field: "x AND push_bit k (mask m) = x div 2 ^ k mod 2 ^ m * 2 ^ k" for x :: nat
proof -
  have "x AND push_bit k (mask m) = push_bit k (take_bit m (drop_bit k x))"
    by (rule bit_eqI) (auto simp: bit_simps)
  then show ?thesis by (simp add: push_bit_eq_mult take_bit_eq_mod drop_bit_eq_div)
qed

lemma mask_fields:
  "x AND TABLE_OR_PAGE_MASK = out_addr 12 x" "x AND LEVEL_3_BLOCK_MASK = out_addr 21 x" "x AND LEVEL_2_BLOCK_MASK = out_addr 30 x"
proof -
  have "TABLE_OR_PAGE_MASK = push_bit 12 (mask 36)" "LEVEL_3_BLOCK_MASK = push_bit 21 (mask 27)" "LEVEL_2_BLOCK_MASK = push_bit 30 (mask 18)"
    by (simp_all add: TABLE_OR_PAGE_MASK_def LEVEL_3_BLOCK_MASK_def LEVEL_2_BLOCK_MASK_def mask_eq_exp_minus_1 push_bit_eq_mult)
  then show "x AND TABLE_OR_PAGE_MASK = out_addr 12 x" "x AND LEVEL_3_BLOCK_MASK = out_addr 21 x" "x AND LEVEL_2_BLOCK_MASK = out_addr 30 x"
    using and_field [of x 12 36] and_field [of x 21 27] and_field [of x 30 18] by (simp_all only: out_addr_def) simp_all
qed

lemma type_mask: "desc AND TYPE_MASK = desc mod 4"
  using take_bit_eq_mask [of 2 desc] by (simp add: TYPE_MASK_def mask_eq_exp_minus_1 take_bit_eq_mod)

lemma or_low: "4096 dvd a \<Longrightarrow> b < 4096 \<Longrightarrow> a OR b = a + b" for a b :: nat
proof -
  assume a: "4096 dvd a" and b: "b < 4096"
  obtain q where q: "a = push_bit 12 q" using a by (auto simp: push_bit_eq_mult dvd_def mult.commute)
  have "\<not> bit b i" if "12 \<le> i" for i using b that less_exp_iff_bits [of b 12] by simp
  then have "a AND b = 0" unfolding q by (intro bit_eqI) (auto simp: bit_and_iff bit_push_bit_iff)
  then show ?thesis by (metis disjunctive_add_eq_or)
qed

lemma out_addr_aligned: "2 ^ k dvd a \<Longrightarrow> a < 2 ^ 48 \<Longrightarrow> b < 2 ^ k \<Longrightarrow> k \<le> 48 \<Longrightarrow> out_addr k (a + b) = a"
proof -
  assume a: "2 ^ k dvd a" "a < 2 ^ 48" "b < 2 ^ k" "k \<le> 48"
  then obtain q where q: "a = 2 ^ k * q" by blast
  have "2 ^ k * q < 2 ^ k * 2 ^ (48 - k)" using a(2,4) unfolding q by (simp flip: power_add)
  then have "q < 2 ^ (48 - k)" by simp
  with a(3) show ?thesis by (simp add: q out_addr_def)
qed

text \<open>What \<open>make_descriptor\<close> builds.\<close>

definition mair_of :: "bool \<Rightarrow> usize" where
  "mair_of dev = (if dev then 1 else 0)"

lemma or_flags:
  fixes base m f :: nat
  assumes "4096 dvd base" "m \<le> 1" "f = 1 \<or> f = 3"
  shows "((base OR push_bit 2 m) OR push_bit 10 1) OR f = base + (m * 4 + 1024 + f)"
proof -
  have "((base OR push_bit 2 m) OR push_bit 10 1) OR f = base OR ((push_bit 2 m OR push_bit 10 1) OR f)"
    by (simp only: or.assoc)
  also have "(push_bit 2 m OR push_bit 10 1) OR f = m * 4 + 1024 + f"
    using assms(2,3) by (auto simp: le_Suc_eq push_bit_eq_mult)
  finally show ?thesis using or_low [OF assms(1), of "m * 4 + 1024 + f"] assms(2,3) by auto
qed

lemma make_descriptor_lev:
  assumes "d \<le> 2" "esz d dvd base" "base < 2 ^ 48"
  shows "make_descriptor (lev d) base dev = Some (base + (mair_of dev * 4 + 1024 + (if d = 0 then 3 else 1)))"
proof -
  have b: "4096 dvd base" using assms(2) page_dvd_esz dvd_trans by blast
  have o: "out_addr (12 + 9 * d) base = base"
    using out_addr_aligned [of "12 + 9 * d" base 0] assms by (simp add: esz_def)
  have low: "((base OR push_bit 2 m) OR MM_ACCESS_FLAG) OR f = base + (m * 4 + 1024 + f)" if "m \<le> 1" "f = 1 \<or> f = 3" for m f
    unfolding MM_ACCESS_FLAG_def using or_flags [OF b that] .
  consider "d = 0" | "d = 1" | "d = 2" using assms(1) by linarith
  then show ?thesis
    by cases (use o low in \<open>simp_all add: make_descriptor_def lev_def mask_fields make_page_descriptor_def make_block_descriptor_def
      MM_PAGE_FLAG_def MM_BLOCK_FLAG_def MM_DEVICE_MAIR_IDX_def MM_NORMAL_MAIR_IDX_def mair_of_def\<close>)
qed

lemma descriptor_fields:
  assumes "4096 dvd base" "f < 4"
  shows "(base + (mair_of dev * 4 + 1024 + f)) mod 4 = f" "attr_index (base + (mair_of dev * 4 + 1024 + f)) = mair_of dev"
    "accessible (base + (mair_of dev * 4 + 1024 + f))"
proof -
  obtain q where q: "base = 4096 * q" using assms(1) by blast
  have e: "base + (mair_of dev * 4 + 1024 + f) = 4 * (1024 * q + mair_of dev + 256) + f" unfolding q by simp
  then show "(base + (mair_of dev * 4 + 1024 + f)) mod 4 = f" using assms(2) by (simp only: mod_mult_self4) simp
  have "(4 * (1024 * q + mair_of dev + 256) + f) div 4 = 8 * (128 * q + 32) + mair_of dev" using assms(2) by simp
  then show "attr_index (base + (mair_of dev * 4 + 1024 + f)) = mair_of dev"
    unfolding attr_index_def e by (simp only: mod_mult_self4) (simp add: mair_of_def)
  have "base + (mair_of dev * 4 + 1024 + f) = 1024 * (2 * (2 * q) + 1) + (mair_of dev * 4 + f)" unfolding q by simp
  moreover have "mair_of dev * 4 + f < 1024" using assms(2) by (simp add: mair_of_def)
  ultimately have "(base + (mair_of dev * 4 + 1024 + f)) div 1024 = 2 * (2 * q) + 1" by (simp only: div_mult_self2 div_less) simp
  then show "accessible (base + (mair_of dev * 4 + 1024 + f))" unfolding accessible_def by (simp only: mod_mult_self4) simp
qed

lemma make_pointer_lev:
  assumes "0 < d" "d \<le> 3" "4096 dvd p" "p < 2 ^ 48"
  shows "make_pointer_entry (lev d) p = Some (Some (p + 3))" "(p + 3) mod 4 = 3" "out_addr 12 (p + 3) = p"
proof -
  have "is_aligned W64 p page_size = Some True"
    using is_aligned_eq [of p W64 12] assms(3,4) by (simp add: page_size_def)
  then show "make_pointer_entry (lev d) p = Some (Some (p + 3))"
    using assms(1,2) or_low [OF assms(3), of 3] by (cases rule: depth_cases [OF assms(2)]) (simp_all add: make_pointer_entry_def lev_def MM_PAGE_TABLE_FLAG_def)
  obtain q where "p = 4096 * q" using assms(3) by blast
  then show "(p + 3) mod 4 = 3" by presburger
  show "out_addr 12 (p + 3) = p" using out_addr_aligned [of 12 p 3] assms(3,4) by simp
qed

lemma is_pointer_lev: "d \<le> 3 \<Longrightarrow> is_pointer_entry (lev d) desc \<longleftrightarrow> 0 < d \<and> desc mod 4 = 3"
  by (erule depth_cases) (simp_all add: is_pointer_entry_def lev_def type_mask MM_PAGE_TABLE_FLAG_def)

lemma phys_addr_pointer: "desc mod 4 = 3 \<Longrightarrow> get_phys_addr_from_descriptor l desc = Some (out_addr 12 desc)"
  by (simp add: get_phys_addr_from_descriptor_def type_mask mask_fields MM_PAGE_TABLE_FLAG_def)

section \<open>Walks\<close>

text \<open>
  The translation of a virtual address from a table of depth \<open>d\<close>: the physical address and the attribute index. A
  page at depth 0 and a block at depth 1 or 2 translate when the access flag is set.
\<close>

abbreviation entry :: "memory \<Rightarrow> usize \<Rightarrow> usize \<Rightarrow> nat \<Rightarrow> usize" where
  "entry mem vb t i \<equiv> table_get mem (vb + t) i"

abbreviation slot :: "nat \<Rightarrow> usize \<Rightarrow> nat" where
  "slot d va \<equiv> va mod esz (Suc d) div esz d"

definition leaf :: "nat \<Rightarrow> usize \<Rightarrow> usize \<Rightarrow> (usize \<times> usize) option" where
  "leaf d desc va =
     (if (if d = 0 then desc mod 4 = 3 else desc mod 4 = 1 \<and> d \<le> 2) \<and> accessible desc
      then Some (out_addr (12 + 9 * d) desc + va mod esz d, attr_index desc) else None)"

primrec walk :: "nat \<Rightarrow> memory \<Rightarrow> usize \<Rightarrow> usize \<Rightarrow> usize \<Rightarrow> (usize \<times> usize) option" where
  "walk 0 mem vb t va = leaf 0 (entry mem vb t (slot 0 va)) va"
| "walk (Suc d) mem vb t va =
     (let desc = entry mem vb t (slot (Suc d) va)
      in if desc mod 4 = 3 then walk d mem vb (out_addr 12 desc) va else leaf (Suc d) desc va)"

lemma walk_mod: "va mod esz (Suc d) = va' mod esz (Suc d) \<Longrightarrow> walk d mem vb t va = walk d mem vb t va'"
proof (induction d arbitrary: t)
  case 0
  then have "va mod esz 0 = va' mod esz 0" using mod_mod_cancel [OF esz_dvd [of 0 1]] by (metis One_nat_def zero_le_one)
  with 0 show ?case by (simp add: leaf_def)
next
  case (Suc d)
  then have "va mod esz (Suc d) = va' mod esz (Suc d)"
    using mod_mod_cancel [OF esz_dvd [of "Suc d" "Suc (Suc d)"]] by (metis le_add2 plus_1_eq_Suc)
  with Suc show ?case by (simp add: leaf_def Let_def)
qed

text \<open>The tables that walks from a table reach, and that they form a tree of separate pages.\<close>

definition ptrs :: "memory \<Rightarrow> usize \<Rightarrow> usize \<Rightarrow> nat set" where
  "ptrs mem vb t = {i. i < 512 \<and> entry mem vb t i mod 4 = 3}"

abbreviation child :: "memory \<Rightarrow> usize \<Rightarrow> usize \<Rightarrow> nat \<Rightarrow> usize" where
  "child mem vb t i \<equiv> out_addr 12 (entry mem vb t i)"

primrec tables :: "nat \<Rightarrow> memory \<Rightarrow> usize \<Rightarrow> usize \<Rightarrow> usize set" where
  "tables 0 mem vb t = {t}"
| "tables (Suc d) mem vb t = insert t (\<Union>i\<in>ptrs mem vb t. tables d mem vb (child mem vb t i))"

definition table_at :: "usize \<Rightarrow> usize \<Rightarrow> bool" where
  "table_at vb t \<longleftrightarrow> 4096 dvd t \<and> t < 2 ^ 48 \<and> vb + t < 2 ^ 64"

primrec tree_ok :: "nat \<Rightarrow> memory \<Rightarrow> usize \<Rightarrow> usize \<Rightarrow> bool" where
  "tree_ok 0 mem vb t \<longleftrightarrow> table_at vb t"
| "tree_ok (Suc d) mem vb t \<longleftrightarrow> table_at vb t
     \<and> (\<forall>i\<in>ptrs mem vb t. tree_ok d mem vb (child mem vb t i) \<and> t \<notin> tables d mem vb (child mem vb t i))
     \<and> (\<forall>i\<in>ptrs mem vb t. \<forall>j\<in>ptrs mem vb t. i \<noteq> j \<longrightarrow> tables d mem vb (child mem vb t i) \<inter> tables d mem vb (child mem vb t j) = {})"

lemma tables_self [simp]: "t \<in> tables d mem vb t"
  by (cases d) simp_all

lemma tree_ok_table: "tree_ok d mem vb t \<Longrightarrow> table_at vb t"
  by (cases d) simp_all

text \<open>Memories that agree on the words of given tables.\<close>

definition agree :: "memory \<Rightarrow> memory \<Rightarrow> usize \<Rightarrow> usize set \<Rightarrow> bool" where
  "agree mem mem' vb T \<longleftrightarrow> (\<forall>t\<in>T. \<forall>i<512. entry mem' vb t i = entry mem vb t i)"

lemma agree_entry: "agree mem mem' vb T \<Longrightarrow> t \<in> T \<Longrightarrow> i < 512 \<Longrightarrow> entry mem' vb t i = entry mem vb t i"
  by (simp add: agree_def)

lemma agree_mono: "agree mem mem' vb T \<Longrightarrow> U \<subseteq> T \<Longrightarrow> agree mem mem' vb U"
  by (auto simp: agree_def)

lemma agree_trans: "agree m m1 vb T \<Longrightarrow> agree m1 m2 vb T \<Longrightarrow> agree m m2 vb T"
  by (simp add: agree_def)

lemma agree_refl [simp]: "agree m m vb T"
  by (simp add: agree_def)

lemma ptrs_agree: "agree mem mem' vb T \<Longrightarrow> t \<in> T \<Longrightarrow> ptrs mem' vb t = ptrs mem vb t"
  by (auto simp: ptrs_def agree_def)

lemma tree_agree:
  assumes "agree mem mem' vb (tables d mem vb t)"
  shows "tables d mem' vb t = tables d mem vb t" "tree_ok d mem' vb t \<longleftrightarrow> tree_ok d mem vb t" "walk d mem' vb t va = walk d mem vb t va"
  using assms
proof (induction d arbitrary: t)
  case 0
  {
    case 3
    then show ?case using index_less [of va 0] by (simp add: agree_def)
  }
next
  case (Suc d)
  {
    fix t
    assume a: "agree mem mem' vb (tables (Suc d) mem vb t)"
    then have e: "entry mem' vb t i = entry mem vb t i" if "i < 512" for i using that agree_entry by simp
    have p: "ptrs mem' vb t = ptrs mem vb t" using a by (intro ptrs_agree) auto
    have i: "i < 512" if "i \<in> ptrs mem vb t" for i using that by (simp add: ptrs_def)
    have c: "agree mem mem' vb (tables d mem vb (child mem vb t i))" if "i \<in> ptrs mem vb t" for i
      using agree_mono [OF a] that by auto
    note ih = Suc.IH(1) [OF c] Suc.IH(2) [OF c] Suc.IH(3) [OF c]
    note e p i c ih
  }
  note * = this
  {
    case 1
    from *(1-3) [OF 1] *(5) [OF 1] show ?case by (simp cong: SUP_cong_simp)
  next
    case 2
    from *(1-3) [OF 2] *(5,6) [OF 2] show ?case by (simp cong: ball_cong)
  next
    case 3
    have "slot (Suc d) va < 512" by (rule index_less)
    then show ?case using *(1) [OF 3] *(7) [OF 3, of "slot (Suc d) va"] by (auto simp: ptrs_def Let_def)
  }
qed simp_all

section \<open>Writing entries\<close>

lemma table_word_less: "i < 512 \<Longrightarrow> i * 8 + 8 \<le> (4096::nat)"
  by simp

lemma table_words_apart:
  assumes "table_at vb t" "table_at vb u" "t \<noteq> u" "x < 4096" "y < 4096"
  shows "vb + t + x \<noteq> vb + u + y"
proof
  assume "vb + t + x = vb + u + y"
  moreover have "4096 dvd t" "4096 dvd u" using assms(1,2) by (simp_all add: table_at_def)
  then obtain p q where "t = 4096 * p" "u = 4096 * q" by (elim dvdE)
  ultimately have "4096 * p + x = 4096 * q + y" by simp
  then have "(4096 * p + x) div 4096 = (4096 * q + y) div 4096" by simp
  with assms(3-5) \<open>t = 4096 * p\<close> \<open>u = 4096 * q\<close> show False by simp
qed

lemma entry_set: "entry (table_set mem (vb + t) i v) vb t j = (if j = i then v else entry mem vb t j)"
  by (simp add: table_get_def table_set_def)

lemma entry_set_other:
  "table_at vb t \<Longrightarrow> table_at vb u \<Longrightarrow> t \<noteq> u \<Longrightarrow> i < 512 \<Longrightarrow> j < 512 \<Longrightarrow> entry (table_set mem (vb + t) i v) vb u j = entry mem vb u j"
  using table_words_apart [of vb t u "i * 8" "j * 8"] by (simp add: table_get_def table_set_def)

lemma entry_zero: "i < 512 \<Longrightarrow> entry (zero_table mem (vb + p)) vb p i = 0"
  by (simp add: table_get_def zero_table_def TABLE_SIZE_def page_size_def)

lemma entry_zero_other:
  assumes "table_at vb p" "table_at vb u" "p \<noteq> u" "j < 512"
  shows "entry (zero_table mem (vb + p)) vb u j = entry mem vb u j"
proof -
  have "\<not> (vb + p \<le> vb + u + j * 8 \<and> vb + u + j * 8 < vb + p + 4096)"
    using table_words_apart [OF assms(1-3), of "vb + u + j * 8 - (vb + p)" "j * 8"] assms(4) by (auto simp: less_diff_conv2)
  then show ?thesis by (auto simp: table_get_def zero_table_def TABLE_SIZE_def page_size_def)
qed

lemma tree_tables_at: "tree_ok d mem vb t \<Longrightarrow> u \<in> tables d mem vb t \<Longrightarrow> table_at vb u"
proof (induction d arbitrary: t)
  case (Suc d)
  show ?case
  proof (cases "u = t")
    case False
    then obtain i where i: "i \<in> ptrs mem vb t" "u \<in> tables d mem vb (child mem vb t i)" using Suc.prems(2) by auto
    then show ?thesis using Suc.prems(1) by (intro Suc.IH [OF _ i(2)]) simp
  qed (use Suc.prems(1) in simp)
qed simp

lemma set_agree:
  assumes "table_at vb t" "\<forall>u\<in>U. table_at vb u" "t \<notin> U" "i < 512"
  shows "agree mem (table_set mem (vb + t) i v) vb U"
  unfolding agree_def using assms entry_set_other by metis

lemma zero_agree:
  assumes "table_at vb p" "\<forall>u\<in>U. table_at vb u" "p \<notin> U"
  shows "agree mem (zero_table mem (vb + p)) vb U"
  unfolding agree_def using assms entry_zero_other by metis

text \<open>The tables below the entries of a table other than one.\<close>

definition rest :: "nat \<Rightarrow> memory \<Rightarrow> usize \<Rightarrow> usize \<Rightarrow> nat \<Rightarrow> usize set" where
  "rest d mem vb t i = (\<Union>j\<in>ptrs mem vb t - {i}. tables d mem vb (child mem vb t j))"

lemma rest_sub: "insert t (rest d mem vb t i) \<subseteq> tables (Suc d) mem vb t"
  by (auto simp: rest_def)

lemma rest_same:
  assumes "agree m0 m vb (rest d m0 vb t i)" "j \<in> ptrs m0 vb t" "j \<noteq> i"
  shows "tables d m vb (child m0 vb t j) = tables d m0 vb (child m0 vb t j)"
    "tree_ok d m vb (child m0 vb t j) \<longleftrightarrow> tree_ok d m0 vb (child m0 vb t j)"
    "walk d m vb (child m0 vb t j) va = walk d m0 vb (child m0 vb t j) va"
  using tree_agree [OF agree_mono [OF assms(1)], of d "child m0 vb t j"] assms(2,3) by (auto simp: rest_def)

text \<open>An entry becomes a page or block.\<close>

lemma leaf_entry:
  assumes "tree_ok (Suc d) m0 vb t" "i < 512" "desc mod 4 \<noteq> 3"
  defines "m \<equiv> table_set m0 (vb + t) i desc"
  shows "tree_ok (Suc d) m vb t" "tables (Suc d) m vb t = insert t (rest d m0 vb t i)"
    "walk (Suc d) m vb t va = (if slot (Suc d) va = i then leaf (Suc d) desc va else walk (Suc d) m0 vb t va)"
proof -
  have t: "table_at vb t" using assms(1) by simp
  have e: "entry m vb t j = (if j = i then desc else entry m0 vb t j)" for j unfolding m_def by (rule entry_set)
  have p: "ptrs m vb t = ptrs m0 vb t - {i}" using assms(3) by (auto simp: ptrs_def e)
  have "t \<notin> rest d m0 vb t i" using assms(1) by (auto simp: rest_def)
  moreover have "\<forall>u\<in>rest d m0 vb t i. table_at vb u" using tree_tables_at [OF assms(1)] rest_sub by blast
  ultimately have a: "agree m0 m vb (rest d m0 vb t i)" unfolding m_def using set_agree t assms(2) by blast
  note s = rest_same [OF a]
  show "tables (Suc d) m vb t = insert t (rest d m0 vb t i)" using s(1) by (auto simp: p e rest_def)
  show "tree_ok (Suc d) m vb t" using assms(1) s(1,2) by (simp add: p e)
  show "walk (Suc d) m vb t va = (if slot (Suc d) va = i then leaf (Suc d) desc va else walk (Suc d) m0 vb t va)"
    using s(3) index_less [of va "Suc d"] assms(3) by (simp add: Let_def e ptrs_def)
qed

text \<open>An entry points to a table of the next level that stands apart from the others.\<close>

lemma pointer_entry:
  assumes "tree_ok (Suc d) m0 vb t" "i < 512" "desc mod 4 = 3" "out_addr 12 desc = c"
    and m1: "agree m0 m1 vb (insert t (rest d m0 vb t i))" "tree_ok d m1 vb c" "insert t (rest d m0 vb t i) \<inter> tables d m1 vb c = {}"
  defines "m \<equiv> table_set m1 (vb + t) i desc"
  shows "tree_ok (Suc d) m vb t" "tables (Suc d) m vb t = insert t (rest d m0 vb t i) \<union> tables d m1 vb c"
    "walk (Suc d) m vb t va = (if slot (Suc d) va = i then walk d m1 vb c va else walk (Suc d) m0 vb t va)"
proof -
  have t: "table_at vb t" using assms(1) by simp
  have e: "entry m vb t j = (if j = i then desc else entry m0 vb t j)" if "j < 512" for j
    unfolding m_def entry_set using agree_entry [OF m1(1) _ that, of t] by simp
  have p: "ptrs m vb t = insert i (ptrs m0 vb t - {i})" using assms(2,3) by (auto simp: ptrs_def e)
  have tn: "t \<notin> rest d m0 vb t i" "t \<notin> tables d m1 vb c" using assms(1) m1(3) by (auto simp: rest_def)
  have "\<forall>u\<in>rest d m0 vb t i. table_at vb u" using tree_tables_at [OF assms(1)] rest_sub by blast
  then have a: "agree m0 m vb (rest d m0 vb t i)"
    unfolding m_def using set_agree [OF t _ tn(1) assms(2)] agree_mono [OF m1(1)] agree_trans by (metis subset_insertI)
  have "\<forall>u\<in>tables d m1 vb c. table_at vb u" using tree_tables_at [OF m1(2)] by blast
  then have ac: "agree m1 m vb (tables d m1 vb c)" unfolding m_def using set_agree [OF t _ tn(2) assms(2)] by blast
  note s = rest_same [OF a] and c = tree_agree [OF ac]
  have ch: "child m vb t j = child m0 vb t j" if "j \<in> ptrs m0 vb t - {i}" for j using that by (simp add: e ptrs_def)
  have ci: "child m vb t i = c" using assms(2,4) by (simp add: e)
  have "(\<Union>j\<in>ptrs m0 vb t - {i}. tables d m vb (child m vb t j)) = rest d m0 vb t i"
    unfolding rest_def using s(1) ch by (intro SUP_cong) auto
  then show "tables (Suc d) m vb t = insert t (rest d m0 vb t i) \<union> tables d m1 vb c"
    unfolding tables.simps p UN_insert ci c(1) by blast
  have dj: "tables d m1 vb c \<inter> tables d m0 vb (child m0 vb t j) = {}" if "j \<in> ptrs m0 vb t" "j \<noteq> i" for j
    using m1(3) that by (auto simp: rest_def)
  have x: "tables d m vb (child m vb t j) = (if j = i then tables d m1 vb c else tables d m0 vb (child m0 vb t j))"
      "tree_ok d m vb (child m vb t j)" if "j \<in> ptrs m vb t" for j
    using that assms(1) s(1,2) [of j] ch [of j] ci c(1,2) m1(2) unfolding p by (cases "j = i"; simp)+
  have "tables d m vb (child m vb t j) \<inter> tables d m vb (child m vb t k) = {}" if "j \<in> ptrs m vb t" "k \<in> ptrs m vb t" "j \<noteq> k" for j k
    unfolding x(1) [OF that(1)] x(1) [OF that(2)]
    using that dj [of j] dj [of k] assms(1) unfolding p by (cases "j = i"; cases "k = i") (simp_all add: Int_commute)
  moreover have "t \<notin> tables d m vb (child m vb t j)" if "j \<in> ptrs m vb t" for j
    unfolding x(1) [OF that] using that assms(1) tn(2) unfolding p by auto
  ultimately show "tree_ok (Suc d) m vb t" using t x(2) by simp
  show "walk (Suc d) m vb t va = (if slot (Suc d) va = i then walk d m1 vb c va else walk (Suc d) m0 vb t va)"
    using s(3) c(3) index_less [of va "Suc d"] assms(3,4) by (simp add: Let_def e ptrs_def)
qed

end
