(* ===== verification/Buffered_Allocator.thy ===== *)
theory Buffered_Allocator
  imports Bitmap Page_Source
begin

text \<open>
  \<open>BufferedPageAllocator\<close> of \<open>src/arch/common/memory.rs\<close>: single pages from a block of memory set
  aside at boot, one bit of a bitmap per page. The proofs use the bitmap through the interface
  \<open>index_set\<close> only, and the allocator is an instance of \<open>page_source\<close>.
\<close>

section \<open>Data and operations\<close>

record buffered =
  bp_bitmap :: bitmap
  bp_page_size :: usize
  bp_page_shift :: usize
  bp_start_addr :: usize
  bp_end_addr :: usize

definition buffered_new :: "width \<Rightarrow> usize \<Rightarrow> usize \<Rightarrow> usize \<Rightarrow> usize \<Rightarrow> buffered option" where
  "buffered_new w bitmap_words start_addr end_addr page_size = do {
     assert_that (is_power_of_2 page_size);
     a \<leftarrow> is_aligned w start_addr page_size;
     assert_that a;
     a \<leftarrow> is_aligned w end_addr page_size;
     assert_that a;
     assert_that (end_addr > start_addr);
     page_shift \<leftarrow> floor_log2 w page_size;
     d \<leftarrow> usub end_addr start_addr;
     pages \<leftarrow> ushr w d page_shift;
     bm \<leftarrow> bitmap_new w bitmap_words pages;
     Some \<lparr>bp_bitmap = bm, bp_page_size = page_size, bp_page_shift = page_shift,
           bp_start_addr = start_addr, bp_end_addr = end_addr\<rparr> }"

definition buffered_alloc :: "width \<Rightarrow> buffered \<Rightarrow> usize \<Rightarrow> (buffered \<times> block option) option" where
  "buffered_alloc w s pages =
     (if pages \<noteq> 1 then Some (s, None)
      else do {
        first \<leftarrow> first_zero w (bp_bitmap s);
        case first of
          Some z \<Rightarrow> do {
            bm \<leftarrow> set_bit_at w (bp_bitmap s) z;
            off \<leftarrow> umul w z (bp_page_size s);
            addr \<leftarrow> uadd w (bp_start_addr s) off;
            Some (s\<lparr>bp_bitmap := bm\<rparr>, Some (addr, 1)) }
        | None \<Rightarrow> Some (s, None) })"

definition buffered_free :: "width \<Rightarrow> buffered \<Rightarrow> usize \<Rightarrow> usize \<Rightarrow> buffered option" where
  "buffered_free w s addr pages = do {
     assert_that (pages = 1);
     assert_that (addr \<ge> bp_start_addr s \<and> addr < bp_end_addr s);
     a \<leftarrow> is_aligned w addr (bp_page_size s);
     assert_that a;
     z \<leftarrow> ushr w addr (bp_page_shift s);
     bm \<leftarrow> clear_bit w (bp_bitmap s) z;
     Some (s\<lparr>bp_bitmap := bm\<rparr>) }"

definition buffered_get_alloc_mem :: "width \<Rightarrow> buffered \<Rightarrow> usize option" where
  "buffered_get_alloc_mem w s = do {
     pages \<leftarrow> bitmap_ones w (bp_bitmap s);
     ushl w pages (bp_page_shift s) }"

definition buffered_get_free_mem :: "width \<Rightarrow> buffered \<Rightarrow> usize option" where
  "buffered_get_free_mem w s = do {
     n \<leftarrow> bitmap_ones w (bp_bitmap s);
     pages \<leftarrow> usub (bitmap_len (bp_bitmap s)) n;
     ushl w pages (bp_page_shift s) }"

section \<open>Invariant\<close>

definition bp_inv :: "width \<Rightarrow> buffered \<Rightarrow> bool" where
  "bp_inv w s \<longleftrightarrow> bm_ok w (bp_bitmap s) \<and> bp_page_size s = 2 ^ bp_page_shift s \<and> bp_page_shift s < word_bits w
     \<and> bp_page_size s dvd bp_start_addr s
     \<and> bp_start_addr s + bm_bits (bp_bitmap s) * bp_page_size s \<le> bp_end_addr s \<and> bp_end_addr s < usize_lim w"

definition page_addr :: "buffered \<Rightarrow> nat \<Rightarrow> usize" where
  "page_addr s i = bp_start_addr s + i * bp_page_size s"

definition bp_blocks :: "width \<Rightarrow> buffered \<Rightarrow> block set" where
  "bp_blocks w s = (\<lambda>i. (page_addr s i, 1)) ` members w (bp_bitmap s)"

definition bp_area :: "buffered \<Rightarrow> nat set" where
  "bp_area s = {bp_start_addr s..<bp_end_addr s}"

lemma bp_inv_bitmap [dest]: "bp_inv w s \<Longrightarrow> bm_ok w (bp_bitmap s)"
  by (simp add: bp_inv_def)

lemma bp_inv_size_pos: "bp_inv w s \<Longrightarrow> 0 < bp_page_size s"
  by (simp add: bp_inv_def)

lemma page_addr_less:
  assumes "bp_inv w s" "i < bm_bits (bp_bitmap s)"
  shows "page_addr s i + bp_page_size s \<le> bp_end_addr s" "i * bp_page_size s < usize_lim w" "page_addr s i < usize_lim w"
proof -
  have "Suc i * bp_page_size s \<le> bm_bits (bp_bitmap s) * bp_page_size s"
    using assms(2) by (intro mult_le_mono1) simp
  then show *: "page_addr s i + bp_page_size s \<le> bp_end_addr s"
    using assms(1) unfolding bp_inv_def page_addr_def by auto
  have e: "bp_end_addr s < usize_lim w" using assms(1) by (simp add: bp_inv_def)
  show "i * bp_page_size s < usize_lim w" "page_addr s i < usize_lim w"
    using * e by (simp_all add: page_addr_def)
qed

lemma pages_disjoint:
  assumes "i \<noteq> j" "0 < bp_page_size s"
  shows "block_addrs (bp_page_size s) (page_addr s i, 1) \<inter> block_addrs (bp_page_size s) (page_addr s j, 1) = {}"
proof -
  have "{c + a * p ..< c + a * p + p} \<inter> {c + b * p ..< c + b * p + p} = {}" if "a < b" for a b c p :: nat
    using that mult_le_mono1 [of "Suc a" b p] by auto
  then show ?thesis
    using assms(1) by (cases "i < j") (auto simp: block_addrs_def page_addr_def not_less Int_commute)
qed

lemma page_addr_aligned: "bp_inv w s \<Longrightarrow> bp_page_size s dvd page_addr s i"
  unfolding bp_inv_def page_addr_def by auto

lemma bp_inv_update:
  assumes "bp_inv w s" "bm_ok w bm" "bm_bits bm = bm_bits (bp_bitmap s)"
  shows "bp_inv w (s\<lparr>bp_bitmap := bm\<rparr>)"
  using assms unfolding bp_inv_def by auto

lemma buffered_alloc_one:
  assumes "bp_inv w s"
  shows "if members w (bp_bitmap s) = {..<bm_bits (bp_bitmap s)} then buffered_alloc w s 1 = Some (s, None)
    else \<exists>i bm. buffered_alloc w s 1 = Some (s\<lparr>bp_bitmap := bm\<rparr>, Some (page_addr s i, 1)) \<and> bp_inv w (s\<lparr>bp_bitmap := bm\<rparr>)
      \<and> i < bm_bits (bp_bitmap s) \<and> i \<notin> members w (bp_bitmap s) \<and> members w bm = insert i (members w (bp_bitmap s))"
proof (cases "members w (bp_bitmap s) = {..<bm_bits (bp_bitmap s)}")
  case True
  then show ?thesis
    using bm.take_none [OF bp_inv_bitmap [OF assms] True] by (simp add: buffered_alloc_def)
next
  case False
  then obtain i bm where i: "first_zero w (bp_bitmap s) = Some (Some i)" "set_bit_at w (bp_bitmap s) i = Some bm"
      "bm_ok w bm" "members w bm = insert i (members w (bp_bitmap s))" "i \<notin> members w (bp_bitmap s)"
      "i < bm_bits (bp_bitmap s)" "bm_bits bm = bm_bits (bp_bitmap s)"
    using bm.take_first [OF bp_inv_bitmap [OF assms]] by blast
  have "buffered_alloc w s 1 = Some (s\<lparr>bp_bitmap := bm\<rparr>, Some (page_addr s i, 1))"
    using i(1,2) page_addr_less(2,3) [OF assms i(6)] by (simp add: buffered_alloc_def page_addr_def)
  with False i bp_inv_update [OF assms i(3,7)] show ?thesis by auto
qed

interpretation bp: page_source "bp_inv w" "bp_blocks w" bp_page_size bp_area "\<lambda>_. True" "buffered_alloc w"
  for w
proof (unfold_locales, goal_cases)
  case (1 s p)
  consider "p \<noteq> 1" | "p = 1" "members w (bp_bitmap s) = {..<bm_bits (bp_bitmap s)}"
    | "p = 1" "members w (bp_bitmap s) \<noteq> {..<bm_bits (bp_bitmap s)}" by blast
  then show ?case
  proof cases
    case 3
    then obtain i bm where i: "buffered_alloc w s 1 = Some (s\<lparr>bp_bitmap := bm\<rparr>, Some (page_addr s i, 1))"
        "bp_inv w (s\<lparr>bp_bitmap := bm\<rparr>)" "i < bm_bits (bp_bitmap s)" "i \<notin> members w (bp_bitmap s)" "members w bm = insert i (members w (bp_bitmap s))"
      using buffered_alloc_one [OF 1(1)] by auto
    have bl: "bp_blocks w (s\<lparr>bp_bitmap := bm\<rparr>) = insert (page_addr s i, 1) (bp_blocks w s)"
      by (simp add: bp_blocks_def i(5) page_addr_def)
    have "block_addrs (bp_page_size s) (page_addr s i, 1) \<inter> block_addrs (bp_page_size s) (page_addr s j, 1) = {}"
      if "j \<in> members w (bp_bitmap s)" for j
      using that i(4) by (intro pages_disjoint bp_inv_size_pos [OF 1(1)]) auto
    moreover have "block_addrs (bp_page_size s) (page_addr s i, 1) \<subseteq> bp_area s"
      using page_addr_less(1) [OF 1(1) i(3)] by (auto simp: block_addrs_def bp_area_def page_addr_def)
    ultimately have "fresh_block (bp_page_size s) (bp_area s) (bp_blocks w s) 1 (page_addr s i, 1)"
      using page_addr_aligned [OF 1(1)] by (auto simp: fresh_block_def bp_blocks_def clog2_def)
    then show ?thesis using 3 i(1,2) bl by (auto simp: bp_area_def)
  qed (use 1 buffered_alloc_one [OF 1(1)] in \<open>simp_all add: buffered_alloc_def\<close>)
qed

lemma buffered_new_ok:
  assumes "k < word_bits w" "2 ^ k dvd start_addr" "2 ^ k dvd end_addr" "start_addr < end_addr" "end_addr < usize_lim w"
    and "bitmap_words * word_bits w < usize_lim w"
  shows "\<exists>s. buffered_new w bitmap_words start_addr end_addr (2 ^ k) = Some s \<and> bp_inv w s
    \<and> members w (bp_bitmap s) = {} \<and> bp_area s = {start_addr..<end_addr} \<and> bp_page_size s = 2 ^ k
    \<and> bm_bits (bp_bitmap s) = min ((end_addr - start_addr) div 2 ^ k) (bitmap_words * word_bits w)"
proof -
  let ?pages = "(end_addr - start_addr) div 2 ^ k"
  have p2: "is_power_of_2 (2 ^ k)" by (auto simp: is_power_of_2_iff)
  have al: "is_aligned w start_addr (2 ^ k) = Some True" "is_aligned w end_addr (2 ^ k) = Some True"
    using assms by (simp_all add: is_aligned_eq)
  have fl: "floor_log2 w (2 ^ k) = Some k"
    using assms(1) floor_log2_correct [of "2 ^ k" w] ilog2_unique [of k "2 ^ k"] by simp
  obtain bm where bm: "bitmap_new w bitmap_words ?pages = Some bm" "bm_inv w bm" "members w bm = {}" "bm_tight w bm"
      "bm_bits bm = min ?pages (bitmap_words * word_bits w)"
    using bitmap_new_ok [OF assms(6)] by blast
  have "?pages * 2 ^ k = end_addr - start_addr"
    using assms(2,3) by (simp add: dvd_div_mult_self)
  then have "start_addr + bm_bits bm * 2 ^ k \<le> end_addr"
    using assms(4) mult_le_mono1 [of "bm_bits bm" ?pages "2 ^ k"] by (simp add: bm(5))
  then show ?thesis
    using assms(1-5) p2 al fl bm
    by (simp add: buffered_new_def ushr_def drop_bit_eq_div bp_inv_def bm_ok_def bp_area_def)
qed

lemma buffered_free_eq:
  assumes "bp_inv w s" "i < bm_bits (bp_bitmap s)"
  shows "buffered_free w s (page_addr s i) 1 =
    map_option (\<lambda>bm. s\<lparr>bp_bitmap := bm\<rparr>) (clear_bit w (bp_bitmap s) (bp_start_addr s div bp_page_size s + i))"
proof -
  have s: "bp_page_size s = 2 ^ bp_page_shift s" "bp_page_shift s < word_bits w" "bp_page_size s dvd bp_start_addr s"
    using assms(1) by (auto simp: bp_inv_def)
  have "page_addr s i \<ge> bp_start_addr s" "page_addr s i < bp_end_addr s"
    using page_addr_less(1) [OF assms] bp_inv_size_pos [OF assms(1)] by (simp_all add: page_addr_def)
  moreover have "is_aligned w (page_addr s i) (bp_page_size s) = Some True"
    using is_aligned_eq [OF page_addr_less(3) [OF assms] s(2)] page_addr_aligned [OF assms(1), of i] by (simp flip: s(1))
  moreover have "ushr w (page_addr s i) (bp_page_shift s) = Some (bp_start_addr s div bp_page_size s + i)"
    using s(2,3) bp_inv_size_pos [OF assms(1)]
    by (simp add: ushr_def drop_bit_eq_div page_addr_def flip: s(1))
  ultimately show ?thesis
    by (cases "clear_bit w (bp_bitmap s) (bp_start_addr s div bp_page_size s + i)") (simp_all add: buffered_free_def)
qed

section \<open>Properties\<close>

text \<open>
  \<^bold>\<open>C18\<close> A run of requests on a new buffered allocator: no request panics, and the pages it
  returns are page-aligned, lie inside the block of memory the allocator was given, and are
  pairwise disjoint, however many requests fail for want of pages or for asking more than one.
\<close>

theorem buffered_run_disjoint:
  assumes "k < word_bits w" "2 ^ k dvd start_addr" "2 ^ k dvd end_addr" "start_addr < end_addr" "end_addr < usize_lim w"
    and "bitmap_words * word_bits w < usize_lim w"
  shows "\<exists>s s' bs. buffered_new w bitmap_words start_addr end_addr (2 ^ k) = Some s
    \<and> alloc_each (buffered_alloc w) s requests = Some (s', bs)
    \<and> sorted_wrt (\<lambda>b c. block_addrs (2 ^ k) b \<inter> block_addrs (2 ^ k) c = {}) bs
    \<and> (\<forall>b\<in>set bs. 2 ^ k dvd fst b \<and> snd b = 1 \<and> block_addrs (2 ^ k) b \<subseteq> {start_addr..<end_addr})"
proof -
  obtain s where s: "buffered_new w bitmap_words start_addr end_addr (2 ^ k) = Some s" "bp_inv w s"
      "members w (bp_bitmap s) = {}" "bp_area s = {start_addr..<end_addr}" "bp_page_size s = 2 ^ k"
    using buffered_new_ok [OF assms] by blast
  have "bp_blocks w s = {}" by (simp add: bp_blocks_def s(3))
  then obtain s' bs where r: "alloc_each (buffered_alloc w) s requests = Some (s', bs)"
      "bp_blocks w s' = set bs"
      "sorted_wrt (\<lambda>b c. block_addrs (2 ^ k) b \<inter> block_addrs (2 ^ k) c = {}) bs"
      "\<forall>b\<in>set bs. \<exists>p\<in>set requests. fresh_block (2 ^ k) {start_addr..<end_addr} {} p b"
    using bp.alloc_each_ok [OF s(2), of requests] s(4,5) by auto
  have "snd b = 1" if "b \<in> set bs" for b
    using that unfolding r(2) [symmetric] bp_blocks_def by auto
  with r(4) have "\<forall>b\<in>set bs. 2 ^ k dvd fst b \<and> snd b = 1 \<and> block_addrs (2 ^ k) b \<subseteq> {start_addr..<end_addr}"
    by (fastforce simp: fresh_block_def)
  with s(1) r(1,3) show ?thesis by blast
qed

theorem buffered_run_disjoint_witness:
  "\<exists>s s' bs. buffered_new W64 4 0x100000 0x110000 (2 ^ 12) = Some s
    \<and> alloc_each (buffered_alloc W64) s [1, 2, 1] = Some (s', bs) \<and> (\<forall>b\<in>set bs. 2 ^ 12 dvd fst b)"
proof -
  have "(2::nat) ^ 12 dvd 0x100000" "(2::nat) ^ 12 dvd 0x110000" by simp_all
  from buffered_run_disjoint [OF _ this, of W64 4 "[1, 2, 1]"] show ?thesis by (simp del: One_nat_def) blast
qed

text \<open>
  The allocator's accounting: a new allocator has no memory allocated; on every reachable
  bitmap \<open>get_alloc_mem\<close> is the number of pages in use times the page size, and it and
  \<open>get_free_mem\<close> add up to the memory the bitmap covers.
\<close>

theorem buffered_accounting:
  assumes "bp_inv w s"
  shows "\<exists>a f. buffered_get_alloc_mem w s = Some a \<and> buffered_get_free_mem w s = Some f
    \<and> a = card (bp_blocks w s) * bp_page_size s \<and> a + f = bm_bits (bp_bitmap s) * bp_page_size s"
proof -
  let ?n = "card (members w (bp_bitmap s))" and ?b = "bm_bits (bp_bitmap s)"
  have s: "bp_page_size s = 2 ^ bp_page_shift s" "bp_page_shift s < word_bits w" using assms by (auto simp: bp_inv_def)
  have n: "?n \<le> ?b" by (rule members_subset)
  have "?b * 2 ^ bp_page_shift s < usize_lim w" using assms s(1) by (auto simp: bp_inv_def)
  then have "m * 2 ^ bp_page_shift s < usize_lim w" if "m \<le> ?b" for m
    using mult_le_mono1 [OF that, of "2 ^ bp_page_shift s"] by (rule le_less_trans [rotated])
  then have m: "ushl w ?n (bp_page_shift s) = Some (?n * 2 ^ bp_page_shift s)"
      "ushl w (?b - ?n) (bp_page_shift s) = Some ((?b - ?n) * 2 ^ bp_page_shift s)"
    using s(2) n by (simp_all add: ushl_ok)
  have "inj_on (\<lambda>i. (page_addr s i, 1::nat)) (members w (bp_bitmap s))"
    by (auto simp: inj_on_def page_addr_def s(1))
  then have "card (bp_blocks w s) = ?n" by (simp add: bp_blocks_def card_image)
  moreover have "?n * 2 ^ bp_page_shift s + (?b - ?n) * 2 ^ bp_page_shift s = ?b * 2 ^ bp_page_shift s"
    using n by (simp flip: add_mult_distrib)
  ultimately show ?thesis
    using m n bm.count_law [OF bp_inv_bitmap [OF assms]]
    by (simp add: buffered_get_alloc_mem_def buffered_get_free_mem_def bitmap_len_def s(1))
qed

theorem buffered_accounting_witness:
  "\<exists>s a f. buffered_new W64 4 0x100000 0x110000 (2 ^ 12) = Some s \<and> buffered_get_alloc_mem W64 s = Some a
    \<and> buffered_get_free_mem W64 s = Some f \<and> a + f = bm_bits (bp_bitmap s) * bp_page_size s"
proof -
  have "(2::nat) ^ 12 dvd 0x100000" "(2::nat) ^ 12 dvd 0x110000" by simp_all
  from buffered_new_ok [OF _ this, of W64 4]
  obtain s where "buffered_new W64 4 0x100000 0x110000 (2 ^ 12) = Some s" "bp_inv W64 s" by auto
  with buffered_accounting [of W64 s] show ?thesis by blast
qed

text \<open>
  What \<open>free\<close> does with a page the allocator handed out: it clears the bit at the page's
  absolute page number, not at its index in the allocator. So the page is released exactly when the
  allocator starts at address 0; on an allocator that starts at or above as much memory as it
  manages, freeing a page leaves the bitmap as it was, and the page stays allocated.
\<close>

theorem buffered_free_effect:
  assumes "bp_inv w s" "i \<in> members w (bp_bitmap s)"
  shows "\<exists>s'. buffered_free w s (page_addr s i) 1 = Some s'
    \<and> members w (bp_bitmap s') = members w (bp_bitmap s) - {bp_start_addr s div bp_page_size s + i}
    \<and> (i \<notin> members w (bp_bitmap s') \<longleftrightarrow> bp_start_addr s = 0)
    \<and> (bm_bits (bp_bitmap s) * bp_page_size s \<le> bp_start_addr s \<longrightarrow> s' = s)"
proof -
  let ?z = "bp_start_addr s div bp_page_size s + i"
  have i: "i < bm_bits (bp_bitmap s)" using assms(2) by (simp add: members_def)
  have ok: "bm_ok w (bp_bitmap s)" using assms(1) by blast
  have p: "0 < bp_page_size s" "bp_page_size s dvd bp_start_addr s" using assms(1) by (auto simp: bp_inv_def)
  then have "bp_start_addr s div bp_page_size s = 0 \<longleftrightarrow> bp_start_addr s = 0" by (metis div_0 dvd_div_eq_0_iff)
  then have z: "i = ?z \<longleftrightarrow> bp_start_addr s = 0" by simp
  show ?thesis
  proof (cases "?z < bm_bits (bp_bitmap s)")
    case True
    moreover have "\<not> bm_bits (bp_bitmap s) * bp_page_size s \<le> bp_start_addr s"
    proof
      assume "bm_bits (bp_bitmap s) * bp_page_size s \<le> bp_start_addr s"
      then have "bm_bits (bp_bitmap s) \<le> bp_start_addr s div bp_page_size s"
        using p(1) by (simp add: less_eq_div_iff_mult_less_eq)
      with True show False by simp
    qed
    ultimately show ?thesis
      using bm.unmark_law [OF ok True] z assms(2) by (auto simp: buffered_free_eq [OF assms(1) i] simp del: One_nat_def)
  next
    case False
    then have "?z \<notin> members w (bp_bitmap s)" "?z \<noteq> i" using i by (auto simp: members_def)
    with False z assms(2) show ?thesis
      by (auto simp: buffered_free_eq [OF assms(1) i] clear_bit_def simp del: One_nat_def)
  qed
qed

theorem buffered_free_effect_witness:
  "\<exists>s. s = \<lparr>bp_bitmap = \<lparr>bm_words = [1], bm_bits = 16\<rparr>, bp_page_size = 2 ^ 12, bp_page_shift = 12,
           bp_start_addr = 0x100000, bp_end_addr = 0x110000\<rparr>
    \<and> buffered_free W64 s 0x100000 1 = Some s \<and> members W64 (bp_bitmap s) = {0}"
proof -
  let ?s = "\<lparr>bp_bitmap = \<lparr>bm_words = [1], bm_bits = 16\<rparr>, bp_page_size = 2 ^ 12, bp_page_shift = 12,
           bp_start_addr = 0x100000, bp_end_addr = 0x110000\<rparr>"
  have b: "bit_at W64 [1] i \<longleftrightarrow> i = 0" if "i < 64" for i
    using that by (simp add: bit_at_def bit_1_iff del: One_nat_def)
  then have m: "members W64 (bp_bitmap ?s) = {0}" by (auto simp: members_def simp del: One_nat_def)
  have "bm_ok W64 (bp_bitmap ?s)"
    using b by (simp add: bm_ok_def bm_inv_def bm_tight_def del: One_nat_def)
  then have "bp_inv W64 ?s" by (simp add: bp_inv_def)
  from buffered_free_effect [OF this, of 0] m show ?thesis by (simp add: page_addr_def)
qed

end
