(* ===== verification/Page_Maps.thy ===== *)
theory Page_Maps
  imports Page_Walks Buffered_Allocator
begin

text \<open>
  What filling the tables does to translation, over any allocator of tables.
\<close>

section \<open>Ranges of a table\<close>

text \<open>An address of the span of a table that \<open>sz\<close> bytes from \<open>v\<close> contain, and its distance from \<open>v\<close>.\<close>

definition covers :: "nat \<Rightarrow> usize \<Rightarrow> usize \<Rightarrow> usize \<Rightarrow> bool" where
  "covers d v sz va \<longleftrightarrow> v mod esz (Suc d) \<le> va mod esz (Suc d) \<and> va mod esz (Suc d) < v mod esz (Suc d) + sz"

definition off :: "nat \<Rightarrow> usize \<Rightarrow> usize \<Rightarrow> usize" where
  "off d v va = va mod esz (Suc d) - v mod esz (Suc d)"

lemma covers_0 [simp]: "\<not> covers d v 0 va"
  by (simp add: covers_def)

lemma mod_shift: "v mod S + f < S \<Longrightarrow> (v + f) mod S = v mod S + f" for v S f :: nat
  by (metis mod_add_left_eq mod_less)

lemma covers_split:
  assumes "f \<le> sz" "v mod esz (Suc d) + sz \<le> esz (Suc d)"
  shows "covers d v sz va \<longleftrightarrow> covers d v f va \<or> covers d (v + f) (sz - f) va"
proof (cases "f = sz")
  case False
  then have "(v + f) mod esz (Suc d) = v mod esz (Suc d) + f" using assms by (intro mod_shift) simp
  with assms(1) show ?thesis by (auto simp: covers_def)
qed simp

lemma covers_apart:
  assumes "f \<le> sz" "v mod esz (Suc d) + sz \<le> esz (Suc d)"
  shows "covers d (v + f) (sz - f) va \<Longrightarrow> \<not> covers d v f va \<and> f + off d (v + f) va = off d v va"
proof (cases "f = sz")
  case False
  then have "(v + f) mod esz (Suc d) = v mod esz (Suc d) + f" using assms by (intro mod_shift) simp
  then show "covers d (v + f) (sz - f) va \<Longrightarrow> ?thesis" by (auto simp: covers_def off_def)
qed simp

lemma same_slot:
  fixes w a E f :: nat
  assumes "w mod E + f \<le> E"
  shows "w \<le> a \<and> a < w + f \<longleftrightarrow> a div E = w div E \<and> w mod E \<le> a mod E \<and> a mod E < w mod E + f"
proof
  assume a: "w \<le> a \<and> a < w + f"
  then have "w mod E + (a - w) < E" using assms by linarith
  moreover have "a = w div E * E + (w mod E + (a - w))" using a by (simp add: div_mult_mod_eq add.assoc [symmetric])
  ultimately have "a div E = w div E" "a mod E = w mod E + (a - w)"
    by (metis add.right_neutral div_less div_mult_self3 less_nat_zero_code, metis mod_less mod_mult_self3)
  with a show "a div E = w div E \<and> w mod E \<le> a mod E \<and> a mod E < w mod E + f" by auto
next
  assume a: "a div E = w div E \<and> w mod E \<le> a mod E \<and> a mod E < w mod E + f"
  have "a = w div E * E + a mod E" "w = w div E * E + w mod E" using a div_mult_mod_eq by metis+
  with a show "w \<le> a \<and> a < w + f" by linarith
qed

lemma mod_esz_mod: "x mod esz (Suc d) mod esz d = x mod esz d"
  by (simp add: esz_Suc mod_mod_cancel)

lemma covers_entry:
  assumes "v mod esz d + f \<le> esz d"
  shows "covers d v f va \<longleftrightarrow> slot d va = slot d v \<and> v mod esz d \<le> va mod esz d \<and> va mod esz d < v mod esz d + f"
  using same_slot [of "v mod esz (Suc d)" "esz d" f "va mod esz (Suc d)"] assms by (simp add: covers_def mod_esz_mod)

lemma off_entry:
  assumes "slot d va = slot d v"
  shows "off d v va = va mod esz d - v mod esz d"
proof -
  have "x mod esz (Suc d) = slot d x * esz d + x mod esz d" for x
    using div_mult_mod_eq [of "x mod esz (Suc d)" "esz d"] by (simp add: mod_esz_mod)
  with assms show ?thesis unfolding off_def by (metis diff_cancel2 add.commute)
qed

lemma covers_block:
  assumes "esz d dvd v"
  shows "covers d v (esz d) va \<longleftrightarrow> slot d va = slot d v"
  using covers_entry [of v d "esz d" va] assms by (simp add: dvd_eq_mod_eq_0)

lemma covers_child:
  assumes "v mod esz (Suc d) + f \<le> esz (Suc d)"
  shows "covers (Suc d) v f va \<longleftrightarrow> slot (Suc d) va = slot (Suc d) v \<and> covers d v f va"
  using covers_entry [OF assms, of va] by (simp add: covers_def)

lemma off_child: "slot (Suc d) va = slot (Suc d) v \<Longrightarrow> off (Suc d) v va = off d v va"
  by (simp add: off_entry) (simp add: off_def)

lemma slot_eq: "slot d x = x div esz d mod 512"
  by (simp add: esz_Suc mult.commute [of 512] mod_mult2_eq)

lemma slot_move: "\<exists>va'. slot (Suc d) va' = slot (Suc d) v \<and> va' mod esz (Suc d) = va mod esz (Suc d)"
  by (rule exI [of _ "v div esz (Suc d) * esz (Suc d) + va mod esz (Suc d)"]) (simp add: slot_eq)

text \<open>
  A range that a table of depth \<open>d\<close> can map: whole pages inside the table's span, a base at the same distance from a
  1 GiB block, below the top of the address spaces; and, in a \<open>Level1\<close> table, smaller than one entry.
\<close>

definition rng :: "nat \<Rightarrow> usize \<Rightarrow> usize \<Rightarrow> usize \<Rightarrow> bool" where
  "rng d v b sz \<longleftrightarrow> 4096 dvd v \<and> 4096 dvd b \<and> 4096 dvd sz \<and> v + sz < 2 ^ 64 \<and> b + sz \<le> 2 ^ 48
     \<and> v mod esz (Suc d) + sz \<le> esz (Suc d) \<and> v mod esz 2 = b mod esz 2 \<and> (d = 3 \<longrightarrow> sz < esz 3)"

text \<open>
  The ranges on which \<open>fill_table_compact\<close> works: at each level the range begins or ends at an entry, or one entry
  contains it.
\<close>

primrec compact_ok :: "nat \<Rightarrow> usize \<Rightarrow> usize \<Rightarrow> bool" where
  "compact_ok 0 v sz \<longleftrightarrow> True"
| "compact_ok (Suc d) v sz \<longleftrightarrow> esz (Suc d) dvd v \<or> esz (Suc d) dvd v + sz \<or> v mod esz (Suc d) + sz \<le> esz (Suc d) \<and> compact_ok d v sz"

lemma compact_ok_ends: "esz d dvd v \<or> esz d dvd v + sz \<Longrightarrow> compact_ok d v sz"
  by (cases d) auto

lemma rng_tail:
  assumes "rng d v b sz" "f \<le> sz" "4096 dvd f"
  shows "rng d (v + f) (b + f) (sz - f)"
proof -
  have "(v + f) mod esz (Suc d) + (sz - f) \<le> esz (Suc d)"
  proof (cases "f = sz")
    case True
    then show ?thesis by (simp add: less_imp_le)
  next
    case False
    then have "(v + f) mod esz (Suc d) = v mod esz (Suc d) + f" using assms by (intro mod_shift) (simp add: rng_def)
    then show ?thesis using assms(1,2) by (simp add: rng_def)
  qed
  moreover have "(v + f) mod esz 2 = (b + f) mod esz 2" using assms(1) by (metis mod_add_cong rng_def)
  ultimately show ?thesis using assms by (auto simp: rng_def dvd_diff_nat)
qed

lemma rng_child:
  assumes "rng (Suc d) v b sz" "d < 3" "f \<le> sz" "4096 dvd f" "v mod esz (Suc d) + f \<le> esz (Suc d)"
  shows "rng d v b f"
  using assms by (simp add: rng_def)

section \<open>The allocator of tables\<close>

text \<open>Tables that the allocator will not hand out: outside its area, or in blocks it has handed out already.\<close>

definition held :: "nat set \<Rightarrow> block set \<Rightarrow> usize set \<Rightarrow> bool" where
  "held area taken T \<longleftrightarrow> (\<forall>t\<in>T. {t..<t + 4096} \<inter> area = {} \<or> (\<exists>b\<in>taken. {t..<t + 4096} \<subseteq> block_addrs 4096 b))"

lemma held_Un [simp]: "held A B (T \<union> U) \<longleftrightarrow> held A B T \<and> held A B U"
  by (auto simp: held_def)

lemma held_mono: "held A B T \<Longrightarrow> U \<subseteq> T \<Longrightarrow> B \<subseteq> C \<Longrightarrow> held A C U"
  by (fastforce simp: held_def)

locale table_source = page_source inv blocks page_size area request_ok alloc
  for inv :: "'s \<Rightarrow> bool" and blocks :: "'s \<Rightarrow> block set" and page_size :: "'s \<Rightarrow> usize" and area :: "'s \<Rightarrow> nat set"
    and request_ok :: "usize \<Rightarrow> bool" and alloc :: "'s \<Rightarrow> usize \<Rightarrow> ('s \<times> block option) option" +
  fixes vb :: usize and room :: "'s \<Rightarrow> nat"
  assumes one_ok: "request_ok 1"
    and page_law: "inv s \<Longrightarrow> page_size s = 4096"
    and area_law: "inv s \<Longrightarrow> a \<in> area s \<Longrightarrow> a < 2 ^ 48 \<and> vb + a < 2 ^ 64"
    and room_law: "inv s \<Longrightarrow> 0 < room s \<Longrightarrow> \<exists>s' b. alloc s 1 = Some (s', Some b) \<and> room s = Suc (room s')"
begin

abbreviation kept :: "'s \<Rightarrow> usize set \<Rightarrow> bool" where
  "kept s T \<equiv> held (area s) (blocks s) T \<and> (\<forall>t\<in>T. table_at vb t)"

lemma kept_mono: "kept s T \<Longrightarrow> U \<subseteq> T \<Longrightarrow> kept s U"
  by (auto simp: held_def)

lemma new_table:
  assumes "inv s" "0 < room s"
  shows "\<exists>s' p. alloc s 1 = Some (s', Some (p, 1)) \<and> inv s' \<and> room s = Suc (room s') \<and> table_at vb p
    \<and> (\<forall>T. kept s T \<longrightarrow> p \<notin> T \<and> kept s' T) \<and> kept s' {p}"
proof -
  obtain s' b where a: "alloc s 1 = Some (s', Some b)" "room s = Suc (room s')" using room_law [OF assms] by blast
  from alloc_law [OF assms(1) one_ok] a(1)
  have l: "inv s'" "area s' = area s" "blocks s' = insert b (blocks s)" "fresh_block (page_size s) (area s) (blocks s) 1 b" by auto
  have f: "snd b = 1" "4096 dvd fst b" "{fst b..<fst b + 4096} \<subseteq> area s" "\<forall>c\<in>blocks s. {fst b..<fst b + 4096} \<inter> block_addrs 4096 c = {}"
    using l(4) page_law [OF assms(1)] unfolding fresh_block_def clog2_def block_addrs_def by auto
  have "fst b \<in> {fst b..<fst b + 4096}" by simp
  then have "fst b \<in> area s" using f(3) by blast
  then have p: "table_at vb (fst b)" using area_law [OF assms(1)] f(2) by (simp add: table_at_def)
  have "fst b \<notin> T \<and> kept s' T" if k: "kept s T" for T
  proof
    show "fst b \<notin> T"
    proof
      assume "fst b \<in> T"
      then have "{fst b..<fst b + 4096} \<inter> area s = {} \<or> (\<exists>c\<in>blocks s. {fst b..<fst b + 4096} \<subseteq> block_addrs 4096 c)"
        using k by (simp add: held_def)
      then show False
      proof
        assume "{fst b..<fst b + 4096} \<inter> area s = {}"
        with \<open>fst b \<in> area s\<close> \<open>fst b \<in> {fst b..<fst b + 4096}\<close> show False by blast
      next
        assume "\<exists>c\<in>blocks s. {fst b..<fst b + 4096} \<subseteq> block_addrs 4096 c"
        then obtain c where "c \<in> blocks s" "fst b \<in> block_addrs 4096 c" using \<open>fst b \<in> {fst b..<fst b + 4096}\<close> by blast
        with f(4) \<open>fst b \<in> {fst b..<fst b + 4096}\<close> show False by blast
      qed
    qed
    show "kept s' T" using k held_mono [of "area s" "blocks s" T T "blocks s'"] l(2,3) by auto
  qed
  moreover have "kept s' {fst b}" using p l(2,3) f(1) by (simp add: held_def block_addrs_def)
  moreover have "alloc s 1 = Some (s', Some (fst b, 1))" using a(1) f(1) by (simp add: prod_eq_iff)
  ultimately show ?thesis using l(1) a(2) p by blast
qed

text \<open>
  \<open>sz\<close> bytes from \<open>v\<close> of the span of table \<open>t\<close> are mapped to \<open>b\<close>, every other address of the span translates
  as before; at most \<open>k\<close> tables are new, and no other table has changed.
\<close>

definition maps where
  "maps d t k dev v b sz s m s' m' \<longleftrightarrow> inv s' \<and> room s \<le> room s' + k \<and> tree_ok d m' vb t \<and> kept s' (tables d m' vb t)
     \<and> (\<forall>F. kept s F \<and> F \<inter> tables d m vb t = {} \<longrightarrow> kept s' F \<and> F \<inter> tables d m' vb t = {} \<and> agree m m' vb F)
     \<and> (\<forall>va. walk d m' vb t va = (if covers d v sz va then Some (b + off d v va, mair_of dev) else walk d m vb t va))"

lemma mapsD:
  assumes "maps d t k dev v b sz s m s' m'"
  shows "inv s'" "room s \<le> room s' + k" "tree_ok d m' vb t" "kept s' (tables d m' vb t)"
    "kept s F \<Longrightarrow> F \<inter> tables d m vb t = {} \<Longrightarrow> kept s' F \<and> F \<inter> tables d m' vb t = {} \<and> agree m m' vb F"
    "walk d m' vb t va = (if covers d v sz va then Some (b + off d v va, mair_of dev) else walk d m vb t va)"
  using assms by (simp_all add: maps_def)

lemma mapsI:
  assumes "inv s'" "room s \<le> room s' + k" "tree_ok d m' vb t" "kept s' (tables d m' vb t)"
    "\<And>F. kept s F \<Longrightarrow> F \<inter> tables d m vb t = {} \<Longrightarrow> kept s' F \<and> F \<inter> tables d m' vb t = {} \<and> agree m m' vb F"
    "\<And>va. walk d m' vb t va = (if covers d v sz va then Some (b + off d v va, mair_of dev) else walk d m vb t va)"
  shows "maps d t k dev v b sz s m s' m'"
  unfolding maps_def using assms by blast

lemma maps_refl: "inv s \<Longrightarrow> tree_ok d m vb t \<Longrightarrow> kept s (tables d m vb t) \<Longrightarrow> maps d t k dev v b 0 s m s m"
  by (rule mapsI) simp_all

lemma maps_more:
  assumes "maps d t k dev v b sz s m s' m'" "k \<le> k'"
  shows "maps d t k' dev v b sz s m s' m'"
  by (rule mapsI [OF mapsD(1) [OF assms(1)] _ mapsD(3,4,5,6) [OF assms(1)]]) (use mapsD(2) [OF assms(1)] assms(2) in linarith)

lemma maps_trans:
  assumes "maps d t k dev v b f s m s1 m1" "maps d t k' dev (v + f) (b + f) (sz - f) s1 m1 s' m'" "f \<le> sz" "v mod esz (Suc d) + sz \<le> esz (Suc d)"
  shows "maps d t (k + k') dev v b sz s m s' m'"
proof (rule mapsI)
  show "inv s'" "tree_ok d m' vb t" "kept s' (tables d m' vb t)" by (rule mapsD [OF assms(2)])+
  show "room s \<le> room s' + (k + k')" using mapsD(2) [OF assms(1)] mapsD(2) [OF assms(2)] by linarith
  show "kept s' F \<and> F \<inter> tables d m' vb t = {} \<and> agree m m' vb F" if "kept s F" "F \<inter> tables d m vb t = {}" for F
    using mapsD(5) [OF assms(1) that] mapsD(5) [OF assms(2), of F] agree_trans by blast
  show "walk d m' vb t va = (if covers d v sz va then Some (b + off d v va, mair_of dev) else walk d m vb t va)" for va
    unfolding mapsD(6) [OF assms(2)] mapsD(6) [OF assms(1)] covers_split [OF assms(3,4)]
    using covers_apart [OF assms(3,4), of va] by auto
qed

lemma maps_leaf:
  assumes "inv s" "tree_ok d m vb t" "kept s (tables d m vb t)" "d \<le> 2" "esz d dvd v" "esz d dvd b" "b < 2 ^ 48"
    and desc: "make_descriptor (lev d) b dev = Some desc"
  shows "maps d t 0 dev v b (esz d) s m s (table_set m (vb + t) (slot d v) desc)" (is "maps _ _ _ _ _ _ _ _ _ _ ?m")
proof -
  let ?f = "if d = 0 then 3 else 1 :: nat"
  have b: "4096 dvd b" using assms(6) page_dvd_esz dvd_trans by blast
  have e: "desc = b + (mair_of dev * 4 + 1024 + ?f)" using desc make_descriptor_lev [OF assms(4,6,7)] by simp
  have fl: "desc mod 4 = ?f" "attr_index desc = mair_of dev" "accessible desc"
    using descriptor_fields [OF b, of ?f dev] unfolding e by simp_all
  have "mair_of dev * 4 + 1024 + ?f < 2 ^ 12" by (simp add: mair_of_def)
  also have "2 ^ 12 \<le> (2 :: nat) ^ (12 + 9 * d)" by (intro power_increasing) simp_all
  finally have "out_addr (12 + 9 * d) desc = b"
    unfolding e using assms(4,6,7) by (intro out_addr_aligned) (simp_all add: esz_def)
  then have lf: "leaf d desc va = Some (b + va mod esz d, mair_of dev)" for va
    using fl assms(4) by (simp add: leaf_def)
  have i: "slot d v < 512" by (rule index_less)
  have t: "table_at vb t" using assms(2) by (rule tree_ok_table)
  have tr: "tree_ok d ?m vb t \<and> tables d ?m vb t \<subseteq> tables d m vb t \<and> walk d ?m vb t va = (if slot d va = slot d v then leaf d desc va else walk d m vb t va)" for va
  proof (cases d)
    case 0
    then show ?thesis using t by (simp add: entry_set)
  next
    case (Suc e)
    then show ?thesis
      using leaf_entry [of e m vb t "slot d v" desc] assms(2) i fl(1) rest_sub [of t e m vb "slot d v"] by simp
  qed
  show ?thesis
  proof (rule mapsI)
    show "kept s (tables d ?m vb t)" using kept_mono [OF assms(3)] tr by blast
    show "kept s F \<and> F \<inter> tables d ?m vb t = {} \<and> agree m ?m vb F" if "kept s F" "F \<inter> tables d m vb t = {}" for F
      using that tr set_agree [OF t, of F "slot d v" m desc] i tables_self [of t d m vb] by blast
    show "walk d ?m vb t va = (if covers d v (esz d) va then Some (b + off d v va, mair_of dev) else walk d m vb t va)" for va
      using tr [of va] lf [of va] assms(5) by (simp add: covers_block off_entry dvd_eq_mod_eq_0)
  qed (use assms(1) tr in simp_all)
qed

text \<open>
  The entry for \<open>v\<close> points to a table \<open>c\<close>, old or new, of the same translations and apart from the other tables.
\<close>

definition ready where
  "ready d t v c C j s m s1 m1 \<longleftrightarrow> inv s1 \<and> room s \<le> room s1 + j \<and> tree_ok d m1 vb c \<and> kept s1 (tables d m1 vb c)
     \<and> insert t (rest d m vb t (slot (Suc d) v)) \<inter> C = {} \<and> C \<subseteq> tables (Suc d) m vb t
     \<and> (\<forall>F. kept s F \<and> F \<inter> C = {} \<longrightarrow> kept s1 F \<and> F \<inter> tables d m1 vb c = {} \<and> agree m m1 vb F)
     \<and> (\<forall>va. slot (Suc d) va = slot (Suc d) v \<longrightarrow> walk (Suc d) m vb t va = walk d m1 vb c va)"

lemma readyD:
  assumes "ready d t v c C j s m s1 m1"
  shows "inv s1" "room s \<le> room s1 + j" "tree_ok d m1 vb c" "kept s1 (tables d m1 vb c)"
    "insert t (rest d m vb t (slot (Suc d) v)) \<inter> C = {}" "C \<subseteq> tables (Suc d) m vb t"
    "kept s F \<Longrightarrow> F \<inter> C = {} \<Longrightarrow> kept s1 F \<and> F \<inter> tables d m1 vb c = {} \<and> agree m m1 vb F"
    "slot (Suc d) va = slot (Suc d) v \<Longrightarrow> walk (Suc d) m vb t va = walk d m1 vb c va"
  using assms by (simp_all only: ready_def) simp_all

lemma maps_child:
  assumes "tree_ok (Suc d) m vb t" "kept s (tables (Suc d) m vb t)" "ready d t v c C j s m s1 m1" "maps d c k dev v b f s1 m1 s' m'"
    "desc mod 4 = 3" "out_addr 12 desc = c" "v mod esz (Suc d) + f \<le> esz (Suc d)"
  shows "maps (Suc d) t (j + k) dev v b f s m s' (table_set m' (vb + t) (slot (Suc d) v) desc)"
proof -
  let ?i = "slot (Suc d) v" let ?m = "table_set m' (vb + t) ?i desc" let ?R = "insert t (rest d m vb t ?i)"
  have r: "room s \<le> room s1 + j" "?R \<inter> C = {}" "C \<subseteq> tables (Suc d) m vb t"
      "\<And>F. kept s F \<Longrightarrow> F \<inter> C = {} \<Longrightarrow> kept s1 F \<and> F \<inter> tables d m1 vb c = {} \<and> agree m m1 vb F"
      "\<And>va. slot (Suc d) va = ?i \<Longrightarrow> walk (Suc d) m vb t va = walk d m1 vb c va"
    by (rule readyD [OF assms(3)]; assumption)+
  have fr: "kept s' F \<and> F \<inter> tables d m' vb c = {} \<and> agree m m' vb F" if "kept s F" "F \<inter> C = {}" for F
    using r(4) [OF that] mapsD(5) [OF assms(4), of F] agree_trans by blast
  have i: "?i < 512" by (rule index_less)
  have t: "table_at vb t" using assms(1) by (rule tree_ok_table)
  have "kept s ?R" by (rule kept_mono [OF assms(2) rest_sub])
  note R = fr [OF this r(2)]
  note pe = pointer_entry [OF assms(1) i assms(5,6) _ mapsD(3) [OF assms(4)]]
  show ?thesis
  proof (rule mapsI)
    show "room s \<le> room s' + (j + k)" using r(1) mapsD(2) [OF assms(4)] by linarith
    show "tree_ok (Suc d) ?m vb t" using pe(1) R by blast
    have tb: "tables (Suc d) ?m vb t = ?R \<union> tables d m' vb c" using pe(2) R by blast
    show "kept s' (tables (Suc d) ?m vb t)" unfolding tb held_Un ball_Un using R mapsD(4) [OF assms(4)] by blast
    show "kept s' F \<and> F \<inter> tables (Suc d) ?m vb t = {} \<and> agree m ?m vb F" if "kept s F" "F \<inter> tables (Suc d) m vb t = {}" for F
    proof -
      have "F \<inter> C = {}" "F \<inter> ?R = {}" "t \<notin> F" using that(2) r(3) rest_sub by blast+
      then show ?thesis unfolding tb using fr [OF that(1)] set_agree [OF t _ _ i, of F m' desc] agree_trans by blast
    qed
    show "walk (Suc d) ?m vb t va = (if covers (Suc d) v f va then Some (b + off (Suc d) v va, mair_of dev) else walk (Suc d) m vb t va)" for va
    proof -
      have "walk (Suc d) ?m vb t va = (if slot (Suc d) va = ?i then walk d m' vb c va else walk (Suc d) m vb t va)" using pe(3) R by blast
      then show ?thesis
        using covers_child [OF assms(7), of va] off_child [where d = d and va = va and v = v] mapsD(6) [OF assms(4), of va] r(5) [of va] by presburger
    qed
  qed (rule mapsD(1) [OF assms(4)])
qed

text \<open>The first half of \<open>alloc_table_and_fill\<close>: the entry is made to point to a table.\<close>

lemma walk_no_pointer:
  assumes "entry m vb t (slot (Suc d) v) mod 4 \<noteq> 3" "walk (Suc d) m vb t v = None" "slot (Suc d) va = slot (Suc d) v"
  shows "walk (Suc d) m vb t va = None"
  using assms by (auto simp: Let_def leaf_def split: if_splits)

lemma empty_table:
  assumes "table_at vb p"
  shows "tables d (zero_table m (vb + p)) vb p = {p}" "tree_ok d (zero_table m (vb + p)) vb p" "walk d (zero_table m (vb + p)) vb p va = None"
proof -
  have "ptrs (zero_table m (vb + p)) vb p = {}" by (auto simp: ptrs_def entry_zero)
  then show "tables d (zero_table m (vb + p)) vb p = {p}" "tree_ok d (zero_table m (vb + p)) vb p" using assms by (cases d; simp)+
  show "walk d (zero_table m (vb + p)) vb p va = None"
    using index_less [of va d] by (cases d) (simp_all add: entry_zero leaf_def Let_def)
qed

lemma ready_old:
  assumes "inv s" "tree_ok (Suc d) m vb t" "kept s (tables (Suc d) m vb t)" "entry m vb t (slot (Suc d) v) mod 4 = 3"
  shows "ready d t v (child m vb t (slot (Suc d) v)) (tables d m vb (child m vb t (slot (Suc d) v))) 1 s m s m"
proof -
  let ?i = "slot (Suc d) v" let ?C = "tables d m vb (child m vb t ?i)"
  have i: "?i \<in> ptrs m vb t" using assms(4) index_less [of v "Suc d"] by (simp add: ptrs_def)
  have sub: "?C \<subseteq> tables (Suc d) m vb t" using i by auto
  have ok: "tree_ok d m vb (child m vb t ?i)" "t \<notin> ?C" using assms(2) i by simp_all
  have "rest d m vb t ?i \<inter> ?C = {}" using assms(2) i unfolding rest_def by auto
  moreover have "kept s ?C" by (rule kept_mono [OF assms(3) sub])
  ultimately show ?thesis
    unfolding ready_def using assms(1,4) ok sub by (auto simp: Let_def)
qed

lemma ready_new:
  assumes "inv s" "0 < room s" "tree_ok (Suc d) m vb t" "kept s (tables (Suc d) m vb t)" "entry m vb t (slot (Suc d) v) mod 4 \<noteq> 3"
    "walk (Suc d) m vb t v = None"
  shows "\<exists>s1 p. alloc s 1 = Some (s1, Some (p, 1)) \<and> table_at vb p \<and> ready d t v p {} 1 s m s1 (zero_table m (vb + p))"
proof -
  obtain s1 p where a: "alloc s 1 = Some (s1, Some (p, 1))" "inv s1" "room s = Suc (room s1)" "table_at vb p"
      "\<forall>T. kept s T \<longrightarrow> p \<notin> T \<and> kept s1 T" "kept s1 {p}"
    using new_table [OF assms(1,2)] by blast
  let ?m = "zero_table m (vb + p)"
  note e = empty_table [OF a(4), of d m]
  have "kept s1 F \<and> F \<inter> tables d ?m vb p = {} \<and> agree m ?m vb F" if "kept s F" for F
    unfolding e(1) using a(5) that zero_agree [OF a(4), of F m] by blast
  moreover have "walk (Suc d) m vb t va = walk d ?m vb p va" if "slot (Suc d) va = slot (Suc d) v" for va
    unfolding e(3) by (rule walk_no_pointer [OF assms(5,6) that])
  ultimately have "ready d t v p {} 1 s m s1 ?m"
    unfolding ready_def using a(2,3,6) e(1,2) by simp
  with a(1,4) show ?thesis by blast
qed

lemma ready_child:
  assumes "Suc d \<le> 3" "inv s" "0 < room s" "tree_ok (Suc d) m vb t" "kept s (tables (Suc d) m vb t)" "walk (Suc d) m vb t v = None"
  shows "\<exists>s1 m1 c C desc. ready d t v c C 1 s m s1 m1 \<and> desc mod 4 = 3 \<and> out_addr 12 desc = c \<and>
    alloc_table_and_fill alloc n vb dev (s, m) (lev (Suc d)) (entry m vb t (slot (Suc d) v)) v b f strategy =
      run_then (fill_table alloc n vb dev (s1, m1) (lev d) c v b f strategy) (\<lambda>st. Inr (st, desc))"
proof -
  let ?desc = "entry m vb t (slot (Suc d) v)"
  have p: "is_pointer_entry (lev (Suc d)) ?desc \<longleftrightarrow> ?desc mod 4 = 3" using is_pointer_lev [OF assms(1)] by simp
  have n: "get_next_table (lev (Suc d)) = Some (lev d)" using assms(1) by (intro next_lev) simp
  show ?thesis
  proof (cases "?desc mod 4 = 3")
    case True
    note r = ready_old [OF assms(2,4,5) True]
    have "alloc_table_and_fill alloc n vb dev (s, m) (lev (Suc d)) ?desc v b f strategy =
        run_then (fill_table alloc n vb dev (s, m) (lev d) (out_addr 12 ?desc) v b f strategy) (\<lambda>st. Inr (st, ?desc))"
      by (simp add: alloc_table_and_fill.simps p n True phys_addr_pointer)
    with r True show ?thesis by blast
  next
    case False
    obtain s1 a where a: "alloc s 1 = Some (s1, Some (a, 1))" "table_at vb a" "ready d t v a {} 1 s m s1 (zero_table m (vb + a))"
      using ready_new [OF assms(2-5) False assms(6)] by blast
    have ta: "4096 dvd a" "a < 2 ^ 48" "vb + a < 2 ^ 64" using a(2) by (simp_all add: table_at_def)
    note mp = make_pointer_lev [OF zero_less_Suc assms(1) ta(1,2)]
    have "uadd W64 vb a = Some (vb + a)" using ta(3) by simp
    then have "alloc_table_and_fill alloc n vb dev (s, m) (lev (Suc d)) ?desc v b f strategy =
        run_then (fill_table alloc n vb dev (s1, zero_table m (vb + a)) (lev d) a v b f strategy) (\<lambda>st. Inr (st, a + 3))"
      using a(1) by (simp add: alloc_table_and_fill.simps p n False phys_addr_pointer mp)
    with a(3) mp(2,3) show ?thesis by blast
  qed
qed

lemma descend:
  assumes "Suc d \<le> 3" "inv s" "0 < room s" "tree_ok (Suc d) m vb t" "kept s (tables (Suc d) m vb t)" "0 < f" "v mod esz (Suc d) + f \<le> esz (Suc d)"
    and un: "\<And>va. covers (Suc d) v f va \<Longrightarrow> walk (Suc d) m vb t va = None"
    and fill: "\<And>s1 m1 c. inv s1 \<Longrightarrow> room s \<le> room s1 + 1 \<Longrightarrow> tree_ok d m1 vb c \<Longrightarrow> kept s1 (tables d m1 vb c) \<Longrightarrow>
      (\<And>va. covers d v f va \<Longrightarrow> walk d m1 vb c va = None) \<Longrightarrow>
      \<exists>s' m'. fill_table alloc n vb dev (s1, m1) (lev d) c v b f strategy = Inr (s', m') \<and> maps d c k dev v b f s1 m1 s' m'"
  shows "\<exists>s' m' desc. alloc_table_and_fill alloc n vb dev (s, m) (lev (Suc d)) (entry m vb t (slot (Suc d) v)) v b f strategy = Inr ((s', m'), desc)
    \<and> maps (Suc d) t (1 + k) dev v b f s m s' (table_set m' (vb + t) (slot (Suc d) v) desc)"
proof -
  have "walk (Suc d) m vb t v = None" using assms(6) by (intro un) (simp add: covers_def)
  then obtain s1 m1 c C desc where r: "ready d t v c C 1 s m s1 m1" "desc mod 4 = 3" "out_addr 12 desc = c"
      "alloc_table_and_fill alloc n vb dev (s, m) (lev (Suc d)) (entry m vb t (slot (Suc d) v)) v b f strategy =
        run_then (fill_table alloc n vb dev (s1, m1) (lev d) c v b f strategy) (\<lambda>st. Inr (st, desc))"
    using ready_child [OF assms(1-5)] by blast
  have "walk d m1 vb c va = None" if "covers d v f va" for va
  proof -
    obtain va' where va': "slot (Suc d) va' = slot (Suc d) v" "va' mod esz (Suc d) = va mod esz (Suc d)" using slot_move by blast
    have "covers (Suc d) v f va'" using that va' covers_child [OF assms(7), of va'] by (simp add: covers_def)
    then have "walk d m1 vb c va' = None" using un readyD(8) [OF r(1) va'(1)] by simp
    then show ?thesis using walk_mod [OF va'(2)] by simp
  qed
  then obtain s' m' where f: "fill_table alloc n vb dev (s1, m1) (lev d) c v b f strategy = Inr (s', m')" "maps d c k dev v b f s1 m1 s' m'"
    using fill [OF readyD(1-4) [OF r(1)]] by blast
  have "maps (Suc d) t (1 + k) dev v b f s m s' (table_set m' (vb + t) (slot (Suc d) v) desc)"
    by (rule maps_child [OF assms(4,5) r(1) f(2) r(2,3) assms(7)])
  with r(4) f(1) show ?thesis by auto
qed

section \<open>The compact strategy\<close>

definition unmapped where
  "unmapped d m t v sz \<longleftrightarrow> (\<forall>va. covers d v sz va \<longrightarrow> walk d m vb t va = None)"

definition fills where
  "fills n dev strategy d ok k \<longleftrightarrow> (\<forall>s m t v b sz. inv s \<and> k \<le> room s \<and> tree_ok d m vb t \<and> kept s (tables d m vb t) \<and> rng d v b sz \<and> ok v sz
     \<and> unmapped d m t v sz \<longrightarrow>
     (\<exists>s' m'. fill_table alloc n vb dev (s, m) (lev d) t v b sz strategy = Inr (s', m') \<and> maps d t k dev v b sz s m s' m'))"

lemma fillsD:
  assumes "fills n dev strategy d ok k" "inv s" "k \<le> room s" "tree_ok d m vb t" "kept s (tables d m vb t)" "rng d v b sz" "ok v sz" "unmapped d m t v sz"
  shows "\<exists>s' m'. fill_table alloc n vb dev (s, m) (lev d) t v b sz strategy = Inr (s', m') \<and> maps d t k dev v b sz s m s' m'"
  using assms unfolding fills_def by blast

lemma unmapped_rest:
  assumes "unmapped d m t v sz" "maps d t k dev v b f s m s' m'" "f \<le> sz" "rng d v b' sz"
  shows "unmapped d m' t (v + f) (sz - f)"
proof -
  have r: "v mod esz (Suc d) + sz \<le> esz (Suc d)" using assms(4) by (simp add: rng_def)
  show ?thesis
    unfolding unmapped_def
    using assms(1) covers_split [OF assms(3) r] covers_apart [OF assms(3) r] mapsD(6) [OF assms(2)] by (simp add: unmapped_def)
qed

lemma compact_block_step:
  assumes "d \<le> 3" "rng d v b sz" "esz d dvd v" "esz d \<le> sz" "make_descriptor (lev d) b dev = Some desc"
  shows "compact_loop alloc n vb dev (s, m) (lev d) table (Suc k) v b sz =
    compact_loop alloc n vb dev (s, table_set m table (slot d v) desc) (lev d) table k (v + esz d) (b + esz d) (sz - esz d)"
proof -
  have "4096 \<le> esz d" using page_dvd_esz [of d] by (simp add: dvd_imp_le)
  then have "\<not> sz < Buddy.page_size" using assms(4) by (simp add: page_size_def)
  moreover have "is_aligned W64 v (esz d) = Some True"
    using is_aligned_eq [of v W64 "12 + 9 * d"] assms(1-3) by (simp add: rng_def esz_def)
  moreover have "uadd W64 v (esz d) = Some (v + esz d)" "uadd W64 b (esz d) = Some (b + esz d)" "usub sz (esz d) = Some (sz - esz d)"
    using assms(2,4) by (simp_all add: rng_def)
  ultimately show ?thesis
    using assms(4,5) by (subst compact_loop.simps) (simp add: Let_def entry_size_lev [OF assms(1)] index_lev [OF assms(1)])
qed

lemma compact_table_step:
  assumes "d \<le> 3" "rng d v b sz" "4096 \<le> sz" "\<not> (esz d dvd v \<and> esz d \<le> sz)" "f = (if esz d dvd v then sz else sz mod esz d)"
    "alloc_table_and_fill alloc n vb dev (s, m) (lev d) (table_get m table (slot d v)) v b f Compact = Inr ((s', m'), desc)"
  shows "compact_loop alloc n vb dev (s, m) (lev d) table (Suc k) v b sz =
    compact_loop alloc n vb dev (s', table_set m' table (slot d v) desc) (lev d) table k (v + f) (b + f) (sz - f)"
proof -
  have "\<not> sz < Buddy.page_size" using assms(3) by (simp add: page_size_def)
  moreover have al: "is_aligned W64 v (esz d) = Some (esz d dvd v)"
    using is_aligned_eq [of v W64 "12 + 9 * d"] assms(1,2) by (simp add: rng_def esz_def)
  moreover have f: "f \<le> sz" using assms(5) by simp
  moreover have "uadd W64 v f = Some (v + f)" "uadd W64 b f = Some (b + f)" "usub sz f = Some (sz - f)"
    using assms(2) f by (simp_all add: rng_def)
  moreover have "sz AND (esz d - 1) = sz mod esz d"
    using take_bit_eq_mask [of "12 + 9 * d" sz] by (simp add: esz_def mask_eq_exp_minus_1 take_bit_eq_mod)
  ultimately show ?thesis
    using assms(4-6) by (subst compact_loop.simps) (auto simp: Let_def entry_size_lev [OF assms(1)] index_lev [OF assms(1)] simp del: One_nat_def)
qed

lemma compact_done: "compact_loop alloc n vb dev st l table k v b 0 = Inr st"
  by (simp add: compact_loop.simps page_size_def)

text \<open>One table below an entry is filled.\<close>

lemma compact_descend:
  assumes "Suc d \<le> 3" "inv s" "Suc d \<le> room s" "tree_ok (Suc d) m vb t" "kept s (tables (Suc d) m vb t)" "rng (Suc d) v b sz"
    "unmapped (Suc d) m t v sz" "0 < f" "f \<le> sz" "4096 dvd f" "v mod esz (Suc d) + f \<le> esz (Suc d)" "compact_ok d v f"
    and fills: "fills n dev Compact d (compact_ok d) d"
  shows "\<exists>s' m' desc. alloc_table_and_fill alloc n vb dev (s, m) (lev (Suc d)) (entry m vb t (slot (Suc d) v)) v b f Compact = Inr ((s', m'), desc)
    \<and> maps (Suc d) t (Suc d) dev v b f s m s' (table_set m' (vb + t) (slot (Suc d) v) desc)"
proof -
  have un: "walk (Suc d) m vb t va = None" if "covers (Suc d) v f va" for va
  proof -
    have "covers (Suc d) v sz va" using that assms(9) by (auto simp: covers_def)
    then show ?thesis using assms(7) by (simp add: unmapped_def del: walk.simps)
  qed
  have r: "rng d v b f" using assms(1) by (intro rng_child [OF assms(6) _ assms(9,10,11)]) simp
  have fl: "\<exists>s' m'. fill_table alloc n vb dev (s1, m1) (lev d) c v b f Compact = Inr (s', m') \<and> maps d c d dev v b f s1 m1 s' m'"
    if "inv s1" "room s \<le> room s1 + 1" "tree_ok d m1 vb c" "kept s1 (tables d m1 vb c)" "\<And>va. covers d v f va \<Longrightarrow> walk d m1 vb c va = None" for s1 m1 c
  proof (rule fillsD [OF fills that(1) _ that(3,4) r assms(12)])
    show "unmapped d m1 c v f" unfolding unmapped_def using that(5) by blast
  qed (use that(2) assms(3) in simp)
  have "0 < room s" using assms(3) by simp
  from descend [OF assms(1,2) this assms(4,5,8,11) un fl] show ?thesis unfolding plus_1_eq_Suc .
qed

lemma compact_aligned:
  assumes "d \<le> 3" "\<And>e. d = Suc e \<Longrightarrow> fills n dev Compact e (compact_ok e) e" "sz div esz d < k"
    "inv s" "(if esz d dvd sz then 0 else d) \<le> room s" "tree_ok d m vb t" "kept s (tables d m vb t)" "rng d v b sz" "esz d dvd v" "unmapped d m t v sz"
  shows "\<exists>s' m'. compact_loop alloc n vb dev (s, m) (lev d) (vb + t) k v b sz = Inr (s', m')
    \<and> maps d t (if esz d dvd sz then 0 else d) dev v b sz s m s' m'"
  using assms(3-)
proof (induction k arbitrary: s m v b sz)
  case (Suc k)
  note pre = Suc.prems(2-8)
  have page: "4096 dvd sz" "4096 dvd esz d" using pre(5) page_dvd_esz by (simp_all add: rng_def)
  consider "sz = 0" | "esz d \<le> sz" | "0 < sz" "sz < esz d" by linarith
  then show ?case
  proof cases
    case 1
    then show ?thesis using compact_done maps_refl [OF pre(1,3,4)] by (metis)
  next
    case 2
    have d2: "d \<le> 2" using 2 pre(5) assms(1) by (cases "d = 3") (auto simp: rng_def)
    have "esz d dvd esz 2" using d2 by (rule esz_dvd)
    then have b: "esz d dvd b" using pre(5,6) by (metis dvd_mod_iff rng_def)
    have b48: "b < 2 ^ 48" using pre(5) 2 esz_pos [of d] unfolding rng_def by linarith
    obtain desc where desc: "make_descriptor (lev d) b dev = Some desc" using make_descriptor_lev [OF d2 b b48] by blast
    let ?m = "table_set m (vb + t) (slot d v) desc"
    have mp: "maps d t 0 dev v b (esz d) s m s ?m" by (rule maps_leaf [OF pre(1,3,4) d2 pre(6) b b48 desc])
    have dv: "esz d dvd sz - esz d \<longleftrightarrow> esz d dvd sz" using 2 by (metis dvd_diff_nat dvd_refl le_add_diff_inverse dvd_add)
    have "\<exists>s' m'. compact_loop alloc n vb dev (s, ?m) (lev d) (vb + t) k (v + esz d) (b + esz d) (sz - esz d) = Inr (s', m')
        \<and> maps d t (if esz d dvd sz - esz d then 0 else d) dev (v + esz d) (b + esz d) (sz - esz d) s ?m s' m'"
    proof (rule Suc.IH)
      show "(sz - esz d) div esz d < k" using Suc.prems(1) 2 by (simp add: le_div_geq)
      show "(if esz d dvd sz - esz d then 0 else d) \<le> room s" using pre(2) dv by simp
      show "rng d (v + esz d) (b + esz d) (sz - esz d)" by (rule rng_tail [OF pre(5) 2 page(2)])
      show "unmapped d ?m t (v + esz d) (sz - esz d)" by (rule unmapped_rest [OF pre(7) mp 2 pre(5)])
    qed (use pre(1,6) mapsD(3,4) [OF mp] in simp_all)
    then obtain s' m' where l: "compact_loop alloc n vb dev (s, ?m) (lev d) (vb + t) k (v + esz d) (b + esz d) (sz - esz d) = Inr (s', m')"
        "maps d t (if esz d dvd sz then 0 else d) dev (v + esz d) (b + esz d) (sz - esz d) s ?m s' m'" unfolding dv by blast
    have "maps d t (0 + (if esz d dvd sz then 0 else d)) dev v b sz s m s' m'"
      using pre(5) by (intro maps_trans [OF mp l(2) 2]) (simp add: rng_def)
    with l(1) compact_block_step [OF assms(1) pre(5,6) 2 desc] show ?thesis by auto
  next
    case 3
    have "\<not> esz d dvd sz" using 3 by (auto dest: dvd_imp_le)
    have "d \<noteq> 0" using 3(2) dvd_imp_le [OF page(1) 3(1)] by (intro notI) (simp add: esz_def)
    then obtain e where e: "d = Suc e" using not0_implies_Suc by blast
    have "4096 \<le> sz" using 3 page(1) by (auto dest: dvd_imp_le)
    have "esz e dvd v" using pre(6) esz_dvd [of e d] e dvd_trans by (metis le_add2 plus_1_eq_Suc)
    have "\<exists>s' m' desc. alloc_table_and_fill alloc n vb dev (s, m) (lev d) (entry m vb t (slot d v)) v b sz Compact = Inr ((s', m'), desc)
        \<and> maps d t d dev v b sz s m s' (table_set m' (vb + t) (slot d v) desc)"
      unfolding e
    proof (rule compact_descend [where sz = sz])
      show "compact_ok e v sz" using \<open>esz e dvd v\<close> by (intro compact_ok_ends) simp
      show "v mod esz (Suc e) + sz \<le> esz (Suc e)" using pre(6) 3(2) e by (simp add: dvd_eq_mod_eq_0)
    qed (use pre 3 page assms(1,2) \<open>\<not> esz d dvd sz\<close> e in simp_all)
    then obtain s' m' desc where a: "alloc_table_and_fill alloc n vb dev (s, m) (lev d) (entry m vb t (slot d v)) v b sz Compact = Inr ((s', m'), desc)"
        "maps d t d dev v b sz s m s' (table_set m' (vb + t) (slot d v) desc)" by blast
    then show ?thesis
      using compact_table_step [OF assms(1) pre(5) \<open>4096 \<le> sz\<close> _ _ a(1)] 3 pre(6) compact_done \<open>\<not> esz d dvd sz\<close> by auto
  qed
qed simp

lemma head_size:
  fixes v sz E :: nat
  assumes "\<not> E dvd v" "E dvd v + sz" "0 < E"
  shows "v mod E + sz mod E = E"
proof -
  have "(v mod E + sz mod E) mod E = 0" using assms(2) by (simp add: mod_add_eq dvd_eq_mod_eq_0)
  then obtain q where q: "v mod E + sz mod E = E * q" by (auto simp: dvd_def simp flip: dvd_eq_mod_eq_0)
  have "0 < v mod E" "v mod E < E" "sz mod E < E" using assms(1,3) by (auto simp: dvd_eq_mod_eq_0)
  then have "0 < E * q" "E * q < E * 2" unfolding q [symmetric] by linarith+
  then have "q = 1" by (metis less_2_cases mult_0_right mult_less_cancel1 not_less_zero One_nat_def)
  with q show ?thesis by simp
qed

text \<open>The part of a range before its first entry.\<close>

lemma compact_head:
  assumes "\<not> esz (Suc d) dvd v" "compact_ok (Suc d) v sz" "0 < sz" "rng (Suc d) v b sz"
  defines "f \<equiv> sz mod esz (Suc d)"
  shows "0 < f" "f \<le> sz" "4096 dvd f" "v mod esz (Suc d) + f \<le> esz (Suc d)" "compact_ok d v f"
    "esz (Suc d) dvd sz - f" "sz = f \<or> esz (Suc d) dvd v + f"
proof -
  let ?E = "esz (Suc d)"
  have p: "0 < v mod ?E" "v mod ?E < ?E" using assms(1) by (auto simp: dvd_eq_mod_eq_0)
  show "f \<le> sz" "?E dvd sz - f" unfolding f_def by (simp_all add: minus_mod_eq_mult_div)
  show "4096 dvd f" unfolding f_def using assms(4) page_dvd_esz by (simp add: rng_def dvd_mod)
  have e: "esz d dvd ?E" by (rule esz_dvd) simp
  consider "?E dvd v + sz" | "v mod ?E + sz \<le> ?E" "compact_ok d v sz" using assms(1,2) by auto
  then have "0 < f \<and> v mod ?E + f \<le> ?E \<and> compact_ok d v f \<and> (sz = f \<or> ?E dvd v + f)"
  proof cases
    case 1
    have h: "v mod ?E + f = ?E" unfolding f_def by (rule head_size [OF assms(1) 1 esz_pos])
    then have "(v + f) mod ?E = 0" by (metis mod_add_left_eq mod_self)
    then have "?E dvd v + f" by (simp add: dvd_eq_mod_eq_0)
    moreover have "0 < f" using h p by linarith
    ultimately show ?thesis using h compact_ok_ends [of d v f] dvd_trans [OF e] by auto
  next
    case 2
    then have "f = sz" unfolding f_def using p by (intro mod_less) linarith
    with 2 assms(3) show ?thesis by simp
  qed
  then show "0 < f" "v mod ?E + f \<le> ?E" "compact_ok d v f" "sz = f \<or> ?E dvd v + f" by blast+
qed

lemma compact_unaligned:
  assumes "Suc d \<le> 3" "fills n dev Compact d (compact_ok d) d" "513 \<le> k" "inv s" "Suc d \<le> room s" "tree_ok (Suc d) m vb t" "kept s (tables (Suc d) m vb t)"
    "rng (Suc d) v b sz" "compact_ok (Suc d) v sz" "\<not> esz (Suc d) dvd v" "unmapped (Suc d) m t v sz" "0 < sz"
  shows "\<exists>s' m'. compact_loop alloc n vb dev (s, m) (lev (Suc d)) (vb + t) (Suc k) v b sz = Inr (s', m') \<and> maps (Suc d) t (Suc d) dev v b sz s m s' m'"
proof -
  let ?E = "esz (Suc d)" and ?f = "sz mod esz (Suc d)"
  note h = compact_head [OF assms(10,9,12,8)]
  obtain s1 m1 desc where a: "alloc_table_and_fill alloc n vb dev (s, m) (lev (Suc d)) (entry m vb t (slot (Suc d) v)) v b ?f Compact = Inr ((s1, m1), desc)"
      "maps (Suc d) t (Suc d) dev v b ?f s m s1 (table_set m1 (vb + t) (slot (Suc d) v) desc)"
    using compact_descend [OF assms(1,4-8,11) h(1-5) assms(2)] by blast
  let ?m = "table_set m1 (vb + t) (slot (Suc d) v) desc"
  have "4096 \<le> sz" using assms(8,12) by (auto simp: rng_def dest: dvd_imp_le)
  then have step: "compact_loop alloc n vb dev (s, m) (lev (Suc d)) (vb + t) (Suc k) v b sz =
      compact_loop alloc n vb dev (s1, ?m) (lev (Suc d)) (vb + t) k (v + ?f) (b + ?f) (sz - ?f)"
    using assms(10) by (intro compact_table_step [OF assms(1,8) _ _ _ a(1)]) simp_all
  have "\<exists>s' m'. compact_loop alloc n vb dev (s1, ?m) (lev (Suc d)) (vb + t) k (v + ?f) (b + ?f) (sz - ?f) = Inr (s', m')
      \<and> maps (Suc d) t 0 dev (v + ?f) (b + ?f) (sz - ?f) s1 ?m s' m'"
  proof (cases "sz = ?f")
    case True
    then have "sz - ?f = 0" by linarith
    then show ?thesis using compact_done maps_refl [OF mapsD(1,3,4) [OF a(2)]] by metis
  next
    case False
    have "sz \<le> 512 * ?E" using assms(8) by (simp add: rng_def esz_Suc [of "Suc d"])
    then have "sz - ?f \<le> 512 * ?E" by linarith
    then have "(sz - ?f) div ?E \<le> (512 * ?E) div ?E" by (rule div_le_mono)
    also have "(512 * ?E) div ?E = 512" by simp
    finally have lt: "(sz - ?f) div ?E < k" using assms(3) by linarith
    have "(if ?E dvd sz - ?f then 0 else Suc d) \<le> room s1" using h(6) by simp
    moreover have "?E dvd v + ?f" using h(7) False by blast
    moreover have "unmapped (Suc d) ?m t (v + ?f) (sz - ?f)" by (rule unmapped_rest [OF assms(11) a(2) h(2) assms(8)])
    ultimately show ?thesis
      using compact_aligned [OF assms(1) _ lt mapsD(1) [OF a(2)] _ mapsD(3,4) [OF a(2)] rng_tail [OF assms(8) h(2,3)]] assms(2) h(6) by auto
  qed
  then obtain s' m' where l: "compact_loop alloc n vb dev (s1, ?m) (lev (Suc d)) (vb + t) k (v + ?f) (b + ?f) (sz - ?f) = Inr (s', m')"
      "maps (Suc d) t 0 dev (v + ?f) (b + ?f) (sz - ?f) s1 ?m s' m'" by blast
  have "maps (Suc d) t (Suc d + 0) dev v b sz s m s' m'"
    using assms(8) by (intro maps_trans [OF a(2) l(2) h(2)]) (simp add: rng_def)
  with l(1) step show ?thesis by auto
qed

text \<open>\<open>fill_table\<close> with the compact strategy, at every level: each loop needs at most 514 rounds, each level one new table.\<close>

lemma compact_loop_fills:
  assumes "d \<le> 3" "514 \<le> n" "\<And>e. d = Suc e \<Longrightarrow> fills n dev Compact e (compact_ok e) e" "inv s" "d \<le> room s" "tree_ok d m vb t"
    "kept s (tables d m vb t)" "rng d v b sz" "compact_ok d v sz" "unmapped d m t v sz"
  shows "\<exists>s' m'. compact_loop alloc n vb dev (s, m) (lev d) (vb + t) n v b sz = Inr (s', m') \<and> maps d t d dev v b sz s m s' m'"
proof (cases "esz d dvd v")
  case True
  have "sz \<le> 512 * esz d" using assms(8) by (simp add: rng_def esz_Suc)
  then have "sz div esz d \<le> (512 * esz d) div esz d" by (rule div_le_mono)
  also have "(512 * esz d) div esz d = 512" by simp
  finally have lt: "sz div esz d < n" using assms(2) by simp
  have "(if esz d dvd sz then 0 else d) \<le> room s" using assms(5) by simp
  from compact_aligned [OF assms(1,3) lt assms(4) this assms(6-8) True assms(10)]
  obtain s' m' where l: "compact_loop alloc n vb dev (s, m) (lev d) (vb + t) n v b sz = Inr (s', m')"
      "maps d t (if esz d dvd sz then 0 else d) dev v b sz s m s' m'" by blast
  have "maps d t d dev v b sz s m s' m'" by (rule maps_more [OF l(2)]) simp
  with l(1) show ?thesis by blast
next
  case False
  then obtain e where e: "d = Suc e" using assms(8) by (cases d) (auto simp: rng_def esz_def)
  obtain k where k: "n = Suc k" "513 \<le> k" using assms(2) by (cases n) auto
  show ?thesis
  proof (cases "sz = 0")
    case True
    then show ?thesis using compact_done maps_refl [OF assms(4,6,7)] by metis
  next
    case nz: False
    have "compact_loop alloc n vb dev (s, m) (lev d) (vb + t) n v b sz = compact_loop alloc n vb dev (s, m) (lev d) (vb + t) (Suc k) v b sz" unfolding k ..
    then show ?thesis
      using compact_unaligned [of e n dev k s m t v b sz] assms(1,3-10) False nz k(2) unfolding e by simp
  qed
qed

lemma fill_compact_eq:
  assumes "rng d v b sz" "table_at vb t"
  shows "fill_table alloc n vb dev st (lev d) t v b sz Compact = compact_loop alloc n vb dev st (lev d) (vb + t) n v b sz"
proof -
  have "is_aligned W64 b Buddy.page_size = Some True" "is_aligned W64 v Buddy.page_size = Some True" "uadd W64 vb t = Some (vb + t)"
    using is_aligned_eq [of b W64 12] is_aligned_eq [of v W64 12] assms by (simp_all add: rng_def page_size_def table_at_def)
  then show ?thesis by (simp add: fill_table.simps fill_table_compact.simps)
qed

lemma compact_fills: "d \<le> 3 \<Longrightarrow> 514 \<le> n \<Longrightarrow> fills n dev Compact d (compact_ok d) d"
proof (induction d)
  case 0
  show ?case unfolding fills_def
    using fill_compact_eq [of 0] compact_loop_fills [of 0 n dev] 0(2) tree_ok_table by fastforce
next
  case (Suc d)
  show ?case unfolding fills_def
    using fill_compact_eq [of "Suc d"] compact_loop_fills [of "Suc d" n dev] Suc tree_ok_table by fastforce
qed

section \<open>The granular strategy\<close>

lemma granular_page_step:
  assumes "v + sz < 2 ^ 64" "b + sz \<le> 2 ^ 48" "0 < sz" "4096 dvd sz" "make_descriptor (lev 0) b dev = Some desc"
  shows "granular_loop alloc n vb dev (s, m) (lev 0) table v b sz =
    (if sz = 4096 then Inr (s, table_set m table (slot 0 v) desc)
     else granular_loop alloc n vb dev (s, table_set m table (slot 0 v) desc) (lev 0) table (v + 4096) (b + 4096) (sz - 4096))"
proof -
  have "4096 \<le> sz" using assms(3,4) by (simp add: dvd_imp_le)
  moreover have "lev 0 = Level4" "esz 0 = 4096" by (simp_all add: lev_def esz_def)
  moreover have "get_table_entry_size (lev 0) = esz 0" "get_descriptor_index v (lev 0) = slot 0 v"
    using entry_size_lev [of 0] index_lev [of 0 v] by simp_all
  moreover have "uadd W64 v 4096 = Some (v + 4096)" "uadd W64 b 4096 = Some (b + 4096)" using assms(1,2) \<open>4096 \<le> sz\<close> by simp_all
  ultimately show ?thesis using assms(5) by (subst granular_loop.simps) (simp add: Let_def)
qed

lemma granular_pages:
  assumes "inv s" "tree_ok 0 m vb t" "kept s (tables 0 m vb t)" "4096 dvd v" "4096 dvd b" "4096 dvd sz" "0 < sz" "v + sz < 2 ^ 64" "b + sz \<le> 2 ^ 48"
    "v mod esz 1 + sz \<le> esz 1"
  shows "\<exists>s' m'. granular_loop alloc n vb dev (s, m) (lev 0) (vb + t) v b sz = Inr (s', m') \<and> maps 0 t 0 dev v b sz s m s' m'"
  using assms
proof (induction sz arbitrary: m v b rule: less_induct)
  case (less sz)
  note pre = less.prems
  have e0: "esz 0 = 4096" by (simp add: esz_def)
  have le: "4096 \<le> sz" using pre(6,7) by (simp add: dvd_imp_le)
  have b: "b < 2 ^ 48" using pre(7,9) by linarith
  have al: "esz 0 dvd b" "esz 0 dvd v" using pre(4,5) by (simp_all add: e0)
  obtain desc where desc: "make_descriptor (lev 0) b dev = Some desc" using make_descriptor_lev [of 0 b] al b by auto
  let ?m = "table_set m (vb + t) (slot 0 v) desc"
  have mp: "maps 0 t 0 dev v b 4096 s m s ?m" using maps_leaf [OF pre(1-3) _ al(2,1) b desc] by (simp add: e0)
  note step = granular_page_step [OF pre(8,9,7,6) desc, of n s m "vb + t"]
  show ?case
  proof (cases "sz = 4096")
    case True
    with step mp show ?thesis by auto
  next
    case False
    have r: "(v + 4096) mod esz 1 = v mod esz 1 + 4096" using pre(10) le False by (intro mod_shift) linarith
    have "\<exists>s' m'. granular_loop alloc n vb dev (s, ?m) (lev 0) (vb + t) (v + 4096) (b + 4096) (sz - 4096) = Inr (s', m')
        \<and> maps 0 t 0 dev (v + 4096) (b + 4096) (sz - 4096) s ?m s' m'"
    proof (rule less.IH)
      show "(v + 4096) mod esz 1 + (sz - 4096) \<le> esz 1" using r pre(10) le by linarith
      show "4096 dvd sz - 4096" using pre(6) by (simp add: dvd_diff_nat)
      show "tree_ok 0 ?m vb t" "kept s (tables 0 ?m vb t)" by (rule mapsD [OF mp])+
    qed (use pre le False in \<open>simp_all add: dvd_add\<close>)
    then obtain s' m' where l: "granular_loop alloc n vb dev (s, ?m) (lev 0) (vb + t) (v + 4096) (b + 4096) (sz - 4096) = Inr (s', m')"
        "maps 0 t 0 dev (v + 4096) (b + 4096) (sz - 4096) s ?m s' m'" by blast
    have "maps 0 t (0 + 0) dev v b sz s m s' m'" by (rule maps_trans [OF mp l(2) le]) (use pre(10) in simp)
    with l(1) step False show ?thesis by auto
  qed
qed

lemma mod_outer: "v mod e + sz \<le> e \<Longrightarrow> v mod (q * e) + sz \<le> q * e" if "0 < q" for v sz e q :: nat
proof -
  assume a: "v mod e + sz \<le> e"
  have "v mod (q * e) = v mod e + e * (v div e mod q)" by (metis mod_mult2_eq mult.commute add.commute)
  moreover have "e * Suc (v div e mod q) \<le> e * q" using that by (intro mult_le_mono2) (simp add: Suc_le_eq)
  ultimately show ?thesis using a by (simp add: mult.commute [of q])
qed

lemma section_outer: "1 \<le> d \<Longrightarrow> v mod esz 1 + sz \<le> esz 1 \<Longrightarrow> v mod esz d + sz \<le> esz d"
  using mod_outer [of "esz d div esz 1" v "esz 1" sz] esz_dvd [of 1 d] by (simp add: div_greater_zero_iff dvd_imp_le)

lemma fill_granular_eq:
  assumes "4096 dvd v" "4096 dvd b" "v < 2 ^ 64" "b \<le> 2 ^ 48" "table_at vb t"
  shows "fill_table alloc n vb dev st (lev d) t v b sz Granular = granular_loop alloc n vb dev st (lev d) (vb + t) v b sz"
proof -
  have "is_aligned W64 b Buddy.page_size = Some True" "is_aligned W64 v Buddy.page_size = Some True" "uadd W64 vb t = Some (vb + t)"
    using is_aligned_eq [of b W64 12] is_aligned_eq [of v W64 12] assms by (simp_all add: page_size_def table_at_def)
  then show ?thesis by (simp add: fill_table.simps fill_table_granular.simps)
qed

lemma granular_fills:
  assumes "d \<le> 3" "inv s" "d \<le> room s" "tree_ok d m vb t" "kept s (tables d m vb t)" "unmapped d m t v sz"
    and r: "4096 dvd v" "4096 dvd b" "4096 dvd sz" "0 < sz" "v + sz < 2 ^ 64" "b + sz \<le> 2 ^ 48" "v mod esz 1 + sz \<le> esz 1"
  shows "\<exists>s' m'. fill_table alloc n vb dev (s, m) (lev d) t v b sz Granular = Inr (s', m') \<and> maps d t d dev v b sz s m s' m'"
  using assms(1-6)
proof (induction d arbitrary: s m t)
  case 0
  have "v < 2 ^ 64" "b \<le> 2 ^ 48" using r by simp_all
  with granular_pages [OF 0(2,4,5) r(1-7)] fill_granular_eq [OF r(1,2) _ _ tree_ok_table [OF 0(4)], of n dev "(s, m)" 0 sz] show ?case by simp
next
  case (Suc d)
  have bd: "v < 2 ^ 64" "b \<le> 2 ^ 48" using r by simp_all
  have fit: "v mod esz (Suc d) + sz \<le> esz (Suc d)" by (rule section_outer [OF _ r(7)]) simp
  have un: "walk (Suc d) m vb t va = None" if "covers (Suc d) v sz va" for va using Suc.prems(6) that unfolding unmapped_def by blast
  have fl: "\<exists>s' m'. fill_table alloc n vb dev (s1, m1) (lev d) c v b sz Granular = Inr (s', m') \<and> maps d c d dev v b sz s1 m1 s' m'"
    if "inv s1" "room s \<le> room s1 + 1" "tree_ok d m1 vb c" "kept s1 (tables d m1 vb c)" "\<And>va. covers d v sz va \<Longrightarrow> walk d m1 vb c va = None" for s1 m1 c
  proof (rule Suc.IH [OF _ that(1) _ that(3,4)])
    show "unmapped d m1 c v sz" unfolding unmapped_def using that(5) by blast
  qed (use Suc.prems(1,3) that(2) in simp_all)
  have rm: "0 < room s" using Suc.prems(3) by simp
  from descend [OF Suc.prems(1,2) rm Suc.prems(4,5) r(4) fit un fl]
  obtain s' m' desc where a: "alloc_table_and_fill alloc n vb dev (s, m) (lev (Suc d)) (entry m vb t (slot (Suc d) v)) v b sz Granular = Inr ((s', m'), desc)"
      "maps (Suc d) t (1 + d) dev v b sz s m s' (table_set m' (vb + t) (slot (Suc d) v) desc)" by blast
  have "sz \<le> esz (Suc d)" using fit by linarith
  moreover have "lev (Suc d) \<noteq> Level4" by (simp add: lev_def)
  ultimately have "granular_loop alloc n vb dev (s, m) (lev (Suc d)) (vb + t) v b sz = Inr (s', table_set m' (vb + t) (slot (Suc d) v) desc)"
    using a(1) by (subst granular_loop.simps) (simp add: Let_def entry_size_lev [OF Suc.prems(1)] index_lev [OF Suc.prems(1)])
  with a(2) fill_granular_eq [OF r(1,2) bd tree_ok_table [OF Suc.prems(4)], of n dev "(s, m)" "Suc d" sz] show ?case by simp
qed

end

end
