(* ===== verification/Page_Props.thy ===== *)
theory Page_Props
  imports Page_Maps
begin

text \<open>
  The page table builder over the allocator that boot uses, and the ranges on which its compact strategy never ends.
\<close>

section \<open>Tables from the buffered allocator\<close>

definition table_pool :: "usize \<Rightarrow> buffered \<Rightarrow> bool" where
  "table_pool vb a \<longleftrightarrow> bp_inv W64 a \<and> bp_page_size a = 4096 \<and> bp_end_addr a \<le> 2 ^ 48 \<and> vb + bp_end_addr a \<le> 2 ^ 64"

definition free_pages :: "buffered \<Rightarrow> nat" where
  "free_pages a = bm_bits (bp_bitmap a) - card (members W64 (bp_bitmap a))"

lemma buffered_alloc_keeps:
  "buffered_alloc w a p = Some (a', r) \<Longrightarrow> bp_end_addr a' = bp_end_addr a \<and> bp_page_size a' = bp_page_size a"
  by (auto simp: buffered_alloc_def bind_eq_Some_conv split: if_splits option.splits)

lemma free_pages_take:
  assumes "bp_inv W64 a" "0 < free_pages a"
  shows "\<exists>a' b. buffered_alloc W64 a 1 = Some (a', Some b) \<and> free_pages a = Suc (free_pages a')"
proof -
  have "members W64 (bp_bitmap a) \<noteq> {..<bm_bits (bp_bitmap a)}" using assms(2) by (intro notI) (simp add: free_pages_def)
  then obtain i bm where i: "first_zero W64 (bp_bitmap a) = Some (Some i)" "set_bit_at W64 (bp_bitmap a) i = Some bm"
      "i < bm_bits (bp_bitmap a)" "bm_bits bm = bm_bits (bp_bitmap a)" "card (members W64 bm) = Suc (card (members W64 (bp_bitmap a)))"
    using bm.take_first [OF bp_inv_bitmap [OF assms(1)]] by blast
  have "buffered_alloc W64 a 1 = Some (a\<lparr>bp_bitmap := bm\<rparr>, Some (page_addr a i, 1))"
    using i(1,2) page_addr_less(2,3) [OF assms(1) i(3)] by (simp add: buffered_alloc_def page_addr_def)
  moreover have "free_pages a = Suc (free_pages (a\<lparr>bp_bitmap := bm\<rparr>))"
    using i(4,5) assms(2) by (simp add: free_pages_def)
  ultimately show ?thesis by blast
qed

interpretation bt: table_source "table_pool vb" "bp_blocks W64" bp_page_size bp_area "\<lambda>_. True" "buffered_alloc W64" vb free_pages
  for vb
proof (unfold_locales, goal_cases)
  case (1 a p)
  then obtain a' r where l: "buffered_alloc W64 a p = Some (a', r)" "bp_inv W64 a'" "bp_page_size a' = bp_page_size a" "bp_area a' = bp_area a"
      "case r of None \<Rightarrow> bp_blocks W64 a' = bp_blocks W64 a
       | Some b \<Rightarrow> bp_blocks W64 a' = insert b (bp_blocks W64 a) \<and> fresh_block (bp_page_size a) (bp_area a) (bp_blocks W64 a) p b"
    using bp.alloc_law [of W64 a p] by (auto simp: table_pool_def)
  then show ?case using 1 buffered_alloc_keeps [OF l(1)] by (intro exI [of _ a'] exI [of _ r]) (simp add: table_pool_def)
next
  case 5
  then show ?case using free_pages_take by (simp add: table_pool_def)
qed (auto simp: table_pool_def bp_area_def)

text \<open>The state at boot: an empty \<open>Level1\<close> table and ten pages for new tables.\<close>

lemma boot_example:
  "\<exists>a. buffered_new W64 1 0x86000 0x90000 4096 = Some a \<and> table_pool 0xffff000000000000 a \<and> free_pages a = 10
    \<and> held (bp_area a) (bp_blocks W64 a) {0x80000}"
proof -
  obtain a where a: "buffered_new W64 1 0x86000 0x90000 (2 ^ 12) = Some a" "bp_inv W64 a" "members W64 (bp_bitmap a) = {}"
      "bp_area a = {0x86000..<0x90000}" "bp_page_size a = 2 ^ 12" "bm_bits (bp_bitmap a) = min ((0x90000 - 0x86000) div 2 ^ 12) (1 * word_bits W64)"
    using buffered_new_ok [of 12 W64 "0x86000" "0x90000" 1] by auto
  have "bp_area a \<noteq> {}" unfolding a(4) by simp
  then have "bp_start_addr a < bp_end_addr a" by (simp add: bp_area_def)
  then have "bp_end_addr a = 0x90000" using a(4) atLeastLessThan_eq_iff [of "bp_start_addr a" "bp_end_addr a" "0x86000" "0x90000"] by (simp add: bp_area_def)
  with a show ?thesis by (auto simp: table_pool_def free_pages_def held_def)
qed

lemma empty_root: "table_at vb root \<Longrightarrow> tables 3 (\<lambda>_. 0) vb root = {root} \<and> tree_ok 3 (\<lambda>_. 0) vb root \<and> walk 3 (\<lambda>_. 0) vb root va = None"
  by (simp add: numeral_3_eq_3 ptrs_def table_get_def leaf_def Let_def)

section \<open>Mapping memory\<close>

text \<open>A range at the top level: the span of a \<open>Level1\<close> table is the 48-bit address space.\<close>

lemma top_esz: "esz (Suc 3) = 2 ^ 48" "esz 3 = 2 ^ 39" "esz 2 = 2 ^ 30" "esz 1 = 2 ^ 21"
  by (simp_all add: esz_def)

text \<open>The lemma that the boot code's loop uses once per range.\<close>

lemma direct_map_ok:
  assumes "table_pool vb a" "3 \<le> free_pages a" "tree_ok 3 mem vb root" "held (bp_area a) (bp_blocks W64 a) (tables 3 mem vb root)"
    "2 ^ 48 dvd vb" "4096 dvd base" "4096 dvd sz" "sz < 2 ^ 39" "base + sz < 2 ^ 48" "vb + base + sz < 2 ^ 64" "compact_ok 3 (vb + base) sz"
    "\<forall>va. base \<le> va mod 2 ^ 48 \<and> va mod 2 ^ 48 < base + sz \<longrightarrow> walk 3 mem vb root va = None" "514 \<le> n"
  shows "\<exists>a' mem'. direct_map_memory (buffered_alloc W64) n vb root base sz dev Compact (a, mem) = Inr (a', mem')
    \<and> (\<forall>va. walk 3 mem' vb root va =
         (if base \<le> va mod 2 ^ 48 \<and> va mod 2 ^ 48 < base + sz then Some (va mod 2 ^ 48, mair_of dev) else walk 3 mem vb root va))
    \<and> tree_ok 3 mem' vb root \<and> held (bp_area a') (bp_blocks W64 a') (tables 3 mem' vb root)
    \<and> table_pool vb a' \<and> free_pages a \<le> free_pages a' + 3"
proof -
  let ?v = "vb + base"
  have v: "?v mod 2 ^ 48 = base" using assms(5,9) by (auto simp: dvd_def)
  have c: "covers 3 ?v sz va \<longleftrightarrow> base \<le> va mod 2 ^ 48 \<and> va mod 2 ^ 48 < base + sz" "off 3 ?v va = va mod 2 ^ 48 - base" for va
    unfolding covers_def off_def top_esz v by simp_all
  have "2 ^ 30 dvd (2 ^ 48 :: nat)" by (rule le_imp_power_dvd) simp
  then have "2 ^ 30 dvd vb" using assms(5) by (rule dvd_trans)
  then have cg: "?v mod esz 2 = base mod esz 2" unfolding top_esz by (auto simp: dvd_def)
  have al: "4096 dvd vb" using assms(5) by (auto simp: dvd_def)
  have r: "rng 3 ?v base sz"
    unfolding rng_def top_esz v using assms(6-10) al cg unfolding top_esz by simp
  have u: "bt.unmapped vb 3 mem root ?v sz" unfolding bt.unmapped_def c using assms(12) by blast
  have k: "held (bp_area a) (bp_blocks W64 a) (tables 3 mem vb root) \<and> (\<forall>t\<in>tables 3 mem vb root. table_at vb t)"
    using assms(4) tree_tables_at [OF assms(3)] by blast
  have f: "bt.fills vb n dev Compact 3 (compact_ok 3) 3" using assms(13) by (intro bt.compact_fills) simp
  obtain a' mem' where m: "fill_table (buffered_alloc W64) n vb dev (a, mem) (lev 3) root ?v base sz Compact = Inr (a', mem')"
      "bt.maps vb 3 root 3 dev ?v base sz a mem a' mem'"
    using bt.fillsD [OF f assms(1-3) k r assms(11) u] by blast
  have "lev 3 = Level1" by (simp add: lev_def)
  then have "direct_map_memory (buffered_alloc W64) n vb root base sz dev Compact (a, mem) = Inr (a', mem')"
    using m(1) assms(10) by (simp add: direct_map_memory_def)
  moreover have "walk 3 mem' vb root va = (if base \<le> va mod 2 ^ 48 \<and> va mod 2 ^ 48 < base + sz then Some (va mod 2 ^ 48, mair_of dev) else walk 3 mem vb root va)" for va
    unfolding bt.mapsD(6) [OF m(2)] c by simp
  ultimately show ?thesis using bt.mapsD(1-4) [OF m(2)] by blast
qed

text \<open>
  \<^bold>\<open>C3\<close> \<open>direct_map_memory\<close> with the compact strategy maps what it should. Take tables that form a tree of separate pages, an
  allocator that has three pages left and holds the tables' pages back, and a range of whole pages of physical memory
  that is not mapped yet and that begins or ends at a block boundary at each level where one entry does not contain it.
  Then it returns, at most 514 rounds in each loop; afterwards every address
  of the range translates to itself below the virtual base, with the requested memory type, every other address
  translates as before, the tables are again a tree of pages that the allocator holds, and at most three
  pages were used.
\<close>

theorem direct_map_correct:
  assumes "table_pool vb a" "3 \<le> free_pages a" "tree_ok 3 mem vb root" "held (bp_area a) (bp_blocks W64 a) (tables 3 mem vb root)"
    "2 ^ 48 dvd vb" "4096 dvd base" "4096 dvd sz" "sz < 2 ^ 39" "base + sz < 2 ^ 48" "vb + base + sz < 2 ^ 64" "compact_ok 3 (vb + base) sz"
    "\<forall>va. base \<le> va mod 2 ^ 48 \<and> va mod 2 ^ 48 < base + sz \<longrightarrow> walk 3 mem vb root va = None" "514 \<le> n"
  shows "\<exists>a' mem'. direct_map_memory (buffered_alloc W64) n vb root base sz dev Compact (a, mem) = Inr (a', mem')
    \<and> (\<forall>va. walk 3 mem' vb root va =
         (if base \<le> va mod 2 ^ 48 \<and> va mod 2 ^ 48 < base + sz then Some (va mod 2 ^ 48, mair_of dev) else walk 3 mem vb root va))
    \<and> tree_ok 3 mem' vb root \<and> held (bp_area a') (bp_blocks W64 a') (tables 3 mem' vb root)
    \<and> table_pool vb a' \<and> free_pages a \<le> free_pages a' + 3"
  by (rule direct_map_ok [OF assms])

theorem direct_map_correct_witness:
  "\<exists>a a' mem'. buffered_new W64 1 0x86000 0x90000 4096 = Some a
    \<and> direct_map_memory (buffered_alloc W64) 514 0xffff000000000000 0x80000 0x40000000 0x48000000 False Compact (a, \<lambda>_. 0) = Inr (a', mem')
    \<and> walk 3 mem' 0xffff000000000000 0x80000 0xffff000041234567 = Some (0x41234567, 0)
    \<and> walk 3 mem' 0xffff000000000000 0x80000 0xffff0000a1234567 = None"
proof -
  obtain a where a: "buffered_new W64 1 0x86000 0x90000 4096 = Some a" "table_pool 0xffff000000000000 a" "3 \<le> free_pages a"
      "held (bp_area a) (bp_blocks W64 a) {0x80000}" using boot_example by fastforce
  have e: "tables 3 (\<lambda>_. 0) 0xffff000000000000 0x80000 = {0x80000}" "tree_ok 3 (\<lambda>_. 0) 0xffff000000000000 0x80000"
      "walk 3 (\<lambda>_. 0) 0xffff000000000000 0x80000 va = None" for va
    using empty_root [of "0xffff000000000000" "0x80000"] by (simp_all add: table_at_def)
  have c: "compact_ok 3 (0xffff000000000000 + 0x40000000) 0x48000000" by (simp add: numeral_3_eq_3 esz_def)
  from a(4) have h: "held (bp_area a) (bp_blocks W64 a) (tables 3 (\<lambda>_. 0) 0xffff000000000000 0x80000)" unfolding e(1) .
  obtain a' mem' where m: "direct_map_memory (buffered_alloc W64) 514 0xffff000000000000 0x80000 0x40000000 0x48000000 False Compact (a, \<lambda>_. 0) = Inr (a', mem')"
      "\<forall>va. walk 3 mem' 0xffff000000000000 0x80000 va = (if 0x40000000 \<le> va mod 2 ^ 48 \<and> va mod 2 ^ 48 < 0x40000000 + 0x48000000
         then Some (va mod 2 ^ 48, mair_of False) else walk 3 (\<lambda>_. 0) 0xffff000000000000 0x80000 va)"
    using direct_map_correct [OF a(2,3) e(2) h _ _ _ _ _ _ c, of 514 False] e(3) by auto
  then have "walk 3 mem' 0xffff000000000000 0x80000 0xffff000041234567 = Some (0x41234567, 0)"
      "walk 3 mem' 0xffff000000000000 0x80000 0xffff0000a1234567 = None"
    by (simp_all add: e(3) mair_of_def)
  with a(1) m(1) show ?thesis by blast
qed

text \<open>
  \<^bold>\<open>C14\<close> \<open>map_memory\<close> with the granular strategy, as it maps the stacks, is correct for a range that one 2 MiB section of the virtual address
  space contains: the range is mapped page by page to the physical range, and nothing else changes.
\<close>

theorem map_memory_granular_correct:
  assumes "table_pool vb a" "3 \<le> free_pages a" "tree_ok 3 mem vb root" "held (bp_area a) (bp_blocks W64 a) (tables 3 mem vb root)"
    "4096 dvd virt" "4096 dvd base" "4096 dvd sz" "0 < sz" "virt mod 2 ^ 21 + sz \<le> 2 ^ 21" "virt + sz < 2 ^ 64" "base + sz \<le> 2 ^ 48"
    "\<forall>va. virt mod 2 ^ 48 \<le> va mod 2 ^ 48 \<and> va mod 2 ^ 48 < virt mod 2 ^ 48 + sz \<longrightarrow> walk 3 mem vb root va = None"
  shows "\<exists>a' mem'. map_memory (buffered_alloc W64) n vb root virt base sz dev Granular (a, mem) = Inr (a', mem')
    \<and> (\<forall>va. walk 3 mem' vb root va =
         (if virt mod 2 ^ 48 \<le> va mod 2 ^ 48 \<and> va mod 2 ^ 48 < virt mod 2 ^ 48 + sz
          then Some (base + (va mod 2 ^ 48 - virt mod 2 ^ 48), mair_of dev) else walk 3 mem vb root va))
    \<and> tree_ok 3 mem' vb root \<and> held (bp_area a') (bp_blocks W64 a') (tables 3 mem' vb root)
    \<and> table_pool vb a' \<and> free_pages a \<le> free_pages a' + 3"
proof -
  have c: "covers 3 virt sz va \<longleftrightarrow> virt mod 2 ^ 48 \<le> va mod 2 ^ 48 \<and> va mod 2 ^ 48 < virt mod 2 ^ 48 + sz" "off 3 virt va = va mod 2 ^ 48 - virt mod 2 ^ 48" for va
    unfolding covers_def off_def top_esz by simp_all
  have u: "bt.unmapped vb 3 mem root virt sz" unfolding bt.unmapped_def c using assms(12) by blast
  have k: "held (bp_area a) (bp_blocks W64 a) (tables 3 mem vb root) \<and> (\<forall>t\<in>tables 3 mem vb root. table_at vb t)"
    using assms(4) tree_tables_at [OF assms(3)] by blast
  have s: "virt mod esz 1 + sz \<le> esz 1" unfolding top_esz by (rule assms(9))
  obtain a' mem' where m: "fill_table (buffered_alloc W64) n vb dev (a, mem) (lev 3) root virt base sz Granular = Inr (a', mem')"
      "bt.maps vb 3 root 3 dev virt base sz a mem a' mem'"
    using bt.granular_fills [OF _ assms(1-3) k u assms(5-8,10,11) s, of n dev] by auto
  have "lev 3 = Level1" by (simp add: lev_def)
  then have "map_memory (buffered_alloc W64) n vb root virt base sz dev Granular (a, mem) = Inr (a', mem')"
    using m(1) by (simp add: map_memory_def)
  moreover have "walk 3 mem' vb root va = (if virt mod 2 ^ 48 \<le> va mod 2 ^ 48 \<and> va mod 2 ^ 48 < virt mod 2 ^ 48 + sz
          then Some (base + (va mod 2 ^ 48 - virt mod 2 ^ 48), mair_of dev) else walk 3 mem vb root va)" for va
    unfolding bt.mapsD(6) [OF m(2)] c by simp
  ultimately show ?thesis using bt.mapsD(1-4) [OF m(2)] by blast
qed

theorem map_memory_granular_correct_witness:
  "\<exists>a a' mem'. buffered_new W64 1 0x86000 0x90000 4096 = Some a
    \<and> map_memory (buffered_alloc W64) 0 0xffff000000000000 0x80000 0xfffffdffffff8000 0x7000000 0x2000 True Granular (a, \<lambda>_. 0) = Inr (a', mem')
    \<and> walk 3 mem' 0xffff000000000000 0x80000 0xfffffdffffff9010 = Some (0x7001010, 1)"
proof -
  obtain a where a: "buffered_new W64 1 0x86000 0x90000 4096 = Some a" "table_pool 0xffff000000000000 a" "3 \<le> free_pages a"
      "held (bp_area a) (bp_blocks W64 a) {0x80000}" using boot_example by fastforce
  have e: "tables 3 (\<lambda>_. 0) 0xffff000000000000 0x80000 = {0x80000}" "tree_ok 3 (\<lambda>_. 0) 0xffff000000000000 0x80000"
      "walk 3 (\<lambda>_. 0) 0xffff000000000000 0x80000 va = None" for va
    using empty_root [of "0xffff000000000000" "0x80000"] by (simp_all add: table_at_def)
  from a(4) have h: "held (bp_area a) (bp_blocks W64 a) (tables 3 (\<lambda>_. 0) 0xffff000000000000 0x80000)" unfolding e(1) .
  obtain a' mem' where m: "map_memory (buffered_alloc W64) 0 0xffff000000000000 0x80000 0xfffffdffffff8000 0x7000000 0x2000 True Granular (a, \<lambda>_. 0) = Inr (a', mem')"
      "\<forall>va. walk 3 mem' 0xffff000000000000 0x80000 va = (if 0xfffffdffffff8000 mod 2 ^ 48 \<le> va mod 2 ^ 48 \<and> va mod 2 ^ 48 < 0xfffffdffffff8000 mod 2 ^ 48 + 0x2000
         then Some (0x7000000 + (va mod 2 ^ 48 - 0xfffffdffffff8000 mod 2 ^ 48), mair_of True) else walk 3 (\<lambda>_. 0) 0xffff000000000000 0x80000 va)"
    using map_memory_granular_correct [OF a(2,3) e(2) h, of "0xfffffdffffff8000" "0x7000000" "0x2000" 0 True] e(3) by auto
  then have "walk 3 mem' 0xffff000000000000 0x80000 0xfffffdffffff9010 = Some (0x7001010, 1)" by (simp add: mair_of_def)
  with a(1) m(1) show ?thesis by blast
qed

section \<open>Ranges that never end\<close>

lemma compact_stuck:
  assumes "get_table_entry_size l = 2 ^ e" "e < 64" "v < 2 ^ 64" "\<not> 2 ^ e dvd v" "2 ^ e dvd sz" "4096 \<le> sz"
  shows "compact_loop al n vb dev st l table k v b sz \<noteq> Inr st'"
proof (induction k arbitrary: st)
  case 0
  then show ?case using assms(6) by (simp add: compact_loop.simps page_size_def)
next
  case (Suc k)
  have al: "is_aligned W64 v (2 ^ e) = Some False" using is_aligned_eq [of v W64 e] assms(2-4) by simp
  have z: "sz AND (2 ^ e - 1) = 0" unfolding mask_eq_exp_minus_1 [symmetric] take_bit_eq_mask [symmetric] take_bit_eq_mod using assms(5) by simp
  have u: "uadd W64 b 0 = Some b \<or> uadd W64 b 0 = None" "uadd W64 v 0 = Some v" "usub sz 0 = Some sz" using assms(3) by (auto simp: uadd_def)
  let ?r = "alloc_table_and_fill al n vb dev st l (table_get (snd st) table (get_descriptor_index v l)) v b 0 Compact"
  show ?case
  proof (cases ?r)
    case (Inl x)
    then show ?thesis using assms(1,6) al z by (subst compact_loop.simps) (simp add: Let_def page_size_def)
  next
    case (Inr p)
    let ?st = "(fst (fst p), table_set (snd (fst p)) table (get_descriptor_index v l) (snd p))"
    have "compact_loop al n vb dev st l table (Suc k) v b sz = unwrap_then (uadd W64 b 0) (\<lambda>b. compact_loop al n vb dev ?st l table k v b sz)"
      using assms(1,6) al z u(2,3) Inr by (subst compact_loop.simps) (simp add: Let_def page_size_def case_prod_beta)
    then show ?thesis using u(1) Suc.IH [of ?st] by (elim disjE) simp_all
  qed
qed

lemma run_then_Inl: "(\<And>a. x \<noteq> Inr a) \<Longrightarrow> run_then x f \<noteq> Inr y"
  by (cases x) auto

lemma alloc_fill_stuck:
  assumes "\<And>st t st'. fill_table al n vb dev st l' t v b sz s \<noteq> Inr st'" "get_next_table l = Some l'"
  shows "alloc_table_and_fill al n vb dev st l desc v b sz s \<noteq> Inr x"
proof -
  have "run_then (fill_table al n vb dev st l' t v b sz s) f \<noteq> Inr y" for st t f and y :: "('a \<times> memory) \<times> usize"
    by (rule run_then_Inl [OF assms(1)])
  with assms(2) show ?thesis
    by (subst alloc_table_and_fill.simps) (auto simp: unwrap_then_def run_then_def split: option.splits sum.splits prod.splits if_splits)
qed

text \<open>
  \<^bold>\<open>C34\<close> The compact strategy does not end on a range of whole gigabytes that does not begin at one: the size
  to the next alignment is computed as \<open>size & (entry_size - 1)\<close>, which is 0, and the loop makes no progress. No fuel
  makes it return, whatever the tables and the allocator are.
\<close>

theorem compact_never_returns:
  assumes "\<not> 2 ^ 30 dvd vb + base" "2 ^ 30 dvd sz" "0 < sz" "sz < 2 ^ 39"
  shows "direct_map_memory al n vb root base sz dev Compact st \<noteq> Inr st'"
proof (cases "vb + base < 2 ^ 64")
  case True
  let ?v = "vb + base"
  have sz: "2 ^ 30 \<le> sz" using assms(2,3) by (rule dvd_imp_le)
  have e: "get_table_entry_size Level2 = 2 ^ 30" "get_table_entry_size Level1 = 2 ^ 39"
    using entry_size_lev [of 2] entry_size_lev [of 3] by (simp_all add: lev_def esz_def)
  have l2: "fill_table al n vb dev st Level2 t ?v base sz Compact \<noteq> Inr st'" for st t st'
    using compact_stuck [OF e(1) _ True assms(1,2), of al n vb dev st "vb + t" n base st'] sz
    by (auto simp: fill_table.simps fill_table_compact.simps unwrap_then_def uadd_def split: option.splits)
  have l1: "alloc_table_and_fill al n vb dev st Level1 desc ?v base sz Compact \<noteq> Inr x" for st desc x
    by (rule alloc_fill_stuck [OF l2]) (simp add: get_next_table_def)
  have al: "is_aligned W64 ?v (2 ^ 39) = Some False"
  proof -
    have "2 ^ 30 dvd (2 ^ 39 :: nat)" by (rule le_imp_power_dvd) simp
    then have "\<not> 2 ^ 39 dvd ?v" using assms(1) dvd_trans by blast
    then show ?thesis using is_aligned_eq [of ?v W64 39] True by simp
  qed
  have m: "sz AND (2 ^ 39 - 1) = sz"
    unfolding mask_eq_exp_minus_1 [symmetric] take_bit_eq_mask [symmetric] take_bit_eq_mod using assms(4) by simp
  have "compact_loop al n vb dev st Level1 table k ?v base sz \<noteq> Inr st'" for table k st'
  proof (cases k)
    case (Suc j)
    obtain x where "alloc_table_and_fill al n vb dev st Level1 (table_get (snd st) table (get_descriptor_index ?v Level1)) ?v base sz Compact = Inl x"
      using l1 by (metis sumE)
    with Suc sz al m show ?thesis by (subst compact_loop.simps) (simp add: page_size_def Let_def e)
  qed (use sz in \<open>simp add: compact_loop.simps page_size_def\<close>)
  then show ?thesis
    using True by (auto simp: direct_map_memory_def fill_table.simps fill_table_compact.simps unwrap_then_def uadd_def split: option.splits if_splits)
qed (simp add: direct_map_memory_def)

theorem compact_never_returns_witness:
  "\<forall>n st'. direct_map_memory (\<lambda>s p. Some (s, None)) n 0xffff000000000000 0x80000 0x200000 0x40000000 False Compact ((), \<lambda>_. 0) \<noteq> Inr st'"
  by (intro allI compact_never_returns) simp_all

end
