(* ===== verification/Arm_Tables.thy ===== *)
theory Arm_Tables
  imports Page_Tables
begin

text \<open>
  \<open>src/arch/arm/mm.rs\<close>: the translation tables of 32-bit ARM with the large physical address extension. A table is a
  page of 32-bit words and a descriptor is two of them, at an even index and the next. The names follow the source's suffix for
  long descriptors. The results, the fuel of the compact loop and the
  allocator are those of \<open>Page_Tables\<close>; \<open>split\<close> is the kernel configuration's \<open>vm_split\<close>.
\<close>

section \<open>Data\<close>

definition LEVEL_1_TABLE_SHIFT_LONG :: usize where "LEVEL_1_TABLE_SHIFT_LONG = 2"
definition LEVEL_2_TABLE_SHIFT_LONG :: usize where "LEVEL_2_TABLE_SHIFT_LONG = 9"
definition LEVEL_3_TABLE_SHIFT_LONG :: usize where "LEVEL_3_TABLE_SHIFT_LONG = 9"
definition LEVEL_3_SHIFT_LONG :: usize where "LEVEL_3_SHIFT_LONG = page_shift"
definition LEVEL_2_SHIFT_LONG :: usize where "LEVEL_2_SHIFT_LONG = LEVEL_3_SHIFT_LONG + LEVEL_3_TABLE_SHIFT_LONG"
definition LEVEL_1_SHIFT_LONG :: usize where "LEVEL_1_SHIFT_LONG = LEVEL_2_SHIFT_LONG + LEVEL_2_TABLE_SHIFT_LONG"
definition LEVEL_1_INDEX_MASK_LONG :: usize where "LEVEL_1_INDEX_MASK_LONG = push_bit LEVEL_1_TABLE_SHIFT_LONG 1 - 1"
definition LEVEL_2_INDEX_MASK_LONG :: usize where "LEVEL_2_INDEX_MASK_LONG = push_bit LEVEL_2_TABLE_SHIFT_LONG 1 - 1"
definition LEVEL_3_INDEX_MASK_LONG :: usize where "LEVEL_3_INDEX_MASK_LONG = push_bit LEVEL_3_TABLE_SHIFT_LONG 1 - 1"
definition TABLE_SIZE_LONG :: usize where "TABLE_SIZE_LONG = page_size"
definition ADDR_MASK_HIGH_MASK_LONG :: usize where "ADDR_MASK_HIGH_MASK_LONG = 0xff"
definition TABLE_OR_PAGE_LOW_MASK_LONG :: usize where "TABLE_OR_PAGE_LOW_MASK_LONG = 0xfffff000"
definition LEVEL_1_BLOCK_LOW_MASK_LONG :: usize where "LEVEL_1_BLOCK_LOW_MASK_LONG = 0xc0000000"
definition LEVEL_2_BLOCK_LOW_MASK_LONG :: usize where "LEVEL_2_BLOCK_LOW_MASK_LONG = 0xffe00000"
definition MM_PAGE_TABLE_FLAG_LONG :: usize where "MM_PAGE_TABLE_FLAG_LONG = 3"
definition MM_PAGE_FLAG_LONG :: usize where "MM_PAGE_FLAG_LONG = 3"
definition MM_BLOCK_FLAG_LONG :: usize where "MM_BLOCK_FLAG_LONG = 1"
definition MM_ACCESS_FLAG_LONG :: usize where "MM_ACCESS_FLAG_LONG = push_bit 10 1"
definition MM_NORMAL_MAIR_IDX_LONG :: usize where "MM_NORMAL_MAIR_IDX_LONG = 0"
definition MM_DEVICE_MAIR_IDX_LONG :: usize where "MM_DEVICE_MAIR_IDX_LONG = 1"
definition TYPE_MASK_LONG :: usize where "TYPE_MASK_LONG = 3"
definition page_table_entry_shift :: usize where "page_table_entry_shift = 3"
definition MAX_LOCAL_MAPPINGS :: usize where "MAX_LOCAL_MAPPINGS = drop_bit page_table_entry_shift page_size"
definition section_size :: usize where "section_size = 2 * 1024 * 1024"
definition section_shift :: usize where "section_shift = 21"

datatype table_level_long = L1 | L2 | L3

section \<open>Descriptors\<close>

definition get_table_entry_size_long :: "table_level_long \<Rightarrow> usize" where
  "get_table_entry_size_long table_level =
     (case table_level of L1 \<Rightarrow> push_bit LEVEL_1_SHIFT_LONG 1 | L2 \<Rightarrow> push_bit LEVEL_2_SHIFT_LONG 1 | L3 \<Rightarrow> page_size)"

definition get_next_table_long :: "table_level_long \<Rightarrow> table_level_long option" where
  "get_next_table_long table_level = (case table_level of L1 \<Rightarrow> Some L2 | L2 \<Rightarrow> Some L3 | L3 \<Rightarrow> None)"

definition get_phys_addr_from_descriptor_long :: "table_level_long \<Rightarrow> usize \<Rightarrow> usize \<Rightarrow> usize option" where
  "get_phys_addr_from_descriptor_long table_level desc desc_high =
     (if desc_high AND ADDR_MASK_HIGH_MASK_LONG \<noteq> 0 then None
      else if desc AND TYPE_MASK_LONG = MM_PAGE_TABLE_FLAG_LONG then Some (desc AND TABLE_OR_PAGE_LOW_MASK_LONG)
      else if desc AND TYPE_MASK_LONG = MM_BLOCK_FLAG_LONG then
        (case table_level of
           L1 \<Rightarrow> Some (desc AND LEVEL_1_BLOCK_LOW_MASK_LONG)
         | L2 \<Rightarrow> Some (desc AND LEVEL_2_BLOCK_LOW_MASK_LONG)
         | L3 \<Rightarrow> None)
      else None)"

definition make_block_descriptor_long :: "usize \<Rightarrow> usize \<Rightarrow> usize \<times> usize" where
  "make_block_descriptor_long phys_addr mair_idx =
     (((phys_addr OR push_bit 2 mair_idx) OR MM_ACCESS_FLAG_LONG) OR MM_BLOCK_FLAG_LONG, 0)"

definition make_page_descriptor_long :: "usize \<Rightarrow> usize \<Rightarrow> usize \<times> usize" where
  "make_page_descriptor_long phys_addr mair_idx =
     (((phys_addr OR push_bit 2 mair_idx) OR MM_ACCESS_FLAG_LONG) OR MM_PAGE_FLAG_LONG, 0)"

definition make_descriptor_long :: "table_level_long \<Rightarrow> usize \<Rightarrow> bool \<Rightarrow> (usize \<times> usize) option" where
  "make_descriptor_long table_level phys_addr device =
     (let mair_idx = (if device then MM_DEVICE_MAIR_IDX_LONG else MM_NORMAL_MAIR_IDX_LONG)
      in case table_level of
           L1 \<Rightarrow> Some (make_block_descriptor_long (phys_addr AND LEVEL_1_BLOCK_LOW_MASK_LONG) mair_idx)
         | L2 \<Rightarrow> Some (make_block_descriptor_long (phys_addr AND LEVEL_2_BLOCK_LOW_MASK_LONG) mair_idx)
         | L3 \<Rightarrow> Some (make_page_descriptor_long (phys_addr AND TABLE_OR_PAGE_LOW_MASK_LONG) mair_idx))"

definition is_pointer_entry_long :: "table_level_long \<Rightarrow> usize \<Rightarrow> usize \<Rightarrow> bool" where
  "is_pointer_entry_long table_level desc desc_high =
     (case table_level of L3 \<Rightarrow> False | _ \<Rightarrow> desc AND TYPE_MASK_LONG = MM_PAGE_TABLE_FLAG_LONG)"

definition make_pointer_descriptor :: "table_level_long \<Rightarrow> usize \<Rightarrow> (usize \<times> usize) option option" where
  "make_pointer_descriptor table_level phys_addr =
     (case table_level of
        L3 \<Rightarrow> Some None
      | _ \<Rightarrow> do {
          aligned \<leftarrow> is_aligned W32 phys_addr page_size;
          Some (if \<not> aligned then None
                else Some (((phys_addr OR push_bit 2 MM_NORMAL_MAIR_IDX_LONG) OR MM_ACCESS_FLAG_LONG) OR MM_PAGE_TABLE_FLAG_LONG, 0)) })"

definition get_descriptor_index_long :: "usize \<Rightarrow> table_level_long \<Rightarrow> usize" where
  "get_descriptor_index_long virt_addr table_level =
     (case table_level of
        L1 \<Rightarrow> push_bit 1 (drop_bit LEVEL_1_SHIFT_LONG virt_addr AND LEVEL_1_INDEX_MASK_LONG)
      | L2 \<Rightarrow> push_bit 1 (drop_bit LEVEL_2_SHIFT_LONG virt_addr AND LEVEL_2_INDEX_MASK_LONG)
      | L3 \<Rightarrow> push_bit 1 (drop_bit LEVEL_3_SHIFT_LONG virt_addr AND LEVEL_3_INDEX_MASK_LONG))"

definition get_first_table_level :: "usize \<Rightarrow> usize \<Rightarrow> usize \<Rightarrow> table_level_long" where
  "get_first_table_level split virtual_base virt_addr =
     (if virt_addr \<ge> virtual_base \<and> split = 3 then L2 else L1)"

text \<open>The words of a table; a pair of writes sets a descriptor.\<close>

definition word_get :: "memory \<Rightarrow> usize \<Rightarrow> usize \<Rightarrow> usize" where
  "word_get mem table_vaddr i = mem (table_vaddr + i * 4)"

definition desc_set :: "memory \<Rightarrow> usize \<Rightarrow> usize \<Rightarrow> usize \<times> usize \<Rightarrow> memory" where
  "desc_set mem table_vaddr i d = mem(table_vaddr + i * 4 := fst d, table_vaddr + (i + 1) * 4 := snd d)"

definition zero_table_long :: "memory \<Rightarrow> usize \<Rightarrow> memory" where
  "zero_table_long mem table_vaddr = (\<lambda>a. if table_vaddr \<le> a \<and> a < table_vaddr + TABLE_SIZE_LONG then 0 else mem a)"

section \<open>Filling the tables\<close>

definition level_rank_long :: "table_level_long \<Rightarrow> nat" where
  "level_rank_long l = (case l of L1 \<Rightarrow> 2 | L2 \<Rightarrow> 1 | L3 \<Rightarrow> 0)"

lemma next_table_rank_long: "get_next_table_long l = Some l' \<Longrightarrow> level_rank_long l' < level_rank_long l"
  by (cases l) (auto simp: get_next_table_long_def level_rank_long_def)

lemma entry_size_pos_long: "0 < get_table_entry_size_long l"
  by (cases l) (simp_all add: get_table_entry_size_long_def push_bit_eq_mult page_size_def)

function fill_table_long ::
    "'s page_alloc \<Rightarrow> nat \<Rightarrow> usize \<Rightarrow> bool \<Rightarrow> 's \<times> memory \<Rightarrow> table_level_long \<Rightarrow> usize \<Rightarrow> usize \<Rightarrow> usize \<Rightarrow> usize \<Rightarrow> mapping_strategy \<Rightarrow>
     stop + 's \<times> memory"
  and fill_table_compact_long ::
    "'s page_alloc \<Rightarrow> nat \<Rightarrow> usize \<Rightarrow> bool \<Rightarrow> 's \<times> memory \<Rightarrow> table_level_long \<Rightarrow> usize \<Rightarrow> usize \<Rightarrow> usize \<Rightarrow> usize \<Rightarrow> stop + 's \<times> memory"
  and compact_loop_long ::
    "'s page_alloc \<Rightarrow> nat \<Rightarrow> usize \<Rightarrow> bool \<Rightarrow> 's \<times> memory \<Rightarrow> table_level_long \<Rightarrow> usize \<Rightarrow> nat \<Rightarrow> usize \<Rightarrow> usize \<Rightarrow> usize \<Rightarrow> stop + 's \<times> memory"
  and fill_table_granular_long ::
    "'s page_alloc \<Rightarrow> nat \<Rightarrow> usize \<Rightarrow> bool \<Rightarrow> 's \<times> memory \<Rightarrow> table_level_long \<Rightarrow> usize \<Rightarrow> usize \<Rightarrow> usize \<Rightarrow> usize \<Rightarrow> stop + 's \<times> memory"
  and granular_loop_long ::
    "'s page_alloc \<Rightarrow> nat \<Rightarrow> usize \<Rightarrow> bool \<Rightarrow> 's \<times> memory \<Rightarrow> table_level_long \<Rightarrow> usize \<Rightarrow> usize \<Rightarrow> usize \<Rightarrow> usize \<Rightarrow> stop + 's \<times> memory"
  and alloc_table_and_fill_long ::
    "'s page_alloc \<Rightarrow> nat \<Rightarrow> usize \<Rightarrow> bool \<Rightarrow> 's \<times> memory \<Rightarrow> table_level_long \<Rightarrow> usize \<times> usize \<Rightarrow> usize \<Rightarrow> usize \<Rightarrow> usize \<Rightarrow> mapping_strategy \<Rightarrow>
     stop + ('s \<times> memory) \<times> usize \<times> usize"
where
  "fill_table_long al n vb dev st table_level table_addr virt base sz strategy =
     (case strategy of
        Compact \<Rightarrow> fill_table_compact_long al n vb dev st table_level table_addr virt base sz
      | Granular \<Rightarrow> fill_table_granular_long al n vb dev st table_level table_addr virt base sz)"
| "fill_table_compact_long al n vb dev st table_level table_addr virt base sz =
     unwrap_then (is_aligned W32 virt page_size) (\<lambda>ok. if \<not> ok then Inl Panic else
     unwrap_then (is_aligned W32 base page_size) (\<lambda>ok. if \<not> ok then Inl Panic else
     unwrap_then (uadd W32 vb table_addr) (\<lambda>table.
       compact_loop_long al n vb dev st table_level table n virt base sz)))"
| "compact_loop_long al n vb dev st table_level table k virt base sz =
     (if sz < page_size then Inr st
      else case k of 0 \<Rightarrow> Inl Out_Of_Fuel | Suc k \<Rightarrow>
        (let entry_size = get_table_entry_size_long table_level;
             i = get_descriptor_index_long virt table_level
         in unwrap_then (is_aligned W32 virt section_size) (\<lambda>aligned.
            run_then
              (if \<not> aligned \<or> sz < entry_size then
                 (let fill_size = (if \<not> aligned then sz AND (entry_size - 1) else sz)
                  in run_then (alloc_table_and_fill_long al n vb dev st table_level
                         (word_get (snd st) table i, word_get (snd st) table (i + 1)) virt base fill_size Compact)
                       (\<lambda>(st, desc). Inr ((fst st, desc_set (snd st) table i desc), fill_size)))
               else unwrap_then (make_descriptor_long table_level base dev)
                      (\<lambda>desc. Inr ((fst st, desc_set (snd st) table i desc), entry_size)))
              (\<lambda>(st, fill_size).
                 unwrap_then (uadd W32 virt fill_size) (\<lambda>virt.
                 unwrap_then (uadd W32 base fill_size) (\<lambda>base.
                 unwrap_then (usub sz fill_size) (\<lambda>sz.
                   compact_loop_long al n vb dev st table_level table k virt base sz)))))))"
| "fill_table_granular_long al n vb dev st table_level table_addr virt base sz =
     unwrap_then (is_aligned W32 virt page_size) (\<lambda>ok. if \<not> ok then Inl Panic else
     unwrap_then (is_aligned W32 base page_size) (\<lambda>ok. if \<not> ok then Inl Panic else
     unwrap_then (uadd W32 vb table_addr) (\<lambda>table.
       granular_loop_long al n vb dev st table_level table virt base sz)))"
| "granular_loop_long al n vb dev st table_level table virt base sz =
     (let entry_size = get_table_entry_size_long table_level;
          i = get_descriptor_index_long virt table_level
      in run_then
           (if table_level \<noteq> L3 then
              run_then (alloc_table_and_fill_long al n vb dev st table_level
                  (word_get (snd st) table i, word_get (snd st) table (i + 1)) virt base sz Granular)
                (\<lambda>(st, desc). Inr (fst st, desc_set (snd st) table i desc))
            else unwrap_then (make_descriptor_long table_level base dev)
                   (\<lambda>desc. Inr (fst st, desc_set (snd st) table i desc)))
           (\<lambda>st. if sz \<le> entry_size then Inr st
             else unwrap_then (uadd W32 virt entry_size) (\<lambda>virt.
                  unwrap_then (uadd W32 base entry_size) (\<lambda>base.
                    granular_loop_long al n vb dev st table_level table virt base (sz - entry_size)))))"
| "alloc_table_and_fill_long al n vb dev st table_level desc virt base sz strategy =
     run_then
       (if \<not> is_pointer_entry_long table_level (fst desc) (snd desc) then
          unwrap_then (al (fst st) 1) (\<lambda>(a, r).
          unwrap_then r (\<lambda>(next_addr, _).
          unwrap_then (uadd W32 vb next_addr) (\<lambda>next_vaddr.
          unwrap_then (make_pointer_descriptor table_level next_addr) (\<lambda>d.
          unwrap_then d (\<lambda>desc. Inr ((a, zero_table_long (snd st) next_vaddr), desc))))))
        else Inr (st, desc))
       (\<lambda>(st, desc).
          unwrap_then (get_next_table_long table_level) (\<lambda>next.
          unwrap_then (get_phys_addr_from_descriptor_long table_level (fst desc) (snd desc)) (\<lambda>next_addr.
          run_then (fill_table_long al n vb dev st next next_addr virt base sz strategy) (\<lambda>st. Inr (st, desc)))))"
  by pat_completeness auto
termination
  by (relation "inv_image (less_than <*lex*> less_than <*lex*> less_than) (\<lambda>x. case x of
        Inl (Inl (al, n, vb, dev, st, l, t, virt, base, sz, s)) \<Rightarrow> (level_rank_long l, 3, 0)
      | Inl (Inr (Inl (al, n, vb, dev, st, l, t, virt, base, sz))) \<Rightarrow> (level_rank_long l, 2, 0)
      | Inl (Inr (Inr (al, n, vb, dev, st, l, t, k, virt, base, sz))) \<Rightarrow> (level_rank_long l, 1, k)
      | Inr (Inl (al, n, vb, dev, st, l, t, virt, base, sz)) \<Rightarrow> (level_rank_long l, 2, 0)
      | Inr (Inr (Inl (al, n, vb, dev, st, l, t, virt, base, sz))) \<Rightarrow> (level_rank_long l, 1, sz)
      | Inr (Inr (Inr (al, n, vb, dev, st, l, d, virt, base, sz, s))) \<Rightarrow> (level_rank_long l, 0, 0))")
    (auto simp: next_table_rank_long entry_size_pos_long)

declare fill_table_long.simps [simp del] fill_table_compact_long.simps [simp del] compact_loop_long.simps [simp del]
  fill_table_granular_long.simps [simp del] granular_loop_long.simps [simp del] alloc_table_and_fill_long.simps [simp del]

definition direct_map_memory_long ::
    "'s page_alloc \<Rightarrow> nat \<Rightarrow> usize \<Rightarrow> usize \<Rightarrow> usize \<Rightarrow> usize \<Rightarrow> usize \<Rightarrow> bool \<Rightarrow> mapping_strategy \<Rightarrow> 's \<times> memory \<Rightarrow> stop + 's \<times> memory" where
  "direct_map_memory_long al n split vb pages_start base sz dev strategy st =
     unwrap_then (uadd W32 vb base) (\<lambda>virt.
       fill_table_long al n vb dev st (get_first_table_level split vb virt) pages_start virt base sz strategy)"

definition map_memory_long ::
    "'s page_alloc \<Rightarrow> nat \<Rightarrow> usize \<Rightarrow> usize \<Rightarrow> usize \<Rightarrow> usize \<Rightarrow> usize \<Rightarrow> usize \<Rightarrow> bool \<Rightarrow> mapping_strategy \<Rightarrow> 's \<times> memory \<Rightarrow> stop + 's \<times> memory" where
  "map_memory_long al n split vb pages_start virt base sz dev strategy st =
     fill_table_long al n vb dev st (get_first_table_level split vb virt) pages_start virt base sz strategy"

section \<open>Thread-local mappings\<close>

text \<open>
  \<open>mmu_update_table_entry_local\<close> of \<open>src/arch/arm/start/mm.s\<close> stores the two words of a descriptor; the
  invalidation of the core's translation cache after it has no effect on memory.
\<close>

definition mmu_update_table_entry_local :: "memory \<Rightarrow> usize \<Rightarrow> usize \<Rightarrow> usize \<Rightarrow> memory" where
  "mmu_update_table_entry_local mem desc_vaddr desc desc_high = mem(desc_vaddr := desc, desc_vaddr + 4 := desc_high)"

definition map_thread_local_table :: "usize \<Rightarrow> usize \<Rightarrow> memory \<Rightarrow> usize \<Rightarrow> usize \<Rightarrow> usize \<Rightarrow> memory option" where
  "map_thread_local_table split virtual_base mem pages_start local_virt table_addr = do {
     l2_addr \<leftarrow>
       (if get_first_table_level split virtual_base local_virt = L1 then do {
          table \<leftarrow> uadd W32 virtual_base pages_start;
          let i = get_descriptor_index_long local_virt L1;
          get_phys_addr_from_descriptor_long L1 (word_get mem table i) (word_get mem table (i + 1)) }
        else Some pages_start);
     l2_vaddr \<leftarrow> uadd W32 virtual_base l2_addr;
     let i = get_descriptor_index_long local_virt L2;
     off \<leftarrow> ushl W32 i (WORD_SHIFT W32);
     desc_vaddr \<leftarrow> uadd W32 l2_vaddr off;
     d \<leftarrow> make_pointer_descriptor L2 table_addr;
     desc \<leftarrow> d;
     Some (mmu_update_table_entry_local mem desc_vaddr (fst desc) (snd desc)) }"

text \<open>The table is a slice of 1024 words at \<open>table_vaddr\<close>; taking the address of an element checks its index.\<close>

definition map_page_local :: "memory \<Rightarrow> usize \<Rightarrow> usize \<Rightarrow> usize \<Rightarrow> usize \<Rightarrow> bool \<Rightarrow> (memory \<times> usize) option" where
  "map_page_local mem table_vaddr section_vaddr page_addr count device = do {
     assert_that (count < MAX_LOCAL_MAPPINGS);
     i \<leftarrow> ushl W32 count 1;
     off \<leftarrow> ushl W32 count page_shift;
     page_vaddr \<leftarrow> uadd W32 section_vaddr off;
     assert_that (i < 1024);
     desc \<leftarrow> make_descriptor_long L3 page_addr device;
     Some (mmu_update_table_entry_local mem (table_vaddr + i * 4) (fst desc) (snd desc), page_vaddr) }"

definition unmap_page_local :: "memory \<Rightarrow> usize \<Rightarrow> usize \<Rightarrow> usize \<Rightarrow> memory option" where
  "unmap_page_local mem table_vaddr section_vaddr count = do {
     assert_that (count > 0);
     c \<leftarrow> usub count 1;
     i \<leftarrow> ushl W32 c 1;
     assert_that (i < 1024);
     if word_get mem table_vaddr i = 0 then Some mem
     else do {
       off \<leftarrow> ushl W32 c page_shift;
       page_vaddr \<leftarrow> uadd W32 section_vaddr off;
       Some (mmu_update_table_entry_local mem (table_vaddr + i * 4) 0 0) } }"

end
