(* ===== verification/Tasks.thy ===== *)
theory Tasks
  imports Arm_Tables Bitmap Cores
begin

text \<open>
  Tasks and their thread-local mappings: \<open>src/task/mod.rs\<close> over the contexts of \<open>src/arch/arm/task.rs\<close> and
  \<open>src/arch/aarch64/task.rs\<close>. The statics and registers that the code reads are the record \<open>arm_platform\<close>; the memory
  is what the core sees at virtual addresses.
\<close>

section \<open>The ARM context\<close>

record arm_context =
  ac_r4 :: usize
  ac_r5 :: usize
  ac_r6 :: usize
  ac_r7 :: usize
  ac_r8 :: usize
  ac_r10 :: usize
  ac_fp :: usize
  ac_sp :: usize
  ac_pc :: usize
  ac_table_addr :: usize
  ac_map_count :: usize
  ac_pin_mask :: "bitmap option"

record arm_platform =
  ap_virtual_base :: usize
  ap_pages_start :: usize
  ap_vm_split :: usize
  ap_thread_local_base :: usize
  ap_cores :: core_config
  ap_cpu_id :: usize

definition HIGH_MEM_SIZE :: usize where "HIGH_MEM_SIZE = 128 * 1024 * 1024"
definition RECURSIVE_MAP_AREA :: usize where "RECURSIVE_MAP_AREA = 0xffc00000"
definition CPU_MASK_WORDS :: "width \<Rightarrow> usize" where
  "CPU_MASK_WORDS w = drop_bit (word_bit_shift w) (MAX_CORES w + word_bits w - 1)"

definition arm_context_default :: arm_context where
  "arm_context_default = \<lparr>ac_r4 = 0, ac_r5 = 0, ac_r6 = 0, ac_r7 = 0, ac_r8 = 0, ac_r10 = 0, ac_fp = 0, ac_sp = 0, ac_pc = 0,
     ac_table_addr = 0, ac_map_count = 0, ac_pin_mask = None\<rparr>"

definition arm_context_new :: arm_context where
  "arm_context_new = arm_context_default"

definition get_high_mem_base :: "usize \<Rightarrow> usize option" where
  "get_high_mem_base virtual_base = do {
     a \<leftarrow> usub (usize_max W32) virtual_base;
     b \<leftarrow> usub a HIGH_MEM_SIZE;
     uadd W32 b 1 }"

definition get_current_core_index :: "arm_platform \<Rightarrow> usize option" where
  "get_current_core_index p = do {
     i \<leftarrow> get_core_index W32 (ap_cores p) (ap_cpu_id p);
     i }"

definition get_page_virtual_address_for_virtual_address :: "usize \<Rightarrow> usize option option" where
  "get_page_virtual_address_for_virtual_address virt_addr =
     (if virt_addr < 0xc0000000 then Some None
      else do {
        d \<leftarrow> usub virt_addr 0xc0000000;
        index \<leftarrow> ushr W32 d section_shift;
        off \<leftarrow> ushl W32 index page_shift;
        a \<leftarrow> uadd W32 RECURSIVE_MAP_AREA off;
        Some (Some a) })"

definition get_thread_local_virtual_base :: "arm_platform \<Rightarrow> usize \<Rightarrow> usize option" where
  "get_thread_local_virtual_base p core_idx = do {
     assert_that (core_idx < get_core_count (ap_cores p));
     offset \<leftarrow> ushl W32 core_idx section_shift;
     uadd W32 (ap_thread_local_base p) offset }"

definition arm_map_page :: "arm_platform \<Rightarrow> arm_context \<times> memory \<Rightarrow> usize \<Rightarrow> ((arm_context \<times> memory) \<times> usize) option" where
  "arm_map_page p cm page_addr = do {
     let (c, mem) = cm;
     high_mem_base \<leftarrow> get_high_mem_base (ap_virtual_base p);
     if page_addr < high_mem_base then do {
       n \<leftarrow> uadd W32 (ac_map_count c) 1;
       va \<leftarrow> uadd W32 (ap_virtual_base p) page_addr;
       Some ((c\<lparr>ac_map_count := n\<rparr>, mem), va) }
     else do {
       core_idx \<leftarrow> get_current_core_index p;
       c \<leftarrow> (if ac_pin_mask c = None then do {
              pin_mask \<leftarrow> bitmap_new W32 (CPU_MASK_WORDS W32) (MAX_CORES W32);
              pin_mask \<leftarrow> set_bit_at W32 pin_mask core_idx;
              Some (c\<lparr>ac_pin_mask := Some pin_mask\<rparr>) }
            else Some c);
       local_base \<leftarrow> get_thread_local_virtual_base p core_idx;
       t \<leftarrow> get_page_virtual_address_for_virtual_address local_base;
       table_vaddr \<leftarrow> t;
       (mem, page_vaddr) \<leftarrow> map_page_local mem table_vaddr local_base page_addr (ac_map_count c) False;
       n \<leftarrow> uadd W32 (ac_map_count c) 1;
       Some ((c\<lparr>ac_map_count := n\<rparr>, mem), page_vaddr) } }"

definition arm_unmap_page :: "arm_platform \<Rightarrow> arm_context \<times> memory \<Rightarrow> (arm_context \<times> memory) option" where
  "arm_unmap_page p cm =
     (let (c, mem) = cm
      in if ac_map_count c = 0 then Some (c, mem)
         else do {
           core_idx \<leftarrow> get_current_core_index p;
           local_base \<leftarrow> get_thread_local_virtual_base p core_idx;
           t \<leftarrow> get_page_virtual_address_for_virtual_address local_base;
           table_vaddr \<leftarrow> t;
           mem \<leftarrow> unmap_page_local mem table_vaddr local_base (ac_map_count c);
           n \<leftarrow> usub (ac_map_count c) 1;
           let c = c\<lparr>ac_map_count := n\<rparr>;
           Some (if n = 0 then c\<lparr>ac_pin_mask := None\<rparr> else c, mem) })"

text \<open>\<open>init_bootstrap_context\<close>: the flag is the static \<open>INITIALIZED\<close>, the address that of the static table.\<close>

definition arm_init_bootstrap_context ::
    "arm_platform \<Rightarrow> bool \<Rightarrow> usize \<Rightarrow> memory \<Rightarrow> (bool \<times> arm_context \<times> memory) option" where
  "arm_init_bootstrap_context p initialized table_vaddr mem = do {
     assert_that (\<not> initialized);
     table_addr \<leftarrow> usub table_vaddr (ap_virtual_base p);
     core_idx \<leftarrow> get_current_core_index p;
     local_base \<leftarrow> get_thread_local_virtual_base p core_idx;
     mem \<leftarrow> map_thread_local_table (ap_vm_split p) (ap_virtual_base p) mem (ap_pages_start p) local_base table_addr;
     Some (True, arm_context_default\<lparr>ac_table_addr := table_addr\<rparr>, mem) }"

section \<open>The AArch64 context\<close>

record a64_context =
  xc_x19 :: usize
  xc_x20 :: usize
  xc_x21 :: usize
  xc_x22 :: usize
  xc_x23 :: usize
  xc_x24 :: usize
  xc_x25 :: usize
  xc_x26 :: usize
  xc_x27 :: usize
  xc_x28 :: usize
  xc_x29 :: usize
  xc_x30 :: usize
  xc_sp :: usize

definition a64_context_default :: a64_context where
  "a64_context_default = \<lparr>xc_x19 = 0, xc_x20 = 0, xc_x21 = 0, xc_x22 = 0, xc_x23 = 0, xc_x24 = 0, xc_x25 = 0, xc_x26 = 0, xc_x27 = 0,
     xc_x28 = 0, xc_x29 = 0, xc_x30 = 0, xc_sp = 0\<rparr>"

definition a64_context_new :: a64_context where
  "a64_context_new = a64_context_default"

definition a64_get_pin_mask :: "a64_context \<Rightarrow> bitmap option" where
  "a64_get_pin_mask c = None"

definition a64_map_page :: "usize \<Rightarrow> a64_context \<times> memory \<Rightarrow> usize \<Rightarrow> ((a64_context \<times> memory) \<times> usize) option" where
  "a64_map_page virtual_base cm page_addr = do {
     va \<leftarrow> uadd W64 virtual_base page_addr;
     Some (cm, va) }"

definition a64_unmap_page :: "a64_context \<times> memory \<Rightarrow> (a64_context \<times> memory) option" where
  "a64_unmap_page cm = Some cm"

definition a64_init_bootstrap_context :: "bool \<Rightarrow> (bool \<times> a64_context) option" where
  "a64_init_bootstrap_context initialized = do {
     assert_that (\<not> initialized);
     Some (True, a64_context_new) }"

section \<open>Tasks\<close>

record 'c task =
  task_id :: usize
  task_affinity :: "bitmap option"
  task_context :: 'c

definition task_new :: "usize \<Rightarrow> 'c \<Rightarrow> 'c task" where
  "task_new i c = \<lparr>task_id = i, task_affinity = None, task_context = c\<rparr>"

definition get_task_id :: "'c task \<Rightarrow> usize" where
  "get_task_id t = task_id t"

definition get_affinity :: "('c \<Rightarrow> bitmap option) \<Rightarrow> 'c task \<Rightarrow> bitmap option" where
  "get_affinity get_pin_mask t =
     (case get_pin_mask (task_context t) of Some pin_mask \<Rightarrow> Some pin_mask | None \<Rightarrow> task_affinity t)"

definition set_affinity :: "'c task \<Rightarrow> bitmap option \<Rightarrow> 'c task" where
  "set_affinity t affinity = (case affinity of Some a \<Rightarrow> t\<lparr>task_affinity := Some a\<rparr> | None \<Rightarrow> t\<lparr>task_affinity := None\<rparr>)"

definition task_map_page ::
    "('c \<times> memory \<Rightarrow> usize \<Rightarrow> (('c \<times> memory) \<times> usize) option) \<Rightarrow> 'c task \<times> memory \<Rightarrow> usize \<Rightarrow> (('c task \<times> memory) \<times> usize) option" where
  "task_map_page map_page tm page_addr = do {
     ((c, mem), va) \<leftarrow> map_page (task_context (fst tm), snd tm) page_addr;
     Some (((fst tm)\<lparr>task_context := c\<rparr>, mem), va) }"

definition task_unmap_page ::
    "('c \<times> memory \<Rightarrow> ('c \<times> memory) option) \<Rightarrow> 'c task \<times> memory \<Rightarrow> ('c task \<times> memory) option" where
  "task_unmap_page unmap_page tm = do {
     (c, mem) \<leftarrow> unmap_page (task_context (fst tm), snd tm);
     Some ((fst tm)\<lparr>task_context := c\<rparr>, mem) }"

text \<open>\<open>init\<close>: the re-initialization guard, the bootstrap task and the current task.\<close>

definition task_init :: "bool \<Rightarrow> (bool \<times> 'c) option \<Rightarrow> (bool \<times> 'c task) option" where
  "task_init initialized init_bootstrap_context = do {
     assert_that (\<not> initialized);
     (b, c) \<leftarrow> init_bootstrap_context;
     Some (True, task_new 0 c) }"

end
