(* ===== verification/Task_Runs.thy ===== *)
theory Task_Runs
  imports Tasks Page_Walks
begin

text \<open>
  What the local mappings of a task promise. Pages are mapped and unmapped like a stack: \<open>page_mapper\<close> is that interface, a
  sequence of requests is run once inside it, and both contexts provide it. The ARM context keeps the stack in its
  local mapping table.
\<close>

section \<open>The interface\<close>

datatype page_request = Map_Page usize | Unmap_Page

text \<open>The stack, oldest page first, and the addresses that a sequence of requests returns.\<close>

fun stack_run :: "(nat \<Rightarrow> usize \<Rightarrow> usize) \<Rightarrow> usize list \<Rightarrow> page_request list \<Rightarrow> usize list \<times> usize list" where
  "stack_run addr ps [] = (ps, [])"
| "stack_run addr ps (Map_Page p # rs) = (case stack_run addr (ps @ [p]) rs of (ps', vs) \<Rightarrow> (ps', addr (length ps) p # vs))"
| "stack_run addr ps (Unmap_Page # rs) = stack_run addr (butlast ps) rs"

fun requests_ok :: "(usize \<Rightarrow> bool) \<Rightarrow> nat \<Rightarrow> nat \<Rightarrow> page_request list \<Rightarrow> bool" where
  "requests_ok ok limit n [] = True"
| "requests_ok ok limit n (Map_Page p # rs) \<longleftrightarrow> ok p \<and> n < limit \<and> requests_ok ok limit (Suc n) rs"
| "requests_ok ok limit n (Unmap_Page # rs) \<longleftrightarrow> requests_ok ok limit (n - 1) rs"

fun mapper_run :: "('s \<Rightarrow> usize \<Rightarrow> ('s \<times> usize) option) \<Rightarrow> ('s \<Rightarrow> 's option) \<Rightarrow> 's \<Rightarrow> page_request list \<Rightarrow> ('s \<times> usize list) option" where
  "mapper_run m u s [] = Some (s, [])"
| "mapper_run m u s (Map_Page p # rs) = do { (s, va) \<leftarrow> m s p; (s, vs) \<leftarrow> mapper_run m u s rs; Some (s, va # vs) }"
| "mapper_run m u s (Unmap_Page # rs) = do { s \<leftarrow> u s; mapper_run m u s rs }"

locale page_mapper =
  fixes holds :: "'s \<Rightarrow> usize list \<Rightarrow> bool"
    and page_ok :: "usize \<Rightarrow> bool"
    and limit :: nat
    and addr :: "nat \<Rightarrow> usize \<Rightarrow> usize"
    and map_page :: "'s \<Rightarrow> usize \<Rightarrow> ('s \<times> usize) option"
    and unmap_page :: "'s \<Rightarrow> 's option"
  assumes map_law: "holds s ps \<Longrightarrow> page_ok p \<Longrightarrow> length ps < limit \<Longrightarrow>
      \<exists>s'. map_page s p = Some (s', addr (length ps) p) \<and> holds s' (ps @ [p])"
    and unmap_law: "holds s ps \<Longrightarrow> length ps \<le> limit \<Longrightarrow> \<exists>s'. unmap_page s = Some s' \<and> holds s' (butlast ps)"
begin

lemma run_refines:
  assumes "holds s ps" "length ps \<le> limit" "requests_ok page_ok limit (length ps) rs"
  shows "\<exists>s'. mapper_run map_page unmap_page s rs = Some (s', snd (stack_run addr ps rs)) \<and> holds s' (fst (stack_run addr ps rs))"
  using assms
proof (induction rs arbitrary: s ps)
  case (Cons r rs)
  show ?case
  proof (cases r)
    case (Map_Page p)
    obtain s' where "map_page s p = Some (s', addr (length ps) p)" "holds s' (ps @ [p])"
      using map_law [OF Cons.prems(1), of p] Cons.prems(3) Map_Page by auto
    with Cons.IH [of s' "ps @ [p]"] Cons.prems(3) Map_Page show ?thesis by (auto split: prod.splits)
  next
    case Unmap_Page
    obtain s' where "unmap_page s = Some s'" "holds s' (butlast ps)"
      using unmap_law [OF Cons.prems(1,2)] by blast
    with Cons.IH [of s' "butlast ps"] Cons.prems(2,3) Unmap_Page show ?thesis by auto
  qed
qed simp

end

text \<open>A context that provides the interface gives it to the tasks that hold it.\<close>

lemma task_mapper:
  assumes "page_mapper holds page_ok limit addr map_page unmap_page"
  shows "page_mapper (\<lambda>(t, m) ps. holds (task_context t, m) ps) page_ok limit addr (task_map_page map_page) (task_unmap_page unmap_page)"
proof (unfold_locales, goal_cases)
  case (1 s ps p)
  then show ?case using page_mapper.map_law [OF assms, of "(task_context (fst s), snd s)" ps p]
    by (cases s) (force simp: task_map_page_def)
next
  case (2 s ps)
  then show ?case using page_mapper.unmap_law [OF assms, of "(task_context (fst s), snd s)" ps]
    by (cases s) (force simp: task_unmap_page_def)
qed

section \<open>AArch64\<close>

interpretation am: page_mapper "\<lambda>(s :: a64_context \<times> memory) ps. s = s0" "\<lambda>p. vb + p < 2 ^ 64" limit "\<lambda>n p. vb + p" "a64_map_page vb" a64_unmap_page
  for s0 vb limit
  by unfold_locales (auto simp: a64_map_page_def a64_unmap_page_def)

section \<open>ARM\<close>

definition platform_ok :: "arm_platform \<Rightarrow> usize \<Rightarrow> bool" where
  "platform_ok p core \<longleftrightarrow> cc_inv W32 (ap_cores p) \<and> core < get_core_count (ap_cores p) \<and> core_ids (ap_cores p) ! core = ap_cpu_id p
     \<and> 0xc0000000 \<le> ap_thread_local_base p \<and> 2 ^ 21 dvd ap_thread_local_base p
     \<and> ap_thread_local_base p + (core + 1) * 2 ^ 21 \<le> 2 ^ 32 \<and> ap_virtual_base p + HIGH_MEM_SIZE < 2 ^ 32"

definition high_base :: "arm_platform \<Rightarrow> usize" where
  "high_base p = 2 ^ 32 - HIGH_MEM_SIZE - ap_virtual_base p"

definition local_base :: "arm_platform \<Rightarrow> usize \<Rightarrow> usize" where
  "local_base p core = ap_thread_local_base p + core * 2 ^ 21"

definition local_table :: "arm_platform \<Rightarrow> usize \<Rightarrow> usize" where
  "local_table p core = RECURSIVE_MAP_AREA + (local_base p core - 0xc0000000) div 2 ^ 21 * 4096"

lemma platform_okD:
  assumes "platform_ok p core"
  shows "get_current_core_index p = Some core" "core < 16" "get_high_mem_base (ap_virtual_base p) = Some (high_base p)"
    "get_thread_local_virtual_base p core = Some (local_base p core)" "local_base p core + 2 ^ 21 \<le> 2 ^ 32"
    "get_page_virtual_address_for_virtual_address (local_base p core) = Some (Some (local_table p core))"
proof -
  have a: "cc_inv W32 (ap_cores p)" "core < cc_core_count (ap_cores p)" "core_ids (ap_cores p) ! core = ap_cpu_id p"
      "0xc0000000 \<le> ap_thread_local_base p" "ap_thread_local_base p + (core + 1) * 2 ^ 21 \<le> 2 ^ 32" "ap_virtual_base p + HIGH_MEM_SIZE < 2 ^ 32"
    using assms by (auto simp: platform_ok_def get_core_count_def)
  have c: "cc_core_count (ap_cores p) \<le> 16" using a(1) by (simp add: cc_inv_def)
  then show "core < 16" using a(2) by simp
  obtain r where r: "get_core_index W32 (ap_cores p) (ap_cpu_id p) = Some r" "r = Some core"
    using get_core_index_eq [OF a(1), of "ap_cpu_id p"] c a(2,3) by auto
  then show "get_current_core_index p = Some core" by (simp add: get_current_core_index_def)
  show "get_high_mem_base (ap_virtual_base p) = Some (high_base p)"
    using a(6) by (simp add: get_high_mem_base_def high_base_def usize_max_def HIGH_MEM_SIZE_def)
  have l: "ushl W32 core 21 = Some (core * 2 ^ 21)" using a(4,5) by (intro ushl_ok) simp_all
  then show "get_thread_local_virtual_base p core = Some (local_base p core)"
    using a(2,5) by (simp add: get_thread_local_virtual_base_def get_core_count_def section_shift_def local_base_def)
  show e: "local_base p core + 2 ^ 21 \<le> 2 ^ 32" using a(5) by (simp add: local_base_def)
  let ?d = "local_base p core - 0xc0000000"
  have g: "0xc0000000 \<le> local_base p core" using a(4) by (simp add: local_base_def)
  have i: "?d div 2 ^ 21 < 512" using e g by (simp add: less_mult_imp_div_less)
  then have "ushl W32 (?d div 2 ^ 21) 12 = Some (?d div 2 ^ 21 * 4096)"
    using ushl_ok [of 12 W32 "?d div 2 ^ 21"] by simp
  with i g show "get_page_virtual_address_for_virtual_address (local_base p core) = Some (Some (local_table p core))"
    by (simp add: get_page_virtual_address_for_virtual_address_def local_table_def ushr_def section_shift_def page_shift_def
        drop_bit_eq_div RECURSIVE_MAP_AREA_def)
qed

definition core_mask :: "usize \<Rightarrow> bitmap" where
  "core_mask core = \<lparr>bm_words = [2 ^ core], bm_bits = 16\<rparr>"

lemma pin_mask_eq:
  assumes "core < 16"
  shows "do { b \<leftarrow> bitmap_new W32 (CPU_MASK_WORDS W32) (MAX_CORES W32); set_bit_at W32 b core } = Some (core_mask core)"
proof -
  have w: "CPU_MASK_WORDS W32 = 1" by (simp add: CPU_MASK_WORDS_def word_bit_shift_def drop_bit_eq_div)
  have "ushl W32 1 5 = Some 32" by (simp add: ushl_def push_bit_eq_mult take_bit_eq_mod)
  then have "bitmap_new W32 (CPU_MASK_WORDS W32) (MAX_CORES W32) = Some \<lparr>bm_words = [0], bm_bits = 16\<rparr>"
    by (simp add: bitmap_new_def w word_bit_shift_def)
  moreover have "set_bit_at W32 \<lparr>bm_words = [0], bm_bits = 16\<rparr> core = Some (core_mask core)"
    using assms by (simp add: set_bit_at_def get_word_and_shift_eq core_mask_def)
  ultimately show ?thesis by simp
qed

definition arm_page_ok :: "usize \<Rightarrow> bool" where
  "arm_page_ok page \<longleftrightarrow> 4096 dvd page \<and> page < 2 ^ 32"

text \<open>The descriptor of a slot, and the stack that a local mapping table holds; the rest of the memory is that of \<open>mem0\<close>.\<close>

definition slot_word :: "usize \<Rightarrow> usize \<Rightarrow> usize" where
  "slot_word hb page = (if page < hb then 0 else page + 1027)"

definition table_slots :: "memory \<Rightarrow> usize \<Rightarrow> usize \<Rightarrow> usize list \<Rightarrow> bool" where
  "table_slots mem table hb ps \<longleftrightarrow> (\<forall>i<512. word_get mem table (2 * i) = (if i < length ps then slot_word hb (ps ! i) else 0)
     \<and> word_get mem table (2 * i + 1) = 0)"

definition same_outside :: "usize \<Rightarrow> memory \<Rightarrow> memory \<Rightarrow> bool" where
  "same_outside table mem0 mem \<longleftrightarrow> (\<forall>a. a < table \<or> table + 4096 \<le> a \<longrightarrow> mem a = mem0 a)"

text \<open>A task with a high page is pinned to its core, and one without mappings is not pinned.\<close>

definition pin_ok :: "usize \<Rightarrow> usize \<Rightarrow> usize list \<Rightarrow> bitmap option \<Rightarrow> bool" where
  "pin_ok hb core ps pin \<longleftrightarrow> (pin = None \<or> pin = Some (core_mask core)) \<and> ((\<exists>q\<in>set ps. hb \<le> q) \<longrightarrow> pin \<noteq> None) \<and> (ps = [] \<longrightarrow> pin = None)"

definition local_stack :: "arm_platform \<Rightarrow> usize \<Rightarrow> memory \<Rightarrow> arm_context \<times> memory \<Rightarrow> usize list \<Rightarrow> bool" where
  "local_stack p core mem0 s ps \<longleftrightarrow> ac_map_count (fst s) = length ps \<and> length ps \<le> 512 \<and> (\<forall>q\<in>set ps. arm_page_ok q)
     \<and> table_slots (snd s) (local_table p core) (high_base p) ps \<and> same_outside (local_table p core) mem0 (snd s)
     \<and> pin_ok (high_base p) core ps (ac_pin_mask (fst s))"

definition local_addr :: "arm_platform \<Rightarrow> usize \<Rightarrow> nat \<Rightarrow> usize \<Rightarrow> usize" where
  "local_addr p core n page = (if page < high_base p then ap_virtual_base p + page else local_base p core + n * 4096)"

lemma and_page_mask: "x < 2 ^ 32 \<Longrightarrow> x AND TABLE_OR_PAGE_LOW_MASK_LONG = x div 4096 * 4096"
proof -
  assume "x < 2 ^ 32"
  then have "x div 2 ^ 12 < 2 ^ 20" by (simp add: less_mult_imp_div_less)
  moreover have "TABLE_OR_PAGE_LOW_MASK_LONG = push_bit 12 (mask 20)"
    by (simp add: TABLE_OR_PAGE_LOW_MASK_LONG_def mask_eq_exp_minus_1 push_bit_eq_mult)
  ultimately show ?thesis using and_field [of x 12 20] by simp
qed

lemma page_descriptor:
  assumes "arm_page_ok page"
  shows "make_descriptor_long L3 page False = Some (page + 1027, 0)"
proof -
  have p: "page div 4096 * 4096 = page" "4096 dvd page" "page < 2 ^ 32" using assms by (simp_all add: arm_page_ok_def)
  have "((page OR push_bit 2 0) OR MM_ACCESS_FLAG_LONG) OR MM_PAGE_FLAG_LONG = page OR ((push_bit 2 0 OR MM_ACCESS_FLAG_LONG) OR MM_PAGE_FLAG_LONG)"
    by (simp only: or.assoc)
  also have "(push_bit 2 0 OR MM_ACCESS_FLAG_LONG) OR MM_PAGE_FLAG_LONG = (1027::nat)"
    by (simp add: MM_ACCESS_FLAG_LONG_def MM_PAGE_FLAG_LONG_def push_bit_eq_mult)
  finally show ?thesis
    using p or_low [of page 1027]
    by (simp add: make_descriptor_long_def make_page_descriptor_long_def and_page_mask MM_NORMAL_MAIR_IDX_LONG_def)
qed

lemma map_page_local_eq:
  assumes "count < 512" "sec + 2 ^ 21 \<le> 2 ^ 32" "arm_page_ok page"
  shows "map_page_local mem t sec page count False = Some (mem(t + 8 * count := page + 1027, t + 8 * count + 4 := 0), sec + count * 4096)"
proof -
  have s: "ushl W32 count 1 = Some (count * 2)" "ushl W32 count 12 = Some (count * 4096)"
    using assms(1) ushl_ok [of 1 W32 count] ushl_ok [of 12 W32 count] by simp_all
  have "uadd W32 sec (count * 4096) = Some (sec + count * 4096)" using assms(1,2) by (intro uadd_ok) simp
  with s assms(1) show ?thesis
    by (simp add: map_page_local_def MAX_LOCAL_MAPPINGS_def page_table_entry_shift_def page_size_def page_shift_def drop_bit_eq_div
        page_descriptor [OF assms(3)] mmu_update_table_entry_local_def algebra_simps)
qed

lemma unmap_page_local_eq:
  assumes "0 < count" "count \<le> 512" "sec + 2 ^ 21 \<le> 2 ^ 32"
  shows "unmap_page_local mem t sec count =
    Some (if word_get mem t (2 * (count - 1)) = 0 then mem else mem(t + 8 * (count - 1) := 0, t + 8 * (count - 1) + 4 := 0))"
proof -
  let ?c = "count - 1"
  have s: "ushl W32 ?c 1 = Some (?c * 2)" "ushl W32 ?c 12 = Some (?c * 4096)"
    using assms(2) ushl_ok [of 1 W32 ?c] ushl_ok [of 12 W32 ?c] by simp_all
  have "uadd W32 sec (?c * 4096) = Some (sec + ?c * 4096)" using assms by (intro uadd_ok) simp
  moreover have "?c * 2 < 1024" "usub count 1 = Some ?c" using assms(1,2) by simp_all
  ultimately show ?thesis using s assms(1)
    by (simp add: unmap_page_local_def page_shift_def mmu_update_table_entry_local_def algebra_simps)
qed

definition slot_set :: "memory \<Rightarrow> usize \<Rightarrow> nat \<Rightarrow> usize \<Rightarrow> memory" where
  "slot_set mem t n v = mem(t + 8 * n := v, t + 8 * n + 4 := 0)"

lemma slot_set_get:
  "word_get (slot_set mem t n v) t (2 * i) = (if i = n then v else word_get mem t (2 * i))"
  "word_get (slot_set mem t n v) t (Suc (2 * i)) = (if i = n then 0 else word_get mem t (Suc (2 * i)))"
  by (auto simp: word_get_def slot_set_def; presburger)+

lemma slots_push_high: "table_slots mem t hb ps \<Longrightarrow> hb \<le> page \<Longrightarrow> table_slots (slot_set mem t (length ps) (page + 1027)) t hb (ps @ [page])"
  by (auto simp: table_slots_def slot_set_get nth_append slot_word_def less_Suc_eq)

lemma slots_push_linear: "table_slots mem t hb ps \<Longrightarrow> page < hb \<Longrightarrow> table_slots mem t hb (ps @ [page])"
  by (auto simp: table_slots_def nth_append slot_word_def less_Suc_eq)

lemma slots_pop:
  assumes "table_slots mem t hb ps" "ps \<noteq> []" "length ps \<le> 512"
  shows "table_slots (if word_get mem t (2 * (length ps - 1)) = 0 then mem else slot_set mem t (length ps - 1) 0) t hb (butlast ps)"
proof -
  have "i < length ps \<longleftrightarrow> i < length ps - 1 \<or> i = length ps - 1" for i using assms(2) by (cases ps) auto
  then show ?thesis using assms by (auto simp: table_slots_def slot_set_get nth_butlast)
qed

lemma same_outside_set: "same_outside t mem0 mem \<Longrightarrow> n < 512 \<Longrightarrow> same_outside t mem0 (slot_set mem t n v)"
  by (auto simp: same_outside_def slot_set_def)

lemma pin_ok_pop: "pin_ok hb core ps pin \<Longrightarrow> pin_ok hb core (butlast ps) (if butlast ps = [] then None else pin)"
  by (auto simp: pin_ok_def dest: in_set_butlastD)

lemma arm_map_law:
  assumes pl: "platform_ok p core" and "local_stack p core mem0 s ps" "arm_page_ok page" "length ps < 512"
  shows "\<exists>s'. arm_map_page p s page = Some (s', local_addr p core (length ps) page) \<and> local_stack p core mem0 s' (ps @ [page])"
proof -
  obtain c mem where s: "s = (c, mem)" by (cases s)
  have st: "ac_map_count c = length ps" "\<forall>q\<in>set ps. arm_page_ok q" "table_slots mem (local_table p core) (high_base p) ps"
      "same_outside (local_table p core) mem0 mem" "pin_ok (high_base p) core ps (ac_pin_mask c)"
    using assms(2) by (auto simp: local_stack_def s)
  have n: "uadd W32 (length ps) 1 = Some (length ps + 1)" using assms(4) by simp
  show ?thesis
  proof (cases "page < high_base p")
    case True
    have "uadd W32 (ap_virtual_base p) page = Some (ap_virtual_base p + page)"
      using True by (intro uadd_ok) (simp add: high_base_def)
    then have "arm_map_page p s page = Some ((c\<lparr>ac_map_count := length ps + 1\<rparr>, mem), ap_virtual_base p + page)"
      using True n st(1) by (simp add: arm_map_page_def s platform_okD(3) [OF pl])
    moreover have "pin_ok (high_base p) core (ps @ [page]) (ac_pin_mask c)" using st(5) True by (auto simp: pin_ok_def)
    ultimately show ?thesis
      using st slots_push_linear [OF st(3) True] True assms(3,4) by (auto simp: local_stack_def local_addr_def)
  next
    case False
    then have h: "high_base p \<le> page" by simp
    let ?c = "c\<lparr>ac_pin_mask := Some (core_mask core)\<rparr>"
    let ?t = "local_table p core"
    have pin: "(if ac_pin_mask c = None then do {
              pin_mask \<leftarrow> bitmap_new W32 (CPU_MASK_WORDS W32) (MAX_CORES W32);
              pin_mask \<leftarrow> set_bit_at W32 pin_mask core;
              Some (c\<lparr>ac_pin_mask := Some pin_mask\<rparr>) } else Some c) = Some ?c"
    proof (cases "ac_pin_mask c")
      case None
      obtain b where "bitmap_new W32 (CPU_MASK_WORDS W32) (MAX_CORES W32) = Some b" "set_bit_at W32 b core = Some (core_mask core)"
        using pin_mask_eq [OF platform_okD(2) [OF pl]] by (auto simp: bind_eq_Some_conv)
      with None show ?thesis by (simp del: MAX_CORES.simps)
    next
      case (Some m)
      then show ?thesis using st(5) by (cases c) (auto simp: pin_ok_def)
    qed
    have m: "map_page_local mem ?t (local_base p core) page (length ps) False = Some (slot_set mem ?t (length ps) (page + 1027), local_base p core + length ps * 4096)"
      using map_page_local_eq [OF assms(4) platform_okD(5) [OF pl] assms(3)] by (simp add: slot_set_def)
    have "arm_map_page p s page = Some ((?c\<lparr>ac_map_count := length ps + 1\<rparr>, slot_set mem ?t (length ps) (page + 1027)), local_base p core + length ps * 4096)"
      using False pin m n st(1) by (simp add: arm_map_page_def s platform_okD(1,3,4,6) [OF pl] del: MAX_CORES.simps)
    moreover have "pin_ok (high_base p) core (ps @ [page]) (Some (core_mask core))" by (simp add: pin_ok_def)
    ultimately show ?thesis
      using st slots_push_high [OF st(3) h] same_outside_set [OF st(4), of "length ps" "page + 1027"] False assms(3,4)
      by (auto simp: local_stack_def local_addr_def)
  qed
qed

lemma arm_unmap_law:
  assumes pl: "platform_ok p core" and "local_stack p core mem0 s ps"
  shows "\<exists>s'. arm_unmap_page p s = Some s' \<and> local_stack p core mem0 s' (butlast ps)"
proof -
  obtain c mem where s: "s = (c, mem)" by (cases s)
  have st: "ac_map_count c = length ps" "length ps \<le> 512" "\<forall>q\<in>set ps. arm_page_ok q" "table_slots mem (local_table p core) (high_base p) ps"
      "same_outside (local_table p core) mem0 mem" "pin_ok (high_base p) core ps (ac_pin_mask c)"
    using assms(2) by (auto simp: local_stack_def s)
  show ?thesis
  proof (cases "ps = []")
    case True
    then show ?thesis using assms(2) st(1) by (simp add: arm_unmap_page_def s)
  next
    case False
    then have l: "0 < length ps" "usub (length ps) 1 = Some (length ps - 1)" by (simp_all add: Suc_leI)
    let ?m = "if word_get mem (local_table p core) (2 * (length ps - 1)) = 0 then mem else slot_set mem (local_table p core) (length ps - 1) 0"
    have u: "unmap_page_local mem (local_table p core) (local_base p core) (length ps) = Some ?m"
      using unmap_page_local_eq [OF l(1) st(2) platform_okD(5) [OF pl]] by (simp add: slot_set_def)
    have e: "length ps - 1 = 0 \<longleftrightarrow> butlast ps = []" using False by (metis length_0_conv length_butlast)
    have "arm_unmap_page p s = Some (c\<lparr>ac_map_count := length ps - 1, ac_pin_mask := if butlast ps = [] then None else ac_pin_mask c\<rparr>, ?m)"
      using False u l st(1) e by (cases c) (simp add: arm_unmap_page_def s platform_okD(1,4,6) [OF pl] Let_def)
    moreover have "same_outside (local_table p core) mem0 ?m"
      using same_outside_set [OF st(5), of "length ps - 1" 0] st(2,5) l(1) by auto
    ultimately show ?thesis
      using slots_pop [OF st(4) False st(2)] pin_ok_pop [OF st(6)] st(2,3) by (auto simp: local_stack_def dest: in_set_butlastD)
  qed
qed

interpretation lm: page_mapper "\<lambda>s ps. platform_ok p core \<and> local_stack p core mem0 s ps" arm_page_ok 512 "local_addr p core"
    "arm_map_page p" "arm_unmap_page p"
  for p core mem0
proof unfold_locales
  fix s ps page
  assume a: "platform_ok p core \<and> local_stack p core mem0 s ps" "arm_page_ok page" "length ps < 512"
  show "\<exists>s'. arm_map_page p s page = Some (s', local_addr p core (length ps) page) \<and> platform_ok p core \<and> local_stack p core mem0 s' (ps @ [page])"
    using arm_map_law [OF _ _ a(2,3)] a(1) by blast
next
  fix s ps
  assume "platform_ok p core \<and> local_stack p core mem0 s ps"
  then show "\<exists>s'. arm_unmap_page p s = Some s' \<and> platform_ok p core \<and> local_stack p core mem0 s' (butlast ps)"
    using arm_unmap_law by blast
qed

text \<open>A platform with one core, as the boot code sets it up for a 3/1 split of the address space.\<close>

definition example_platform :: "core_config \<Rightarrow> arm_platform" where
  "example_platform cores = \<lparr>ap_virtual_base = 0xc0000000, ap_pages_start = 0x4000, ap_vm_split = 3, ap_thread_local_base = 0xfe000000,
     ap_cores = cores, ap_cpu_id = 0\<rparr>"

lemma example_platform_ok:
  "\<exists>cores. add_core W32 (core_config_new W32) core_new True = Some (cores, True) \<and> platform_ok (example_platform cores) 0"
proof -
  obtain c where c: "add_core W32 (core_config_new W32) core_new True = Some (c, True)" "cc_inv W32 c"
      "cc_core_count c = 1" "take (cc_core_count c) (cc_cores c) = [core_new]"
    using add_core_inv [OF cc_inv_new [of W32], of core_new True]
    by (auto simp: core_ids_def core_config_new_def swap_in_def)
  then have "core_ids c ! 0 = 0" by (simp add: core_ids_def core_new_def)
  with c show ?thesis by (auto simp: platform_ok_def example_platform_def get_core_count_def HIGH_MEM_SIZE_def)
qed

lemma empty_local_stack: "local_stack p core (\<lambda>_. 0) (arm_context_default, \<lambda>_. 0) []"
  by (simp add: local_stack_def table_slots_def same_outside_def pin_ok_def arm_context_default_def word_get_def)

section \<open>Tasks\<close>

interpretation tl: page_mapper "\<lambda>(t, m) ps. platform_ok p core \<and> local_stack p core mem0 (task_context t, m) ps" arm_page_ok 512 "local_addr p core"
    "task_map_page (arm_map_page p)" "task_unmap_page (arm_unmap_page p)"
  for p core mem0
  by (rule task_mapper [OF lm.page_mapper_axioms])

interpretation tx: page_mapper "\<lambda>(t :: a64_context task, m) ps. (task_context t, m) = s0" "\<lambda>p. vb + p < 2 ^ 64" limit "\<lambda>n p. vb + p"
    "task_map_page (a64_map_page vb)" "task_unmap_page a64_unmap_page"
  for s0 vb limit
  by (rule task_mapper [OF am.page_mapper_axioms])

text \<open>
  \<^bold>\<open>C10\<close> The mappings of a task are a stack. On ARM, every sequence of \<open>Task::map_page\<close> and \<open>Task::unmap_page\<close> requests that keeps at most 512 pages
  mapped returns without a panic. It returns for a page of linear memory its linear address and for a page of high memory
  the address of the stack's next slot in the core's thread-local area. The
  local mapping table then holds the remaining pages in their order, every slot above them is empty, the rest of memory is unchanged, and the task is pinned to the core if a high
  page remains and not pinned if nothing remains.
\<close>

theorem task_mappings_stack:
  assumes "platform_ok p core" "local_stack p core mem (task_context t, mem) ps" "requests_ok arm_page_ok 512 (length ps) rs"
  shows "\<exists>t' mem'. mapper_run (task_map_page (arm_map_page p)) (task_unmap_page (arm_unmap_page p)) (t, mem) rs
      = Some ((t', mem'), snd (stack_run (local_addr p core) ps rs))
    \<and> local_stack p core mem (task_context t', mem') (fst (stack_run (local_addr p core) ps rs))"
proof -
  have "length ps \<le> 512" using assms(2) by (simp add: local_stack_def)
  from tl.run_refines [of p core mem "(t, mem)" ps rs, OF _ this assms(3)] assms(1,2) show ?thesis by auto
qed

theorem task_mappings_stack_witness:
  "\<exists>cores t mem. add_core W32 (core_config_new W32) core_new True = Some (cores, True)
    \<and> mapper_run (task_map_page (arm_map_page (example_platform cores))) (task_unmap_page (arm_unmap_page (example_platform cores)))
        (task_new 0 arm_context_default, \<lambda>_. 0) [Map_Page 0x1000, Map_Page 0x40000000, Map_Page 0x50000000, Unmap_Page]
      = Some ((t, mem), [0xc0001000, 0xfe001000, 0xfe002000])
    \<and> local_stack (example_platform cores) 0 (\<lambda>_. 0) (task_context t, mem) [0x1000, 0x40000000]"
proof -
  obtain cores where c: "add_core W32 (core_config_new W32) core_new True = Some (cores, True)" "platform_ok (example_platform cores) 0"
    using example_platform_ok by blast
  have s: "local_stack (example_platform cores) 0 (\<lambda>_. 0) (task_context (task_new 0 arm_context_default), \<lambda>_. 0) []"
    by (simp add: task_new_def empty_local_stack)
  have "high_base (example_platform cores) = 0x38000000" "local_base (example_platform cores) 0 = 0xfe000000"
    by (simp_all add: high_base_def local_base_def example_platform_def HIGH_MEM_SIZE_def)
  then have "stack_run (local_addr (example_platform cores) 0) [] [Map_Page 0x1000, Map_Page 0x40000000, Map_Page 0x50000000, Unmap_Page] =
      ([0x1000, 0x40000000], [0xc0001000, 0xfe001000, 0xfe002000])"
    by (simp add: local_addr_def) (simp add: example_platform_def)
  with task_mappings_stack [OF c(2) s, of "[Map_Page 0x1000, Map_Page 0x40000000, Map_Page 0x50000000, Unmap_Page]"] c(1)
  show ?thesis by (auto simp: arm_page_ok_def)
qed

text \<open>What the table and the pin mask say of a mapped high page.\<close>

lemma stack_translates:
  assumes "platform_ok p core" "local_stack p core mem0 (task_context t, mem) ps" "i < length ps" "high_base p \<le> ps ! i" "b < 4096"
  shows "let d = get_descriptor_index_long (local_addr p core i (ps ! i) + b) L3 in
      get_phys_addr_from_descriptor_long L3 (word_get mem (local_table p core) d) (word_get mem (local_table p core) (d + 1)) = Some (ps ! i)
    \<and> get_affinity ac_pin_mask t = Some (core_mask core) \<and> members W32 (core_mask core) = {core}"
proof -
  have st: "length ps \<le> 512" "arm_page_ok (ps ! i)" "word_get mem (local_table p core) (2 * i) = ps ! i + 1027"
      "word_get mem (local_table p core) (Suc (2 * i)) = 0" "ac_pin_mask (task_context t) = Some (core_mask core)"
    using assms(2-4) nth_mem [OF assms(3)] by (auto simp: local_stack_def table_slots_def slot_word_def pin_ok_def)
  obtain q where q: "ap_thread_local_base p = 2 ^ 21 * q" using assms(1) by (auto simp: platform_ok_def)
  have "local_addr p core i (ps ! i) + b = (512 * (q + core) + i) * 4096 + b"
    using assms(4) by (simp add: local_addr_def local_base_def q algebra_simps)
  moreover have "((512 * (q + core) + i) * 4096 + b) div 4096 = 512 * (q + core) + i" using assms(5) by simp
  ultimately have "(local_addr p core i (ps ! i) + b) div 4096 mod 512 = i" using assms(3) st(1) mod_mult_self2 [of i 512 "q + core"] by (simp add: algebra_simps)
  then have d: "get_descriptor_index_long (local_addr p core i (ps ! i) + b) L3 = 2 * i"
    using take_bit_eq_mask [of 9 "(local_addr p core i (ps ! i) + b) div 4096"]
    by (simp add: get_descriptor_index_long_def LEVEL_3_SHIFT_LONG_def page_shift_def drop_bit_eq_div push_bit_eq_mult
        LEVEL_3_INDEX_MASK_LONG_def LEVEL_3_TABLE_SHIFT_LONG_def mask_eq_exp_minus_1 take_bit_eq_mod)
  have "get_phys_addr_from_descriptor_long L3 (ps ! i + 1027) 0 = Some (ps ! i)"
  proof -
    obtain r where r: "ps ! i = 4096 * r" "r < 2 ^ 20" using st(2) by (auto simp: arm_page_ok_def dvd_def)
    have "ps ! i + 1027 = 3 + 4 * (1024 * r + 256)" using r(1) by simp
    then have "(ps ! i + 1027) mod 4 = 3" by (metis mod_mult_self2 mod_less numeral_less_iff semiring_norm(76,78,80,81))
    moreover have "(ps ! i + 1027) div 4096 * 4096 = ps ! i" using r(1) by simp
    ultimately show ?thesis
      using and_page_mask [of "ps ! i + 1027"] r type_mask [of "ps ! i + 1027"]
      by (simp add: get_phys_addr_from_descriptor_long_def TYPE_MASK_LONG_def TYPE_MASK_def MM_PAGE_TABLE_FLAG_LONG_def)
  qed
  moreover have "members W32 (core_mask core) = {core}"
    using platform_okD(2) [OF assms(1)] by (auto simp: members_def core_mask_def bit_at_def bit_exp_nat)
  ultimately show ?thesis using st(3-5) by (simp add: d get_affinity_def)
qed

text \<open>Requests one after the other.\<close>

lemma stack_run_append: "fst (stack_run addr ps (rs @ rs')) = fst (stack_run addr (fst (stack_run addr ps rs)) rs')"
  by (induction addr ps rs rule: stack_run.induct) (auto split: prod.splits)

lemma requests_ok_append:
  "requests_ok ok limit (length ps) (rs @ rs') \<longleftrightarrow>
     requests_ok ok limit (length ps) rs \<and> requests_ok ok limit (length (fst (stack_run addr ps rs))) rs'"
  by (induction addr ps rs rule: stack_run.induct) (auto split: prod.splits)

lemma clear_local_stack:
  assumes "\<forall>i<1024. word_get mem (local_table p core) i = 0"
  shows "local_stack p core mem (arm_context_default, mem) []"
  using assms by (simp add: local_stack_def table_slots_def same_outside_def pin_ok_def arm_context_default_def)

text \<open>
  \<^bold>\<open>C25\<close> A mapped page is reachable at the address that \<open>map_page\<close> returned for it, for as long as it is mapped. A new task on a core whose local
  mapping table is clear runs the requests \<open>rs\<close>, maps a page of high memory, for which \<open>Task::map_page\<close> returns \<open>va\<close>, and runs the requests \<open>rs'\<close>, which leave
  the page in its place on the stack. Then none of the calls panics, the descriptor that the level 3 index of any byte behind \<open>va\<close> selects in the
  core's table is that of the physical page, and the task's affinity is the single core whose area
  holds the mapping, so that the scheduler cannot move it to another one.
\<close>

theorem local_mapping_translates:
  assumes "platform_ok p core" "\<forall>i<1024. word_get mem (local_table p core) i = 0"
    "requests_ok arm_page_ok 512 0 (rs @ Map_Page page # rs')" "high_base p \<le> page" "b < 4096"
  defines "n \<equiv> length (fst (stack_run (local_addr p core) [] rs))" and "st \<equiv> fst (stack_run (local_addr p core) [] (rs @ Map_Page page # rs'))"
    and "m \<equiv> task_map_page (arm_map_page p)" and "u \<equiv> task_unmap_page (arm_unmap_page p)"
  assumes "n < length st" "st ! n = page"
  shows "\<exists>s vs s' va t mem' vs'. mapper_run m u (task_new tid arm_context_default, mem) rs = Some (s, vs) \<and> m s page = Some (s', va)
    \<and> mapper_run m u s' rs' = Some ((t, mem'), vs')
    \<and> (let d = get_descriptor_index_long (va + b) L3 in
        get_phys_addr_from_descriptor_long L3 (word_get mem' (local_table p core) d) (word_get mem' (local_table p core) (d + 1)) = Some page)
    \<and> get_affinity ac_pin_mask t = Some (core_mask core) \<and> members W32 (core_mask core) = {core}"
proof -
  let ?ps = "fst (stack_run (local_addr p core) [] rs)" and ?t = "task_new tid arm_context_default"
  let ?holds = "\<lambda>(t, m) ps. platform_ok p core \<and> local_stack p core mem (task_context t, m) ps"
  have ok: "requests_ok arm_page_ok 512 0 rs" "arm_page_ok page" "n < 512" "requests_ok arm_page_ok 512 (Suc n) rs'"
    using assms(3) requests_ok_append [of arm_page_ok 512 "[]" rs "Map_Page page # rs'" "local_addr p core"] by (simp_all add: n_def)
  have "?holds (?t, mem) []" using assms(1) clear_local_stack [OF assms(2)] by (simp add: task_new_def)
  from tl.run_refines [OF this, of rs] ok(1) obtain s vs where s: "mapper_run m u (?t, mem) rs = Some (s, vs)" "?holds s ?ps"
    by (auto simp: m_def u_def)
  from tl.map_law [OF s(2) ok(2)] ok(3) obtain s' where s': "m s page = Some (s', local_addr p core n page)" "?holds s' (?ps @ [page])"
    by (auto simp: m_def n_def)
  have st: "st = fst (stack_run (local_addr p core) (?ps @ [page]) rs')"
    by (simp add: st_def stack_run_append split: prod.splits)
  from tl.run_refines [OF s'(2), of rs'] ok(3,4) obtain t mem' vs' where
      f: "mapper_run m u s' rs' = Some ((t, mem'), vs')" "local_stack p core mem (task_context t, mem') st"
    by (auto simp: m_def u_def n_def st)
  from stack_translates [OF assms(1) f(2) \<open>n < length st\<close> _ assms(5)] \<open>st ! n = page\<close> assms(4) s(1) s'(1) f(1) show ?thesis
    by (metis (no_types, lifting))
qed

theorem local_mapping_translates_witness:
  "\<exists>cores s va t mem vs. add_core W32 (core_config_new W32) core_new True = Some (cores, True)
    \<and> task_map_page (arm_map_page (example_platform cores)) (task_new 0 arm_context_default, \<lambda>_. 0) 0x40000000 = Some (s, va)
    \<and> mapper_run (task_map_page (arm_map_page (example_platform cores))) (task_unmap_page (arm_unmap_page (example_platform cores)))
        s [Map_Page 0x1000, Map_Page 0x50000000, Unmap_Page] = Some ((t, mem), vs)
    \<and> (let d = get_descriptor_index_long (va + 5) L3 in
        get_phys_addr_from_descriptor_long L3 (word_get mem 0xffdf0000 d) (word_get mem 0xffdf0000 (d + 1)) = Some 0x40000000)
    \<and> get_affinity ac_pin_mask t = Some (core_mask 0)"
proof -
  obtain cores where c: "add_core W32 (core_config_new W32) core_new True = Some (cores, True)" "platform_ok (example_platform cores) 0"
    using example_platform_ok by blast
  let ?p = "example_platform cores"
  have h: "high_base ?p = 0x38000000" "local_table ?p 0 = 0xffdf0000"
    by (simp_all add: high_base_def local_base_def local_table_def example_platform_def HIGH_MEM_SIZE_def RECURSIVE_MAP_AREA_def)
  from local_mapping_translates [OF c(2), of "\<lambda>_. 0" "[]" "0x40000000" "[Map_Page 0x1000, Map_Page 0x50000000, Unmap_Page]" 5 0]
  show ?thesis using c(1) by (auto simp: h word_get_def arm_page_ok_def Let_def)
qed

text \<open>
  \<^bold>\<open>C39\<close> The capacity of the local mapping table. Mapping a high page when 512 pages are mapped panics. A linear page is counted
  without that check, and then unmapping panics: the slot that it would clear is outside the table.
\<close>

theorem local_mapping_overflow:
  assumes "platform_ok p core" "ac_map_count c = 512" "page < 2 ^ 32"
  shows "if page < high_base p
    then \<exists>s va. arm_map_page p (c, mem) page = Some (s, va) \<and> arm_unmap_page p s = None
    else arm_map_page p (c, mem) page = None"
proof (cases "page < high_base p")
  case True
  have "uadd W32 (ap_virtual_base p) page = Some (ap_virtual_base p + page)"
    using True by (intro uadd_ok) (simp add: high_base_def)
  then have "arm_map_page p (c, mem) page = Some ((c\<lparr>ac_map_count := 513\<rparr>, mem), ap_virtual_base p + page)"
    using True assms(2) by (simp add: arm_map_page_def platform_okD(3) [OF assms(1)])
  moreover have "unmap_page_local mem t sec 513 = None" for t sec
    by (simp add: unmap_page_local_def ushl_def push_bit_eq_mult take_bit_eq_mod)
  ultimately show ?thesis using True
    by (simp add: arm_unmap_page_def platform_okD(1,4,6) [OF assms(1)])
next
  case False
  have "map_page_local mem t sec page 512 False = None" for t sec
    by (simp add: map_page_local_def MAX_LOCAL_MAPPINGS_def page_table_entry_shift_def page_size_def drop_bit_eq_div)
  with False show ?thesis
    using assms(2) by (auto simp: arm_map_page_def platform_okD(1,3,4,6) [OF assms(1)] bind_eq_None_conv)
qed

theorem local_mapping_overflow_witness:
  "\<exists>cores s va. add_core W32 (core_config_new W32) core_new True = Some (cores, True)
    \<and> arm_map_page (example_platform cores) (arm_context_default\<lparr>ac_map_count := 512\<rparr>, \<lambda>_. 0) 0x1000 = Some (s, va)
    \<and> arm_unmap_page (example_platform cores) s = None"
proof -
  obtain cores where c: "add_core W32 (core_config_new W32) core_new True = Some (cores, True)" "platform_ok (example_platform cores) 0"
    using example_platform_ok by blast
  have "high_base (example_platform cores) = 0x38000000" by (simp add: high_base_def example_platform_def HIGH_MEM_SIZE_def)
  with local_mapping_overflow [OF c(2), of "arm_context_default\<lparr>ac_map_count := 512\<rparr>" "0x1000" "\<lambda>_. 0"] c(1) show ?thesis by auto
qed

end
