(* ===== verification/Zones.thy ===== *)
theory Zones
  imports Memory_Config Buddy_Runs
begin

text \<open>
  \<open>src/mm/mod.rs\<close>: the zone allocators. The ranges of the memory configuration are gathered into zones, the
  metadata of all allocators is taken from the end of a linear range, and each zone gets a buddy allocator over the ranges
  that remain of it.
\<close>

section \<open>Data and operations\<close>

record zone_info =
  zi_range :: memory_range
  zi_meta_size :: usize
  zi_zone_index :: usize
  zi_start_index :: usize
  zi_end_index :: usize

definition ZONE_ALLOCATOR_COUNT :: usize where "ZONE_ALLOCATOR_COUNT = 2"
definition LINEAR_MEMORY_ALLOCATOR :: usize where "LINEAR_MEMORY_ALLOCATOR = 0"
definition HIGH_MEMORY_ALLOCATOR :: usize where "HIGH_MEMORY_ALLOCATOR = 1"

definition zone_info_initializer :: zone_info where
  "zone_info_initializer = \<lparr>zi_range = \<lparr>r_tag = InvalidZone, r_base = 0, r_size = 0\<rparr>, zi_meta_size = 0, zi_zone_index = 0,
     zi_start_index = 0, zi_end_index = 0\<rparr>"

definition get_zone_index :: "memory_zone \<Rightarrow> usize option" where
  "get_zone_index zone =
     (case zone of LinearMemoryZone \<Rightarrow> Some LINEAR_MEMORY_ALLOCATOR | HighMemoryZone \<Rightarrow> Some HIGH_MEMORY_ALLOCATOR | InvalidZone \<Rightarrow> None)"

text \<open>The first loop of \<open>init_zone_info\<close>, from index \<open>index\<close> on.\<close>

fun scan_zones :: "width \<Rightarrow> zone_info list \<Rightarrow> usize \<Rightarrow> memory_range list \<Rightarrow> zone_info list option" where
  "scan_zones w zone_info index [] = Some zone_info"
| "scan_zones w zone_info index (r # ranges) = do {
     zone_index \<leftarrow> get_zone_index (r_tag r);
     info \<leftarrow> idx zone_info zone_index;
     info \<leftarrow>
       (if r_tag (zi_range info) = InvalidZone then
          Some (info\<lparr>zi_range := r, zi_zone_index := zone_index, zi_start_index := index, zi_end_index := index\<rparr>)
        else if r_tag (zi_range info) = r_tag r then do {
          z \<leftarrow> usub (r_size r) 1;
          end_addr \<leftarrow> uadd w (r_base r) z;
          d \<leftarrow> usub end_addr (r_base (zi_range info));
          sz \<leftarrow> uadd w d 1;
          Some (info\<lparr>zi_range := (zi_range info)\<lparr>r_size := sz\<rparr>, zi_end_index := index\<rparr>) }
        else Some info);
     zone_info \<leftarrow> upd zone_info zone_index info;
     scan_zones w zone_info (index + 1) ranges }"

fun zone_meta_sizes :: "width \<Rightarrow> zone_info list \<Rightarrow> zone_info list option" where
  "zone_meta_sizes w [] = Some []"
| "zone_meta_sizes w (zone # zones) = do {
     m \<leftarrow> calc_metadata_size w (r_size (zi_range zone));
     m \<leftarrow> align_up w m page_size;
     zones \<leftarrow> zone_meta_sizes w zones;
     Some (zone\<lparr>zi_meta_size := m\<rparr> # zones) }"

definition init_zone_info :: "width \<Rightarrow> zone_info list \<Rightarrow> memory_config \<Rightarrow> zone_info list option" where
  "init_zone_info w zone_info mem_config = do {
     ranges \<leftarrow> get_ranges mem_config;
     zone_info \<leftarrow> scan_zones w zone_info 0 ranges;
     zone_meta_sizes w zone_info }"

fun sum_meta :: "width \<Rightarrow> usize \<Rightarrow> zone_info list \<Rightarrow> usize option" where
  "sum_meta w acc [] = Some acc"
| "sum_meta w acc (z # zs) = do { acc \<leftarrow> uadd w acc (zi_meta_size z); sum_meta w acc zs }"

text \<open>The search for a linear range with room for the metadata; 0 when there is none.\<close>

fun find_meta_base :: "width \<Rightarrow> usize \<Rightarrow> memory_range list \<Rightarrow> usize option" where
  "find_meta_base w meta_total [] = Some 0"
| "find_meta_base w meta_total (r # ranges) =
     (if r_tag r = LinearMemoryZone \<and> meta_total < r_size r then do {
        z \<leftarrow> usub (r_size r) 1;
        end_addr \<leftarrow> uadd w (r_base r) z;
        d \<leftarrow> usub end_addr meta_total;
        uadd w d 1 }
      else find_meta_base w meta_total ranges)"

definition init_allocator_memory_config :: "width \<Rightarrow> memory_config \<Rightarrow> zone_info list \<Rightarrow> (memory_config \<times> usize) option" where
  "init_allocator_memory_config w mem_config zone_info = do {
     meta_total \<leftarrow> sum_meta w 0 zone_info;
     ranges \<leftarrow> get_ranges mem_config;
     meta_base \<leftarrow> find_meta_base w meta_total ranges;
     assert_that (meta_base \<noteq> 0);
     alloc_config \<leftarrow> exclude_range w mem_config \<lparr>r_tag = InvalidZone, r_base = meta_base, r_size = meta_total\<rparr>;
     Some (alloc_config, meta_base) }"

text \<open>
  The loop of \<open>init_allocators\<close>. \<open>mem\<close> is the memory in which the allocators keep their block nodes; each
  writes only the blocks of its own ranges.
\<close>

fun construct_allocators ::
    "width \<Rightarrow> usize \<Rightarrow> memory_range list \<Rightarrow> zone_info list \<Rightarrow> usize \<Rightarrow> (usize \<Rightarrow> block_node) \<Rightarrow> buddy option list \<Rightarrow> buddy option list option" where
  "construct_allocators w max_physical ranges [] curr_meta_base mem allocators = Some allocators"
| "construct_allocators w max_physical ranges (zone # zones) curr_meta_base mem allocators =
     (if r_tag (zi_range zone) = InvalidZone then construct_allocators w max_physical ranges zones curr_meta_base mem allocators
      else do {
        end_index \<leftarrow> uadd w (zi_end_index zone) 1;
        assert_that (zi_start_index zone \<le> end_index \<and> end_index \<le> length ranges);
        let avail = take (end_index - zi_start_index zone) (drop (zi_start_index zone) ranges);
        a \<leftarrow> buddy_new w max_physical mem (r_base (zi_range zone)) (r_size (zi_range zone)) curr_meta_base avail;
        a \<leftarrow> a;
        allocators \<leftarrow> upd allocators (zi_zone_index zone) (Some a);
        curr_meta_base \<leftarrow> uadd w curr_meta_base (zi_meta_size zone);
        construct_allocators w max_physical ranges zones curr_meta_base (ba_mem a) allocators })"

definition init_allocators ::
    "width \<Rightarrow> usize \<Rightarrow> usize \<Rightarrow> (usize \<Rightarrow> block_node) \<Rightarrow> memory_config \<Rightarrow> (memory_config \<times> buddy option list) option" where
  "init_allocators w max_physical virtual_base mem mem_config = do {
     zone_info \<leftarrow> init_zone_info w (replicate ZONE_ALLOCATOR_COUNT zone_info_initializer) mem_config;
     (alloc_config, meta_base) \<leftarrow> init_allocator_memory_config w mem_config zone_info;
     curr_meta_base \<leftarrow> uadd w virtual_base meta_base;
     ranges \<leftarrow> get_ranges alloc_config;
     allocators \<leftarrow> construct_allocators w max_physical ranges zone_info curr_meta_base mem (replicate ZONE_ALLOCATOR_COUNT None);
     Some (alloc_config, allocators) }"

definition get_zone_allocator :: "buddy option list \<Rightarrow> memory_zone \<Rightarrow> buddy option option" where
  "get_zone_allocator allocators zone = do {
     index \<leftarrow> get_zone_index zone;
     idx allocators index }"

definition mm_init ::
    "width \<Rightarrow> usize \<Rightarrow> usize \<Rightarrow> (usize \<Rightarrow> block_node) \<Rightarrow> memory_config \<Rightarrow> bool \<Rightarrow> (bool \<times> memory_config \<times> buddy option list) option" where
  "mm_init w max_physical virtual_base mem mem_config initialized = do {
     assert_that (\<not> initialized);
     (alloc_config, allocators) \<leftarrow> init_allocators w max_physical virtual_base mem mem_config;
     Some (True, alloc_config, allocators) }"

end
