(* ===== verification/Zone_Runs.thy ===== *)
theory Zone_Runs
  imports Zones
begin

text \<open>
  What the zone allocators are after start-up: the metadata lies in linear memory, the allocators never hand it out, and
  together they serve every other page of the memory configuration, each the ranges of its own zone.
\<close>

section \<open>Taking the end of a range out\<close>

lemma pieces_apart: "0 < r_size r \<Longrightarrow> 0 < r_size e \<Longrightarrow> ends_before r e \<or> ends_before e r \<Longrightarrow> pieces e r = [r]"
  by (auto simp: pieces_def exclude_parts_def ordering_of_def ends_before_def)

lemma pieces_tail:
  assumes "0 < n" "n < r_size r" "r_base e = r_base r + r_size r - n" "r_size e = n"
  shows "nonempty (pieces e r) = [r\<lparr>r_size := r_size r - n\<rparr>]"
proof -
  have "ordering_of r e = Superset" using assms by (auto simp: ordering_of_def)
  then show ?thesis using assms by (simp add: pieces_def exclude_parts_def nonempty_def)
qed

lemma concat_pieces_apart:
  "\<forall>r\<in>set xs. 0 < r_size r \<and> (ends_before r e \<or> ends_before e r) \<Longrightarrow> 0 < r_size e \<Longrightarrow> nonempty (concat (map (pieces e) xs)) = xs"
  by (induction xs) (simp_all add: pieces_apart nonempty_def)

lemma exclude_tail:
  assumes "rs_ok w s" "0 < rs_room s" "i < rs_count s" "0 < n" "n < r_size (live s ! i)"
    "r_base (live s ! i) + r_size (live s ! i) < usize_lim w"
    and e: "r_base e = r_base (live s ! i) + r_size (live s ! i) - n" "r_size e = n"
  shows "\<exists>s'. exclude_range w s e = Some s' \<and> live s' = (live s)[i := (live s ! i)\<lparr>r_size := r_size (live s ! i) - n\<rparr>] \<and> rs_ok w s'
    \<and> rs_addrs s' = rs_addrs s - addrs e"
proof -
  let ?r = "live s ! i"
  have v: "rs_inv s" "\<forall>r\<in>set (live s). range_ok w r" and d: "sorted_wrt ends_before (live s)"
    using assms(1) by (auto simp: rs_ok_def rs_valid_def rs_disjoint_def)
  have l: "i < length (live s)" using v(1) assms(3) by simp
  have eok: "range_ok w e" "usize_max w \<notin> addrs e"
    using assms(4-6) e by (auto simp: range_ok_def addrs_def usize_max_def)
  have ex: "\<forall>r\<in>set (live s). range_exclude w r e = Some (Inr (exclude_parts r e))"
    using v(2) eok by (auto simp: range_exclude_eq exclude_overflows_iff)
  have "length (filter (\<lambda>r. length (pieces e r) = 2) (live s)) \<le> 1" by (rule at_most_one_superset [OF d v(2) eok(1)])
  then have "rs_count s + length (filter (\<lambda>r. length (pieces e r) = 2) (live s)) \<le> length (rs_ranges s)"
    using assms(2) by (simp add: rs_room_def)
  then obtain s' where s': "exclude_range w s e = Some s'" "live s' = nonempty (concat (map (pieces e) (live s)))"
    using exclude_loop_eq [OF v(1), of 0 w e] ex by (auto simp: exclude_range_def)
  have split: "live s = take i (live s) @ ?r # drop (Suc i) (live s)" using l by (rule id_take_nth_drop)
  have before: "ends_before r ?r" if "r \<in> set (take i (live s))" for r
    using d that by (subst (asm) split) (auto simp: sorted_wrt_append)
  have after: "ends_before ?r r" if "r \<in> set (drop (Suc i) (live s))" for r
    using d that by (subst (asm) split) (auto simp: sorted_wrt_append)
  have out: "\<forall>r\<in>set (take i (live s)). 0 < r_size r \<and> (ends_before r e \<or> ends_before e r)"
      "\<forall>r\<in>set (drop (Suc i) (live s)). 0 < r_size r \<and> (ends_before r e \<or> ends_before e r)"
    using before after v(2) e assms(5) by (fastforce simp: ends_before_def range_ok_def dest: in_set_takeD in_set_dropD)+
  have ne: "nonempty (xs @ ys) = nonempty xs @ nonempty ys" for xs ys :: "'a range list" by (simp add: nonempty_def)
  have "nonempty (concat (map (pieces e) (live s))) =
      nonempty (concat (map (pieces e) (take i (live s)))) @ nonempty (pieces e ?r) @ nonempty (concat (map (pieces e) (drop (Suc i) (live s))))"
    by (subst (1) split) (simp only: map_append list.map concat_append concat.simps ne)
  also have "\<dots> = take i (live s) @ [?r\<lparr>r_size := r_size ?r - n\<rparr>] @ drop (Suc i) (live s)"
    using concat_pieces_apart [OF out(1)] concat_pieces_apart [OF out(2)] pieces_tail [OF assms(4,5) e] assms(4) e by simp
  also have "\<dots> = (live s)[i := ?r\<lparr>r_size := r_size ?r - n\<rparr>]" using l by (simp add: upd_conv_take_nth_drop)
  finally have "live s' = (live s)[i := ?r\<lparr>r_size := r_size ?r - n\<rparr>]" using s'(2) by simp
  moreover obtain s2 where "exclude_range w s e = Some s2" "rs_ok w s2" "rs_addrs s2 = rs_addrs s - addrs e"
    using exclude_range_ok [OF assms(1) eok(1)] eok(2) assms(2) by blast
  ultimately show ?thesis using s'(1) by auto
qed

section \<open>The zones\<close>

definition span :: "memory_range list \<Rightarrow> usize" where
  "span rs = (if rs = [] then 0 else r_base (last rs) + r_size (last rs) - r_base (hd rs))"

definition zone_of :: "memory_zone \<Rightarrow> usize \<Rightarrow> usize \<Rightarrow> memory_range list \<Rightarrow> zone_info" where
  "zone_of t k n rs = (if rs = [] then zone_info_initializer else \<lparr>zi_range = \<lparr>r_tag = t, r_base = r_base (hd rs), r_size = span rs\<rparr>,
     zi_meta_size = 0, zi_zone_index = k, zi_start_index = n, zi_end_index = n + length rs - 1\<rparr>)"

definition ranges_ok :: "width \<Rightarrow> usize \<Rightarrow> memory_range list \<Rightarrow> bool" where
  "ranges_ok w max_physical rs \<longleftrightarrow> sorted_wrt ends_before rs
     \<and> (\<forall>r\<in>set rs. page_size dvd r_base r \<and> 0 < r_base r \<and> page_size \<le> r_size r \<and> r_base r + r_size r < usize_lim w \<and> r_base r + r_size r \<le> Suc max_physical)"

lemma ranges_ok_append: "ranges_ok w m (xs @ ys) \<Longrightarrow> ranges_ok w m xs \<and> ranges_ok w m ys"
  by (auto simp: ranges_ok_def sorted_wrt_append)

lemma span_bounds:
  assumes "ranges_ok w m rs" "r \<in> set rs"
  shows "r_base (hd rs) \<le> r_base r" "r_base r + r_size r \<le> r_base (hd rs) + span rs" "r_base (hd rs) + span rs = r_base (last rs) + r_size (last rs)"
proof -
  have s: "sorted_wrt ends_before rs" using assms(1) by (simp add: ranges_ok_def)
  obtain x xs where x: "rs = x # xs" using assms(2) by (cases rs) auto
  show h: "r_base (hd rs) \<le> r_base r" using s assms(2) x by (auto simp: ends_before_def)
  have l: "r_base q + r_size q \<le> r_base (last rs) + r_size (last rs)" if "q \<in> set rs" for q
    using s that
  proof (induction rs rule: rev_induct)
    case (snoc y ys)
    then show ?case by (auto simp: sorted_wrt_append ends_before_def)
  qed simp
  have "r_base (hd rs) \<le> r_base (last rs) + r_size (last rs)" using h l [OF assms(2)] by linarith
  then show e: "r_base (hd rs) + span rs = r_base (last rs) + r_size (last rs)" using x by (simp add: span_def)
  with l [OF assms(2)] show "r_base r + r_size r \<le> r_base (hd rs) + span rs" by simp
qed

lemma scan_zones_append: "scan_zones w zi n (xs @ ys) = do { zi \<leftarrow> scan_zones w zi n xs; scan_zones w zi (n + length xs) ys }"
proof (induction xs arbitrary: zi n)
  case (Cons x xs)
  then show ?case by (auto intro!: Option.bind_cong [OF refl])
qed simp

lemma scan_group:
  assumes "\<forall>r\<in>set rs. r_tag r = t" "get_zone_index t = Some k" "k < length zi" "zi ! k = zone_info_initializer" "ranges_ok w m rs"
  shows "scan_zones w zi n rs = Some (zi[k := zone_of t k n rs])"
  using assms(1,5)
proof (induction rs rule: rev_induct)
  case Nil
  then show ?case using assms(3,4) by (simp add: zone_of_def flip: assms(4))
next
  case (snoc r rs)
  have ok: "ranges_ok w m rs" "ranges_ok w m (rs @ [r])" using ranges_ok_append [OF snoc.prems(2)] snoc.prems(2) by blast+
  have r: "0 < r_base r" "page_size \<le> r_size r" "r_base r + r_size r < usize_lim w" using snoc.prems(2) by (auto simp: ranges_ok_def)
  have rp: "0 < r_size r" using r(2) page_size_pos by linarith
  have ih: "scan_zones w zi n rs = Some (zi[k := zone_of t k n rs])" using snoc ok by simp
  have t: "t \<noteq> InvalidZone" using assms(2) by (auto simp: get_zone_index_def)
  show ?case
  proof (cases rs)
    case Nil
    have e: "r = \<lparr>r_tag = t, r_base = r_base r, r_size = r_size r\<rparr>" using snoc.prems(1) by (cases r) simp
    with Nil show ?thesis using snoc.prems(1) assms(2-4) t
      by (simp add: zone_of_def span_def) (simp add: zone_info_initializer_def flip: e)
  next
    case (Cons x xs)
    have hd: "hd (rs @ [r]) = hd rs" using Cons by simp
    have h: "r_base (hd rs) \<le> r_base r" "r_base (hd rs) + span (rs @ [r]) = r_base r + r_size r"
      using span_bounds(1,3) [OF ok(2), of r] hd by simp_all
    have sp: "span (rs @ [r]) = r_base r + r_size r - r_base (hd rs)" using h by simp
    have "0 < r_base (hd rs)" using ok(1) Cons by (simp add: ranges_ok_def)
    then have u: "usub (r_size r) 1 = Some (r_size r - 1)" "uadd w (r_base r) (r_size r - 1) = Some (r_base r + r_size r - 1)"
        "usub (r_base r + r_size r - 1) (r_base (hd rs)) = Some (r_base r + r_size r - 1 - r_base (hd rs))"
        "uadd w (r_base r + r_size r - 1 - r_base (hd rs)) 1 = Some (span (rs @ [r]))"
      using r rp h by (auto simp: uadd_def usub_def)
    have z: "zone_of t k n rs = \<lparr>zi_range = \<lparr>r_tag = t, r_base = r_base (hd rs), r_size = span rs\<rparr>,
       zi_meta_size = 0, zi_zone_index = k, zi_start_index = n, zi_end_index = n + length rs - 1\<rparr>"
        "zone_of t k n (rs @ [r]) = \<lparr>zi_range = \<lparr>r_tag = t, r_base = r_base (hd rs), r_size = span (rs @ [r])\<rparr>,
       zi_meta_size = 0, zi_zone_index = k, zi_start_index = n, zi_end_index = n + length rs\<rparr>"
      using Cons hd by (simp_all add: zone_of_def)
    show ?thesis unfolding scan_zones_append ih
      using snoc.prems(1) assms(2,3) t u by (simp add: z(2)) (simp add: z(1))
  qed
qed

section \<open>Metadata\<close>

definition meta_need :: "width \<Rightarrow> usize \<Rightarrow> usize" where
  "meta_need w sz = (level_offset w sz BLOCK_LEVELS * 2 ^ WORD_SHIFT w + (page_size - 1)) div page_size * page_size"

lemma meta_need_eq:
  assumes "sz < usize_lim w"
  shows "do { m \<leftarrow> calc_metadata_size w sz; align_up w m page_size } = Some (meta_need w sz)"
proof -
  have m: "level_offset w sz BLOCK_LEVELS * 2 ^ WORD_SHIFT w \<le> (11 * (sz div page_size + 1)) * 8"
    using level_offset_le [of w sz BLOCK_LEVELS] by (intro mult_le_mono) (cases w; simp add: BLOCK_LEVELS_def)+
  have "level_offset w sz BLOCK_LEVELS * 2 ^ WORD_SHIFT w + mask page_shift < usize_lim w"
  proof (cases w)
    case W32
    have "sz div page_size < 2 ^ 20" using assms W32 by (intro less_mult_imp_div_less) (simp add: page_size_def)
    with m W32 show ?thesis by (simp add: mask_eq_exp_minus_1 page_shift_def)
  next
    case W64
    have "sz div page_size < 2 ^ 52" using assms W64 by (intro less_mult_imp_div_less) (simp add: page_size_def)
    with m W64 show ?thesis by (simp add: mask_eq_exp_minus_1 page_shift_def)
  qed
  then show ?thesis
    using calc_metadata_size_eq [OF assms] align_up_eq [of page_shift w "level_offset w sz BLOCK_LEVELS * 2 ^ WORD_SHIFT w"]
    by (simp add: meta_need_def page_size_exp mask_eq_exp_minus_1)
qed

lemma meta_need_pos: "page_size \<le> sz \<Longrightarrow> 0 < meta_need w sz"
proof -
  assume "page_size \<le> sz"
  then have b: "1 \<le> sz div page_size" using div_le_mono [of page_size sz page_size] page_size_pos by (simp add: page_size_def)
  then have "word_bits w \<le> (sz div page_size + 1) div 2 + word_bits w - 1" by simp
  then have "1 \<le> level_words w sz 0" unfolding level_words_def using div_le_mono [of "word_bits w" _ "word_bits w"] word_bits_pos [of w] by simp
  then have "1 \<le> level_offset w sz BLOCK_LEVELS" using level_offset_mono [of 1 BLOCK_LEVELS w sz] by (simp add: BLOCK_LEVELS_def)
  then have "page_size \<le> level_offset w sz BLOCK_LEVELS * 2 ^ WORD_SHIFT w + (page_size - 1)" using page_size_pos by (simp add: page_size_def Suc_le_eq)
  then show ?thesis using div_le_mono [of page_size _ page_size] page_size_pos unfolding meta_need_def by (metis div_self less_not_refl3 mult_pos_pos zero_less_one less_le_trans)
qed

lemma find_meta_base_eq:
  assumes "\<exists>r\<in>set rs. r_tag r = LinearMemoryZone \<and> n < r_size r" "\<forall>r\<in>set rs. r_base r + r_size r < usize_lim w"
  shows "\<exists>i<length rs. r_tag (rs ! i) = LinearMemoryZone \<and> n < r_size (rs ! i) \<and> find_meta_base w n rs = Some (r_base (rs ! i) + r_size (rs ! i) - n)"
  using assms
proof (induction rs)
  case (Cons r rs)
  show ?case
  proof (cases "r_tag r = LinearMemoryZone \<and> n < r_size r")
    case True
    have "uadd w (r_base r) (r_size r - 1) = Some (r_base r + r_size r - 1)" "uadd w (r_base r + r_size r - 1 - n) 1 = Some (r_base r + r_size r - n)"
        "usub (r_base r + r_size r - 1) n = Some (r_base r + r_size r - 1 - n)"
      using True Cons.prems(2) by (auto simp: uadd_def usub_def)
    with True show ?thesis by (intro exI [of _ 0]) (simp add: Suc_le_eq)
  next
    case False
    then obtain i where "i < length rs" "r_tag (rs ! i) = LinearMemoryZone" "n < r_size (rs ! i)" "find_meta_base w n rs = Some (r_base (rs ! i) + r_size (rs ! i) - n)"
      using Cons by auto
    with False show ?thesis by (intro exI [of _ "Suc i"]) auto
  qed
qed simp

section \<open>The allocators\<close>

definition serves :: "width \<Rightarrow> memory_range list \<Rightarrow> buddy option \<Rightarrow> bool" where
  "serves w rs a \<longleftrightarrow> (case a of
     None \<Rightarrow> rs = []
   | Some s \<Rightarrow> rs \<noteq> [] \<and> (\<exists>L. run_lists w (s, {}) L \<and> covered L = (\<Union>r\<in>set rs. block_addrs page_size (whole_pages r)))
       \<and> buddy_get_alloc_mem s = 0 \<and> buddy_get_free_mem s = sum_list (map r_size rs))"

text \<open>What remains of the ranges of a zone: each begins where the original does and is not empty.\<close>

definition remains :: "memory_range list \<Rightarrow> memory_range list \<Rightarrow> bool" where
  "remains rs avail \<longleftrightarrow> length avail = length rs \<and> sorted_wrt ends_before avail
     \<and> (\<forall>i<length rs. r_base (avail ! i) = r_base (rs ! i) \<and> r_size (avail ! i) \<le> r_size (rs ! i) \<and> 0 < r_size (avail ! i))"

lemma remains_refl: "ranges_ok w m rs \<Longrightarrow> remains rs rs"
proof -
  assume a: "ranges_ok w m rs"
  have "0 < r_size r" if "r \<in> set rs" for r
    using a that page_size_pos by (auto simp: ranges_ok_def) (metis (no_types) less_le_trans page_size_pos)
  with a show ?thesis by (auto simp: remains_def ranges_ok_def)
qed

lemma zone_allocator:
  assumes "rs \<noteq> []" "ranges_ok w m rs" "remains rs avail" "meta \<noteq> 0"
  shows "\<exists>s. buddy_new w m mem (r_base (hd rs)) (span rs) meta avail = Some (Some s) \<and> serves w avail (Some s)"
proof -
  have hd: "hd rs \<in> set rs" "last rs \<in> set rs" using assms(1) by simp_all
  have b: "page_size dvd r_base (hd rs)" "0 < r_base (hd rs)" "page_size \<le> r_size (hd rs)"
      "r_base (last rs) + r_size (last rs) < usize_lim w" "r_base (last rs) + r_size (last rs) \<le> Suc m"
    using assms(2) hd by (auto simp: ranges_ok_def)
  have sp: "r_base (hd rs) + r_size (hd rs) \<le> r_base (hd rs) + span rs" "r_base (hd rs) + span rs = r_base (last rs) + r_size (last rs)"
    using span_bounds(2,3) [OF assms(2) hd(1)] by simp_all
  have av: "avail_ok (r_base (hd rs)) (span rs) avail"
    unfolding avail_ok_def
  proof (intro conjI ballI)
    fix a assume "a \<in> set avail"
    then obtain i where i: "i < length rs" "a = avail ! i" "rs ! i \<in> set rs" using assms(3) by (auto simp: remains_def in_set_conv_nth)
    then have a: "r_base a = r_base (rs ! i)" "r_size a \<le> r_size (rs ! i)" "0 < r_size a" using assms(3) by (auto simp: remains_def)
    then show "0 < r_size a" by simp
    show "0 < r_base a" "page_size dvd r_base a" using a(1) i(3) assms(2) by (auto simp: ranges_ok_def)
    show "r_base (hd rs) \<le> r_base a" "r_base a + r_size a \<le> r_base (hd rs) + span rs"
      using span_bounds(1,2) [OF assms(2) i(3)] a by linarith+
  next
    have "sorted_wrt ends_before avail" using assms(3) by (simp add: remains_def)
    then show "sorted_wrt (\<lambda>r q. addrs r \<inter> addrs q = {}) avail"
      by (rule sorted_wrt_mono_rel [rotated]) (auto simp: ends_before_def addrs_def)
  qed
  have "avail \<noteq> []" using assms(1,3) by (auto simp: remains_def)
  moreover have "r_base (hd rs) \<le> m" "span rs - 1 \<le> m - r_base (hd rs)" "r_base (hd rs) + span rs < usize_lim w" "page_size \<le> span rs"
    using b sp page_size_pos by linarith+
  ultimately show ?thesis
    using buddy_new_ok [OF _ _ _ b(1) _ assms(4) _ av, where mem = mem and w = w and maxp = m]
    by (auto simp: serves_def buddy_get_alloc_mem_def buddy_get_free_mem_def)
qed

lemma remains_tail:
  assumes "ranges_ok w m rs" "i < length rs" "n < r_size (rs ! i)"
  shows "remains rs (rs[i := (rs ! i)\<lparr>r_size := r_size (rs ! i) - n\<rparr>])"
proof -
  have s: "sorted_wrt ends_before rs" "0 < r_size r" if "r \<in> set rs" for r
    using assms(1) that page_size_pos by (auto simp: ranges_ok_def) (metis (no_types) less_le_trans page_size_pos)
  have "sorted_wrt ends_before (rs[i := (rs ! i)\<lparr>r_size := r_size (rs ! i) - n\<rparr>])"
    unfolding sorted_wrt_iff_nth_less
  proof (intro allI impI)
    fix j k assume j: "j < k" "k < length (rs[i := (rs ! i)\<lparr>r_size := r_size (rs ! i) - n\<rparr>])"
    then have "ends_before (rs ! j) (rs ! k)" using assms(1) by (auto simp: ranges_ok_def sorted_wrt_iff_nth_less)
    with j show "ends_before (rs[i := (rs ! i)\<lparr>r_size := r_size (rs ! i) - n\<rparr>] ! j) (rs[i := (rs ! i)\<lparr>r_size := r_size (rs ! i) - n\<rparr>] ! k)"
      by (cases "j = i"; cases "k = i") (auto simp: ends_before_def)
  qed
  then show ?thesis using assms(2,3) s(2) by (auto simp: remains_def nth_list_update)
qed

definition zone_total :: "width \<Rightarrow> memory_range list \<Rightarrow> memory_range list \<Rightarrow> usize" where
  "zone_total w ls hs = meta_need w (span ls) + meta_need w (span hs)"

lemma span_less: "ranges_ok w m rs \<Longrightarrow> span rs < usize_lim w"
proof (cases "rs = []")
  case False
  assume a: "ranges_ok w m rs"
  have "r_base (last rs) + r_size (last rs) < usize_lim w" using a False by (auto simp: ranges_ok_def)
  then show ?thesis using False by (simp add: span_def)
qed (simp add: span_def)

lemma init_zone_info_eq:
  assumes "rs_inv cfg" "live cfg = ls @ hs" "\<forall>r\<in>set ls. r_tag r = LinearMemoryZone" "\<forall>r\<in>set hs. r_tag r = HighMemoryZone" "ranges_ok w m (ls @ hs)"
  shows "init_zone_info w (replicate ZONE_ALLOCATOR_COUNT zone_info_initializer) cfg =
    Some [(zone_of LinearMemoryZone 0 0 ls)\<lparr>zi_meta_size := meta_need w (span ls)\<rparr>, (zone_of HighMemoryZone 1 (length ls) hs)\<lparr>zi_meta_size := meta_need w (span hs)\<rparr>]"
proof -
  have ok: "ranges_ok w m ls" "ranges_ok w m hs" using ranges_ok_append [OF assms(5)] by auto
  have z: "get_zone_index LinearMemoryZone = Some 0" "get_zone_index HighMemoryZone = Some 1"
    by (simp_all add: get_zone_index_def LINEAR_MEMORY_ALLOCATOR_def HIGH_MEMORY_ALLOCATOR_def)
  have i: "replicate ZONE_ALLOCATOR_COUNT zone_info_initializer = [zone_info_initializer, zone_info_initializer]"
    by (simp add: ZONE_ALLOCATOR_COUNT_def numeral_2_eq_2)
  have "scan_zones w [zone_info_initializer, zone_info_initializer] 0 (ls @ hs) =
      Some [zone_of LinearMemoryZone 0 0 ls, zone_of HighMemoryZone 1 (length ls) hs]"
    using scan_group [OF assms(3) z(1) _ _ ok(1), of "[zone_info_initializer, zone_info_initializer]" 0]
      scan_group [OF assms(4) z(2) _ _ ok(2), of "[zone_of LinearMemoryZone 0 0 ls, zone_info_initializer]" "length ls"]
    unfolding scan_zones_append by simp
  moreover have sz: "r_size (zi_range (zone_of t k n rs)) = span rs" for t k n rs
    by (simp add: zone_of_def span_def zone_info_initializer_def)
  have "do { m \<leftarrow> calc_metadata_size w (span rs); a \<leftarrow> align_up w m page_size; f a } = f (meta_need w (span rs))" if "ranges_ok w m rs" for rs and f :: "usize \<Rightarrow> zone_info list option"
    using meta_need_eq [OF span_less [OF that]] by (auto simp: bind_eq_Some_conv)
  ultimately show ?thesis
    using ok assms(2) by (simp add: init_zone_info_def get_ranges_live [OF assms(1)] i sz)
qed

lemma construct_zone:
  assumes "ranges_ok w m rs" "remains rs avail" "take (length rs) (drop n ranges) = avail" "n + length rs \<le> length ranges" "length ranges < usize_lim w"
    "meta \<noteq> 0" "meta + need < usize_lim w" "k < length al" "al ! k = None" "t \<noteq> InvalidZone"
  shows "\<exists>a meta' mem'. serves w avail a \<and> meta \<le> meta' \<and> meta' \<le> meta + need
    \<and> construct_allocators w m ranges ((zone_of t k n rs)\<lparr>zi_meta_size := need\<rparr> # zs) meta mem al = construct_allocators w m ranges zs meta' mem' (al[k := a])"
proof (cases "rs = []")
  case True
  then have "avail = []" using assms(2) by (simp add: remains_def)
  then have "serves w avail None" by (simp add: serves_def)
  moreover have "al[k := None] = al" by (metis assms(9) list_update_id)
  ultimately show ?thesis
    using True by (intro exI [of _ None] exI [of _ meta] exI [of _ mem]) (simp add: zone_of_def zone_info_initializer_def)
next
  case False
  obtain s where s: "buddy_new w m mem (r_base (hd rs)) (span rs) meta avail = Some (Some s)" "serves w avail (Some s)"
    using zone_allocator [OF False assms(1,2,6)] by blast
  let ?z = "(zone_of t k n rs)\<lparr>zi_meta_size := need\<rparr>"
  have l: "0 < length rs" using False by simp
  have z: "zi_start_index ?z = n" "zi_end_index ?z = n + length rs - 1" "zi_zone_index ?z = k" "zi_range ?z = \<lparr>r_tag = t, r_base = r_base (hd rs), r_size = span rs\<rparr>"
      "zi_meta_size ?z = need"
    using False by (simp_all add: zone_of_def)
  have u: "uadd w (n + length rs - 1) 1 = Some (n + length rs)" "uadd w meta need = Some (meta + need)"
    using assms(4,5,7) l by (auto simp: uadd_def)
  have "construct_allocators w m ranges (?z # zs) meta mem al = construct_allocators w m ranges zs (meta + need) (ba_mem s) (al[k := Some s])"
    using assms(3,4,8,10) s(1) u by (simp add: z Let_def)
  with s(2) show ?thesis by (intro exI [of _ "Some s"] exI [of _ "meta + need"] exI [of _ "ba_mem s"]) simp
qed

section \<open>Properties\<close>

text \<open>
  \<^bold>\<open>C4\<close> Start-up of the zone allocators. Take a memory configuration of page-aligned, disjoint ranges, the linear ones below the high ones, that has a free slot and
  a linear range larger than the metadata of both zones. Then \<open>init_allocators\<close> returns: the metadata lies in one
  linear range, the allocator configuration is the memory configuration without exactly the metadata, and each zone's
  allocator is a valid buddy allocator whose free blocks are disjoint and cover exactly the whole pages of the ranges of its zone (there is none for a zone
  without ranges).
\<close>

theorem init_allocators_correct:
  assumes "rs_ok w cfg" "0 < rs_room cfg" "length (rs_ranges cfg) < usize_lim w" "live cfg = ls @ hs"
    "\<forall>r\<in>set ls. r_tag r = LinearMemoryZone" "\<forall>r\<in>set hs. r_tag r = HighMemoryZone" "ranges_ok w max_physical (ls @ hs)"
    "\<exists>r\<in>set ls. zone_total w ls hs < r_size r" "\<forall>r\<in>set ls. virtual_base + r_base r + r_size r < usize_lim w"
  shows "\<exists>cfg' meta a_linear a_high. init_allocators w max_physical virtual_base mem cfg = Some (cfg', [a_linear, a_high])
    \<and> (\<exists>r\<in>set ls. {meta ..< meta + zone_total w ls hs} \<subseteq> addrs r) \<and> rs_ok w cfg' \<and> rs_addrs cfg' = rs_addrs cfg - {meta ..< meta + zone_total w ls hs}
    \<and> serves w (filter (\<lambda>r. r_tag r = LinearMemoryZone) (live cfg')) a_linear \<and> serves w (filter (\<lambda>r. r_tag r = HighMemoryZone) (live cfg')) a_high"
proof -
  let ?n = "zone_total w ls hs"
  have inv: "rs_inv cfg" using assms(1) by (auto simp: rs_ok_def)
  have ok: "ranges_ok w max_physical ls" "ranges_ok w max_physical hs" using ranges_ok_append [OF assms(7)] by auto
  have len: "length ls + length hs = rs_count cfg" using live_length [OF inv] assms(4) by simp
  obtain i where i: "i < length ls" "?n < r_size (ls ! i)" "find_meta_base w ?n (ls @ hs) = Some (r_base (ls ! i) + r_size (ls ! i) - ?n)"
  proof -
    obtain i where i: "i < length (ls @ hs)" "r_tag ((ls @ hs) ! i) = LinearMemoryZone" "?n < r_size ((ls @ hs) ! i)"
        "find_meta_base w ?n (ls @ hs) = Some (r_base ((ls @ hs) ! i) + r_size ((ls @ hs) ! i) - ?n)"
      using find_meta_base_eq [of "ls @ hs" ?n w] assms(5,7,8) by (auto simp: ranges_ok_def)
    have "i < length ls"
    proof (rule ccontr)
      assume "\<not> i < length ls"
      then have "(ls @ hs) ! i \<in> set hs" using i(1) by (simp add: nth_append)
      then show False using assms(6) i(2) by auto
    qed
    with i that show ?thesis by (simp add: nth_append)
  qed
  let ?r = "ls ! i"
  have r: "?r \<in> set ls" "0 < r_base ?r" "page_size \<le> span ls" "r_base ?r + r_size ?r < usize_lim w"
  proof -
    show m: "?r \<in> set ls" using i(1) by simp
    show "0 < r_base ?r" "r_base ?r + r_size ?r < usize_lim w" using ok(1) m by (auto simp: ranges_ok_def)
    show "page_size \<le> span ls" using span_bounds(1,2) [OF ok(1) m] ok(1) m by (fastforce simp: ranges_ok_def)
  qed
  have n: "0 < ?n" using meta_need_pos [OF r(3), of w] by (simp add: zone_total_def)
  let ?meta = "r_base ?r + r_size ?r - ?n"
  let ?e = "\<lparr>r_tag = InvalidZone, r_base = ?meta, r_size = ?n\<rparr>"
  let ?ls = "ls[i := ?r\<lparr>r_size := r_size ?r - ?n\<rparr>]"
  have li: "live cfg ! i = ?r" using i(1) assms(4) by (simp add: nth_append)
  obtain cfg' where c: "exclude_range w cfg ?e = Some cfg'" "live cfg' = ?ls @ hs" "rs_ok w cfg'" "rs_addrs cfg' = rs_addrs cfg - addrs ?e"
    using exclude_tail [OF assms(1,2), of i ?n ?e] i(1,2) n r(4) len assms(4) li by (auto simp: list_update_append)
  let ?zi = "[(zone_of LinearMemoryZone 0 0 ls)\<lparr>zi_meta_size := meta_need w (span ls)\<rparr>, (zone_of HighMemoryZone 1 (length ls) hs)\<lparr>zi_meta_size := meta_need w (span hs)\<rparr>]"
  have zi: "init_zone_info w (replicate ZONE_ALLOCATOR_COUNT zone_info_initializer) cfg = Some ?zi"
    by (rule init_zone_info_eq [OF inv assms(4-7)])
  have nn: "meta_need w (span ls) + meta_need w (span hs) = ?n" "?n < usize_lim w" using i(2) r(4) by (simp_all add: zone_total_def)
  have sum: "sum_meta w 0 ?zi = Some ?n"
    using nn by (simp add: uadd_def)
  have mz: "?meta \<noteq> 0" using i(2) r(2) by linarith
  have ac: "init_allocator_memory_config w cfg ?zi = Some (cfg', ?meta)"
    using sum i(3) c(1) mz assms(4) by (simp only: init_allocator_memory_config_def get_ranges_live [OF inv] bind.simps) simp
  have vm: "virtual_base + ?meta + ?n < usize_lim w" using assms(9) r(1) i(2) by fastforce
  have g: "get_ranges cfg' = Some (?ls @ hs)" using get_ranges_live [of cfg'] c(2,3) by (auto simp: rs_ok_def)
  have al: "replicate ZONE_ALLOCATOR_COUNT None = [None, None :: buddy option]" by (simp add: ZONE_ALLOCATOR_COUNT_def numeral_2_eq_2)
  have l2: "length (?ls @ hs) < usize_lim w" using len assms(3) inv by (simp add: rs_inv_def)
  have p0: "take (length ls) (drop 0 (?ls @ hs)) = ?ls" "0 + length ls \<le> length (?ls @ hs)" "virtual_base + ?meta \<noteq> 0" "virtual_base + ?meta + meta_need w (span ls) < usize_lim w"
    by (simp, simp, use mz vm nn in linarith, use mz vm nn in linarith)
  obtain a0 m1 mem1 where a0: "serves w ?ls a0" "virtual_base + ?meta \<le> m1" "m1 \<le> virtual_base + ?meta + meta_need w (span ls)"
      "construct_allocators w max_physical (?ls @ hs) ?zi (virtual_base + ?meta) mem [None, None] =
        construct_allocators w max_physical (?ls @ hs) (tl ?zi) m1 mem1 [a0, None]"
    using construct_zone [OF ok(1) remains_tail [OF ok(1) i(1,2)] p0(1,2) l2 p0(3,4), of 0 "[None, None]" LinearMemoryZone "tl ?zi" mem]
    by (simp del: construct_allocators.simps) blast
  have p1: "take (length hs) (drop (length ls) (?ls @ hs)) = hs" "length ls + length hs \<le> length (?ls @ hs)" "m1 \<noteq> 0" "m1 + meta_need w (span hs) < usize_lim w"
    using mz vm nn a0(2,3) by simp_all
  obtain a1 m2 mem2 where a1: "serves w hs a1"
      "construct_allocators w max_physical (?ls @ hs) (tl ?zi) m1 mem1 [a0, None] = construct_allocators w max_physical (?ls @ hs) [] m2 mem2 [a0, a1]"
    using construct_zone [OF ok(2) remains_refl [OF ok(2)] p1(1,2) l2 p1(3,4), of 1 "[a0, None]" HighMemoryZone "[]" mem1]
    by (simp del: construct_allocators.simps) blast
  have "uadd w virtual_base ?meta = Some (virtual_base + ?meta)" using vm by (intro uadd_ok) linarith
  then have "init_allocators w max_physical virtual_base mem cfg = Some (cfg', [a0, a1])"
    using a0(4) a1(2) g by (simp only: init_allocators_def zi ac al bind.simps prod.case) simp
  moreover have "{?meta ..< ?meta + ?n} \<subseteq> addrs ?r" using i(2) by (auto simp: addrs_def)
  moreover have "rs_addrs cfg' = rs_addrs cfg - {?meta ..< ?meta + ?n}" using c(4) by (simp add: addrs_def)
  moreover have "filter (\<lambda>r. r_tag r = LinearMemoryZone) (live cfg') = ?ls" "filter (\<lambda>r. r_tag r = HighMemoryZone) (live cfg') = hs"
  proof -
    have t: "\<forall>r\<in>set ?ls. r_tag r = LinearMemoryZone" using assms(5) r(1) set_update_subset_insert [of ls i] by fastforce
    have "filter (\<lambda>r. r_tag r = LinearMemoryZone) hs = []" "filter (\<lambda>r. r_tag r = HighMemoryZone) ?ls = []"
      using t assms(6) by (fastforce simp: filter_empty_conv)+
    moreover have "filter (\<lambda>r. r_tag r = LinearMemoryZone) ?ls = ?ls" "filter (\<lambda>r. r_tag r = HighMemoryZone) hs = hs" using t assms(6) by (simp_all only: filter_id_conv)
    ultimately show "filter (\<lambda>r. r_tag r = LinearMemoryZone) (live cfg') = ?ls" "filter (\<lambda>r. r_tag r = HighMemoryZone) (live cfg') = hs"
      unfolding c(2) filter_append by simp_all
  qed
  ultimately show ?thesis using a0(1) a1(1) c(3) r(1) by auto
qed

lemma meta_need_le: "meta_need w sz \<le> 88 * (sz div page_size + 1) + page_size"
proof -
  have "level_offset w sz BLOCK_LEVELS * 2 ^ WORD_SHIFT w \<le> (11 * (sz div page_size + 1)) * 8"
    using level_offset_le [of w sz BLOCK_LEVELS] by (intro mult_le_mono) (cases w; simp add: BLOCK_LEVELS_def)+
  moreover have "meta_need w sz \<le> level_offset w sz BLOCK_LEVELS * 2 ^ WORD_SHIFT w + (page_size - 1)"
    unfolding meta_need_def by (rule div_times_less_eq_dividend)
  ultimately show ?thesis by linarith
qed

theorem init_allocators_correct_witness:
  "\<exists>cfg' a_linear a_high. init_allocators W32 0xbfffffff 0xc0000000 clear_memory
      \<lparr>rs_ranges = [\<lparr>r_tag = LinearMemoryZone, r_base = 0x1000000, r_size = 0x1000000\<rparr>, \<lparr>r_tag = HighMemoryZone, r_base = 0x38000000, r_size = 0x100000\<rparr>,
        \<lparr>r_tag = InvalidZone, r_base = 0, r_size = 0\<rparr>], rs_count = 2\<rparr> = Some (cfg', [a_linear, a_high])
    \<and> serves W32 (filter (\<lambda>r. r_tag r = HighMemoryZone) (live cfg')) a_high"
proof -
  let ?l = "\<lparr>r_tag = LinearMemoryZone, r_base = 0x1000000, r_size = 0x1000000\<rparr>"
  let ?h = "\<lparr>r_tag = HighMemoryZone, r_base = 0x38000000, r_size = 0x100000\<rparr>"
  let ?c = "\<lparr>rs_ranges = [?l, ?h, \<lparr>r_tag = InvalidZone, r_base = 0, r_size = 0\<rparr>], rs_count = 2\<rparr>"
  have c: "rs_ok W32 ?c" "0 < rs_room ?c" "live ?c = [?l] @ [?h]" "ranges_ok W32 0xbfffffff ([?l] @ [?h])"
    by (simp_all add: rs_ok_def rs_valid_def rs_inv_def rs_disjoint_def live_def range_ok_def ends_before_def rs_room_def ranges_ok_def page_size_def)
  have "zone_total W32 [?l] [?h] < r_size ?l"
    using meta_need_le [of W32 "span [?l]"] meta_need_le [of W32 "span [?h]"] by (simp add: zone_total_def span_def page_size_def)
  then show ?thesis
    using init_allocators_correct [OF c(1,2) _ c(3) _ _ c(4), of "0xc0000000" clear_memory] by auto
qed

end
