(* ===== verification/Boot.thy ===== *)
theory Boot
  imports Page_Props Task_Runs Zone_Runs Core_Scans
begin

text \<open>
  Platform start-up: \<open>src/arch/aarch64/mod.rs\<close>, \<open>src/arch/arm/mod.rs\<close>, \<open>src/arch/common/device_tree.rs\<close> and \<open>pk_init\<close> of
  \<open>src/main.rs\<close>. The statics of a module are a record that the operations return updated. Memory has two views: words at
  virtual addresses (\<open>memory\<close>, which holds the tables, the kernel configuration and the stack list) and the bytes of the device tree blob,
  which nothing writes. The identifier of the booting core and the feature \<open>serial_debug_output\<close> are arguments; what is
  printed is not modelled.
\<close>

section \<open>Data\<close>

record device_tree =
  dt_cores :: core_config
  dt_memory :: memory_config

definition device_tree_new :: "width \<Rightarrow> device_tree" where
  "device_tree_new w = \<lparr>dt_cores = core_config_new w, dt_memory = memory_config_new\<rparr>"

record kernel_config =
  kc_virtual_base :: usize
  kc_page_size :: usize
  kc_blob :: usize
  kc_kernel_base :: usize
  kc_kernel_size :: usize
  kc_kernel_pages_start :: usize
  kc_kernel_pages_size :: usize
  kc_kernel_stack_list :: usize
  kc_kernel_stack_pages :: usize

record arm_kernel_config = kernel_config +
  kc_vm_split :: usize

text \<open>The structs are \<open>repr(C)\<close>: consecutive words at the address that the start code passes.\<close>

definition a64_read_config :: "memory \<Rightarrow> usize \<Rightarrow> kernel_config" where
  "a64_read_config mem a =
     \<lparr>kc_virtual_base = mem a, kc_page_size = mem (a + 8), kc_blob = mem (a + 16), kc_kernel_base = mem (a + 24),
      kc_kernel_size = mem (a + 32), kc_kernel_pages_start = mem (a + 40), kc_kernel_pages_size = mem (a + 48),
      kc_kernel_stack_list = mem (a + 56), kc_kernel_stack_pages = mem (a + 64)\<rparr>"

definition arm_read_config :: "memory \<Rightarrow> usize \<Rightarrow> arm_kernel_config" where
  "arm_read_config mem a =
     \<lparr>kc_virtual_base = mem a, kc_page_size = mem (a + 4), kc_blob = mem (a + 8), kc_kernel_base = mem (a + 12),
      kc_kernel_size = mem (a + 16), kc_kernel_pages_start = mem (a + 20), kc_kernel_pages_size = mem (a + 24),
      kc_kernel_stack_list = mem (a + 32), kc_kernel_stack_pages = mem (a + 36), kc_vm_split = mem (a + 28)\<rparr>"

record 'c arch_statics =
  as_initialized :: bool
  as_kernel_config :: 'c
  as_device_tree :: device_tree
  as_isr_stack_area_virtual_base :: usize
  as_isr_stack_area_size :: usize
  as_serial_base :: "usize option"

record arm_statics = "arm_kernel_config arch_statics" +
  as_thread_local_area_virtual_base :: usize
  as_thread_local_area_size :: usize

type_synonym a64_statics = "kernel_config arch_statics"

definition A64_PAGE_DATABASE_SIZE :: usize where "A64_PAGE_DATABASE_SIZE = 0x20000000000"
definition A64_PAGE_DATABASE_VIRTUAL_BASE :: usize where "A64_PAGE_DATABASE_VIRTUAL_BASE = 0xfffffe0000000000"
definition ARM_PAGE_DATABASE_SIZE :: usize where "ARM_PAGE_DATABASE_SIZE = 24 * 1024 * 1024"
definition ARM_PAGE_DATABASE_VIRTUAL_BASE :: usize where
  "ARM_PAGE_DATABASE_VIRTUAL_BASE = RECURSIVE_MAP_AREA - ARM_PAGE_DATABASE_SIZE"
definition DRIVER_VIRTUAL_BASE :: usize where "DRIVER_VIRTUAL_BASE = 0xf8000000"

definition a64_statics_initial :: a64_statics where
  "a64_statics_initial =
     \<lparr>as_initialized = False, as_kernel_config = \<lparr>kc_virtual_base = 0, kc_page_size = 0, kc_blob = 0, kc_kernel_base = 0,
        kc_kernel_size = 0, kc_kernel_pages_start = 0, kc_kernel_pages_size = 0, kc_kernel_stack_list = 0, kc_kernel_stack_pages = 0\<rparr>,
      as_device_tree = device_tree_new W64, as_isr_stack_area_virtual_base = 0, as_isr_stack_area_size = 0, as_serial_base = None\<rparr>"

definition arm_statics_initial :: arm_statics where
  "arm_statics_initial =
     \<lparr>as_initialized = False, as_kernel_config = \<lparr>kc_virtual_base = 0, kc_page_size = 0, kc_blob = 0, kc_kernel_base = 0,
        kc_kernel_size = 0, kc_kernel_pages_start = 0, kc_kernel_pages_size = 0, kc_kernel_stack_list = 0, kc_kernel_stack_pages = 0, kc_vm_split = 0\<rparr>,
      as_device_tree = device_tree_new W32, as_isr_stack_area_virtual_base = 0, as_isr_stack_area_size = 0, as_serial_base = None,
      as_thread_local_area_virtual_base = 0, as_thread_local_area_size = 0\<rparr>"

definition get_maximum_physical_address :: "width \<Rightarrow> 'a kernel_config_scheme \<Rightarrow> usize" where
  "get_maximum_physical_address w kconfig = unot w (kc_kernel_base kconfig)"

text \<open>A function that may panic or not return: the outer \<open>None\<close> of a run with fuel.\<close>

definition fuel_then :: "'a option option \<Rightarrow> ('a \<Rightarrow> stop + 'b) \<Rightarrow> stop + 'b" where
  "fuel_then x f = (case x of None \<Rightarrow> Inl Out_Of_Fuel | Some y \<Rightarrow> unwrap_then y f)"

lemma fuel_then_simps [simp]: "fuel_then None f = Inl Out_Of_Fuel" "fuel_then (Some y) f = unwrap_then y f"
  by (simp_all add: fuel_then_def)

section \<open>The serial driver\<close>

definition PHYSICAL_BASE_ADDRESS :: usize where "PHYSICAL_BASE_ADDRESS = 0x3f215000"
definition PHYSICAL_SIZE :: usize where "PHYSICAL_SIZE = 0x1000"

definition get_physical_range :: "usize \<times> usize" where
  "get_physical_range = (PHYSICAL_BASE_ADDRESS, PHYSICAL_SIZE)"

definition debug_init :: "usize option \<Rightarrow> usize \<Rightarrow> usize option option" where
  "debug_init serial virt_base = do { assert_that (serial = None); Some (Some virt_base) }"

definition a64_init_serial_debug_output ::
    "'s page_alloc \<Rightarrow> nat \<Rightarrow> usize option \<Rightarrow> usize \<Rightarrow> usize \<Rightarrow> 's \<times> memory \<Rightarrow> stop + usize option \<times> ('s \<times> memory)" where
  "a64_init_serial_debug_output al n serial virt_base pages_start st =
     (let (base, sz) = get_physical_range
      in unwrap_then (uadd W64 virt_base base) (\<lambda>virt.
         run_then (map_memory al n virt_base pages_start virt base sz True Granular st) (\<lambda>st.
         unwrap_then (debug_init serial virt) (\<lambda>serial. Inr (serial, st)))))"

definition arm_init_serial_debug_output ::
    "'s page_alloc \<Rightarrow> nat \<Rightarrow> usize \<Rightarrow> usize option \<Rightarrow> usize \<Rightarrow> usize \<Rightarrow> 's \<times> memory \<Rightarrow> stop + usize option \<times> ('s \<times> memory)" where
  "arm_init_serial_debug_output al n split serial virt_base pages_start st =
     (let (base, sz) = get_physical_range
      in run_then (map_memory_long al n split virt_base pages_start DRIVER_VIRTUAL_BASE base sz True Granular st) (\<lambda>st.
         unwrap_then (debug_init serial DRIVER_VIRTUAL_BASE) (\<lambda>serial. Inr (serial, st))))"

section \<open>Cores and memory\<close>

definition init_core_config :: "width \<Rightarrow> (usize \<Rightarrow> byte) \<Rightarrow> usize \<Rightarrow> device_tree \<Rightarrow> usize \<Rightarrow> device_tree option" where
  "init_core_config w bytes cpu_id dt blob_vaddr = do {
     (core_config, ok) \<leftarrow> get_core_config w bytes cpu_id (dt_cores dt) blob_vaddr;
     assert_that ok;
     _ \<leftarrow> get_cores core_config;
     Some (dt\<lparr>dt_cores := core_config\<rparr>) }"

text \<open>The section-aligned area of the blob: its base and size.\<close>

definition blob_area :: "width \<Rightarrow> 'a kernel_config_scheme \<Rightarrow> usize \<Rightarrow> (usize \<times> usize) option" where
  "blob_area w kconfig blob_size = do {
     blob_start \<leftarrow> align_down w (kc_blob kconfig) section_size;
     blob_end \<leftarrow> uadd w (kc_blob kconfig) blob_size;
     blob_end \<leftarrow> align_up w blob_end section_size;
     blob_size \<leftarrow> usub blob_end blob_start;
     Some (blob_start, blob_size) }"

definition excl_range :: "usize \<Rightarrow> usize \<Rightarrow> memory_range" where
  "excl_range base sz = \<lparr>r_tag = InvalidZone, r_base = base, r_size = sz\<rparr>"

text \<open>The exclusions that both architectures make: the kernel area, the memory up to the end of the kernel and the blob.\<close>

definition kernel_exclusions :: "width \<Rightarrow> 'a kernel_config_scheme \<Rightarrow> usize \<times> usize \<Rightarrow> memory_range list option" where
  "kernel_exclusions w kconfig blob = do {
     d \<leftarrow> usub (usize_max w) (kc_virtual_base kconfig);
     kernel_area \<leftarrow> uadd w d 1;
     kernel_end \<leftarrow> uadd w (kc_kernel_base kconfig) (kc_kernel_size kconfig);
     kernel_end \<leftarrow> align_up w kernel_end section_size;
     Some [excl_range (kc_virtual_base kconfig) kernel_area, excl_range 0 kernel_end, excl_range (fst blob) (snd blob)] }"

definition a64_init_memory_config :: "nat \<Rightarrow> (usize \<Rightarrow> byte) \<Rightarrow> a64_statics \<Rightarrow> usize \<Rightarrow> usize \<Rightarrow> stop + a64_statics" where
  "a64_init_memory_config fuel bytes s blob_vaddr blob_size =
     (let kconfig = as_kernel_config s; core_count = get_core_count (dt_cores (as_device_tree s))
      in unwrap_then (blob_area W64 kconfig blob_size) (\<lambda>blob.
         unwrap_then (do {
             pages \<leftarrow> uadd W64 (kc_kernel_stack_pages kconfig) 1;
             step \<leftarrow> ushl W64 pages page_shift;
             sz \<leftarrow> umul W64 step core_count;
             base \<leftarrow> usub A64_PAGE_DATABASE_VIRTUAL_BASE sz;
             Some (base, sz) }) (\<lambda>(isr_base, isr_size).
         fuel_then (get_memory_layout fuel W64 a64_handle_range bytes (dt_memory (as_device_tree s)) blob_vaddr) (\<lambda>(mem_config, ok).
         unwrap_then (do {
             assert_that ok;
             excl \<leftarrow> kernel_exclusions W64 kconfig blob;
             exclude_each (exclude_range W64) mem_config excl }) (\<lambda>mem_config.
         Inr (s\<lparr>as_isr_stack_area_size := isr_size, as_isr_stack_area_virtual_base := isr_base,
                as_device_tree := (as_device_tree s)\<lparr>dt_memory := mem_config\<rparr>\<rparr>))))))"

definition arm_init_memory_config :: "nat \<Rightarrow> (usize \<Rightarrow> byte) \<Rightarrow> arm_statics \<Rightarrow> usize \<Rightarrow> usize \<Rightarrow> stop + arm_statics" where
  "arm_init_memory_config fuel bytes s blob_vaddr blob_size =
     (let kconfig = as_kernel_config s; core_count = get_core_count (dt_cores (as_device_tree s))
      in unwrap_then (blob_area W32 kconfig blob_size) (\<lambda>blob.
         unwrap_then (do {
             pages \<leftarrow> uadd W32 (kc_kernel_stack_pages kconfig) 1;
             step \<leftarrow> ushl W32 pages page_shift;
             step4 \<leftarrow> umul W32 step 4;
             sz \<leftarrow> umul W32 step4 core_count;
             base \<leftarrow> usub ARM_PAGE_DATABASE_VIRTUAL_BASE sz;
             tl_size \<leftarrow> umul W32 section_size core_count;
             tl \<leftarrow> usub base tl_size;
             tl_base \<leftarrow> align_down W32 tl section_size;
             high_mem_base \<leftarrow> get_high_mem_base (kc_virtual_base kconfig);
             Some (base, sz, tl_base, tl_size, high_mem_base) }) (\<lambda>(isr_base, isr_size, tl_base, tl_size, high_mem_base).
         fuel_then (get_memory_layout fuel W32 (arm_handle_range high_mem_base) bytes (dt_memory (as_device_tree s)) blob_vaddr) (\<lambda>(mem_config, ok).
         unwrap_then (do {
             assert_that ok;
             db \<leftarrow> usub ARM_PAGE_DATABASE_VIRTUAL_BASE (kc_virtual_base kconfig);
             excl \<leftarrow> kernel_exclusions W32 kconfig blob;
             exclude_each (exclude_range W32) mem_config (excl_range db ARM_PAGE_DATABASE_SIZE # excl) }) (\<lambda>mem_config.
         Inr (s\<lparr>as_isr_stack_area_size := isr_size, as_isr_stack_area_virtual_base := isr_base,
                as_thread_local_area_size := tl_size, as_thread_local_area_virtual_base := tl_base,
                as_device_tree := (as_device_tree s)\<lparr>dt_memory := mem_config\<rparr>\<rparr>))))))"

section \<open>The direct map\<close>

fun a64_map_ranges :: "'s page_alloc \<Rightarrow> nat \<Rightarrow> kernel_config \<Rightarrow> memory_range list \<Rightarrow> 's \<times> memory \<Rightarrow> stop + 's \<times> memory" where
  "a64_map_ranges al n kconfig [] st = Inr st"
| "a64_map_ranges al n kconfig (r # ranges) st =
     run_then (direct_map_memory al n (kc_virtual_base kconfig) (kc_kernel_pages_start kconfig) (r_base r) (r_size r) False Compact st)
       (\<lambda>st. a64_map_ranges al n kconfig ranges st)"

definition a64_init_direct_map :: "'s page_alloc \<Rightarrow> nat \<Rightarrow> a64_statics \<Rightarrow> 's \<times> memory \<Rightarrow> stop + 's \<times> memory" where
  "a64_init_direct_map al n s st =
     unwrap_then (get_ranges (dt_memory (as_device_tree s))) (\<lambda>ranges. a64_map_ranges al n (as_kernel_config s) ranges st)"

fun arm_map_ranges :: "'s page_alloc \<Rightarrow> nat \<Rightarrow> arm_kernel_config \<Rightarrow> memory_range \<Rightarrow> memory_range list \<Rightarrow> 's \<times> memory \<Rightarrow> stop + 's \<times> memory" where
  "arm_map_ranges al n kconfig excl [] st = Inr st"
| "arm_map_ranges al n kconfig excl (r # ranges) st =
     unwrap_then (range_exclude W32 r excl) (\<lambda>parts.
       case parts of
         Inl _ \<Rightarrow> Inl Panic
       | Inr (left, _) \<Rightarrow>
           run_then
             (case left of
                None \<Rightarrow> Inr st
              | Some l \<Rightarrow> direct_map_memory_long al n (kc_vm_split kconfig) (kc_virtual_base kconfig) (kc_kernel_pages_start kconfig)
                            (r_base l) (r_size l) False Compact st)
             (\<lambda>st. arm_map_ranges al n kconfig excl ranges st))"

definition arm_init_direct_map :: "'s page_alloc \<Rightarrow> nat \<Rightarrow> arm_statics \<Rightarrow> 's \<times> memory \<Rightarrow> stop + 's \<times> memory" where
  "arm_init_direct_map al n s st =
     unwrap_then (do {
         high_mem_base \<leftarrow> get_high_mem_base (kc_virtual_base (as_kernel_config s));
         d \<leftarrow> usub (usize_max W32) high_mem_base;
         sz \<leftarrow> uadd W32 d 1;
         ranges \<leftarrow> get_ranges (dt_memory (as_device_tree s));
         Some (excl_range high_mem_base sz, ranges) })
       (\<lambda>(excl, ranges). arm_map_ranges al n (as_kernel_config s) excl ranges st)"

section \<open>Interrupt stacks\<close>

text \<open>The stack list is a slice of \<open>page_size\<close> words: a store beyond it panics.\<close>

definition list_store :: "width \<Rightarrow> usize \<Rightarrow> usize \<Rightarrow> memory \<Rightarrow> usize \<Rightarrow> usize \<Rightarrow> memory option" where
  "list_store w table len mem i v = (if i < len then Some (mem(table + push_bit (WORD_SHIFT w) i := v)) else None)"

text \<open>The virtual address of the stack of core \<open>index\<close>: one page above the end of the one below it.\<close>

definition a64_stack_vbase :: "usize \<Rightarrow> usize \<Rightarrow> usize \<Rightarrow> usize option" where
  "a64_stack_vbase stack_area_base step_size index = do {
     i \<leftarrow> usub index 1;
     off \<leftarrow> umul W64 step_size i;
     base \<leftarrow> uadd W64 stack_area_base off;
     uadd W64 base (push_bit page_shift 1) }"

text \<open>The loop of \<open>init_isr_stacks\<close>; the pointer into the stack list that each round computes is not used.\<close>

fun a64_isr_loop ::
    "'s page_alloc \<Rightarrow> nat \<Rightarrow> kernel_config \<Rightarrow> usize \<Rightarrow> usize \<Rightarrow> usize \<Rightarrow> usize \<Rightarrow> usize \<Rightarrow> usize \<Rightarrow> core list \<Rightarrow> 's \<times> memory \<Rightarrow> stop + 's \<times> memory" where
  "a64_isr_loop al n kconfig table stack_area_base stack_size step_size index entry_index [] st = Inr st"
| "a64_isr_loop al n kconfig table stack_area_base stack_size step_size index entry_index (core # cores) st =
     unwrap_then (al (fst st) (kc_kernel_stack_pages kconfig)) (\<lambda>(a, r).
     unwrap_then r (\<lambda>(stack_base, _).
     unwrap_then (do {
         i \<leftarrow> umul W64 index 2;
         entry_offset \<leftarrow> ushl W64 i (WORD_SHIFT W64);
         p \<leftarrow> uadd W64 table entry_offset;
         stack_vbase \<leftarrow> a64_stack_vbase stack_area_base step_size index;
         mem \<leftarrow> list_store W64 table (kc_page_size kconfig) (snd st) entry_index (core_id core);
         stack_end \<leftarrow> uadd W64 stack_vbase stack_size;
         mem \<leftarrow> list_store W64 table (kc_page_size kconfig) mem (entry_index + 1) stack_end;
         Some (stack_vbase, mem) }) (\<lambda>(stack_vbase, mem).
     run_then (map_memory al n (kc_virtual_base kconfig) (kc_kernel_pages_start kconfig) stack_vbase stack_base stack_size False Granular (a, mem))
       (\<lambda>st. a64_isr_loop al n kconfig table stack_area_base stack_size step_size (index + 1) (entry_index + 2) cores st))))"

definition a64_init_isr_stacks :: "'s page_alloc \<Rightarrow> nat \<Rightarrow> a64_statics \<Rightarrow> 's \<times> memory \<Rightarrow> stop + 's \<times> memory" where
  "a64_init_isr_stacks al n s st =
     (let kconfig = as_kernel_config s
      in unwrap_then (do {
             stack_size \<leftarrow> ushl W64 (kc_kernel_stack_pages kconfig) page_shift;
             pages \<leftarrow> uadd W64 (kc_kernel_stack_pages kconfig) 1;
             step_size \<leftarrow> ushl W64 pages page_shift;
             table \<leftarrow> uadd W64 (kc_virtual_base kconfig) (kc_kernel_stack_list kconfig);
             cores \<leftarrow> get_cores (dt_cores (as_device_tree s));
             Some (stack_size, step_size, table, cores) }) (\<lambda>(stack_size, step_size, table, cores).
         a64_isr_loop al n kconfig table (as_isr_stack_area_virtual_base s) stack_size step_size 1 2 (drop 1 cores) st))"

definition a64_init_smp :: "'s page_alloc \<Rightarrow> nat \<Rightarrow> a64_statics \<Rightarrow> 's \<times> memory \<Rightarrow> stop + 's \<times> memory" where
  "a64_init_smp al n s st =
     (if get_core_count (dt_cores (as_device_tree s)) < 2 then Inr st else a64_init_isr_stacks al n s st)"

definition arm_stack_vbase :: "usize \<Rightarrow> usize \<Rightarrow> usize \<Rightarrow> usize option" where
  "arm_stack_vbase stack_area_base step_size index = do {
     step4 \<leftarrow> umul W32 step_size 4;
     i \<leftarrow> usub index 1;
     off \<leftarrow> umul W32 step4 i;
     base \<leftarrow> uadd W32 stack_area_base off;
     uadd W32 base (push_bit page_shift 1) }"

text \<open>The inner loop, over the stacks of one core, and the outer loop.\<close>

fun arm_stack_loop ::
    "'s page_alloc \<Rightarrow> nat \<Rightarrow> arm_kernel_config \<Rightarrow> usize \<Rightarrow> usize \<Rightarrow> usize \<Rightarrow> usize \<Rightarrow> usize \<Rightarrow> nat list \<Rightarrow> 's \<times> memory \<Rightarrow> stop + 's \<times> memory" where
  "arm_stack_loop al n kconfig table stack_size step_size entry_index stack_vbase [] st = Inr st"
| "arm_stack_loop al n kconfig table stack_size step_size entry_index stack_vbase (i # is) st =
     unwrap_then (al (fst st) (kc_kernel_stack_pages kconfig)) (\<lambda>(a, r).
     unwrap_then r (\<lambda>(stack_base, _).
     unwrap_then (do {
         stack_end \<leftarrow> uadd W32 stack_vbase stack_size;
         list_store W32 table (kc_page_size kconfig) (snd st) (entry_index + i) stack_end }) (\<lambda>mem.
     run_then (map_memory_long al n (kc_vm_split kconfig) (kc_virtual_base kconfig) (kc_kernel_pages_start kconfig)
                 stack_vbase stack_base stack_size False Granular (a, mem)) (\<lambda>st.
     unwrap_then (uadd W32 stack_vbase step_size) (\<lambda>stack_vbase.
       arm_stack_loop al n kconfig table stack_size step_size entry_index stack_vbase is st)))))"

fun arm_isr_loop ::
    "'s page_alloc \<Rightarrow> nat \<Rightarrow> arm_kernel_config \<Rightarrow> usize \<Rightarrow> usize \<Rightarrow> usize \<Rightarrow> usize \<Rightarrow> usize \<Rightarrow> usize \<Rightarrow> core list \<Rightarrow> 's \<times> memory \<Rightarrow> stop + 's \<times> memory" where
  "arm_isr_loop al n kconfig table stack_area_base stack_size step_size index entry_index [] st = Inr st"
| "arm_isr_loop al n kconfig table stack_area_base stack_size step_size index entry_index (core # cores) st =
     unwrap_then (do {
         mem \<leftarrow> list_store W32 table (kc_page_size kconfig) (snd st) entry_index (core_id core);
         stack_vbase \<leftarrow> arm_stack_vbase stack_area_base step_size index;
         Some (mem, stack_vbase) }) (\<lambda>(mem, stack_vbase).
     run_then (arm_stack_loop al n kconfig table stack_size step_size entry_index stack_vbase [1..<6] (fst st, mem))
       (\<lambda>st. arm_isr_loop al n kconfig table stack_area_base stack_size step_size (index + 1) (entry_index + 6) cores st))"

definition arm_init_isr_stacks :: "'s page_alloc \<Rightarrow> nat \<Rightarrow> arm_statics \<Rightarrow> 's \<times> memory \<Rightarrow> stop + 's \<times> memory" where
  "arm_init_isr_stacks al n s st =
     (let kconfig = as_kernel_config s
      in unwrap_then (do {
             stack_size \<leftarrow> ushl W32 (kc_kernel_stack_pages kconfig) page_shift;
             pages \<leftarrow> uadd W32 (kc_kernel_stack_pages kconfig) 1;
             step_size \<leftarrow> ushl W32 pages page_shift;
             table \<leftarrow> uadd W32 (kc_virtual_base kconfig) (kc_kernel_stack_list kconfig);
             cores \<leftarrow> get_cores (dt_cores (as_device_tree s));
             Some (stack_size, step_size, table, cores) }) (\<lambda>(stack_size, step_size, table, cores).
         arm_isr_loop al n kconfig table (as_isr_stack_area_virtual_base s) stack_size step_size 1 5 (drop 1 cores) st))"

definition arm_init_smp :: "'s page_alloc \<Rightarrow> nat \<Rightarrow> arm_statics \<Rightarrow> 's \<times> memory \<Rightarrow> stop + 's \<times> memory" where
  "arm_init_smp al n s st =
     (if get_core_count (dt_cores (as_device_tree s)) < 2 then Inr st else arm_init_isr_stacks al n s st)"

section \<open>Initialization\<close>

text \<open>The blob at its virtual address, and its size, which must not be 0.\<close>

definition find_blob :: "width \<Rightarrow> (usize \<Rightarrow> byte) \<Rightarrow> 'a kernel_config_scheme \<Rightarrow> (usize \<times> usize) option" where
  "find_blob w bytes kconfig = do {
     blob_vaddr \<leftarrow> uadd w (kc_virtual_base kconfig) (kc_blob kconfig);
     let blob_size = (case check_dtb bytes blob_vaddr of Inl _ \<Rightarrow> 0 | Inr n \<Rightarrow> n);
     assert_that (blob_size \<noteq> 0);
     Some (blob_vaddr, blob_size) }"

text \<open>The allocator of the pages after the first \<open>offset\<close> bytes of the kernel's page area.\<close>

definition boot_allocator :: "width \<Rightarrow> 'a kernel_config_scheme \<Rightarrow> usize \<Rightarrow> buffered option" where
  "boot_allocator w kconfig offset = do {
     start_addr \<leftarrow> uadd w (kc_kernel_pages_start kconfig) offset;
     end_addr \<leftarrow> uadd w (kc_kernel_pages_start kconfig) (kc_kernel_pages_size kconfig);
     buffered_new w 1 start_addr end_addr page_size }"

definition a64_init ::
    "nat \<Rightarrow> bool \<Rightarrow> (usize \<Rightarrow> byte) \<Rightarrow> usize \<Rightarrow> a64_statics \<times> memory \<Rightarrow> usize \<Rightarrow> stop + a64_statics \<times> (buffered \<times> memory)" where
  "a64_init fuel serial_debug_output bytes cpu_id sm config_addr =
     (let (s, mem) = sm; kconfig = a64_read_config mem config_addr; al = buffered_alloc W64;
          s = s\<lparr>as_initialized := True, as_kernel_config := kconfig\<rparr>
      in if as_initialized (fst sm) \<or> config_addr = 0 then Inl Panic
         else
         unwrap_then (boot_allocator W64 kconfig (6 * page_size)) (\<lambda>allocator.
         run_then (if serial_debug_output
                   then a64_init_serial_debug_output al fuel (as_serial_base s) (kc_virtual_base kconfig) (kc_kernel_pages_start kconfig) (allocator, mem)
                   else Inr (as_serial_base s, (allocator, mem))) (\<lambda>(serial, st).
         if kc_page_size kconfig \<noteq> page_size \<or> \<not> is_power_of_2 (kc_kernel_stack_pages kconfig) then Inl Panic
         else
         unwrap_then (find_blob W64 bytes kconfig) (\<lambda>(blob_vaddr, blob_size).
         unwrap_then (init_core_config W64 bytes cpu_id (as_device_tree s) blob_vaddr) (\<lambda>dt.
         run_then (a64_init_memory_config fuel bytes (s\<lparr>as_serial_base := serial, as_device_tree := dt\<rparr>) blob_vaddr blob_size) (\<lambda>s.
         run_then (a64_init_direct_map al fuel s st) (\<lambda>st. Inr (s, st))))))))"

definition arm_init ::
    "nat \<Rightarrow> bool \<Rightarrow> (usize \<Rightarrow> byte) \<Rightarrow> usize \<Rightarrow> arm_statics \<times> memory \<Rightarrow> usize \<Rightarrow> stop + arm_statics \<times> (buffered \<times> memory)" where
  "arm_init fuel serial_debug_output bytes cpu_id sm config_addr =
     (let (s, mem) = sm; kconfig = arm_read_config mem config_addr; al = buffered_alloc W32;
          s = s\<lparr>as_initialized := True, as_kernel_config := kconfig\<rparr>
      in if as_initialized (fst sm) \<or> config_addr = 0 then Inl Panic
         else
         unwrap_then (do { offset \<leftarrow> umul W32 4 (kc_page_size kconfig); boot_allocator W32 kconfig offset }) (\<lambda>allocator.
         run_then (if serial_debug_output
                   then arm_init_serial_debug_output al fuel (kc_vm_split kconfig) (as_serial_base s) (kc_virtual_base kconfig) (kc_kernel_pages_start kconfig) (allocator, mem)
                   else Inr (as_serial_base s, (allocator, mem))) (\<lambda>(serial, st).
         if kc_page_size kconfig \<noteq> page_size \<or> \<not> is_power_of_2 (kc_kernel_stack_pages kconfig) then Inl Panic
         else
         unwrap_then (find_blob W32 bytes kconfig) (\<lambda>(blob_vaddr, blob_size).
         if \<not> (kc_vm_split kconfig = 3 \<and> kc_virtual_base kconfig = 0xc0000000 \<or> kc_vm_split kconfig = 2 \<and> kc_virtual_base kconfig = 0x80000000)
         then Inl Panic
         else
         unwrap_then (init_core_config W32 bytes cpu_id (as_device_tree s) blob_vaddr) (\<lambda>dt.
         run_then (arm_init_memory_config fuel bytes (s\<lparr>as_serial_base := serial, as_device_tree := dt\<rparr>) blob_vaddr blob_size) (\<lambda>s.
         run_then (arm_init_direct_map al fuel s st) (\<lambda>st. Inr (s, st))))))))"

text \<open>
  \<open>pk_init\<close>: the architecture, the tasks, the zone allocators and the secondary cores. The flags and statics of the modules are
  the fields of \<open>kernel\<close>; \<open>node_mem\<close> is the memory in which the buddy allocators keep their free lists.
\<close>

record ('s, 'c) kernel =
  k_arch :: 's
  k_task_initialized :: bool
  k_context_initialized :: bool
  k_bootstrap_task :: "'c task option"
  k_mm_initialized :: bool
  k_alloc_config :: memory_config
  k_allocators :: "buddy option list"

text \<open>The last two steps, over the memory configuration that the architecture has left and its \<open>init_smp\<close>.\<close>

definition init_zones ::
    "width \<Rightarrow> usize \<Rightarrow> usize \<Rightarrow> (usize \<Rightarrow> block_node) \<Rightarrow> memory_config \<Rightarrow> (buddy \<times> memory \<Rightarrow> stop + buddy \<times> memory) \<Rightarrow>
     ('s, 'c) kernel \<times> memory \<Rightarrow> stop + ('s, 'c) kernel \<times> memory" where
  "init_zones w max_physical virtual_base node_mem mem_config init_smp km =
     unwrap_then (mm_init w max_physical virtual_base node_mem mem_config (k_mm_initialized (fst km))) (\<lambda>(mi, alloc_config, allocators).
     unwrap_then (do { a \<leftarrow> get_zone_allocator allocators LinearMemoryZone; a }) (\<lambda>alloc.
     run_then (init_smp (alloc, snd km)) (\<lambda>(alloc, mem).
       Inr ((fst km)\<lparr>k_mm_initialized := mi, k_alloc_config := alloc_config,
                     k_allocators := allocators[LINEAR_MEMORY_ALLOCATOR := Some alloc]\<rparr>, mem))))"

definition a64_pk_init ::
    "nat \<Rightarrow> bool \<Rightarrow> (usize \<Rightarrow> byte) \<Rightarrow> usize \<Rightarrow> (usize \<Rightarrow> block_node) \<Rightarrow> (a64_statics, a64_context) kernel \<times> memory \<Rightarrow> usize \<Rightarrow>
     stop + (a64_statics, a64_context) kernel \<times> memory" where
  "a64_pk_init fuel serial_debug_output bytes cpu_id node_mem km config =
     run_then (a64_init fuel serial_debug_output bytes cpu_id (k_arch (fst km), snd km) config) (\<lambda>(s, _, mem).
     unwrap_then (task_init (k_task_initialized (fst km)) (a64_init_bootstrap_context (k_context_initialized (fst km)))) (\<lambda>(ti, task).
       init_zones W64 (get_maximum_physical_address W64 (as_kernel_config s)) (kc_virtual_base (as_kernel_config s)) node_mem
         (dt_memory (as_device_tree s)) (a64_init_smp (allocate W64) fuel s)
         ((fst km)\<lparr>k_arch := s, k_task_initialized := ti, k_context_initialized := True, k_bootstrap_task := Some task\<rparr>, mem)))"

definition platform_of :: "arm_statics \<Rightarrow> usize \<Rightarrow> arm_platform" where
  "platform_of s cpu_id =
     \<lparr>ap_virtual_base = kc_virtual_base (as_kernel_config s), ap_pages_start = kc_kernel_pages_start (as_kernel_config s),
      ap_vm_split = kc_vm_split (as_kernel_config s), ap_thread_local_base = as_thread_local_area_virtual_base s,
      ap_cores = dt_cores (as_device_tree s), ap_cpu_id = cpu_id\<rparr>"

definition arm_pk_init ::
    "nat \<Rightarrow> bool \<Rightarrow> (usize \<Rightarrow> byte) \<Rightarrow> usize \<Rightarrow> usize \<Rightarrow> (usize \<Rightarrow> block_node) \<Rightarrow> (arm_statics, arm_context) kernel \<times> memory \<Rightarrow> usize \<Rightarrow>
     stop + (arm_statics, arm_context) kernel \<times> memory" where
  "arm_pk_init fuel serial_debug_output bytes cpu_id table_vaddr node_mem km config =
     run_then (arm_init fuel serial_debug_output bytes cpu_id (k_arch (fst km), snd km) config) (\<lambda>(s, _, mem).
     unwrap_then (do {
         (ci, context, mem) \<leftarrow> arm_init_bootstrap_context (platform_of s cpu_id) (k_context_initialized (fst km)) table_vaddr mem;
         (ti, task) \<leftarrow> task_init (k_task_initialized (fst km)) (Some (ci, context));
         Some (ti, ci, task, mem) }) (\<lambda>(ti, ci, task, mem).
       init_zones W32 (get_maximum_physical_address W32 (as_kernel_config s)) (kc_virtual_base (as_kernel_config s)) node_mem
         (dt_memory (as_device_tree s)) (arm_init_smp (allocate W32) fuel s)
         ((fst km)\<lparr>k_arch := s, k_task_initialized := ti, k_context_initialized := ci, k_bootstrap_task := Some task\<rparr>, mem)))"

end
