(* ===== verification/Boot_Runs.thy ===== *)
theory Boot_Runs
  imports Boot
begin

text \<open>
  What start-up does: the memory that remains after the exclusions, the direct map of all of it, and where the interrupt stacks lie.
\<close>

section \<open>Available memory\<close>

definition section_up :: "nat \<Rightarrow> nat" where
  "section_up a = (a + mask 21) div 2 ^ 21 * 2 ^ 21"

definition section_down :: "nat \<Rightarrow> nat" where
  "section_down a = a div 2 ^ 21 * 2 ^ 21"

lemma section_bounds: "a \<le> section_up a" "section_up a < a + 2 ^ 21" "section_down a \<le> a" "a < section_down a + 2 ^ 21"
proof -
  have m: "mask 21 = (2 ^ 21 - 1 :: nat)" by (simp add: mask_eq_exp_minus_1)
  have "(a + mask 21) div 2 ^ 21 * 2 ^ 21 + (a + mask 21) mod 2 ^ 21 = a + mask 21" by (rule div_mult_mod_eq)
  moreover have "(a + mask 21) mod 2 ^ 21 < (2 ^ 21 :: nat)" by simp
  ultimately show "a \<le> section_up a" "section_up a < a + 2 ^ 21" unfolding section_up_def m by linarith+
  have "a div 2 ^ 21 * 2 ^ 21 + a mod 2 ^ 21 = a" by (rule div_mult_mod_eq)
  moreover have "a mod 2 ^ 21 < (2 ^ 21 :: nat)" by simp
  ultimately show "section_down a \<le> a" "a < section_down a + 2 ^ 21" unfolding section_down_def by linarith+
qed

lemma section_size_exp: "section_size = 2 ^ 21"
  by (simp add: section_size_def)

lemma section_align:
  assumes "a + 2 ^ 21 \<le> usize_lim w"
  shows "align_up w a section_size = Some (section_up a)" "align_down w a section_size = Some (section_down a)"
proof -
  have "a + mask 21 < usize_lim w" using assms by (simp add: mask_eq_exp_minus_1)
  moreover have k: "21 < word_bits w" by (cases w) simp_all
  ultimately show "align_up w a section_size = Some (section_up a)" unfolding section_size_exp section_up_def by (simp only: align_up_eq if_True)
  have "a < usize_lim w" using assms by (rule order_less_le_trans [rotated]) simp
  then show "align_down w a section_size = Some (section_down a)" unfolding section_size_exp section_down_def using k by (rule align_down_eq)
qed

text \<open>The kernel configuration: the kernel and the blob end below the last section, and both are not empty.\<close>

definition boot_layout_ok :: "width \<Rightarrow> 'a kernel_config_scheme \<Rightarrow> usize \<Rightarrow> bool" where
  "boot_layout_ok w k blob_size \<longleftrightarrow> 0 < kc_virtual_base k \<and> kc_virtual_base k < usize_lim w
     \<and> 0 < kc_kernel_base k + kc_kernel_size k \<and> kc_kernel_base k + kc_kernel_size k + 2 ^ 21 \<le> usize_lim w
     \<and> 0 < blob_size \<and> kc_blob k + blob_size + 2 ^ 21 \<le> usize_lim w"

definition boot_reserved :: "width \<Rightarrow> 'a kernel_config_scheme \<Rightarrow> usize \<Rightarrow> nat set" where
  "boot_reserved w k blob_size = {kc_virtual_base k ..< usize_lim w} \<union> {..< section_up (kc_kernel_base k + kc_kernel_size k)}
     \<union> {section_down (kc_blob k) ..< section_up (kc_blob k + blob_size)}"

lemma blob_area_eq:
  assumes "boot_layout_ok w k n"
  shows "blob_area w k n = Some (section_down (kc_blob k), section_up (kc_blob k + n) - section_down (kc_blob k))"
proof -
  have a: "kc_blob k + n + 2 ^ 21 \<le> usize_lim w" using assms by (simp add: boot_layout_ok_def)
  have "section_down (kc_blob k) \<le> section_up (kc_blob k + n)" using section_bounds(1) [of "kc_blob k + n"] section_bounds(3) [of "kc_blob k"] by linarith
  then show ?thesis using a section_align(1) [OF a] section_align(2) [of "kc_blob k" w] by (simp add: blob_area_def)
qed

definition boot_exclusions :: "width \<Rightarrow> 'a kernel_config_scheme \<Rightarrow> usize \<Rightarrow> memory_range list" where
  "boot_exclusions w k n = [excl_range (kc_virtual_base k) (usize_lim w - kc_virtual_base k), excl_range 0 (section_up (kc_kernel_base k + kc_kernel_size k)),
     excl_range (section_down (kc_blob k)) (section_up (kc_blob k + n) - section_down (kc_blob k))]"

lemma kernel_exclusions_eq:
  assumes "boot_layout_ok w k n"
  shows "kernel_exclusions w k (section_down (kc_blob k), section_up (kc_blob k + n) - section_down (kc_blob k)) = Some (boot_exclusions w k n)
    \<and> (\<forall>e\<in>set (boot_exclusions w k n). range_ok w e) \<and> length (boot_exclusions w k n) = 3 \<and> (\<Union>e\<in>set (boot_exclusions w k n). addrs e) = boot_reserved w k n"
proof -
  let ?v = "kc_virtual_base k" and ?e = "kc_kernel_base k + kc_kernel_size k" and ?b = "kc_blob k"
  have a: "0 < ?v" "?v < usize_lim w" "0 < ?e" "?e + 2 ^ 21 \<le> usize_lim w" "0 < n" "?b + n + 2 ^ 21 \<le> usize_lim w"
    using assms by (simp_all add: boot_layout_ok_def)
  let ?es = "boot_exclusions w k n"
  note es = boot_exclusions_def [of w k n]
  have "usize_max w - ?v + 1 = usize_lim w - ?v" "?v \<le> usize_max w" using a(2) by (simp_all add: usize_max_def)
  moreover have "usize_lim w - ?v < usize_lim w" using a(1,2) by simp
  ultimately have "kernel_exclusions w k (section_down ?b, section_up (?b + n) - section_down ?b) = Some ?es"
    using a section_align(1) [OF a(4)] by (simp add: kernel_exclusions_def es)
  moreover have u: "section_up ?e \<le> usize_lim w" "0 < section_up ?e" "section_up (?b + n) \<le> usize_lim w" "section_down ?b < section_up (?b + n)"
    using section_bounds(1,2) [of ?e] section_bounds(1,2) [of "?b + n"] section_bounds(3) [of ?b] a(3-6) by linarith+
  have "\<forall>e\<in>set ?es. range_ok w e" using u a(1,2) by (simp add: es range_ok_def excl_range_def)
  moreover have "(\<Union>e\<in>set ?es. addrs e) = boot_reserved w k n" using u a(2) by (auto simp: es addrs_def excl_range_def boot_reserved_def)
  moreover have "length ?es = 3" by (simp add: es)
  ultimately show ?thesis by blast
qed

text \<open>The loop of \<open>init_memory_config\<close> over a configuration with enough free slots.\<close>

lemma reserve_ok:
  assumes "config_ok w hb c" "rs_disjoint c" "\<forall>e\<in>set es. range_ok w e" "usize_max w \<notin> rs_addrs c" "MAX_MEM_RANGES \<le> rs_room c + n" "n + length es \<le> MAX_MEM_RANGES"
  shows "\<exists>c'. exclude_each (exclude_range w) c es = Some c' \<and> config_ok w hb c' \<and> rs_disjoint c' \<and> rs_addrs c' = rs_addrs c - (\<Union>e\<in>set es. addrs e)"
proof -
  have "length es \<le> rs_room c" using assms(5,6) by linarith
  with rc.exclude_each_ok [of w hb c es] assms(1-4) show ?thesis by auto
qed

text \<open>The ranges themselves: those of the device tree in the order of their bases, without each of the excluded ranges in turn.\<close>

definition linear_range :: "usize \<times> usize \<Rightarrow> memory_range" where
  "linear_range p = \<lparr>r_tag = LinearMemoryZone, r_base = fst p, r_size = snd p\<rparr>"

definition without_range :: "'tag range list \<Rightarrow> 'tag range \<Rightarrow> 'tag range list" where
  "without_range rs e = nonempty (concat (map (pieces e) rs))"

definition available_ranges :: "(usize \<times> usize) list \<Rightarrow> memory_range list \<Rightarrow> memory_range list" where
  "available_ranges ps es = foldl without_range (foldl (\<lambda>rs p. insert_live (linear_range p) rs) [] ps) es"

lemma handle_each_live:
  assumes "config_ok W64 hb c" "\<forall>p\<in>set ps. pair_ok W64 p" "length ps \<le> rs_room c" "handle_each a64_handle_range c ps = Some c'" "2 ^ 64 \<le> hb"
  shows "live c' = foldl (\<lambda>rs p. insert_live (linear_range p) rs) (live c) ps"
  using assms(1-4)
proof (induction ps arbitrary: c)
  case (Cons p ps)
  obtain base sz where p: "p = (base, sz)" by (cases p)
  let ?r = "linear_range p"
  have r: "range_ok W64 ?r" "r_base ?r < usize_lim W64" "r_size ?r < usize_lim W64" "zone_ok hb ?r"
    using Cons.prems(2) assms(5) by (auto simp: p linear_range_def pair_ok_def range_ok_def zone_ok_def)
  have inv: "rs_inv c" "rs_count c < length (rs_ranges c)" using Cons.prems(1,3) by (auto simp: config_ok_def rs_valid_def rs_room_def)
  obtain c1 where c1: "insert_range W64 c ?r = Some (c1, True)" "live c1 = insert_live ?r (live c)"
    using insert_range_eq(1) [OF inv(1) r(2,3)] inv(2) r(1) by blast
  have k: "config_ok W64 hb c1" "rs_room c \<le> rs_room c1 + 1"
    using insert_keeps [OF Cons.prems(1) r(1,3,4)] c1(1) Cons.prems(3) by auto
  have "handle_each a64_handle_range c1 ps = Some c'"
    using Cons.prems(4) c1(1) by (simp add: p a64_handle_range_def [of c base sz] linear_range_def)
  from Cons.IH [OF k(1) _ _ this] Cons.prems(2,3) k(2) c1(2) show ?case by simp
qed simp

lemma exclude_each_live:
  assumes "config_ok w hb c" "rs_disjoint c" "\<forall>e\<in>set es. range_ok w e" "usize_max w \<notin> rs_addrs c" "length es \<le> rs_room c" "exclude_each (exclude_range w) c es = Some c'"
  shows "live c' = foldl without_range (live c) es"
  using assms
proof (induction es arbitrary: c)
  case (Cons e es)
  have ok: "rs_ok w c" using Cons.prems(1,2) by (simp add: config_ok_def rs_ok_def)
  obtain c1 where c1: "exclude_range w c e = Some c1" "config_ok w hb c1" "rs_disjoint c1" "rs_addrs c1 = rs_addrs c - addrs e" "rs_room c \<le> Suc (rs_room c1)"
    using rc.exclude_law [of w hb c e] Cons.prems by auto
  have "live c1 = without_range (live c) e"
    using exclude_range_live [OF ok, of e] Cons.prems(3-5) c1(1) by (auto simp: without_range_def)
  with Cons.IH [OF c1(2,3)] Cons.prems(3-6) c1 show ?case by simp
qed simp

text \<open>
  Start-up on AArch64, from the bytes of the device tree to the available memory: for a device tree that gives at most 61 disjoint
  ranges and a kernel and blob within the address space, \<open>init_memory_config\<close> returns. The memory configuration is then valid and disjoint
  and contains exactly the addresses of the device tree's memory that are below the virtual base, not in a section of the blob and not
  before the end of the kernel's last section; the interrupt stack area ends at the page database.
\<close>

lemma a64_memory_available:
  assumes "blob_at bytes bv (dtb_bytes t strs)" "blob_ok t strs" "tree_ranges W64 (str_at strs) t \<noteq> []" "length (tree_ranges W64 (str_at strs) t) \<le> 61"
    "sorted_wrt (\<lambda>p q. pair_addrs p \<inter> pair_addrs q = {}) (tree_ranges W64 (str_at strs) t)"
    "usize_max W64 \<notin> (\<Union>p\<in>set (tree_ranges W64 (str_at strs) t). pair_addrs p)"
    "boot_layout_ok W64 (as_kernel_config s) n" "dt_memory (as_device_tree s) = memory_config_new"
    "(kc_kernel_stack_pages (as_kernel_config s) + 1) * 2 ^ 12 < 2 ^ 64"
    "(kc_kernel_stack_pages (as_kernel_config s) + 1) * 2 ^ 12 * get_core_count (dt_cores (as_device_tree s)) \<le> A64_PAGE_DATABASE_VIRTUAL_BASE"
  shows "\<exists>s' k. (\<forall>fuel>k. a64_init_memory_config fuel bytes s bv n = Inr s')
    \<and> as_kernel_config s' = as_kernel_config s \<and> as_initialized s' = as_initialized s \<and> dt_cores (as_device_tree s') = dt_cores (as_device_tree s)
    \<and> live (dt_memory (as_device_tree s')) = available_ranges (tree_ranges W64 (str_at strs) t) (boot_exclusions W64 (as_kernel_config s) n)
    \<and> config_ok W64 (2 ^ 64) (dt_memory (as_device_tree s')) \<and> rs_disjoint (dt_memory (as_device_tree s'))
    \<and> rs_addrs (dt_memory (as_device_tree s')) = (\<Union>p\<in>set (tree_ranges W64 (str_at strs) t). pair_addrs p) - boot_reserved W64 (as_kernel_config s) n
    \<and> as_isr_stack_area_size s' = (kc_kernel_stack_pages (as_kernel_config s) + 1) * 2 ^ 12 * get_core_count (dt_cores (as_device_tree s))
    \<and> as_isr_stack_area_virtual_base s' + as_isr_stack_area_size s' = A64_PAGE_DATABASE_VIRTUAL_BASE"
proof -
  let ?k = "as_kernel_config s" and ?ps = "tree_ranges W64 (str_at strs) t"
  let ?b = "(section_down (kc_blob ?k), section_up (kc_blob ?k + n) - section_down (kc_blob ?k))"
  let ?z = "(kc_kernel_stack_pages ?k + 1) * 2 ^ 12" and ?n = "get_core_count (dt_cores (as_device_tree s))"
  have "dtb_new W64 bytes bv = Some (Inr (blob_reader t strs))" using assms(2) by (intro dtb_new_blob [OF assms(1)]) (simp add: blob_ok_def)
  from rx.layout_ok [OF config_ok_new this blob_tree_ok [OF assms(2)] _ assms(5)] obtain c where
    c: "\<forall>fuel>rs_count c. get_memory_layout fuel W64 a64_handle_range bytes memory_config_new bv = Some (Some (c, ?ps \<noteq> []))"
      "config_ok W64 (2 ^ 64) c" "rs_disjoint c" "rs_addrs c = (\<Union>p\<in>set ?ps. pair_addrs p)" "MAX_MEM_RANGES \<le> rs_room c + length ?ps"
      "handle_each a64_handle_range memory_config_new ?ps = Some c"
    using assms(4) by (auto simp: MAX_MEM_RANGES_def)
  define es where "es = boot_exclusions W64 ?k n"
  have es: "kernel_exclusions W64 ?k ?b = Some es" "\<forall>e\<in>set es. range_ok W64 e" "length es = 3" "(\<Union>e\<in>set es. addrs e) = boot_reserved W64 ?k n"
    using kernel_exclusions_eq [OF assms(7)] by (auto simp: es_def)
  obtain c' where c': "exclude_each (exclude_range W64) c es = Some c'" "config_ok W64 (2 ^ 64) c'" "rs_disjoint c'" "rs_addrs c' = rs_addrs c - (\<Union>e\<in>set es. addrs e)"
    using reserve_ok [OF c(2,3) es(2) _ c(5)] assms(4,6) unfolding c(4) es(3) by (auto simp: MAX_MEM_RANGES_def)
  have n: "live memory_config_new = []" "rs_room memory_config_new = 64" by (simp_all add: live_def memory_config_new_def range_set_new_def rs_room_def MAX_MEM_RANGES_def)
  have "length es \<le> rs_room c" using c(5) assms(4) es(3) by (simp add: MAX_MEM_RANGES_def)
  moreover have "\<forall>p\<in>set ?ps. pair_ok W64 p" by (rule tree_ranges_ok)
  ultimately have lv: "live c' = available_ranges ?ps es"
    using handle_each_live [OF config_ok_new _ _ c(6), of "2 ^ 64"] exclude_each_live [OF c(2,3) es(2) _ _ c'(1)] assms(4,6) n
    unfolding c(4) by (simp add: available_ranges_def)
  have p: "uadd W64 (kc_kernel_stack_pages ?k) 1 = Some (kc_kernel_stack_pages ?k + 1)" using assms(9) by (intro uadd_ok) simp
  have h: "ushl W64 (kc_kernel_stack_pages ?k + 1) page_shift = Some ?z" unfolding page_shift_def using assms(9) by (intro ushl_ok) simp_all
  have m: "umul W64 ?z ?n = Some (?z * ?n)" using assms(10) by (intro umul_ok) (simp add: A64_PAGE_DATABASE_VIRTUAL_BASE_def)
  have u: "usub A64_PAGE_DATABASE_VIRTUAL_BASE (?z * ?n) = Some (A64_PAGE_DATABASE_VIRTUAL_BASE - ?z * ?n)" by (rule usub_ok [OF assms(10)])
  let ?s = "s\<lparr>as_isr_stack_area_size := ?z * ?n, as_isr_stack_area_virtual_base := A64_PAGE_DATABASE_VIRTUAL_BASE - ?z * ?n,
                as_device_tree := (as_device_tree s)\<lparr>dt_memory := c'\<rparr>\<rparr>"
  have "a64_init_memory_config fuel bytes s bv n = Inr ?s" if "rs_count c < fuel" for fuel
    using c(1) that assms(3) by (simp only: a64_init_memory_config_def Let_def blob_area_eq [OF assms(7)] unwrap_then_simps p h m u bind.simps prod.case assms(8) fuel_then_simps)
      (simp add: es(1) c'(1))
  then show ?thesis using c'(2-4) assms(10) lv unfolding c(4) es(4) es_def [symmetric] by (intro exI [of _ ?s] exI [of _ "rs_count c"]) simp
qed

text \<open>The example: the device tree of \<open>Scanner_Runs\<close>, a kernel that ends in the second section and a blob in the sixty-fifth.\<close>

definition example_config :: kernel_config where
  "example_config = \<lparr>kc_virtual_base = 0xffff000000000000, kc_page_size = 4096, kc_blob = 0x8080000, kc_kernel_base = 0x100000,
     kc_kernel_size = 0x200000, kc_kernel_pages_start = 0x80000, kc_kernel_pages_size = 0x10000, kc_kernel_stack_list = 0x60000, kc_kernel_stack_pages = 4\<rparr>"

abbreviation example_bytes :: "usize \<Rightarrow> byte" where
  "example_bytes a \<equiv> dtb_bytes example_tree example_strings ! (a - 0xffff000008080000)"

lemma example_blob: "blob_at example_bytes 0xffff000008080000 (dtb_bytes example_tree example_strings)"
  by (simp add: blob_at_def)

lemma example_disjoint:
  "sorted_wrt (\<lambda>p q. pair_addrs p \<inter> pair_addrs q = {}) (tree_ranges w (str_at example_strings) example_tree)"
  "(\<Union>p\<in>set (tree_ranges w (str_at example_strings) example_tree). pair_addrs p) = {0x400000 ..< 0x4400000} \<union> {0x8000000 ..< 0x8100000}"
  by (simp_all add: example_ranges pair_addrs_def)

lemma example_reserved:
  "boot_layout_ok W64 example_config 0x400" "boot_reserved W64 example_config 0x400 = {0xffff000000000000 ..< 2 ^ 64} \<union> {..< 0x400000} \<union> {0x8000000 ..< 0x8200000}"
proof -
  have m: "mask 21 = (0x1fffff :: nat)" by (simp add: mask_eq_exp_minus_1)
  show "boot_layout_ok W64 example_config 0x400" by (simp add: boot_layout_ok_def example_config_def)
  show "boot_reserved W64 example_config 0x400 = {0xffff000000000000 ..< 2 ^ 64} \<union> {..< 0x400000} \<union> {0x8000000 ..< 0x8200000}"
    by (simp add: boot_reserved_def example_config_def section_up_def section_down_def m)
qed

text \<open>
  \<^bold>\<open>C13\<close> Start-up on ARM, from the bytes of the device tree to the available memory, for at most 30 disjoint ranges: \<open>init_memory_config\<close> returns, and the configuration is valid, disjoint and
  exactly the device tree's memory outside the kernel, its virtual area, the blob's sections and the page database's physical area. The parts above the base of high
  memory are tagged as high memory, and the thread-local area, with a section for each core, ends at or below the interrupt stacks.
\<close>

theorem arm_memory_available:
  assumes "blob_at bytes bv (dtb_bytes t strs)" "blob_ok t strs" "tree_ranges W32 (str_at strs) t \<noteq> []" "length (tree_ranges W32 (str_at strs) t) \<le> 30"
    "sorted_wrt (\<lambda>p q. pair_addrs p \<inter> pair_addrs q = {}) (tree_ranges W32 (str_at strs) t)"
    "usize_max W32 \<notin> (\<Union>p\<in>set (tree_ranges W32 (str_at strs) t). pair_addrs p)"
    "boot_layout_ok W32 (as_kernel_config s) n" "dt_memory (as_device_tree s) = memory_config_new" "kc_virtual_base (as_kernel_config s) \<le> 0xf0000000"
    "step = (kc_kernel_stack_pages (as_kernel_config s) + 1) * 2 ^ 12" "c = get_core_count (dt_cores (as_device_tree s))"
    "step * 4 < 2 ^ 32" "step * 4 * c + 2 ^ 21 * c \<le> ARM_PAGE_DATABASE_VIRTUAL_BASE"
    "hb = 2 ^ 32 - kc_virtual_base (as_kernel_config s) - HIGH_MEM_SIZE" "db = ARM_PAGE_DATABASE_VIRTUAL_BASE - kc_virtual_base (as_kernel_config s)"
  shows "\<exists>s' k. (\<forall>fuel>k. arm_init_memory_config fuel bytes s bv n = Inr s')
    \<and> config_ok W32 hb (dt_memory (as_device_tree s')) \<and> rs_disjoint (dt_memory (as_device_tree s'))
    \<and> rs_addrs (dt_memory (as_device_tree s')) =
        (\<Union>p\<in>set (tree_ranges W32 (str_at strs) t). pair_addrs p) - ({db ..< db + ARM_PAGE_DATABASE_SIZE} \<union> boot_reserved W32 (as_kernel_config s) n)
    \<and> as_isr_stack_area_virtual_base s' + step * 4 * c = ARM_PAGE_DATABASE_VIRTUAL_BASE
    \<and> 2 ^ 21 dvd as_thread_local_area_virtual_base s' \<and> as_thread_local_area_virtual_base s' + 2 ^ 21 * c \<le> as_isr_stack_area_virtual_base s'"
proof -
  let ?k = "as_kernel_config s" and ?ps = "tree_ranges W32 (str_at strs) t" and ?d = ARM_PAGE_DATABASE_VIRTUAL_BASE
  let ?b = "(section_down (kc_blob ?k), section_up (kc_blob ?k + n) - section_down (kc_blob ?k))" and ?vb = "kc_virtual_base ?k"
  let ?x = "excl_range db ARM_PAGE_DATABASE_SIZE" and ?i = "?d - step * 4 * c" and ?l = "section_down (?d - step * 4 * c - 2 ^ 21 * c)"
  have "dtb_new W32 bytes bv = Some (Inr (blob_reader t strs))" using assms(2) by (intro dtb_new_blob [OF assms(1)]) (simp add: blob_ok_def)
  from ra.layout_ok [OF config_ok_new this blob_tree_ok [OF assms(2)] _ assms(5), of hb] obtain cfg where
    cfg: "\<forall>fuel>rs_count cfg. get_memory_layout fuel W32 (arm_handle_range hb) bytes memory_config_new bv = Some (Some (cfg, ?ps \<noteq> []))"
      "config_ok W32 hb cfg" "rs_disjoint cfg" "rs_addrs cfg = (\<Union>p\<in>set ?ps. pair_addrs p)" "MAX_MEM_RANGES \<le> rs_room cfg + 2 * length ?ps"
    using assms(4) by (auto simp: MAX_MEM_RANGES_def)
  obtain es where es: "kernel_exclusions W32 ?k ?b = Some es" "\<forall>e\<in>set es. range_ok W32 e" "length es = 3" "(\<Union>e\<in>set es. addrs e) = boot_reserved W32 ?k n"
    using kernel_exclusions_eq [OF assms(7)] by blast
  have num: "?d = 0xfe400000" "ARM_PAGE_DATABASE_SIZE = 0x1800000" "HIGH_MEM_SIZE = 0x8000000"
    by (simp_all add: ARM_PAGE_DATABASE_VIRTUAL_BASE_def ARM_PAGE_DATABASE_SIZE_def RECURSIVE_MAP_AREA_def HIGH_MEM_SIZE_def)
  have vb: "0 < ?vb" using assms(7) by (simp add: boot_layout_ok_def)
  have x: "range_ok W32 ?x" "addrs ?x = {db ..< db + ARM_PAGE_DATABASE_SIZE}" using assms(15) vb by (simp_all add: num range_ok_def excl_range_def addrs_def)
  obtain cfg' where cfg': "exclude_each (exclude_range W32) cfg (?x # es) = Some cfg'" "config_ok W32 hb cfg'" "rs_disjoint cfg'"
      "rs_addrs cfg' = rs_addrs cfg - (\<Union>e\<in>set (?x # es). addrs e)"
    using reserve_ok [OF cfg(2,3) _ _ cfg(5), of "?x # es"] es(2,3) x(1) assms(4,6) unfolding cfg(4) by (auto simp: MAX_MEM_RANGES_def)
  have p: "uadd W32 (kc_kernel_stack_pages ?k) 1 = Some (kc_kernel_stack_pages ?k + 1)" using assms(10,12) by (intro uadd_ok) simp
  have h: "ushl W32 (kc_kernel_stack_pages ?k + 1) page_shift = Some step" unfolding page_shift_def assms(10) using assms(10,12) by (intro ushl_ok) simp_all
  have lim: "?d < 2 ^ 32" by (simp add: num)
  have z: "step * 4 * c \<le> ?d" "2 ^ 21 * c \<le> ?i" "2 ^ 21 * c < 2 ^ 32" "step * 4 * c < 2 ^ 32" using assms(13) lim by linarith+
  have m: "umul W32 step 4 = Some (step * 4)" "umul W32 (step * 4) c = Some (step * 4 * c)" "umul W32 section_size c = Some (2 ^ 21 * c)"
    using z(3,4) assms(12) by (simp_all add: section_size_exp)
  have u: "usub ?d (step * 4 * c) = Some ?i" "usub ?i (2 ^ 21 * c) = Some (?i - 2 ^ 21 * c)" "usub ?d ?vb = Some db"
    using z assms(9,15) by (simp_all add: num)
  have hm: "get_high_mem_base ?vb = Some hb" using assms(9,14) vb by (simp add: get_high_mem_base_def num usize_max_def)
  have al: "align_down W32 (?i - 2 ^ 21 * c) section_size = Some ?l" by (rule section_align) (simp add: num)
  let ?s = "s\<lparr>as_isr_stack_area_size := step * 4 * c, as_isr_stack_area_virtual_base := ?i, as_thread_local_area_size := 2 ^ 21 * c,
                as_thread_local_area_virtual_base := ?l, as_device_tree := (as_device_tree s)\<lparr>dt_memory := cfg'\<rparr>\<rparr>"
  have "arm_init_memory_config fuel bytes s bv n = Inr ?s" if "rs_count cfg < fuel" for fuel
    using cfg(1) that assms(3) unfolding arm_init_memory_config_def Let_def blob_area_eq [OF assms(7)] assms(11) [symmetric]
    by (simp only: unwrap_then_simps p h m u hm al bind.simps prod.case assms(8) fuel_then_simps) (simp only: es(1) cfg'(1) assert_that_def not_False_eq_True if_True bind.simps unwrap_then_simps prod.case)
  moreover have "rs_addrs cfg' = (\<Union>p\<in>set ?ps. pair_addrs p) - ({db ..< db + ARM_PAGE_DATABASE_SIZE} \<union> boot_reserved W32 ?k n)"
    unfolding cfg'(4) cfg(4) by (simp add: x(2) es(4))
  moreover have "?l + 2 ^ 21 * c \<le> ?i" using section_bounds(3) [of "?i - 2 ^ 21 * c"] z(2) by linarith
  moreover have "2 ^ 21 dvd ?l" unfolding section_down_def by (rule dvd_triv_right)
  ultimately show ?thesis using cfg'(2,3) z(1) by (intro exI [of _ ?s] exI [of _ "rs_count cfg"]) simp
qed

definition example_arm_config :: arm_kernel_config where
  "example_arm_config = \<lparr>kc_virtual_base = 0xc0000000, kc_page_size = 4096, kc_blob = 0x8080000, kc_kernel_base = 0x100000,
     kc_kernel_size = 0x200000, kc_kernel_pages_start = 0x80000, kc_kernel_pages_size = 0x10000, kc_kernel_stack_list = 0x60000, kc_kernel_stack_pages = 4, kc_vm_split = 3\<rparr>"

abbreviation arm_example_bytes :: "usize \<Rightarrow> byte" where
  "arm_example_bytes a \<equiv> dtb_bytes example_tree example_strings ! (a - 0xc8080000)"

lemma arm_example_blob: "blob_at arm_example_bytes 0xc8080000 (dtb_bytes example_tree example_strings)"
  by (simp add: blob_at_def)

definition arm_example_statics :: "core_config \<Rightarrow> arm_statics" where
  "arm_example_statics cores = arm_statics_initial\<lparr>as_kernel_config := example_arm_config, as_device_tree := device_tree_new W32\<lparr>dt_cores := cores\<rparr>\<rparr>"

theorem arm_memory_available_witness:
  "\<exists>cores s' fuel. add_core W32 (core_config_new W32) core_new True = Some (cores, True)
    \<and> arm_init_memory_config fuel arm_example_bytes (arm_example_statics cores) 0xc8080000 0x400 = Inr s'
    \<and> config_ok W32 0x38000000 (dt_memory (as_device_tree s')) \<and> rs_addrs (dt_memory (as_device_tree s')) = {0x400000 ..< 0x4400000}
    \<and> as_isr_stack_area_virtual_base s' = 0xfe3ec000"
proof -
  obtain cores where c: "add_core W32 (core_config_new W32) core_new True = Some (cores, True)" "get_core_count cores = 1"
    using add_core_inv [OF cc_inv_new [of W32], of core_new True] by (auto simp: core_ids_def core_config_new_def get_core_count_def)
  let ?s = "arm_example_statics cores"
  have s: "as_kernel_config ?s = example_arm_config" "dt_memory (as_device_tree ?s) = memory_config_new" "get_core_count (dt_cores (as_device_tree ?s)) = 1"
    using c(2) by (simp_all add: arm_example_statics_def arm_statics_initial_def device_tree_new_def)
  have p: "kc_kernel_stack_pages example_arm_config = 4" "kc_virtual_base example_arm_config = 0xc0000000" by (simp_all add: example_arm_config_def)
  have m: "mask 21 = (0x1fffff :: nat)" by (simp add: mask_eq_exp_minus_1)
  have k: "boot_layout_ok W32 example_arm_config 0x400" "boot_reserved W32 example_arm_config 0x400 = {0xc0000000 ..< 2 ^ 32} \<union> {..< 0x400000} \<union> {0x8000000 ..< 0x8200000}"
    by (simp_all add: boot_layout_ok_def boot_reserved_def example_arm_config_def section_up_def section_down_def m)
  have n: "ARM_PAGE_DATABASE_VIRTUAL_BASE = 0xfe400000" "ARM_PAGE_DATABASE_SIZE = 0x1800000" "HIGH_MEM_SIZE = 0x8000000"
    by (simp_all add: ARM_PAGE_DATABASE_VIRTUAL_BASE_def ARM_PAGE_DATABASE_SIZE_def RECURSIVE_MAP_AREA_def HIGH_MEM_SIZE_def)
  have d: "({0x400000 ..< 0x4400000} \<union> {0x8000000 ..< 0x8100000}) - ({0x3e400000 ..< 0x3e400000 + 0x1800000} \<union> ({0xc0000000 ..< 2 ^ 32} \<union> {..< 0x400000} \<union> {0x8000000 ..< 0x8200000}))
      = {0x400000 ..< 0x4400000 :: nat}" by auto
  obtain s' k where s': "\<forall>fuel>k. arm_init_memory_config fuel arm_example_bytes ?s 0xc8080000 0x400 = Inr s'"
      "config_ok W32 0x38000000 (dt_memory (as_device_tree s'))" "rs_addrs (dt_memory (as_device_tree s')) = {0x400000 ..< 0x4400000}"
      "as_isr_stack_area_virtual_base s' + 0x5000 * 4 * 1 = 0xfe400000"
    using arm_memory_available [OF arm_example_blob example_blob_ok _ _ example_disjoint(1), of ?s "0x400" "0x5000" 1 "0x38000000" "0x3e400000"] k(1)
    unfolding s p n example_disjoint(2) k(2) d by (auto simp: example_ranges usize_max_def)
  from s'(1) have "arm_init_memory_config (Suc k) arm_example_bytes ?s 0xc8080000 0x400 = Inr s'" by blast
  with s'(2-4) c(1) show ?thesis by (intro exI conjI) (assumption | simp)+
qed

section \<open>The direct map\<close>

text \<open>A range that the compact strategy maps with blocks.\<close>

definition mappable :: "usize \<Rightarrow> 'tag range \<Rightarrow> bool" where
  "mappable vb r \<longleftrightarrow> 4096 dvd r_base r \<and> 4096 dvd r_size r \<and> r_size r < 2 ^ 39 \<and> r_base r + r_size r < 2 ^ 48
     \<and> vb + r_base r + r_size r < 2 ^ 64 \<and> compact_ok 3 (vb + r_base r) (r_size r)"

lemma map_ranges_ok:
  assumes "table_pool vb a" "3 * length rs \<le> free_pages a" "tree_ok 3 mem vb root" "held (bp_area a) (bp_blocks W64 a) (tables 3 mem vb root)"
    "2 ^ 48 dvd vb" "\<forall>r\<in>set rs. mappable vb r" "sorted_wrt ends_before rs"
    "\<forall>va. va mod 2 ^ 48 \<in> (\<Union>r\<in>set rs. addrs r) \<longrightarrow> walk 3 mem vb root va = None" "514 \<le> n"
    "kc_virtual_base k = vb" "kc_kernel_pages_start k = root"
  shows "\<exists>a' mem'. a64_map_ranges (buffered_alloc W64) n k rs (a, mem) = Inr (a', mem')
    \<and> (\<forall>va. walk 3 mem' vb root va =
         (if va mod 2 ^ 48 \<in> (\<Union>r\<in>set rs. addrs r) then Some (va mod 2 ^ 48, mair_of False) else walk 3 mem vb root va))
    \<and> tree_ok 3 mem' vb root \<and> held (bp_area a') (bp_blocks W64 a') (tables 3 mem' vb root) \<and> table_pool vb a' \<and> free_pages a \<le> free_pages a' + 3 * length rs"
  using assms(1-4,6-8)
proof (induction rs arbitrary: a mem)
  case (Cons r rs)
  let ?in = "\<lambda>va. va mod 2 ^ 48 \<in> addrs r"
  have r: "4096 dvd r_base r" "4096 dvd r_size r" "r_size r < 2 ^ 39" "r_base r + r_size r < 2 ^ 48" "vb + r_base r + r_size r < 2 ^ 64" "compact_ok 3 (vb + r_base r) (r_size r)"
    using Cons.prems(5) by (simp_all add: mappable_def)
  have f: "3 \<le> free_pages a" using Cons.prems(2) by simp
  have i: "r_base r \<le> va mod 2 ^ 48 \<and> va mod 2 ^ 48 < r_base r + r_size r \<longleftrightarrow> ?in va" for va by (simp add: addrs_def)
  have u: "\<forall>va. r_base r \<le> va mod 2 ^ 48 \<and> va mod 2 ^ 48 < r_base r + r_size r \<longrightarrow> walk 3 mem vb root va = None" unfolding i using Cons.prems(7) by simp
  obtain a1 mem1 where m: "direct_map_memory (buffered_alloc W64) n vb root (r_base r) (r_size r) False Compact (a, mem) = Inr (a1, mem1)"
      "\<forall>va. walk 3 mem1 vb root va = (if ?in va then Some (va mod 2 ^ 48, mair_of False) else walk 3 mem vb root va)"
      "tree_ok 3 mem1 vb root" "held (bp_area a1) (bp_blocks W64 a1) (tables 3 mem1 vb root)" "table_pool vb a1" "free_pages a \<le> free_pages a1 + 3"
    using direct_map_ok [OF Cons.prems(1) f Cons.prems(3,4) assms(5) r u assms(9), of False] unfolding i by blast
  have d: "addrs r \<inter> addrs x = {}" if "x \<in> set rs" for x
    using Cons.prems(6) that by (auto simp: ends_before_def addrs_def)
  have u1: "\<forall>va. va mod 2 ^ 48 \<in> (\<Union>r\<in>set rs. addrs r) \<longrightarrow> walk 3 mem1 vb root va = None"
    using m(2) Cons.prems(7) d by auto
  have f1: "3 * length rs \<le> free_pages a1" using Cons.prems(2) m(6) by simp
  have s1: "\<forall>r\<in>set rs. mappable vb r" "sorted_wrt ends_before rs" using Cons.prems(5,6) by simp_all
  obtain a2 mem2 where m2: "a64_map_ranges (buffered_alloc W64) n k rs (a1, mem1) = Inr (a2, mem2)"
      "\<forall>va. walk 3 mem2 vb root va = (if va mod 2 ^ 48 \<in> (\<Union>r\<in>set rs. addrs r) then Some (va mod 2 ^ 48, mair_of False) else walk 3 mem1 vb root va)"
      "tree_ok 3 mem2 vb root" "held (bp_area a2) (bp_blocks W64 a2) (tables 3 mem2 vb root)" "table_pool vb a2" "free_pages a1 \<le> free_pages a2 + 3 * length rs"
    using Cons.IH [OF m(5) f1 m(3,4) s1 u1] by blast
  have "walk 3 mem2 vb root va = (if va mod 2 ^ 48 \<in> (\<Union>r\<in>set (r # rs). addrs r) then Some (va mod 2 ^ 48, mair_of False) else walk 3 mem vb root va)" for va
    using m(2) m2(2) by simp
  moreover have "a64_map_ranges (buffered_alloc W64) n k (r # rs) (a, mem) = Inr (a2, mem2)" using m(1) m2(1) assms(10,11) by simp
  moreover have "free_pages a \<le> free_pages a2 + 3 * length (r # rs)" using m(6) m2(6) by simp
  ultimately show ?case using m2(3-5) by blast
qed simp

lemma init_direct_map_ok:
  assumes "rs_valid W64 (dt_memory (as_device_tree s))" "rs_disjoint (dt_memory (as_device_tree s))" "\<forall>r\<in>set (live (dt_memory (as_device_tree s))). mappable vb r"
    "kc_virtual_base (as_kernel_config s) = vb" "kc_kernel_pages_start (as_kernel_config s) = root" "2 ^ 48 dvd vb"
    "table_pool vb a" "3 * rs_count (dt_memory (as_device_tree s)) \<le> free_pages a" "tree_ok 3 mem vb root" "held (bp_area a) (bp_blocks W64 a) (tables 3 mem vb root)"
    "\<forall>va. va mod 2 ^ 48 \<in> rs_addrs (dt_memory (as_device_tree s)) \<longrightarrow> walk 3 mem vb root va = None" "514 \<le> n"
  shows "\<exists>a' mem'. a64_init_direct_map (buffered_alloc W64) n s (a, mem) = Inr (a', mem')
    \<and> (\<forall>va. walk 3 mem' vb root va =
         (if va mod 2 ^ 48 \<in> rs_addrs (dt_memory (as_device_tree s)) then Some (va mod 2 ^ 48, 0) else walk 3 mem vb root va))
    \<and> tree_ok 3 mem' vb root \<and> held (bp_area a') (bp_blocks W64 a') (tables 3 mem' vb root) \<and> table_pool vb a'"
proof -
  let ?c = "dt_memory (as_device_tree s)"
  have l: "length (live ?c) = rs_count ?c" "get_ranges ?c = Some (live ?c)"
    using live_length [of ?c] assms(1) by (simp_all add: rs_valid_def rs_inv_def get_ranges_def live_def)
  have "3 * length (live ?c) \<le> free_pages a" "sorted_wrt ends_before (live ?c)" using assms(2,8) l(1) by (simp_all add: rs_disjoint_def)
  from map_ranges_ok [OF assms(7) this(1) assms(9,10,6,3) this(2) _ assms(12,4,5)] assms(11)
  show ?thesis by (auto simp: a64_init_direct_map_def l(2) rs_addrs_def mair_of_def)
qed

text \<open>
  \<^bold>\<open>C2\<close> \<open>init_direct_map\<close> on AArch64 maps all available memory. Take the memory configuration of disjoint ranges that can each be mapped, an
  empty part of the address space for them and three free table pages for each range. Then it returns within 514 rounds of each loop; every address of the configuration is
  afterwards mapped to itself below the virtual base as normal memory, every other address is translated as before, and the tables are a tree of
  pages that the boot allocator will not hand out again.
\<close>

theorem a64_direct_map_all:
  assumes "rs_valid W64 (dt_memory (as_device_tree s))" "rs_disjoint (dt_memory (as_device_tree s))" "\<forall>r\<in>set (live (dt_memory (as_device_tree s))). mappable vb r"
    "kc_virtual_base (as_kernel_config s) = vb" "kc_kernel_pages_start (as_kernel_config s) = root" "2 ^ 48 dvd vb"
    "table_pool vb a" "3 * rs_count (dt_memory (as_device_tree s)) \<le> free_pages a" "tree_ok 3 mem vb root" "held (bp_area a) (bp_blocks W64 a) (tables 3 mem vb root)"
    "\<forall>va. va mod 2 ^ 48 \<in> rs_addrs (dt_memory (as_device_tree s)) \<longrightarrow> walk 3 mem vb root va = None" "514 \<le> n"
  shows "\<exists>a' mem'. a64_init_direct_map (buffered_alloc W64) n s (a, mem) = Inr (a', mem')
    \<and> (\<forall>va. walk 3 mem' vb root va =
         (if va mod 2 ^ 48 \<in> rs_addrs (dt_memory (as_device_tree s)) then Some (va mod 2 ^ 48, 0) else walk 3 mem vb root va))
    \<and> tree_ok 3 mem' vb root \<and> held (bp_area a') (bp_blocks W64 a') (tables 3 mem' vb root) \<and> table_pool vb a'"
  by (rule init_direct_map_ok [OF assms])

definition example_available :: memory_config where
  "example_available = \<lparr>rs_ranges = [\<lparr>r_tag = LinearMemoryZone, r_base = 0x400000, r_size = 0x4000000\<rparr>, \<lparr>r_tag = LinearMemoryZone, r_base = 0x48000000, r_size = 0x200000\<rparr>],
     rs_count = 2\<rparr>"

lemma example_available_ok:
  "rs_valid W64 example_available" "rs_disjoint example_available" "\<forall>r\<in>set (live example_available). mappable 0xffff000000000000 r"
  "rs_addrs example_available = {0x400000 ..< 0x4400000} \<union> {0x48000000 ..< 0x48200000}" "rs_count example_available = 2"
  by (simp_all add: example_available_def rs_valid_def rs_inv_def rs_disjoint_def live_def range_ok_def ends_before_def rs_addrs_def addrs_def mappable_def numeral_3_eq_3 esz_def)

theorem a64_direct_map_all_witness:
  "\<exists>a a' mem'. boot_allocator W64 example_config (6 * page_size) = Some a
    \<and> a64_init_direct_map (buffered_alloc W64) 514 (a64_statics_initial\<lparr>as_kernel_config := example_config, as_device_tree := \<lparr>dt_cores = core_config_new W64, dt_memory = example_available\<rparr>\<rparr>) (a, \<lambda>_. 0) = Inr (a', mem')
    \<and> walk 3 mem' 0xffff000000000000 0x80000 0xffff000048012345 = Some (0x48012345, 0)
    \<and> walk 3 mem' 0xffff000000000000 0x80000 0xffff000000012345 = None"
proof -
  let ?s = "a64_statics_initial\<lparr>as_kernel_config := example_config, as_device_tree := \<lparr>dt_cores = core_config_new W64, dt_memory = example_available\<rparr>\<rparr>"
  obtain a where a: "buffered_new W64 1 0x86000 0x90000 4096 = Some a" "table_pool 0xffff000000000000 a" "free_pages a = 10"
      "held (bp_area a) (bp_blocks W64 a) {0x80000}" using boot_example by blast
  have e: "tables 3 (\<lambda>_. 0) 0xffff000000000000 0x80000 = {0x80000}" "tree_ok 3 (\<lambda>_. 0) 0xffff000000000000 0x80000"
      "walk 3 (\<lambda>_. 0) 0xffff000000000000 0x80000 va = None" for va
    using empty_root [of "0xffff000000000000" "0x80000"] by (simp_all add: table_at_def)
  from a(4) have h: "held (bp_area a) (bp_blocks W64 a) (tables 3 (\<lambda>_. 0) 0xffff000000000000 0x80000)" unfolding e(1) .
  have s: "as_kernel_config ?s = example_config" "dt_memory (as_device_tree ?s) = example_available" by simp_all
  have v: "2 ^ 48 dvd (0xffff000000000000 :: nat)" "kc_virtual_base example_config = 0xffff000000000000" "kc_kernel_pages_start example_config = 0x80000"
    by (simp_all add: example_config_def)
  have f: "3 * rs_count example_available \<le> free_pages a" using a(3) example_available_ok(5) by simp
  obtain a' mem' where m: "a64_init_direct_map (buffered_alloc W64) 514 ?s (a, \<lambda>_. 0) = Inr (a', mem')"
      "\<forall>va. walk 3 mem' 0xffff000000000000 0x80000 va = (if va mod 2 ^ 48 \<in> {0x400000 ..< 0x4400000} \<union> {0x48000000 ..< 0x48200000}
         then Some (va mod 2 ^ 48, 0) else walk 3 (\<lambda>_. 0) 0xffff000000000000 0x80000 va)"
    using a64_direct_map_all [of ?s, unfolded s, OF example_available_ok(1-3) v(2,3,1) a(2) f e(2) h, of 514] e(3) unfolding example_available_ok(4) by auto
  then have "walk 3 mem' 0xffff000000000000 0x80000 0xffff000048012345 = Some (0x48012345, 0)"
      "walk 3 mem' 0xffff000000000000 0x80000 0xffff000000012345 = None" by (simp_all add: e(3))
  moreover have "boot_allocator W64 example_config (6 * page_size) = Some a" using a(1) by (simp add: boot_allocator_def example_config_def page_size_def)
  ultimately show ?thesis using m(1) by blast
qed

section \<open>Interrupt stacks\<close>

lemma a64_stack_vbase_eq:
  assumes "0 < i" "base + step * (i - 1) + 2 ^ 12 < 2 ^ 64"
  shows "a64_stack_vbase base step i = Some (base + step * (i - 1) + 2 ^ 12)"
  using assms by (simp add: a64_stack_vbase_def page_shift_def)

lemma stack_slot:
  fixes i j step :: nat
  assumes "i < j"
  shows "step * (i - 1) + step \<le> step * (j - 1) \<or> i = 0"
proof (cases i)
  case (Suc k)
  then have "k + 1 \<le> j - 1" using assms by simp
  then have "step * (k + 1) \<le> step * (j - 1)" by (rule mult_le_mono2)
  then show ?thesis by (simp add: Suc)
qed simp

text \<open>
  \<^bold>\<open>C27\<close> The interrupt stacks of AArch64 are apart. In the area that \<open>init_memory_config\<close> lays out, the stacks of the secondary cores lie in the order of the cores,
  each after an unmapped guard page, all below the step that is left for the primary core at the end of the area, and none of the address calculations panics.
\<close>

theorem a64_stacks_apart:
  assumes "as_isr_stack_area_size s = (p + 1) * 2 ^ 12 * c" "as_isr_stack_area_virtual_base s + as_isr_stack_area_size s = A64_PAGE_DATABASE_VIRTUAL_BASE"
    "0 < i" "i < j" "j < c"
  shows "\<exists>v v'. a64_stack_vbase (as_isr_stack_area_virtual_base s) ((p + 1) * 2 ^ 12) i = Some v
    \<and> a64_stack_vbase (as_isr_stack_area_virtual_base s) ((p + 1) * 2 ^ 12) j = Some v'
    \<and> as_isr_stack_area_virtual_base s + 2 ^ 12 \<le> v \<and> v + p * 2 ^ 12 + 2 ^ 12 \<le> v'
    \<and> v' + p * 2 ^ 12 + (p + 1) * 2 ^ 12 \<le> A64_PAGE_DATABASE_VIRTUAL_BASE"
proof -
  let ?b = "as_isr_stack_area_virtual_base s" and ?t = "(p + 1) * 2 ^ 12"
  have t: "p * 2 ^ 12 + 2 ^ 12 = ?t" by simp
  have ij: "?t * (i - 1) + ?t \<le> ?t * (j - 1)" using stack_slot [OF assms(4), of ?t] assms(3) by blast
  have jc: "?t * (j - 1) + ?t \<le> ?t * (c - 1)" using stack_slot [OF assms(5), of ?t] assms(3,4) by blast
  obtain c' where "c = Suc c'" using assms(5) by (cases c) simp_all
  then have cc: "?t * (c - 1) + ?t = ?t * c" by (simp only: diff_Suc_1 mult_Suc_right add.commute)
  have top: "?b + ?t * c = A64_PAGE_DATABASE_VIRTUAL_BASE" using assms(1,2) by simp
  have lim: "A64_PAGE_DATABASE_VIRTUAL_BASE < 2 ^ 64" by (simp add: A64_PAGE_DATABASE_VIRTUAL_BASE_def)
  have vi: "a64_stack_vbase ?b ?t i = Some (?b + ?t * (i - 1) + 2 ^ 12)" using ij jc cc top lim t assms(3) by (intro a64_stack_vbase_eq) linarith+
  have vj: "a64_stack_vbase ?b ?t j = Some (?b + ?t * (j - 1) + 2 ^ 12)" using jc cc top lim t assms(3,4) by (intro a64_stack_vbase_eq) linarith+
  have "?b + 2 ^ 12 \<le> ?b + ?t * (i - 1) + 2 ^ 12" by simp
  moreover have "?b + ?t * (i - 1) + 2 ^ 12 + p * 2 ^ 12 + 2 ^ 12 \<le> ?b + ?t * (j - 1) + 2 ^ 12" using ij t by linarith
  moreover have "?b + ?t * (j - 1) + 2 ^ 12 + p * 2 ^ 12 + ?t \<le> A64_PAGE_DATABASE_VIRTUAL_BASE" using jc cc top t by linarith
  ultimately show ?thesis using vi vj by blast
qed

theorem a64_stacks_apart_witness:
  "\<exists>v v'. a64_stack_vbase 0xfffffdfffffec000 0x5000 1 = Some v \<and> a64_stack_vbase 0xfffffdfffffec000 0x5000 2 = Some v' \<and> v + 0x5000 \<le> v'"
proof -
  let ?s = "a64_statics_initial\<lparr>as_isr_stack_area_size := 0x14000, as_isr_stack_area_virtual_base := 0xfffffdfffffec000\<rparr>"
  have "as_isr_stack_area_size ?s = (4 + 1) * 2 ^ 12 * 4" "as_isr_stack_area_virtual_base ?s + as_isr_stack_area_size ?s = A64_PAGE_DATABASE_VIRTUAL_BASE"
    by (simp_all add: A64_PAGE_DATABASE_VIRTUAL_BASE_def)
  from a64_stacks_apart [OF this, of 1 2] show ?thesis by auto
qed

text \<open>
  \<^bold>\<open>C38\<close> The interrupt stacks of ARM are not apart. Each secondary core gets five stacks, but the cores are four steps apart: the fifth stack of
  a core is mapped, and its end entered into the stack list, at the very address at which the loop then maps the first stack of the next core.
\<close>

theorem arm_stacks_collide:
  assumes "0 < i" "arm_stack_vbase base step (Suc i) = Some v'"
  shows "\<exists>v. arm_stack_vbase base step i = Some v
    \<and> (\<forall>al n k table sz e st. arm_stack_loop al n k table sz step e v [1..<6] st =
         run_then (arm_stack_loop al n k table sz step e v [1..<5] st) (arm_stack_loop al n k table sz step e v' [5]))"
proof -
  obtain j where j: "i = Suc j" using assms(1) by (cases i) simp_all
  let ?v = "base + step * 4 * j + 2 ^ 12"
  have v: "step * 4 < 2 ^ 32" "step * 4 * i < 2 ^ 32" "base + step * 4 * i + 2 ^ 12 < 2 ^ 32" "v' = base + step * 4 * i + 2 ^ 12"
    using assms(2) by (auto simp: arm_stack_vbase_def page_shift_def bind_eq_Some_conv uadd_Some_iff umul_Some_iff)
  have le: "step * 4 * i = step * 4 * j + step * 4" by (simp add: j)
  have b: "?v + 4 * step < 2 ^ 32" "v' = ?v + 4 * step" using v(3,4) le by linarith+
  have "step * 4 * j < 2 ^ 32" "base + step * 4 * j < 2 ^ 32" "?v < 2 ^ 32" using v(3) le by linarith+
  then have "arm_stack_vbase base step i = Some ?v" using v(1) by (simp add: arm_stack_vbase_def page_shift_def j)
  moreover have "arm_stack_loop al n k table sz step e ?v [1..<6] st =
      run_then (arm_stack_loop al n k table sz step e ?v [1..<5] st) (arm_stack_loop al n k table sz step e v' [5])" for al n k table sz e and st :: "'a \<times> memory"
  proof -
    have split: "run_then (arm_stack_loop al n k table sz step e u (is @ [q]) st) Inr
        = run_then (arm_stack_loop al n k table sz step e u is st) (arm_stack_loop al n k table sz step e (u + length is * step) [q])"
      if "u + length is * step < 2 ^ 32" for u "is" q and st :: "'a \<times> memory"
      using that
    proof (induction "is" arbitrary: u st)
      case (Cons x "is")
      have "u + step < 2 ^ 32" "u + step + length is * step < 2 ^ 32" using Cons.prems by simp_all
      note this(1) Cons.IH [OF this(2)]
      then show ?case by (simp add: run_then_def unwrap_then_def add.assoc split: option.splits sum.splits prod.splits)
    qed (simp add: run_then_def split: sum.splits)
    have "[1..<6] = [1..<5] @ [5]" by (simp add: upt_rec)
    then show ?thesis using split [of ?v "[1..<5]" 5 st] b by (simp add: run_then_def split: sum.splits)
  qed
  ultimately show ?thesis by blast
qed

theorem arm_stacks_collide_witness:
  "\<exists>v. arm_stack_vbase 0xfd000000 0x5000 1 = Some v \<and> arm_stack_vbase 0xfd000000 0x5000 2 = Some 0xfd015000
    \<and> (\<forall>al n k table sz e (st :: buddy \<times> memory). arm_stack_loop al n k table sz 0x5000 e v [1..<6] st =
         run_then (arm_stack_loop al n k table sz 0x5000 e v [1..<5] st) (arm_stack_loop al n k table sz 0x5000 e 0xfd015000 [5]))"
proof -
  have "arm_stack_vbase 0xfd000000 0x5000 (Suc 1) = Some 0xfd015000" by (simp add: arm_stack_vbase_def page_shift_def)
  moreover from arm_stacks_collide [OF _ this] have "\<exists>v. arm_stack_vbase 0xfd000000 0x5000 1 = Some v
    \<and> (\<forall>al n k table sz e (st :: buddy \<times> memory). arm_stack_loop al n k table sz 0x5000 e v [1..<6] st =
         run_then (arm_stack_loop al n k table sz 0x5000 e v [1..<5] st) (arm_stack_loop al n k table sz 0x5000 e 0xfd015000 [5]))" by simp
  ultimately show ?thesis by (simp add: numeral_2_eq_2)
qed

end
