(* ===== verification/Start_Up.thy ===== *)
theory Start_Up
  imports Core_Runs Boot_Runs
begin

text \<open>
  Start-up as a whole: the core configuration of both architectures, and \<open>init\<close> of \<open>src/arch/aarch64/mod.rs\<close> from the bytes of the device tree
  to the kernel's page tables.
\<close>

section \<open>Requirements\<close>

text \<open>The kernel configuration that the boot code passes, for a blob of \<open>n\<close> bytes.\<close>

definition kernel_ok :: "kernel_config \<Rightarrow> usize \<Rightarrow> bool" where
  "kernel_ok k n \<longleftrightarrow> kc_page_size k = page_size \<and> is_power_of_2 (kc_kernel_stack_pages k) \<and> boot_layout_ok W64 k n
     \<and> kc_virtual_base k + kc_blob k < 2 ^ 64 \<and> 2 ^ 48 dvd kc_virtual_base k"

definition cores_ok :: "width \<Rightarrow> dtree \<Rightarrow> byte list \<Rightarrow> bool" where
  "cores_ok w t strs \<longleftrightarrow> core_nodes_ok w (str_at strs) (0, InvalidMethod) (nodes t) \<and> distinct (map core_id (kept_cores w (str_at strs) t))"

definition cores_enabled :: "core list \<Rightarrow> bool" where
  "cores_enabled cs \<longleftrightarrow> cs \<noteq> [] \<and> (\<forall>c\<in>set cs. enable_method c \<noteq> InvalidMethod)"

definition memory_ok :: "dtree \<Rightarrow> byte list \<Rightarrow> bool" where
  "memory_ok t strs \<longleftrightarrow>
     (let ps = tree_ranges W64 (str_at strs) t
      in ps \<noteq> [] \<and> length ps \<le> 61 \<and> sorted_wrt (\<lambda>p q. pair_addrs p \<inter> pair_addrs q = {}) ps \<and> usize_max W64 \<notin> (\<Union>p\<in>set ps. pair_addrs p))"

definition stacks_ok :: "kernel_config \<Rightarrow> nat \<Rightarrow> bool" where
  "stacks_ok k n \<longleftrightarrow> (kc_kernel_stack_pages k + 1) * 2 ^ 12 < 2 ^ 64 \<and> (kc_kernel_stack_pages k + 1) * 2 ^ 12 * n \<le> A64_PAGE_DATABASE_VIRTUAL_BASE"

text \<open>The page tables of the boot code and the allocator behind them, for the ranges \<open>rs\<close> that are to be mapped.\<close>

definition tables_ok :: "kernel_config \<Rightarrow> memory \<Rightarrow> buffered \<Rightarrow> memory_range list \<Rightarrow> bool" where
  "tables_ok k mem a rs \<longleftrightarrow>
     (let vb = kc_virtual_base k; root = kc_kernel_pages_start k
      in table_pool vb a \<and> 3 * length rs \<le> free_pages a \<and> tree_ok 3 mem vb root \<and> held (bp_area a) (bp_blocks W64 a) (tables 3 mem vb root)
         \<and> (\<forall>r\<in>set rs. mappable vb r) \<and> (\<forall>va. va mod 2 ^ 48 \<in> (\<Union>r\<in>set rs. addrs r) \<longrightarrow> walk 3 mem vb root va = None))"

section \<open>Cores\<close>

lemma init_core_config_eq:
  assumes "blob_at bytes blob (dtb_bytes t strs)" "blob_ok t strs" "cores_ok w t strs" "cc_inv w (dt_cores dt)"
  shows "\<exists>c. init_core_config w bytes pid dt blob = (if cores_enabled (kept_cores w (str_at strs) t) then Some (dt\<lparr>dt_cores := c\<rparr>) else None)
    \<and> cc_inv w c \<and> get_core_count c = length (kept_cores w (str_at strs) t) \<and> set (live_cores c) = set (kept_cores w (str_at strs) t)
    \<and> (\<forall>k\<in>set (kept_cores w (str_at strs) t). core_id k = pid \<longrightarrow> cc_cores c ! 0 = k)"
proof -
  let ?L = "kept_cores w (str_at strs) t"
  obtain c where c: "get_core_config w bytes pid (dt_cores dt) blob = Some (c, ?L \<noteq> [] \<and> (\<forall>k\<in>set ?L. enable_method k \<noteq> InvalidMethod))"
      "cc_inv w c" "get_core_count c = length ?L" "set (live_cores c) = set ?L" "\<forall>k\<in>set ?L. core_id k = pid \<longrightarrow> cc_cores c ! 0 = k"
    using core_config_ok [OF assms(1,2) _ _ assms(4), of pid] assms(3) unfolding cores_ok_def by blast
  have "get_cores c \<noteq> None" using c(2) by (simp add: get_cores_def cc_inv_def)
  then have "init_core_config w bytes pid dt blob = (if cores_enabled ?L then Some (dt\<lparr>dt_cores := c\<rparr>) else None)"
    using c(1) by (auto simp: init_core_config_def cores_enabled_def assert_that_def)
  then show ?thesis using c(2-5) by blast
qed

section \<open>The blob\<close>

lemma find_blob_ok:
  assumes "blob_at bytes (kc_virtual_base k + kc_blob k) (dtb_bytes t strs)" "blob_ok t strs" "kc_virtual_base k + kc_blob k < usize_lim w"
  shows "find_blob w bytes k = Some (kc_virtual_base k + kc_blob k, length (dtb_bytes t strs))"
  using check_dtb_blob [OF assms(1)] assms(2,3) by (simp add: find_blob_def blob_ok_def dtb_bytes_length)

section \<open>The example\<close>

text \<open>A board with two cores and the memory of the example in \<open>Scanner_Runs\<close>.\<close>

definition board_strings :: "byte list" where
  "board_strings = example_strings @ str_bytes ''enable-method'' @ [0]"

definition board_memory :: "(nat \<times> byte list) list" where
  "board_memory = [(27, str_bytes ''memory'' @ [0]), (39, be32 0x400000 @ be32 0x4000000 @ be32 0x8000000 @ be32 0x100000)]"

definition board_cpus :: "(nat \<times> byte list) list" where
  "board_cpus = [(0, be32 1), (15, be32 0), (43, str_bytes ''spin-table'' @ [0])]"

definition board_tree :: dtree where
  "board_tree = DNode [] [(0, be32 1), (15, be32 1)]
     [DNode (str_bytes ''cpus'') board_cpus [DNode (str_bytes ''cpu@0'') [(39, be32 0)] [], DNode (str_bytes ''cpu@1'') [(39, be32 1)] []],
      DNode (str_bytes ''memory'') board_memory []]"

lemma board_names:
  "str_at board_strings 0 = str_bytes ''#address-cells''" "str_at board_strings 15 = str_bytes ''#size-cells''"
  "str_at board_strings 27 = str_bytes ''device_type''" "str_at board_strings 39 = str_bytes ''reg''" "str_at board_strings 43 = str_bytes ''enable-method''"
  by (simp_all add: str_at_def board_strings_def example_strings_def str_bytes_def)

lemma board_tags:
  "mem_tag (str_bytes ''enable-method'') = None" "core_tag (str_bytes ''#address-cells'') = Some CpuAddressCells" "core_tag (str_bytes ''#size-cells'') = Some CpuSizeCells"
  "core_tag (str_bytes ''enable-method'') = Some CpuEnableMethod" "core_tag (str_bytes ''reg'') = Some CpuReg"
  by (simp_all add: mem_tag_def core_tag_def str_bytes_def)

lemma board_nodes:
  "nodes board_tree = [([], [(0, be32 1), (15, be32 1)]), (str_bytes ''cpus'', board_cpus), (str_bytes ''cpu@0'', [(39, be32 0)]),
     (str_bytes ''cpu@1'', [(39, be32 1)]), (str_bytes ''memory'', board_memory)]"
  "kids_nodes (dt_kids board_tree) = tl (nodes board_tree)"
  by (simp_all add: board_tree_def)

lemma small_cell: "n < 4294967296 \<Longrightarrow> from_be_bytes (be32 n) = n"
  by (rule from_be32) simp

lemma board_views:
  "root_view (str_at board_strings) board_tree = bare_view 1 1"
  "node_view (str_at board_strings) board_tree board_memory =
     \<lparr>nv_dev = Some (str_bytes ''memory'' @ [0]), nv_reg = Some (be32 0x400000 @ be32 0x4000000 @ be32 0x8000000 @ be32 0x100000), nv_ac = 1, nv_sc = 1\<rparr>"
  "nv_dev (node_view (str_at board_strings) board_tree board_cpus) = None"
  "nv_dev (node_view (str_at board_strings) board_tree [(39, v)]) = None"
proof -
  show r: "root_view (str_at board_strings) board_tree = bare_view 1 1"
    using small_cell [of 1] by (simp add: root_view_def board_tree_def view_prop_def board_names example_tags bare_view_def)
  show "node_view (str_at board_strings) board_tree board_memory =
     \<lparr>nv_dev = Some (str_bytes ''memory'' @ [0]), nv_reg = Some (be32 0x400000 @ be32 0x4000000 @ be32 0x8000000 @ be32 0x100000), nv_ac = 1, nv_sc = 1\<rparr>"
    by (simp add: node_view_def r view_prop_def board_names example_tags bare_view_def board_memory_def)
  show "nv_dev (node_view (str_at board_strings) board_tree board_cpus) = None" "nv_dev (node_view (str_at board_strings) board_tree [(39, v)]) = None"
    by (simp_all add: node_view_def r view_prop_def board_names example_tags board_tags bare_view_def board_cpus_def)
qed

lemma board_view_ranges:
  "view_ranges w (node_view (str_at board_strings) board_tree board_memory) = [(0x400000, 0x4000000), (0x8000000, 0x100000)]"
proof -
  have "reg_pairs 2 1 1 (be32 0x400000 @ be32 0x4000000 @ be32 0x8000000 @ be32 0x100000) = [(0x400000, 0x4000000), (0x8000000, 0x100000)]"
    using small_cell by (simp add: numeral_2_eq_2)
  moreover have "usable w [(0x400000, 0x4000000), (0x8000000, 0x100000)] = [(0x400000, 0x4000000), (0x8000000, 0x100000)]"
    using usize_lim_ge [of w] by (simp add: usable_def clip_size_def usize_max_def)
  ultimately show ?thesis
    by (simp add: board_views(2) view_ranges_def is_memory_def example_memory Let_def) (simp add: be32_def)
qed

lemma board_ranges: "tree_ranges w (str_at board_strings) board_tree = [(0x400000, 0x4000000), (0x8000000, 0x100000)]"
  using board_view_ranges [of w] by (simp add: tree_ranges_def board_nodes view_ranges_def [of _ "node_view _ _ board_cpus"] view_ranges_def [of _ "node_view _ _ [(39, _)]"] is_memory_def [of "node_view _ _ board_cpus"] is_memory_def [of "node_view _ _ [(39, _)]"] board_views(3,4))

lemma board_length: "length (dtb_bytes board_tree board_strings) = 40 + length (enc_struct board_tree) + 57" "length (enc_struct board_tree) < 1000"
  by (simp add: dtb_bytes_length board_strings_def example_strings_def str_bytes_def)
    (simp add: enc_struct_def board_tree_def board_cpus_def board_memory_def enc_props_def enc_prop_def pad4_length str_bytes_def)

lemma board_blob_ok: "blob_ok board_tree board_strings"
proof -
  have len: "length board_strings = 57" by (simp add: board_strings_def example_strings_def str_bytes_def)
  have z: "0 \<in> set (drop off board_strings)" if "off < 57" for off
  proof -
    have b: "board_strings = (example_strings @ str_bytes ''enable-method'') @ [0]" by (simp add: board_strings_def)
    have "off \<le> length (example_strings @ str_bytes ''enable-method'')" using that len unfolding b by simp
    then show ?thesis unfolding b drop_append by simp
  qed
  have "length (dtb_bytes board_tree board_strings) \<le> FDT_MAX_SIZE" using board_length by (simp add: FDT_MAX_SIZE_def)
  moreover have "wf_tree board_tree" "dt_name board_tree = []" by (simp_all add: board_tree_def board_cpus_def board_memory_def str_bytes_def)
  moreover have "view_wf (node_view (str_at board_strings) board_tree ps)" if "ps \<in> {board_cpus, board_memory, [(39, be32 0)], [(39, be32 1)]}" for ps
    using that board_views by (auto simp: view_wf_def is_memory_def cells_ok_def)
  moreover have "str_bytes ''memory'' \<noteq> []" "str_bytes ''cpus'' \<noteq> []" "str_bytes ''cpu@0'' \<noteq> []" "str_bytes ''cpu@1'' \<noteq> []" by (simp_all add: str_bytes_def)
  moreover have "cells_wf (str_at board_strings) (snd n)" if "n \<in> set (nodes board_tree)" for n
    using that by (auto simp: board_nodes cells_wf_def board_cpus_def board_memory_def board_names example_tags board_tags)
  moreover have "fst p < length board_strings \<and> 0 \<in> set (drop (fst p) board_strings)" if "n \<in> set (nodes board_tree)" "p \<in> set (snd n)" for n p
    using that z by (auto simp: board_nodes board_cpus_def board_memory_def len) (use z [of 0] in simp)+
  ultimately show ?thesis
    unfolding blob_ok_def by (simp add: board_nodes(2)) (simp add: board_nodes(1))
qed

definition board_core :: "nat \<Rightarrow> core" where
  "board_core i = core_new\<lparr>core_id := i, enable_method := SpinTable\<rparr>"

lemma board_cores: "cores_ok w board_tree board_strings" "kept_cores w (str_at board_strings) board_tree = [board_core 0, board_core 1]"
proof -
  have st: "foldl (cpus_step (str_at board_strings)) (0, InvalidMethod) board_cpus = (1, SpinTable)"
    using small_cell [of 1] by (simp add: board_cpus_def cpus_step_def board_names board_tags)
  have n: "str_bytes ''cpu@0'' \<noteq> str_bytes ''cpus''" "str_bytes ''cpu@1'' \<noteq> str_bytes ''cpus''" "str_bytes ''memory'' \<noteq> str_bytes ''cpus''" "[] \<noteq> str_bytes ''cpus''"
      "core_name (str_bytes ''cpu@0'')" "core_name (str_bytes ''cpu@1'')" "\<not> core_name (str_bytes ''memory'')" "\<not> core_name []"
    by (simp_all add: core_name_def str_bytes_def)
  have nc: "node_core w (str_at board_strings) SpinTable [(39, be32 i)] = board_core i" if "i < 2" for i
    using small_cell [of i] that usize_lim_ge [of w] by (simp add: node_core_def is_reg_def board_names board_core_def core_new_def)
  have tc: "tree_cores w (str_at board_strings) (0, InvalidMethod) (nodes board_tree) = [board_core 0, board_core 1]"
    using nc [of 0] nc [of 1] by (simp add: board_nodes n st)
  then show k: "kept_cores w (str_at board_strings) board_tree = [board_core 0, board_core 1]" by (cases w) (simp_all add: kept_cores_def)
  have "\<forall>p\<in>set board_cpus. cpus_prop_ok (str_at board_strings) p"
    using small_cell [of 0] by (simp add: board_cpus_def cpus_prop_ok_def board_names board_tags enable_value_def)
  moreover have "cpu_node_ok w (str_at board_strings) 1 [(39, be32 i)]" if "i < 2" for i
    using small_cell [of i] that by (simp add: cpu_node_ok_def is_reg_def board_names FDT_PROP_def FDT_NOOP_def)
  ultimately have "core_nodes_ok w (str_at board_strings) (0, InvalidMethod) (nodes board_tree)" by (simp add: board_nodes n st)
  then show "cores_ok w board_tree board_strings" using k by (simp add: cores_ok_def board_core_def)
qed

definition board_mem :: memory where
  "board_mem a = (case map_of [(0x1000, 0xffff000000000000), (0x1008, 4096), (0x1010, 0x8080000), (0x1018, 0x100000), (0x1020, 0x200000),
       (0x1028, 0x80000), (0x1030, 0x10000), (0x1038, 0x60000), (0x1040, 4)] a of None \<Rightarrow> 0 | Some v \<Rightarrow> v)"

abbreviation board_bytes :: "usize \<Rightarrow> byte" where
  "board_bytes a \<equiv> dtb_bytes board_tree board_strings ! (a - 0xffff000008080000)"

lemma board_config: "a64_read_config board_mem 0x1000 = example_config"
  by (simp add: a64_read_config_def board_mem_def example_config_def)

lemma board_sections:
  assumes "n < 0x100000"
  shows "section_up (0x300000 :: nat) = 0x400000" "section_up (0x8080000 + n) = 0x8200000 \<or> n = 0" "section_down 0x8080000 = 0x8000000"
proof -
  have m: "mask 21 = (0x1fffff :: nat)" by (simp add: mask_eq_exp_minus_1)
  show "section_up (0x300000 :: nat) = 0x400000" "section_down 0x8080000 = 0x8000000" by (simp_all add: section_up_def section_down_def m)
  have "(0x8080000 + n + 0x1fffff) div 0x200000 = 65" using assms by simp
  then show "section_up (0x8080000 + n) = 0x8200000 \<or> n = 0" by (simp add: section_up_def m)
qed

lemma board_available:
  assumes "0 < n" "n < 0x100000"
  shows "available_ranges [(0x400000, 0x4000000), (0x8000000, 0x100000)] (boot_exclusions W64 example_config n) = [linear_range (0x400000, 0x4000000)]"
proof -
  let ?a = "linear_range (0x400000, 0x4000000)" and ?b = "linear_range (0x8000000, 0x100000)"
  have "foldl (\<lambda>rs p. insert_live (linear_range p) rs) [] [(0x400000, 0x4000000), (0x8000000, 0x100000)] = [?a, ?b]"
    by (simp add: insert_live_def linear_range_def)
  moreover have "boot_exclusions W64 example_config n = [excl_range 0xffff000000000000 0x1000000000000, excl_range 0 0x400000, excl_range 0x8000000 0x200000]"
    using board_sections [OF assms(2)] assms(1) by (simp add: boot_exclusions_def example_config_def)
  moreover have "without_range [?a, ?b] (excl_range 0xffff000000000000 0x1000000000000) = [?a, ?b]" "without_range [?a, ?b] (excl_range 0 0x400000) = [?a, ?b]"
      "without_range [?a, ?b] (excl_range 0x8000000 0x200000) = [?a]"
    by (simp_all add: without_range_def nonempty_def pieces_def exclude_parts_def ordering_of_def linear_range_def excl_range_def)
  ultimately show ?thesis by (simp add: available_ranges_def)
qed

lemma board_tables:
  "\<exists>a. boot_allocator W64 example_config (6 * page_size) = Some a \<and> tables_ok example_config board_mem a [linear_range (0x400000, 0x4000000)]
     \<and> (\<forall>va. walk 3 board_mem 0xffff000000000000 0x80000 va = None)"
proof -
  obtain a where a: "buffered_new W64 1 0x86000 0x90000 4096 = Some a" "table_pool 0xffff000000000000 a" "free_pages a = 10"
      "held (bp_area a) (bp_blocks W64 a) {0x80000}" using boot_example by blast
  have "board_mem (0xffff000000080000 + x) = 0" for x by (simp add: board_mem_def)
  then have z: "table_get board_mem 0xffff000000080000 i = 0" for i by (simp add: table_get_def)
  have e: "tables 3 board_mem 0xffff000000000000 0x80000 = {0x80000}" "tree_ok 3 board_mem 0xffff000000000000 0x80000"
      "walk 3 board_mem 0xffff000000000000 0x80000 va = None" for va
    using z by (simp_all add: numeral_3_eq_3 ptrs_def leaf_def Let_def table_at_def)
  have v: "kc_virtual_base example_config = 0xffff000000000000" "kc_kernel_pages_start example_config = 0x80000"
    by (simp_all add: example_config_def)
  have "mappable 0xffff000000000000 (linear_range (0x400000, 0x4000000))"
    by (simp add: mappable_def linear_range_def numeral_3_eq_3 esz_def)
  then have "tables_ok example_config board_mem a [linear_range (0x400000, 0x4000000)]"
    using a e by (simp add: tables_ok_def v)
  moreover have "boot_allocator W64 example_config (6 * page_size) = Some a" using a(1) by (simp add: boot_allocator_def example_config_def page_size_def)
  ultimately show ?thesis using e(3) by blast
qed

section \<open>Properties\<close>

text \<open>
  \<^bold>\<open>C9\<close> From the bytes of the device tree to the core configuration, on both architectures. Take a flattened device tree whose nodes \<open>cpus\<close> and \<open>cpu@N\<close> are
  well formed: one or two address cells, no size cells, known enable methods, and in front of the properties that are ignored a \<open>reg\<close> that does not begin with
  the word of a property or no-op marker. Then \<open>init_core_config\<close> does not panic if there is a core and each has an enable method, its own or the default of \<open>cpus\<close>, and panics otherwise. The configuration
  keeps its invariant and holds the first \<open>MAX_CORES\<close> cores of the tree and no other, and the core that runs is at index 0 if it is one of them.
\<close>

theorem init_core_config_correct:
  assumes "blob_at bytes blob (dtb_bytes t strs)" "blob_ok t strs" "cores_ok w t strs" "cc_inv w (dt_cores dt)"
  shows "\<exists>c. init_core_config w bytes pid dt blob = (if cores_enabled (kept_cores w (str_at strs) t) then Some (dt\<lparr>dt_cores := c\<rparr>) else None)
    \<and> cc_inv w c \<and> get_core_count c = length (kept_cores w (str_at strs) t) \<and> set (live_cores c) = set (kept_cores w (str_at strs) t)
    \<and> (\<forall>k\<in>set (kept_cores w (str_at strs) t). core_id k = pid \<longrightarrow> cc_cores c ! 0 = k)"
  by (rule init_core_config_eq [OF assms])

theorem init_core_config_correct_witness:
  "\<exists>c. init_core_config W32 board_bytes 1 (device_tree_new W32) 0xffff000008080000 = Some ((device_tree_new W32)\<lparr>dt_cores := c\<rparr>)
    \<and> get_core_count c = 2 \<and> cc_cores c ! 0 = board_core 1"
proof -
  have b: "blob_at board_bytes 0xffff000008080000 (dtb_bytes board_tree board_strings)" by (simp add: blob_at_def)
  have d: "cc_inv W32 (dt_cores (device_tree_new W32))" using cc_inv_new [of W32] by (simp add: device_tree_new_def)
  from init_core_config_correct [OF b board_blob_ok board_cores(1) d, of 1] show ?thesis
    by (auto simp: board_cores(2) cores_enabled_def board_core_def)
qed

text \<open>
  \<^bold>\<open>C1\<close> Start-up on AArch64 without serial output, from the bytes of the device tree to the page tables. Let the kernel configuration be consistent, the device tree give
  well-formed cores, each with an enable method, and at most 61 disjoint memory ranges, and let the boot code's tables leave the available memory unmapped and enough pages
  for tables. Then \<open>init\<close> returns for any number of rounds of its loops above a bound. The cores are those of the device tree, with the primary core at index 0. The memory configuration is valid
  and disjoint and contains exactly the addresses of the device tree's memory that are below the virtual base, not in a section of the blob and not before the end of the
  kernel's last section. The stack area has room for a stack and a guard page per core and ends at the page database. Every available address is mapped to itself below the virtual base as normal memory, and every other address is
  translated as the boot code's tables did.
\<close>

theorem a64_init_correct:
  assumes config: "k = a64_read_config mem config_addr" "config_addr \<noteq> 0" "\<not> as_initialized s" "as_device_tree s = device_tree_new W64"
    and blob: "blob_at bytes (kc_virtual_base k + kc_blob k) (dtb_bytes t strs)" "blob_ok t strs" "kernel_ok k (length (dtb_bytes t strs))"
    and cores: "cores_ok W64 t strs" "cores_enabled (kept_cores W64 (str_at strs) t)" "stacks_ok k (length (kept_cores W64 (str_at strs) t))"
    and mem: "memory_ok t strs" "boot_allocator W64 k (6 * page_size) = Some a"
      "tables_ok k mem a (available_ranges (tree_ranges W64 (str_at strs) t) (boot_exclusions W64 k (length (dtb_bytes t strs))))"
  shows "\<exists>s' n. as_initialized s' \<and> as_kernel_config s' = k
    \<and> set (live_cores (dt_cores (as_device_tree s'))) = set (kept_cores W64 (str_at strs) t) \<and> cc_inv W64 (dt_cores (as_device_tree s'))
    \<and> (\<forall>c\<in>set (kept_cores W64 (str_at strs) t). core_id c = cpu_id \<longrightarrow> cc_cores (dt_cores (as_device_tree s')) ! 0 = c)
    \<and> config_ok W64 (2 ^ 64) (dt_memory (as_device_tree s')) \<and> rs_disjoint (dt_memory (as_device_tree s'))
    \<and> rs_addrs (dt_memory (as_device_tree s')) = (\<Union>p\<in>set (tree_ranges W64 (str_at strs) t). pair_addrs p) - boot_reserved W64 k (length (dtb_bytes t strs))
    \<and> as_isr_stack_area_size s' = (kc_kernel_stack_pages k + 1) * 2 ^ 12 * length (kept_cores W64 (str_at strs) t)
    \<and> as_isr_stack_area_virtual_base s' + as_isr_stack_area_size s' = A64_PAGE_DATABASE_VIRTUAL_BASE
    \<and> (\<forall>fuel>n. \<exists>a' mem'. a64_init fuel False bytes cpu_id (s, mem) config_addr = Inr (s', a', mem')
         \<and> (\<forall>va. walk 3 mem' (kc_virtual_base k) (kc_kernel_pages_start k) va =
              (if va mod 2 ^ 48 \<in> rs_addrs (dt_memory (as_device_tree s')) then Some (va mod 2 ^ 48, 0) else walk 3 mem (kc_virtual_base k) (kc_kernel_pages_start k) va))
         \<and> tree_ok 3 mem' (kc_virtual_base k) (kc_kernel_pages_start k))"
proof -
  define vb root where "vb = kc_virtual_base k" and "root = kc_kernel_pages_start k"
  let ?n = "length (dtb_bytes t strs)" and ?L = "kept_cores W64 (str_at strs) t" and ?bv = "kc_virtual_base k + kc_blob k"
  have k: "kc_page_size k = page_size" "is_power_of_2 (kc_kernel_stack_pages k)" "boot_layout_ok W64 k ?n" "?bv < usize_lim W64" "2 ^ 48 dvd vb"
    using blob(3) by (simp_all add: kernel_ok_def vb_def)
  let ?s1 = "s\<lparr>as_initialized := True, as_kernel_config := k\<rparr>"
  have inv: "cc_inv W64 (dt_cores (as_device_tree s))" using config(4) cc_inv_new by (simp add: device_tree_new_def)
  obtain c where c: "init_core_config W64 bytes cpu_id (as_device_tree ?s1) ?bv = Some ((as_device_tree s)\<lparr>dt_cores := c\<rparr>)"
      "cc_inv W64 c" "get_core_count c = length ?L" "set (live_cores c) = set ?L" "\<forall>k\<in>set ?L. core_id k = cpu_id \<longrightarrow> cc_cores c ! 0 = k"
    using init_core_config_eq [OF blob(1,2) cores(1) inv, of cpu_id] cores(2) by auto
  let ?s2 = "?s1\<lparr>as_serial_base := as_serial_base s, as_device_tree := (as_device_tree s)\<lparr>dt_cores := c\<rparr>\<rparr>"
  have m: "tree_ranges W64 (str_at strs) t \<noteq> []" "length (tree_ranges W64 (str_at strs) t) \<le> 61" "usize_max W64 \<notin> (\<Union>p\<in>set (tree_ranges W64 (str_at strs) t). pair_addrs p)"
      "sorted_wrt (\<lambda>p q. pair_addrs p \<inter> pair_addrs q = {}) (tree_ranges W64 (str_at strs) t)"
    using mem(1) by (simp_all add: memory_ok_def Let_def)
  obtain s' n where s': "\<forall>fuel>n. a64_init_memory_config fuel bytes ?s2 ?bv ?n = Inr s'" "as_kernel_config s' = k" "as_initialized s'" "dt_cores (as_device_tree s') = c"
      "live (dt_memory (as_device_tree s')) = available_ranges (tree_ranges W64 (str_at strs) t) (boot_exclusions W64 k ?n)"
      "config_ok W64 (2 ^ 64) (dt_memory (as_device_tree s'))" "rs_disjoint (dt_memory (as_device_tree s'))"
      "rs_addrs (dt_memory (as_device_tree s')) = (\<Union>p\<in>set (tree_ranges W64 (str_at strs) t). pair_addrs p) - boot_reserved W64 k ?n"
      "as_isr_stack_area_size s' = (kc_kernel_stack_pages k + 1) * 2 ^ 12 * length ?L"
      "as_isr_stack_area_virtual_base s' + as_isr_stack_area_size s' = A64_PAGE_DATABASE_VIRTUAL_BASE"
    using a64_memory_available [OF blob(1,2) m(1,2,4,3), of ?s2 ?n] k(3) config(4) cores(3) c(3) by (auto simp: stacks_ok_def device_tree_new_def)
  let ?c = "dt_memory (as_device_tree s')"
  have v: "rs_valid W64 ?c" "rs_count ?c = length (live ?c)" using s'(6) live_length [of ?c] by (auto simp: config_ok_def rs_valid_def)
  have tb: "\<forall>r\<in>set (live ?c). mappable vb r" "table_pool vb a" "3 * rs_count ?c \<le> free_pages a" "tree_ok 3 mem vb root" "held (bp_area a) (bp_blocks W64 a) (tables 3 mem vb root)"
      "\<forall>va. va mod 2 ^ 48 \<in> rs_addrs ?c \<longrightarrow> walk 3 mem vb root va = None"
    using mem(3) unfolding v(2) s'(5) [symmetric] by (simp_all add: tables_ok_def Let_def vb_def root_def rs_addrs_def)
  have "\<exists>a' mem'. a64_init fuel False bytes cpu_id (s, mem) config_addr = Inr (s', a', mem')
      \<and> (\<forall>va. walk 3 mem' vb root va = (if va mod 2 ^ 48 \<in> rs_addrs ?c then Some (va mod 2 ^ 48, 0) else walk 3 mem vb root va)) \<and> tree_ok 3 mem' vb root"
    if f: "max n 514 < fuel" for fuel
  proof -
    obtain a' mem' where d: "a64_init_direct_map (buffered_alloc W64) fuel s' (a, mem) = Inr (a', mem')"
        "\<forall>va. walk 3 mem' vb root va = (if va mod 2 ^ 48 \<in> rs_addrs ?c then Some (va mod 2 ^ 48, 0) else walk 3 mem vb root va)" "tree_ok 3 mem' vb root"
      using init_direct_map_ok [OF v(1) s'(7) tb(1) _ _ k(5) tb(2-6), of fuel] f s'(2) by (auto simp: vb_def root_def)
    have "a64_init_memory_config fuel bytes ?s2 ?bv ?n = Inr s'" using s'(1) f by simp
    then have "a64_init fuel False bytes cpu_id (s, mem) config_addr = Inr (s', a', mem')"
      using config(2,3) mem(2) k(1,2) find_blob_ok [OF blob(1,2) k(4)] c(1) d(1)
      by (simp add: a64_init_def config(1) [symmetric] Let_def)
    with d(2,3) show ?thesis by blast
  qed
  then show ?thesis unfolding vb_def root_def using s'(2-4,6-10) c(2,4,5) by (intro exI [of _ s'] exI [of _ "max n 514"]) simp
qed

theorem a64_init_correct_witness:
  "\<exists>s' fuel a' mem'. a64_init fuel False board_bytes 1 (a64_statics_initial, board_mem) 0x1000 = Inr (s', a', mem')
    \<and> cc_cores (dt_cores (as_device_tree s')) ! 0 = board_core 1 \<and> rs_addrs (dt_memory (as_device_tree s')) = {0x400000 ..< 0x4400000}
    \<and> walk 3 mem' 0xffff000000000000 0x80000 0xffff000000412345 = Some (0x412345, 0) \<and> walk 3 mem' 0xffff000000000000 0x80000 0xffff000008012345 = None"
proof -
  let ?n = "length (dtb_bytes board_tree board_strings)"
  have n: "0 < ?n" "?n < 0x100000" using board_length by simp_all
  have v: "kc_virtual_base example_config = 0xffff000000000000" "kc_blob example_config = 0x8080000" "kc_kernel_pages_start example_config = 0x80000"
    by (simp_all add: example_config_def)
  have blob: "blob_at board_bytes (kc_virtual_base example_config + kc_blob example_config) (dtb_bytes board_tree board_strings)" by (simp add: blob_at_def v)
  have k: "kernel_ok example_config ?n"
    using n by (simp add: kernel_ok_def example_config_def page_size_def is_power_of_2_def boot_layout_ok_def)
  have ok: "cores_enabled (kept_cores W64 (str_at board_strings) board_tree)" "stacks_ok example_config (length (kept_cores W64 (str_at board_strings) board_tree))" "memory_ok board_tree board_strings"
    by (simp_all add: board_cores(2) cores_enabled_def board_core_def stacks_ok_def example_config_def A64_PAGE_DATABASE_VIRTUAL_BASE_def memory_ok_def board_ranges pair_addrs_def usize_max_def)
  obtain a where a: "boot_allocator W64 example_config (6 * page_size) = Some a" "tables_ok example_config board_mem a [linear_range (0x400000, 0x4000000)]"
      "\<forall>va. walk 3 board_mem 0xffff000000000000 0x80000 va = None"
    using board_tables by blast
  have t: "tables_ok example_config board_mem a (available_ranges (tree_ranges W64 (str_at board_strings) board_tree) (boot_exclusions W64 example_config ?n))"
    using a(2) by (simp add: board_ranges board_available [OF n])
  have s: "\<not> as_initialized a64_statics_initial" "as_device_tree a64_statics_initial = device_tree_new W64" by (simp_all add: a64_statics_initial_def)
  have r: "(\<Union>p\<in>set (tree_ranges W64 (str_at board_strings) board_tree). pair_addrs p) - boot_reserved W64 example_config ?n = {0x400000 ..< 0x4400000}"
    using board_sections [OF n(2)] n(1) by (auto simp: board_ranges pair_addrs_def boot_reserved_def example_config_def)
  have z: "(0x1000 :: nat) \<noteq> 0" by simp
  obtain s' m where m: "\<forall>c\<in>set [board_core 0, board_core 1]. core_id c = 1 \<longrightarrow> cc_cores (dt_cores (as_device_tree s')) ! 0 = c" "rs_addrs (dt_memory (as_device_tree s')) = {0x400000 ..< 0x4400000}"
      "\<forall>fuel>m. \<exists>a' mem'. a64_init fuel False board_bytes 1 (a64_statics_initial, board_mem) 0x1000 = Inr (s', a', mem')
         \<and> (\<forall>va. walk 3 mem' 0xffff000000000000 0x80000 va =
              (if va mod 2 ^ 48 \<in> rs_addrs (dt_memory (as_device_tree s')) then Some (va mod 2 ^ 48, 0) else None))
         \<and> tree_ok 3 mem' 0xffff000000000000 0x80000"
    using a64_init_correct [OF board_config [symmetric] z s blob board_blob_ok k board_cores(1) ok a(1) t, of 1, unfolded r v a(3) [rule_format] board_cores(2)] by blast
  have c: "cc_cores (dt_cores (as_device_tree s')) ! 0 = board_core 1" using m(1) by (simp add: board_core_def)
  from m(3) obtain a' mem' where "a64_init (Suc m) False board_bytes 1 (a64_statics_initial, board_mem) 0x1000 = Inr (s', a', mem')"
      "\<forall>va. walk 3 mem' 0xffff000000000000 0x80000 va = (if va mod 2 ^ 48 \<in> {0x400000 ..< 0x4400000} then Some (va mod 2 ^ 48, 0) else None)"
    unfolding m(2) by blast
  with c m(2) show ?thesis by (intro exI [of _ s'] exI [of _ "Suc m"] exI [of _ a'] exI [of _ mem']) simp
qed

end
