(* ===== verification/Arm_Props.thy ===== *)
theory Arm_Props
  imports Arm_Tables Page_Walks
begin

text \<open>
  The descriptors of the ARM tables and the direct map of whole sections with the 3/1 split, where the kernel's gigabyte has a single level 2 table.
\<close>

section \<open>Descriptors\<close>

definition lsh :: "table_level_long \<Rightarrow> nat" where
  "lsh l = (case l of L1 \<Rightarrow> 30 | L2 \<Rightarrow> 21 | L3 \<Rightarrow> 12)"

lemma lsh_bounds: "12 \<le> lsh l" "lsh l < 32"
  by (cases l; simp add: lsh_def)+

definition round_down :: "nat \<Rightarrow> nat \<Rightarrow> nat" where
  "round_down k a = a div 2 ^ k * 2 ^ k"

lemma round_down_dvd: "k \<le> m \<Longrightarrow> 2 ^ k dvd round_down m a"
  by (simp add: round_down_def le_imp_power_dvd dvd_mult)

lemma round_down_le: "round_down k a \<le> a"
  by (simp add: round_down_def)

lemma long_mask_fields:
  assumes "x < 2 ^ 32"
  shows "x AND TABLE_OR_PAGE_LOW_MASK_LONG = round_down 12 x" "x AND LEVEL_2_BLOCK_LOW_MASK_LONG = round_down 21 x"
    "x AND LEVEL_1_BLOCK_LOW_MASK_LONG = round_down 30 x"
proof -
  have m: "TABLE_OR_PAGE_LOW_MASK_LONG = push_bit 12 (mask 20)" "LEVEL_2_BLOCK_LOW_MASK_LONG = push_bit 21 (mask 11)" "LEVEL_1_BLOCK_LOW_MASK_LONG = push_bit 30 (mask 2)"
    by (simp_all add: TABLE_OR_PAGE_LOW_MASK_LONG_def LEVEL_2_BLOCK_LOW_MASK_LONG_def LEVEL_1_BLOCK_LOW_MASK_LONG_def mask_eq_exp_minus_1 push_bit_eq_mult)
  have r: "x div 2 ^ 12 mod 2 ^ 20 = x div 2 ^ 12" "x div 2 ^ 21 mod 2 ^ 11 = x div 2 ^ 21" "x div 2 ^ 30 mod 2 ^ 2 = x div 2 ^ 30"
    using assms by (intro mod_less; simp add: less_mult_imp_div_less)+
  show "x AND TABLE_OR_PAGE_LOW_MASK_LONG = round_down 12 x" "x AND LEVEL_2_BLOCK_LOW_MASK_LONG = round_down 21 x"
      "x AND LEVEL_1_BLOCK_LOW_MASK_LONG = round_down 30 x"
    unfolding m and_field r round_down_def by (rule refl)+
qed

definition dflag :: "table_level_long \<Rightarrow> nat" where
  "dflag l = (if l = L3 then 3 else 1)"

lemma make_descriptor_long_eq:
  assumes "pa < 2 ^ 32"
  shows "make_descriptor_long l pa dev = Some (round_down (lsh l) pa + (mair_of dev * 4 + 1024 + dflag l), 0)"
proof -
  have "4096 dvd round_down (lsh l) pa" using round_down_dvd [of 12 "lsh l" pa] lsh_bounds(1) by simp
  then have "((round_down (lsh l) pa OR push_bit 2 (mair_of dev)) OR push_bit 10 1) OR dflag l = round_down (lsh l) pa + (mair_of dev * 4 + 1024 + dflag l)"
    by (rule or_flags) (simp_all add: mair_of_def dflag_def)
  moreover have "(if dev then MM_DEVICE_MAIR_IDX_LONG else MM_NORMAL_MAIR_IDX_LONG) = mair_of dev"
    by (simp add: mair_of_def MM_DEVICE_MAIR_IDX_LONG_def MM_NORMAL_MAIR_IDX_LONG_def)
  ultimately show ?thesis
    by (cases l) (simp_all add: make_descriptor_long_def long_mask_fields [OF assms] lsh_def dflag_def make_block_descriptor_long_def make_page_descriptor_long_def
      MM_ACCESS_FLAG_LONG_def MM_BLOCK_FLAG_LONG_def MM_PAGE_FLAG_LONG_def)
qed

lemma long_type_mask: "desc AND TYPE_MASK_LONG = desc mod 4"
  using type_mask by (simp add: TYPE_MASK_LONG_def TYPE_MASK_def)

lemma round_down_plus:
  assumes "2 ^ k dvd a" "b < 2 ^ k"
  shows "round_down k (a + b) = a"
proof -
  obtain q where "a = 2 ^ k * q" using assms(1) by blast
  then show ?thesis using assms(2) by (simp add: round_down_def)
qed

lemma phys_addr_long:
  assumes "2 ^ lsh l dvd a" "a < 2 ^ 32" "b < 4096" "(a + b) mod 4 = 3 \<or> (a + b) mod 4 = 1 \<and> l \<noteq> L3"
  shows "a + b < 2 ^ 32" "get_phys_addr_from_descriptor_long l (a + b) 0 = Some a"
proof -
  have d: "2 ^ 12 dvd a" using assms(1) le_imp_power_dvd [OF lsh_bounds(1)] dvd_trans by blast
  then obtain q where q: "a = 4096 * q" by auto
  with assms(2) have "q < 2 ^ 20" by simp
  then show lim: "a + b < 2 ^ 32" using assms(3) by (simp add: q)
  have "2 ^ 12 \<le> (2 ^ lsh l :: nat)" using lsh_bounds(1) by (intro power_increasing) simp_all
  then have "b < 2 ^ lsh l" using assms(3) by simp
  then have "round_down (lsh l) (a + b) = a" "round_down 12 (a + b) = a" using round_down_plus assms(1,3) d by simp_all
  then show "get_phys_addr_from_descriptor_long l (a + b) 0 = Some a"
    using assms(4) by (cases l) (auto simp: get_phys_addr_from_descriptor_long_def long_type_mask long_mask_fields [OF lim] lsh_def MM_PAGE_TABLE_FLAG_LONG_def MM_BLOCK_FLAG_LONG_def)
qed

text \<open>
  \<^bold>\<open>C29\<close> The descriptors of the ARM tables are well formed. For every physical address of 32 bits, \<open>make_descriptor\<close> gives two words of 32 bits with the type of its level
  (a page at level 3, a block above it), the requested memory type and the access flag; it is not taken for a table pointer, and decoding it gives the start of
  the page or block that contains the address. For a page-aligned address, \<open>make_pointer_descriptor\<close> gives a pointer above level 3 that decodes to the address.
\<close>

theorem long_descriptors_wf:
  assumes "pa < 2 ^ 32"
  shows "(\<exists>d. make_descriptor_long l pa dev = Some (d, 0) \<and> d < 2 ^ 32 \<and> d mod 4 = (if l = L3 then 3 else 1) \<and> attr_index d = mair_of dev \<and> accessible d
      \<and> \<not> is_pointer_entry_long l d 0 \<and> get_phys_addr_from_descriptor_long l d 0 = Some (pa div get_table_entry_size_long l * get_table_entry_size_long l))
    \<and> (4096 dvd pa \<and> l \<noteq> L3 \<longrightarrow> (\<exists>d. make_pointer_descriptor l pa = Some (Some (d, 0)) \<and> d < 2 ^ 32 \<and> is_pointer_entry_long l d 0
      \<and> get_phys_addr_from_descriptor_long l d 0 = Some pa))"
proof
  let ?a = "round_down (lsh l) pa" and ?b = "mair_of dev * 4 + 1024 + dflag l"
  have a: "2 ^ lsh l dvd ?a" "4096 dvd ?a" "?a < 2 ^ 32"
    using round_down_dvd [of "lsh l" "lsh l" pa] round_down_dvd [of 12 "lsh l" pa] lsh_bounds(1) [of l] round_down_le [of "lsh l" pa] assms by simp_all
  have f: "(?a + ?b) mod 4 = dflag l" "attr_index (?a + ?b) = mair_of dev" "accessible (?a + ?b)"
    using descriptor_fields [OF a(2), of "dflag l" dev] by (simp_all add: dflag_def)
  have b: "?b < 4096" by (simp add: mair_of_def dflag_def)
  have t: "(?a + ?b) mod 4 = 3 \<or> (?a + ?b) mod 4 = 1 \<and> l \<noteq> L3" unfolding f(1) by (simp add: dflag_def)
  have e: "get_table_entry_size_long l = 2 ^ lsh l"
    by (cases l) (simp_all add: get_table_entry_size_long_def lsh_def LEVEL_1_SHIFT_LONG_def LEVEL_2_SHIFT_LONG_def LEVEL_3_SHIFT_LONG_def LEVEL_2_TABLE_SHIFT_LONG_def
      LEVEL_3_TABLE_SHIFT_LONG_def page_shift_def page_size_def push_bit_eq_mult)
  have "\<not> is_pointer_entry_long l (?a + ?b) 0"
    using f(1) by (cases l) (simp_all add: is_pointer_entry_long_def long_type_mask MM_PAGE_TABLE_FLAG_LONG_def dflag_def)
  with phys_addr_long [OF a(1,3) b t] make_descriptor_long_eq [OF assms] f
  show "\<exists>d. make_descriptor_long l pa dev = Some (d, 0) \<and> d < 2 ^ 32 \<and> d mod 4 = (if l = L3 then 3 else 1) \<and> attr_index d = mair_of dev \<and> accessible d
      \<and> \<not> is_pointer_entry_long l d 0 \<and> get_phys_addr_from_descriptor_long l d 0 = Some (pa div get_table_entry_size_long l * get_table_entry_size_long l)"
    unfolding e round_down_def [symmetric] dflag_def [symmetric] by blast
next
  show "4096 dvd pa \<and> l \<noteq> L3 \<longrightarrow> (\<exists>d. make_pointer_descriptor l pa = Some (Some (d, 0)) \<and> d < 2 ^ 32 \<and> is_pointer_entry_long l d 0
      \<and> get_phys_addr_from_descriptor_long l d 0 = Some pa)"
  proof
    assume l: "4096 dvd pa \<and> l \<noteq> L3"
    have "is_aligned W32 pa page_size = Some True" using is_aligned_eq [of pa W32 12] l assms by (simp add: page_size_def)
    moreover have o: "((pa OR push_bit 2 0) OR push_bit 10 1) OR 3 = pa + (0 * 4 + 1024 + 3)" using l by (intro or_flags) simp_all
    moreover have m: "(pa + (0 * 4 + 1024 + 3)) mod 4 = 3" using descriptor_fields(1) [of pa 3 False] l by (simp add: mair_of_def)
    have lim: "pa + (0 * 4 + 1024 + 3) < 2 ^ 32" using phys_addr_long(1) [of L3 pa "0 * 4 + 1024 + 3"] l assms m by (simp add: lsh_def)
    have "get_phys_addr_from_descriptor_long l (pa + (0 * 4 + 1024 + 3)) 0 = Some pa"
      using m round_down_plus [of 12 pa "0 * 4 + 1024 + 3"] l by (simp add: get_phys_addr_from_descriptor_long_def long_type_mask MM_PAGE_TABLE_FLAG_LONG_def long_mask_fields(1) [OF lim, simplified])
    moreover have "is_pointer_entry_long l (pa + (0 * 4 + 1024 + 3)) 0"
      using l m by (cases l) (simp_all add: is_pointer_entry_long_def long_type_mask MM_PAGE_TABLE_FLAG_LONG_def)
    ultimately show "\<exists>d. make_pointer_descriptor l pa = Some (Some (d, 0)) \<and> d < 2 ^ 32 \<and> is_pointer_entry_long l d 0
      \<and> get_phys_addr_from_descriptor_long l d 0 = Some pa"
      using lim l by (cases l) (simp_all add: make_pointer_descriptor_def MM_NORMAL_MAIR_IDX_LONG_def MM_ACCESS_FLAG_LONG_def MM_PAGE_TABLE_FLAG_LONG_def)
  qed
qed

theorem long_descriptors_wf_witness:
  "\<exists>d. make_descriptor_long L2 0x40212345 True = Some (d, 0) \<and> d mod 4 = 1 \<and> get_phys_addr_from_descriptor_long L2 d 0 = Some 0x40200000"
proof -
  have "get_table_entry_size_long L2 = 0x200000"
    by (simp add: get_table_entry_size_long_def LEVEL_2_SHIFT_LONG_def LEVEL_3_SHIFT_LONG_def LEVEL_3_TABLE_SHIFT_LONG_def page_shift_def push_bit_eq_mult)
  then show ?thesis using long_descriptors_wf [of "0x40212345" L2 True] by auto
qed

section \<open>Mapping sections\<close>

text \<open>The translation by the blocks of a level 2 table.\<close>

definition section_walk :: "memory \<Rightarrow> usize \<Rightarrow> usize \<Rightarrow> (usize \<times> usize) option" where
  "section_walk mem table va =
     (let i = get_descriptor_index_long va L2; d = word_get mem table i
      in if d mod 4 = 1 \<and> accessible d \<and> word_get mem table (i + 1) = 0 then Some (round_down 21 d + va mod 2 ^ 21, attr_index d) else None)"

lemma word_get_set: "word_get (desc_set mem t i d) t j = (if j = i + 1 then snd d else if j = i then fst d else word_get mem t j)"
  by (auto simp: word_get_def desc_set_def)

lemma desc_set_frame:
  assumes "i + 1 < 1024" "x \<notin> {t ..< t + 4096}"
  shows "desc_set mem t i d x = mem x"
  using assms by (auto simp: desc_set_def)

lemma index_long: "get_descriptor_index_long v L2 = v div 2 ^ 21 mod 512 * 2"
proof -
  have m: "LEVEL_2_INDEX_MASK_LONG = mask 9" by (simp add: LEVEL_2_INDEX_MASK_LONG_def LEVEL_2_TABLE_SHIFT_LONG_def mask_eq_exp_minus_1 push_bit_eq_mult)
  show ?thesis
    by (simp add: get_descriptor_index_long_def m LEVEL_2_SHIFT_LONG_def LEVEL_3_SHIFT_LONG_def LEVEL_3_TABLE_SHIFT_LONG_def page_shift_def drop_bit_eq_div
      take_bit_eq_mask [symmetric] take_bit_eq_mod push_bit_eq_mult)
qed

lemma quot_rem: "m < d \<Longrightarrow> (m + d * c) div d = c" "m < d \<Longrightarrow> (m + d * c) mod d = m" for m d c :: nat
  by simp_all

text \<open>The loop on \<open>k\<close> sections writes the descriptors one after another.\<close>

fun section_fill :: "memory \<Rightarrow> usize \<Rightarrow> bool \<Rightarrow> usize \<Rightarrow> usize \<Rightarrow> nat \<Rightarrow> memory" where
  "section_fill mem t dev i b 0 = mem"
| "section_fill mem t dev i b (Suc k) =
     section_fill (desc_set mem t (i * 2) (b + (mair_of dev * 4 + 1024 + 1), 0)) t dev (i + 1) (b + 2 ^ 21) k"

lemma compact_sections:
  assumes "2 ^ 21 dvd v" "2 ^ 21 dvd b" "v + k * 2 ^ 21 < 2 ^ 32" "b + k * 2 ^ 21 < 2 ^ 32" "k \<le> m" "k = 0 \<or> v div 2 ^ 21 mod 512 = i" "i + k \<le> 512"
  shows "compact_loop_long al n vb dev (a, mem) L2 t m v b (k * 2 ^ 21) = Inr (a, section_fill mem t dev i b k)"
  using assms
proof (induction k arbitrary: m mem v b i)
  case 0
  then show ?case by (subst compact_loop_long.simps) (simp add: page_size_def)
next
  case (Suc k)
  obtain m' where m: "m = Suc m'" using Suc.prems(5) by (cases m) simp_all
  have z: "get_table_entry_size_long L2 = 2 ^ 21"
    by (simp add: get_table_entry_size_long_def LEVEL_2_SHIFT_LONG_def LEVEL_3_SHIFT_LONG_def LEVEL_3_TABLE_SHIFT_LONG_def page_shift_def push_bit_eq_mult)
  have v: "v < 2 ^ 32" "b < 2 ^ 32" "v + 2 ^ 21 < 2 ^ 32" "b + 2 ^ 21 < 2 ^ 32" "v + 2 ^ 21 + k * 2 ^ 21 < 2 ^ 32" "b + 2 ^ 21 + k * 2 ^ 21 < 2 ^ 32"
    using Suc.prems(3,4) by simp_all
  have al: "is_aligned W32 v section_size = Some True" using is_aligned_eq [of v W32 21] v(1) Suc.prems(1) by (simp add: section_size_def)
  have "round_down 21 b = b" using round_down_plus [OF Suc.prems(2), of 0] by simp
  then have d: "make_descriptor_long L2 b dev = Some (b + (mair_of dev * 4 + 1024 + 1), 0)" using make_descriptor_long_eq [OF v(2), of L2 dev] by (simp add: lsh_def dflag_def)
  have s: "usub (Suc k * 2 ^ 21) (2 ^ 21) = Some (k * 2 ^ 21)" "\<not> Suc k * 2 ^ 21 < page_size" "\<not> Suc k * 2 ^ 21 < 2 ^ 21" by (simp_all add: page_size_def)
  have u: "uadd W32 v (2 ^ 21) = Some (v + 2 ^ 21)" "uadd W32 b (2 ^ 21) = Some (b + 2 ^ 21)" using v(3,4) by simp_all
  have dv: "2 ^ 21 dvd v + 2 ^ 21" "2 ^ 21 dvd b + 2 ^ 21" using Suc.prems(1,2) by simp_all
  have "k \<le> m'" using Suc.prems(5) m by simp
  moreover have i: "v div 2 ^ 21 mod 512 = i" using Suc.prems(6) by simp
  have "(v + 2 ^ 21) div 2 ^ 21 = Suc (v div 2 ^ 21)" by simp
  then have "k = 0 \<or> (v + 2 ^ 21) div 2 ^ 21 mod 512 = i + 1" using i Suc.prems(7) by (simp add: mod_Suc)
  ultimately have ih: "compact_loop_long al n vb dev (a, mem) L2 t m' (v + 2 ^ 21) (b + 2 ^ 21) (k * 2 ^ 21) = Inr (a, section_fill mem t dev (i + 1) (b + 2 ^ 21) k)" for mem
    using Suc.prems(7) by (intro Suc.IH [OF dv v(5,6)]) simp_all
  show ?case
    unfolding m by (subst compact_loop_long.simps) (simp only: s z al d u ih index_long i Let_def unwrap_then_simps run_then_simps prod.case nat.case fst_conv snd_conv if_False not_True_eq_False simp_thms section_fill.simps)
qed

lemma section_fill_get:
  "word_get (section_fill mem t dev i b k) t (j * 2) =
     (if i \<le> j \<and> j < i + k then b + (j - i) * 2 ^ 21 + (mair_of dev * 4 + 1024 + 1) else word_get mem t (j * 2))"
  "word_get (section_fill mem t dev i b k) t (j * 2 + 1) = (if i \<le> j \<and> j < i + k then 0 else word_get mem t (j * 2 + 1))"
proof (induction k arbitrary: mem i b)
  case (Suc k)
  have p: "j * 2 \<noteq> i * 2 + 1" "j * 2 + 1 = i * 2 + 1 \<longleftrightarrow> j = i" "j * 2 + 1 \<noteq> i * 2" "j * 2 = i * 2 \<longleftrightarrow> j = i" for i by presburger+
  have q: "i \<le> j \<and> j < i + Suc k \<longleftrightarrow> j = i \<or> (i + 1 \<le> j \<and> j < i + 1 + k)" for i by auto
  have e: "i + 1 \<le> j \<longrightarrow> 2 ^ 21 + (j - Suc i) * 2 ^ 21 = (j - i) * 2 ^ 21" for i
  proof
    assume "i + 1 \<le> j"
    then have "j - i = Suc (j - Suc i)" by simp
    then show "2 ^ 21 + (j - Suc i) * 2 ^ 21 = (j - i) * 2 ^ 21" by simp
  qed
  { case 1 show ?case unfolding section_fill.simps Suc.IH(1) word_get_set q using e [of i] p(1,4) [of i] by (auto simp del: power_numeral) }
  { case 2 show ?case unfolding section_fill.simps Suc.IH(2) word_get_set q using p(2,3) [of i] by auto }
qed simp_all

lemma section_fill_frame: "i + k \<le> 512 \<Longrightarrow> x \<notin> {t ..< t + 4096} \<Longrightarrow> section_fill mem t dev i b k x = mem x"
  by (induction mem t dev i b k rule: section_fill.induct) (simp_all add: desc_set_frame del: atLeastLessThan_iff)

text \<open>
  \<^bold>\<open>C15\<close> The direct map of whole sections on ARM with the 3/1 split. For a range of sections in the kernel's gigabyte, \<open>direct_map_memory\<close> returns after one round for each section and
  allocates nothing; afterwards every address of the range translates to itself below the virtual base, with the requested memory type, every other address of the
  gigabyte translates as before, and no word outside the level 2 table has changed.
\<close>

theorem arm_direct_map_sections:
  assumes "2 ^ 30 dvd vb" "0 < vb" "vb + 2 ^ 30 \<le> 2 ^ 32" "4096 dvd root" "vb + root < 2 ^ 32" "2 ^ 21 dvd base" "2 ^ 21 dvd sz" "base + sz \<le> 2 ^ 30" "vb + base + sz < 2 ^ 32" "sz div 2 ^ 21 \<le> n"
  shows "\<exists>mem'. direct_map_memory_long al n 3 vb root base sz dev Compact (a, mem) = Inr (a, mem')
    \<and> (\<forall>va. vb \<le> va \<and> va < vb + 2 ^ 30 \<longrightarrow> section_walk mem' (vb + root) va =
         (if base \<le> va - vb \<and> va - vb < base + sz then Some (va - vb, mair_of dev) else section_walk mem (vb + root) va))
    \<and> (\<forall>x. x \<notin> {vb + root ..< vb + root + 4096} \<longrightarrow> mem' x = mem x)"
proof -
  obtain q where q: "vb = 2 ^ 30 * q" using assms(1) by blast
  obtain b where b: "base = 2 ^ 21 * b" using assms(6) by blast
  obtain k where k: "sz = k * 2 ^ 21" using assms(7) by (auto simp: dvd_def mult.commute)
  let ?v = "vb + base" and ?t = "vb + root" and ?mem = "section_fill mem (vb + root) dev b base k"
  have bk: "b + k \<le> 512" using assms(8) by (simp add: b k)
  have v: "?v = 2 ^ 21 * (512 * q + b)" by (simp add: q b)
  have i: "k = 0 \<or> ?v div 2 ^ 21 mod 512 = b" using bk unfolding v by (cases k) simp_all
  have dv: "2 ^ 21 dvd ?v" unfolding v by (rule dvd_triv_left)
  have pg: "4096 dvd ?v" "4096 dvd base" using dv assms(6) by (auto simp: dvd_def)
  have lim: "?v < 2 ^ 32" "base < 2 ^ 32" "?v + k * 2 ^ 21 < 2 ^ 32" "base + k * 2 ^ 21 < 2 ^ 32" using assms(2,8,9) k by simp_all
  have al: "is_aligned W32 ?v page_size = Some True" "is_aligned W32 base page_size = Some True"
    using is_aligned_eq [of ?v W32 12] is_aligned_eq [of base W32 12] pg lim(1,2) by (simp_all add: page_size_def)
  have "k \<le> n" using assms(10) by (simp add: k)
  then have "fill_table_compact_long al n vb dev (a, mem) L2 root ?v base sz = Inr (a, ?mem)"
    using al assms(5) compact_sections [OF dv assms(6) lim(3,4) _ i bk] by (simp add: fill_table_compact_long.simps k)
  then have r: "direct_map_memory_long al n 3 vb root base sz dev Compact (a, mem) = Inr (a, ?mem)"
    using lim(1) by (simp add: direct_map_memory_long_def get_first_table_level_def fill_table_long.simps)
  have w: "section_walk ?mem ?t va = (if base \<le> va - vb \<and> va - vb < base + sz then Some (va - vb, mair_of dev) else section_walk mem ?t va)" if va: "vb \<le> va" "va < vb + 2 ^ 30" for va
  proof -
    obtain z where o: "va = vb + z" "z < 2 ^ 30" using va by (metis add_less_cancel_left le_Suc_ex)
    let ?j = "z div 2 ^ 21" and ?m = "z mod 2 ^ 21"
    have oj: "z = ?j * 2 ^ 21 + ?m" "?m < 2 ^ 21" by (simp_all only: div_mult_mod_eq) simp
    have j: "?j < 512" using o(2) by (simp add: less_mult_imp_div_less)
    have "va = ?m + 2 ^ 21 * (512 * q + ?j)" using oj(1) unfolding o(1) q by simp
    then have "va div 2 ^ 21 = 512 * q + ?j" and vm: "va mod 2 ^ 21 = ?m"
      using quot_rem [OF oj(2)] by (simp_all only:)
    then have vj: "va div 2 ^ 21 mod 512 = ?j" using j by simp
    have inr: "base \<le> va - vb \<and> va - vb < base + sz \<longleftrightarrow> b \<le> ?j \<and> ?j < b + k"
    proof -
      have "base \<le> z \<longleftrightarrow> b \<le> ?j" unfolding b by (simp add: less_eq_div_iff_mult_less_eq mult.commute)
      moreover have "z < base + sz \<longleftrightarrow> ?j < b + k" unfolding b k by (simp add: div_less_iff_less_mult algebra_simps)
      ultimately show ?thesis by (simp add: o(1))
    qed
    show ?thesis
    proof (cases "b \<le> ?j \<and> ?j < b + k")
      case True
      let ?d = "?j * 2 ^ 21 + (mair_of dev * 4 + 1024 + 1)"
      have "base + (?j - b) * 2 ^ 21 = ?j * 2 ^ 21" using True unfolding b by (simp add: diff_mult_distrib)
      then have g: "word_get ?mem ?t (?j * 2) = ?d" "word_get ?mem ?t (?j * 2 + 1) = 0" using section_fill_get [of mem ?t dev b base k ?j] True by simp_all
      have "4096 dvd ?j * 2 ^ 21" by (rule dvd_mult) simp
      note f = descriptor_fields [OF this, of 1 dev]
      have "mair_of dev * 4 + 1024 + 1 < 2 ^ 21" by (simp add: mair_of_def)
      then have "round_down 21 ?d = ?j * 2 ^ 21" by (intro round_down_plus) simp_all
      then have "section_walk ?mem ?t va = Some (?j * 2 ^ 21 + ?m, mair_of dev)"
        unfolding section_walk_def Let_def index_long vj vm g using f by simp
      then show ?thesis using True inr oj(1) by (simp add: o(1))
    next
      case False
      then have g: "word_get ?mem ?t (?j * 2) = word_get mem ?t (?j * 2)" "word_get ?mem ?t (?j * 2 + 1) = word_get mem ?t (?j * 2 + 1)"
        unfolding section_fill_get by (simp_all only: if_False)
      show ?thesis unfolding inr section_walk_def Let_def index_long vj vm g using False by (simp only: if_False)
    qed
  qed
  have "\<forall>x. x \<notin> {?t ..< ?t + 4096} \<longrightarrow> ?mem x = mem x" using section_fill_frame [OF bk] by blast
  with r w show ?thesis by blast
qed

theorem arm_direct_map_sections_witness:
  "\<exists>mem'. direct_map_memory_long (\<lambda>a _. None) 32 3 0xc0000000 0x80000 0x400000 0x4000000 False Compact ((), \<lambda>_. 0) = Inr ((), mem')
    \<and> section_walk mem' 0xc0080000 0xc1234567 = Some (0x1234567, 0) \<and> section_walk mem' 0xc0080000 0xc8000000 = None"
proof -
  have d: "2 ^ 30 dvd (0xc0000000 :: nat)" "2 ^ 21 dvd (0x400000 :: nat)" "2 ^ 21 dvd (0x4000000 :: nat)" by simp_all
  have z: "section_walk (\<lambda>_. 0) t va = None" for t va by (simp add: section_walk_def word_get_def accessible_def)
  obtain mem' where m: "direct_map_memory_long (\<lambda>a _. None) 32 3 0xc0000000 0x80000 0x400000 0x4000000 False Compact ((), \<lambda>_. 0) = Inr ((), mem')"
      "\<forall>va. 0xc0000000 \<le> va \<and> va < 0xc0000000 + 2 ^ 30 \<longrightarrow> section_walk mem' (0xc0000000 + 0x80000) va =
         (if 0x400000 \<le> va - 0xc0000000 \<and> va - 0xc0000000 < 0x400000 + 0x4000000 then Some (va - 0xc0000000, mair_of False) else section_walk (\<lambda>_. 0) (0xc0000000 + 0x80000) va)"
    using arm_direct_map_sections [OF d(1) _ _ _ _ d(2,3), of "0x80000" 32 "\<lambda>a _. None" False "()" "\<lambda>_. 0"] by auto
  from m(2) have "section_walk mem' (0xc0000000 + 0x80000) 0xc1234567 = Some (0xc1234567 - 0xc0000000, mair_of False)"
      "section_walk mem' (0xc0000000 + 0x80000) 0xc8000000 = None" unfolding z by simp_all
  with m(1) show ?thesis by (simp add: mair_of_def)
qed

end
