(* ===== verification/Debug_Output.thy ===== *)
theory Debug_Output
  imports Page_Tables Dtb_Scanners
begin

text \<open>
  Debug output: the write buffer of \<open>src/support/print.rs\<close>, \<open>debug_print\<close> of \<open>src/arch/arm_common/debug.rs\<close> and the mini UART driver behind it. What
  the formatting of the arguments produces is a parameter: the pieces it writes, and whether it succeeds.
\<close>

section \<open>The write buffer\<close>

record write_buffer =
  wb_buf :: "byte list"
  wb_offset :: usize

definition write_buffer_new :: "byte list \<Rightarrow> write_buffer" where
  "write_buffer_new buf = \<lparr>wb_buf = buf, wb_offset = 0\<rparr>"

definition as_bytes :: "write_buffer \<Rightarrow> byte list option" where
  "as_bytes b = (if wb_offset b \<le> length (wb_buf b) then Some (take (wb_offset b) (wb_buf b)) else None)"

definition write_str :: "write_buffer \<Rightarrow> byte list \<Rightarrow> write_buffer option" where
  "write_str b bytes = do {
     dest_len \<leftarrow> usub (length (wb_buf b)) (wb_offset b);
     let copy_len = min (length bytes) dest_len;
     Some \<lparr>wb_buf = take (wb_offset b) (wb_buf b) @ take copy_len bytes @ drop (wb_offset b + copy_len) (wb_buf b),
           wb_offset = wb_offset b + copy_len\<rparr> }"

fun write_all :: "write_buffer \<Rightarrow> byte list list \<Rightarrow> write_buffer option" where
  "write_all b [] = Some b"
| "write_all b (s # ss) = do { b \<leftarrow> write_str b s; write_all b ss }"

section \<open>The mini UART\<close>

text \<open>
  The driver's device: the virtual base of its registers, the history of the accesses to them and what a read returns after a given
  history, which is up to the device. A byte that is written before the transmitter is ready would be lost, so that the order of reads and writes matters. The driver's
  lock is held during \<open>put_bytes\<close>, so that no other core accesses the device.
\<close>

definition AUX_MU_IO_REG :: usize where "AUX_MU_IO_REG = 0x40"
definition AUX_MU_LSR_REG :: usize where "AUX_MU_LSR_REG = 0x54"
definition PRINT_BUFFER_SIZE :: usize where "PRINT_BUFFER_SIZE = 256"

datatype reg_access = Reg_Read usize "32 word" | Reg_Write usize "32 word"

record mini_uart =
  mu_base :: usize
  mu_input :: "reg_access list \<Rightarrow> usize \<Rightarrow> 32 word"
  mu_history :: "reg_access list"

definition reg_get :: "width \<Rightarrow> mini_uart \<Rightarrow> usize \<Rightarrow> (32 word \<times> mini_uart) option" where
  "reg_get w m reg = do {
     a \<leftarrow> uadd w (mu_base m) reg;
     let v = mu_input m (mu_history m) a;
     Some (v, m\<lparr>mu_history := mu_history m @ [Reg_Read a v]\<rparr>) }"

definition reg_put :: "width \<Rightarrow> mini_uart \<Rightarrow> usize \<Rightarrow> 32 word \<Rightarrow> mini_uart option" where
  "reg_put w m reg val = do {
     a \<leftarrow> uadd w (mu_base m) reg;
     Some (m\<lparr>mu_history := mu_history m @ [Reg_Write a val]\<rparr>) }"

fun wait_ready :: "nat \<Rightarrow> width \<Rightarrow> mini_uart \<Rightarrow> stop + mini_uart" where
  "wait_ready 0 w m = Inl Out_Of_Fuel"
| "wait_ready (Suc n) w m =
     unwrap_then (reg_get w m AUX_MU_LSR_REG) (\<lambda>(c, m). if and c 0x20 \<noteq> 0 then Inr m else wait_ready n w m)"

fun put_bytes :: "nat \<Rightarrow> width \<Rightarrow> mini_uart \<Rightarrow> byte list \<Rightarrow> stop + mini_uart" where
  "put_bytes n w m [] = Inr m"
| "put_bytes n w m (c # s) =
     run_then (wait_ready n w m) (\<lambda>m.
     unwrap_then (reg_put w m AUX_MU_IO_REG (ucast c)) (\<lambda>m. put_bytes n w m s))"

definition put_string :: "nat \<Rightarrow> width \<Rightarrow> mini_uart \<Rightarrow> string \<Rightarrow> stop + mini_uart" where
  "put_string n w m s = put_bytes n w m (str_bytes s)"

text \<open>\<open>args\<close> holds the pieces that \<open>write_fmt\<close> hands to \<open>write_str\<close> and whether it returns \<open>Ok\<close>.\<close>

definition debug_print :: "nat \<Rightarrow> width \<Rightarrow> mini_uart \<Rightarrow> byte list list \<times> bool \<Rightarrow> stop + mini_uart" where
  "debug_print n w m args =
     unwrap_then (write_all (write_buffer_new (replicate PRINT_BUFFER_SIZE 0)) (fst args)) (\<lambda>stream.
       if snd args then unwrap_then (as_bytes stream) (\<lambda>bytes. put_bytes n w m bytes)
       else put_string n w m (''Error: debug_print Failed to format string.'' @ [CHR 0x0A]))"

section \<open>What is written\<close>

text \<open>The buffer's contract: what has been written is a prefix of the buffer.\<close>

definition written :: "write_buffer \<Rightarrow> byte list" where
  "written b = take (wb_offset b) (wb_buf b)"

lemma write_str_ok:
  assumes "wb_offset b \<le> length (wb_buf b)"
  shows "\<exists>b'. write_str b s = Some b' \<and> written b' = take (length (wb_buf b)) (written b @ s)
    \<and> length (wb_buf b') = length (wb_buf b) \<and> wb_offset b' \<le> length (wb_buf b')"
  using assms by (auto simp: write_str_def usub_def written_def min_def Let_def)

lemma write_all_ok:
  assumes "wb_offset b \<le> length (wb_buf b)" "written b = take (length (wb_buf b)) xs"
  shows "\<exists>b'. write_all b ss = Some b' \<and> written b' = take (length (wb_buf b)) (xs @ concat ss) \<and> wb_offset b' \<le> length (wb_buf b')"
  using assms
proof (induction ss arbitrary: b xs)
  case (Cons s ss)
  obtain b1 where b1: "write_str b s = Some b1" "written b1 = take (length (wb_buf b)) (written b @ s)" "length (wb_buf b1) = length (wb_buf b)" "wb_offset b1 \<le> length (wb_buf b1)"
    using write_str_ok [OF Cons.prems(1)] by blast
  have "written b1 = take (length (wb_buf b1)) (xs @ s)" unfolding b1(2,3) Cons.prems(2) by (simp add: min_def take_append)
  from Cons.IH [OF b1(4) this] b1(1,3) show ?case by auto
qed auto

text \<open>
  Polling: after a history \<open>h\<close> and \<open>d\<close> reads of the line status register at \<open>a\<close>. The transmitter becomes ready if, whatever the history,
  polling reaches a read that reports it.
\<close>

primrec poll :: "(reg_access list \<Rightarrow> usize \<Rightarrow> 32 word) \<Rightarrow> usize \<Rightarrow> reg_access list \<Rightarrow> nat \<Rightarrow> reg_access list" where
  "poll inp a h 0 = h"
| "poll inp a h (Suc d) = poll inp a (h @ [Reg_Read a (inp h a)]) d"

definition ready_again :: "width \<Rightarrow> mini_uart \<Rightarrow> bool" where
  "ready_again w m \<longleftrightarrow> mu_base m + AUX_MU_LSR_REG < usize_lim w
     \<and> (\<forall>h. \<exists>d. let a = mu_base m + AUX_MU_LSR_REG in and (mu_input m (poll (mu_input m) a h d) a) 0x20 \<noteq> 0)"

text \<open>
  The accesses that send bytes: for each byte reads of the line status register \<open>lsr\<close> that report a busy transmitter, one that reports a ready one, and directly after it the
  write of the byte to the data register \<open>io\<close>.
\<close>

inductive sends :: "usize \<Rightarrow> usize \<Rightarrow> byte list \<Rightarrow> reg_access list \<Rightarrow> bool" for lsr io where
  sends_done: "sends lsr io [] []"
| sends_busy: "and v 0x20 = 0 \<Longrightarrow> sends lsr io (c # s) es \<Longrightarrow> sends lsr io (c # s) (Reg_Read lsr v # es)"
| sends_byte: "and v 0x20 \<noteq> 0 \<Longrightarrow> sends lsr io s es \<Longrightarrow> sends lsr io (c # s) (Reg_Read lsr v # Reg_Write io (ucast c) # es)"

lemma wait_ready_ok:
  assumes "mu_base m + AUX_MU_LSR_REG < usize_lim w" "a = mu_base m + AUX_MU_LSR_REG" "and (mu_input m (poll (mu_input m) a (mu_history m) d) a) 0x20 \<noteq> 0"
  shows "\<exists>es. (\<forall>n>d. wait_ready n w m = Inr (m\<lparr>mu_history := mu_history m @ es\<rparr>))
    \<and> (\<forall>io c s fs. sends a io s fs \<longrightarrow> sends a io (c # s) (es @ Reg_Write io (ucast c) # fs))"
  using assms
proof (induction d arbitrary: m)
  case 0
  let ?e = "Reg_Read a (mu_input m (mu_history m) a)"
  have "wait_ready n w m = Inr (m\<lparr>mu_history := mu_history m @ [?e]\<rparr>)" if "n > 0" for n
    using 0 that by (cases n) (simp_all add: reg_get_def Let_def)
  moreover have "and (mu_input m (mu_history m) a) 0x20 \<noteq> 0" using "0.prems"(3) by simp
  ultimately show ?case by (intro exI [of _ "[?e]"]) (simp add: sends_byte)
next
  case (Suc d)
  let ?v = "mu_input m (mu_history m) a" and ?m = "m\<lparr>mu_history := mu_history m @ [Reg_Read a (mu_input m (mu_history m) a)]\<rparr>"
  have get: "reg_get w m AUX_MU_LSR_REG = Some (?v, ?m)" using Suc.prems(1,2) by (simp add: reg_get_def Let_def)
  show ?case
  proof (cases "and ?v 0x20 = 0")
    case True
    obtain es where es: "\<forall>n>d. wait_ready n w ?m = Inr (?m\<lparr>mu_history := mu_history ?m @ es\<rparr>)"
        "\<forall>io c s fs. sends a io s fs \<longrightarrow> sends a io (c # s) (es @ Reg_Write io (ucast c) # fs)"
      using Suc.IH [of ?m] Suc.prems by auto
    have "wait_ready n w m = Inr (m\<lparr>mu_history := mu_history m @ Reg_Read a ?v # es\<rparr>)" if "n > Suc d" for n
      using that es(1) True get by (cases n) simp_all
    with es(2) True show ?thesis by (intro exI [of _ "Reg_Read a ?v # es"]) (simp add: sends_busy)
  next
    case False
    have "wait_ready n w m = Inr ?m" if "n > Suc d" for n using that False get by (cases n) simp_all
    with False show ?thesis by (intro exI [of _ "[Reg_Read a ?v]"]) (simp add: sends_byte)
  qed
qed

lemma put_bytes_ok:
  assumes "ready_again w m"
  shows "\<exists>k es. sends (mu_base m + AUX_MU_LSR_REG) (mu_base m + AUX_MU_IO_REG) s es
    \<and> (\<forall>n>k. put_bytes n w m s = Inr (m\<lparr>mu_history := mu_history m @ es\<rparr>))"
  using assms
proof (induction s arbitrary: m)
  case Nil
  show ?case by (intro exI [of _ 0] exI [of _ "[]"]) (simp add: sends_done)
next
  case (Cons c s)
  let ?a = "mu_base m + AUX_MU_LSR_REG" and ?io = "mu_base m + AUX_MU_IO_REG"
  have b: "?a < usize_lim w" "?io < usize_lim w"
    using Cons.prems by (simp_all add: ready_again_def AUX_MU_LSR_REG_def AUX_MU_IO_REG_def)
  obtain d where d: "and (mu_input m (poll (mu_input m) ?a (mu_history m) d) ?a) 0x20 \<noteq> 0" using Cons.prems by (auto simp: ready_again_def Let_def)
  obtain es where es: "\<forall>n>d. wait_ready n w m = Inr (m\<lparr>mu_history := mu_history m @ es\<rparr>)"
      "\<forall>io c s fs. sends ?a io s fs \<longrightarrow> sends ?a io (c # s) (es @ Reg_Write io (ucast c) # fs)"
    using wait_ready_ok [OF b(1) refl d] by blast
  let ?m = "m\<lparr>mu_history := mu_history m @ es @ [Reg_Write ?io (ucast c)]\<rparr>"
  have "ready_again w ?m" using Cons.prems by (simp add: ready_again_def)
  from Cons.IH [OF this] obtain k fs where k: "sends ?a ?io s fs" "\<forall>n>k. put_bytes n w ?m s = Inr (?m\<lparr>mu_history := mu_history ?m @ fs\<rparr>)" by auto
  have "put_bytes n w m (c # s) = Inr (m\<lparr>mu_history := mu_history m @ es @ Reg_Write ?io (ucast c) # fs\<rparr>)" if "n > max k d" for n
    using that es(1) k(2) b(2) by (simp add: reg_put_def)
  with es(2) k(1) show ?case by (intro exI [of _ "max k d"] exI [of _ "es @ Reg_Write ?io (ucast c) # fs"]) simp
qed

section \<open>Properties\<close>

text \<open>
  \<^bold>\<open>C32\<close> \<open>debug_print\<close> returns and sends the message. If the transmitter becomes ready whenever it is polled for long enough, then for any number of polls above a bound it
  ends, and its accesses to the device send, in order, the first 256 bytes of the formatted message, or the error message if the
  formatting fails: for each byte it reads the line status register until the transmitter is ready and directly after that writes the byte to the data
  register. There is no other access.
\<close>

theorem debug_print_outputs:
  assumes "ready_again w m"
  shows "\<exists>k es. sends (mu_base m + AUX_MU_LSR_REG) (mu_base m + AUX_MU_IO_REG)
      (if ok then take 256 (concat parts) else str_bytes (''Error: debug_print Failed to format string.'' @ [CHR 0x0A])) es
    \<and> (\<forall>n>k. debug_print n w m (parts, ok) = Inr (m\<lparr>mu_history := mu_history m @ es\<rparr>))"
proof -
  let ?b = "write_buffer_new (replicate PRINT_BUFFER_SIZE 0)"
  obtain b where b: "write_all ?b parts = Some b" "written b = take 256 (concat parts)" "wb_offset b \<le> length (wb_buf b)"
    using write_all_ok [of ?b "[]" parts] by (auto simp: write_buffer_new_def written_def PRINT_BUFFER_SIZE_def)
  have "debug_print n w m (parts, ok) =
      put_bytes n w m (if ok then take 256 (concat parts) else str_bytes (''Error: debug_print Failed to format string.'' @ [CHR 0x0A]))" for n
    using b by (simp add: debug_print_def as_bytes_def written_def put_string_def)
  then show ?thesis using put_bytes_ok [OF assms] by presburger
qed

text \<open>A device that is ready at the first poll of each byte after having been busy for one poll.\<close>

definition busy_uart :: mini_uart where
  "busy_uart = \<lparr>mu_base = 0x1000, mu_input = (\<lambda>h a. case rev h of Reg_Read _ _ # _ \<Rightarrow> 0x60 | _ \<Rightarrow> 0), mu_history = []\<rparr>"

lemma busy_uart_ready: "ready_again W32 busy_uart"
proof -
  have "and (mu_input busy_uart (poll (mu_input busy_uart) a h 1) a) 0x20 \<noteq> 0" for a h by (simp add: busy_uart_def)
  then show ?thesis unfolding ready_again_def Let_def by (intro conjI allI exI [of _ 1]) (simp_all add: busy_uart_def AUX_MU_LSR_REG_def)
qed

theorem debug_print_outputs_witness:
  "\<exists>n m. debug_print n W32 busy_uart ([[72], [105, 33]], True) = Inr m \<and> sends 0x1054 0x1040 [72, 105, 33] (mu_history m)"
proof -
  obtain k es where "sends 0x1054 0x1040 [72, 105, 33] es"
      "\<forall>n>k. debug_print n W32 busy_uart ([[72], [105, 33]], True) = Inr (busy_uart\<lparr>mu_history := mu_history busy_uart @ es\<rparr>)"
    using debug_print_outputs [OF busy_uart_ready, of True "[[72], [105, 33]]"]
    by (auto simp: busy_uart_def AUX_MU_LSR_REG_def AUX_MU_IO_REG_def)
  then have "debug_print (Suc k) W32 busy_uart ([[72], [105, 33]], True) = Inr (busy_uart\<lparr>mu_history := es\<rparr>)" "sends 0x1054 0x1040 [72, 105, 33] es"
    by (simp_all add: busy_uart_def)
  then show ?thesis by fastforce
qed

end
