(* ===== verification/Spec2Isabelle.thy ===== *)
theory Spec2Isabelle
  imports Slab_Caches Spin_Lock Start_Up Arm_Props Debug_Output
begin

text \<open>
  Verification of the Propeller kernel, a small kernel in Rust for ARM (with the large physical address extension)
  and AArch64.

  \<^bold>\<open>The program.\<close> \<open>pk_init\<close> (\<open>src/main.rs\<close>) runs on the boot core. It initializes the architecture (\<open>src/arch\<close>): the kernel
  configuration left by the start code, the device tree blob, the core and memory configurations read from it, and the direct map
  of the available memory. It then initializes the bootstrap task (\<open>src/task\<close>), the zone allocators (\<open>src/mm\<close>) and
  the interrupt stacks of the secondary cores. Below these lie the page allocators (a buffered allocator for boot, a buddy
  allocator for each zone), the slab allocator for kernel objects, and the support library: bits, bitmaps, ranges, range sets, hashing,
  the device tree reader and the spin lock.

  \<^bold>\<open>Conventions.\<close> A \<open>usize\<close> is a natural number and \<open>width\<close> (\<open>W32\<close>, \<open>W64\<close>) the target; \<open>uadd\<close>, \<open>usub\<close>, \<open>umul\<close>, \<open>ushl\<close>
  and \<open>ushr\<close> of \<open>Kernel_Prelude\<close> are the checked operations of a build with overflow checks and \<open>None\<close> is a panic; operations that wrap in the
  source wrap in the model. An operation that may fail without a panic returns an option or a sum inside of it. Structs are records, enums
  datatypes; statics and memory are passed explicitly. Where a loop may not end, it has fuel, and an outer \<open>None\<close> or the value
  \<open>Out_Of_Fuel\<close> says that it has not ended.

  \<^bold>\<open>Theories.\<close>
  \<^item> \<open>Kernel_Prelude\<close>: checked arithmetic, slices, bits of natural numbers, and the collections of simplification rules.
  \<^item> \<open>Bits\<close> (\<open>support/bits.rs\<close>, \<open>arch/common/bits\<close>): logarithms, population counts, interleaving, alignment, checksums,
    each trick equal to its specification on both widths.
  \<^item> \<open>Bitmap\<close> (\<open>support/bits.rs\<close>): bitmaps as sets of indices; locale \<open>index_set\<close>, interpretation \<open>bm\<close>.
  \<^item> \<open>Ranges\<close>, \<open>Range_Sets\<close> (\<open>support/range.rs\<close>, \<open>support/range_set.rs\<close>): ranges as sets of addresses; the set stays valid, sorted and
    disjoint; \<open>trim_ranges\<close> ends exactly on sets without overlap. Locale \<open>address_pool\<close>, interpretations \<open>rs\<close> and, with zones, \<open>rc\<close>.
  \<^item> \<open>Hashing\<close>, \<open>Cores\<close> (\<open>support/hash.rs\<close>, \<open>support/hash_map.rs\<close>, \<open>arch/common/cpu.rs\<close>): the open-addressing map as a partial map (locale
    \<open>bounded_map\<close>, interpretation \<open>hm\<close>) and the core table over it.
  \<^item> \<open>Page_Source\<close>, \<open>Buffered_Allocator\<close> (\<open>arch/common/memory.rs\<close>): the trait \<open>PageAllocator\<close> as the locale \<open>page_source\<close>, whose runs return disjoint
    blocks, and the boot allocator (interpretation \<open>bp\<close>).
  \<^item> \<open>Buddy\<close>, \<open>Buddy_Runs\<close> (\<open>mm/page_allocator.rs\<close>): the buddy allocator with its checksummed circular lists in memory; the lists are abstracted
    to lists of blocks. Interpretations \<open>bu\<close> and \<open>bl\<close> of \<open>page_source\<close> and \<open>linear_pages\<close>.
  \<^item> \<open>Slabs\<close>, \<open>Slab_Lists\<close>, \<open>Slab_Runs\<close>, \<open>Slab_Caches\<close> (\<open>mm/slab_allocator.rs\<close>): the slab layer over any \<open>linear_pages\<close> allocator, its
    invariant and safety, and the bundles and core caches above it.
  \<^item> \<open>Dtb\<close>, \<open>Dtb_Runs\<close> (\<open>support/dtb.rs\<close>): the reader of flattened device trees; an encoder of trees and the proof that a scan is their
    traversal; on arbitrary bytes, that a scan ends and panics only where its scanner does, and where the reads panic.
  \<^item> \<open>Spin_Lock\<close> (\<open>sync/spin_lock.rs\<close>): lock, try-lock and the dropped guard as step relations of any number of cores after the assembly of
    both architectures, with the exclusive monitor, \<open>wfe\<close> and events; mutual exclusion in every interleaving, and no lost wake-up and no deadlock in every fair execution.
  \<^item> \<open>Page_Tables\<close>, \<open>Page_Walks\<close>, \<open>Page_Maps\<close>, \<open>Page_Props\<close> (\<open>arch/aarch64/mm.rs\<close>): the table builder, the translation by the hardware walk, and
    their agreement; locale \<open>table_source\<close> (a \<open>page_source\<close> with a count of free pages), interpretation \<open>bt\<close> on the boot allocator.
  \<^item> \<open>Arm_Tables\<close>, \<open>Arm_Props\<close> (\<open>arch/arm/mm.rs\<close>): the long-descriptor tables, their descriptors and the direct map of sections.
  \<^item> \<open>Tasks\<close>, \<open>Task_Runs\<close> (\<open>task/mod.rs\<close>, \<open>arch/arm/task.rs\<close>, \<open>arch/aarch64/task.rs\<close>): tasks and thread-local mappings; locale \<open>page_mapper\<close>,
    a refinement of a stack of pages, interpretations \<open>am\<close> and \<open>lm\<close> on the contexts, \<open>tx\<close> and \<open>tl\<close> on the tasks over them.
  \<^item> \<open>Memory_Config\<close> (\<open>arch/common/memory.rs\<close>, \<open>RangeZoneTagger\<close>): zones and range handlers; locale \<open>range_handler\<close>, interpretations \<open>rx\<close> and
    \<open>ra\<close>.
  \<^item> \<open>Zones\<close>, \<open>Zone_Runs\<close> (\<open>mm/mod.rs\<close>): the zone allocators; each buddy allocator covers exactly the pages of its zone.
  \<^item> \<open>Dtb_Scanners\<close>, \<open>Scanner_Runs\<close>, \<open>Core_Scans\<close>, \<open>Core_Runs\<close> (\<open>arch/arm_common/dtb_memory.rs\<close>, \<open>dtb_cpu.rs\<close>): the two scanners, and the memory layout and the cores read from the
    bytes of an encoded tree.
  \<^item> \<open>Boot\<close>, \<open>Boot_Runs\<close> (\<open>arch/aarch64/mod.rs\<close>, \<open>arch/arm/mod.rs\<close>, \<open>arch/common/device_tree.rs\<close>, \<open>main.rs\<close>): start-up of both architectures up to and
    including \<open>pk_init\<close>; the available memory, the direct map of all of it and the interrupt stacks.
  \<^item> \<open>Start_Up\<close>: the pieces put together. The core configuration of both architectures from the bytes of the device tree, and \<open>init\<close> on AArch64 from those bytes and the kernel configuration
    to the cores, the available memory and the page tables.
  \<^item> \<open>Debug_Output\<close> (\<open>support/print.rs\<close>, \<open>arch/arm_common/debug.rs\<close>, \<open>bcm2835_mini_uart_debug.rs\<close>): the write buffer and the mini UART driver over a device that answers
    after the history of all accesses; what formatting produces is a parameter.

  \<^bold>\<open>Memory.\<close> The model has several views of the same memory, each used by the code that writes it: words (page tables, the kernel configuration, the stack list), the
  bytes of the blob, which nothing writes, the nodes of the buddy lists, and the typed heap of slab nodes and object links. That the views do
  not overlap is part of the layout of the kernel image and of the allocators' contracts, not of the model.

  \<^bold>\<open>Fuel.\<close> \<open>trim_overlapping_ranges\<close> ends within one round more than the set has ranges (at most 64) or never. The loop of \<open>fill_table_compact\<close> ends within
  514 rounds in each table for the ranges of the properties (a table has 512 entries, and a partial one may remain at either end) and on others never; the
  properties say which. The poll of the mini UART ends once the device is ready; its property assumes that polling for long enough finds it ready. All other loops are total functions.

  \<^bold>\<open>Not modelled.\<close> The ordering of memory accesses between cores (the accesses of the spin lock are sequentially consistent). Assembly other than the spin lock's and what it does to registers (the start code, interrupt masking, the current-task register, halting, the translation caches), the formatting of
  debug messages, the in-kernel tests, and the exception handlers, which are empty. The start-up of the secondary cores is not in the
  source beyond their stacks, and the scheduler only halts.

  The claims are numbered in the order of their importance; each stands in the theory of its component.
\<close>

end
